(* ===== verification/Prelude.thy ===== *)
theory Prelude
  imports Main "HOL-Library.Word"
begin

text \<open>
  Shared vocabulary of the development: the abnormal outcomes of the C code, results that
  carry them, the C allocator as an explicit resource, \<open>size_t\<close> arithmetic on natural
  numbers with its wrap-around written out, byte buffers and C strings.  The theories of
  the components import this one.
\<close>

unbundle bit_operations_syntax

section \<open>Results\<close>

text \<open>
  A C function either returns or stops the program.  The ways the code can stop are a
  datatype; \<open>Hang\<close> is a loop that provably never leaves, \<open>Exit1\<close> is the \<open>exit(1)\<close> behind
  the \<open>FATAL\<close> macro of \<open>logging.h\<close>, \<open>BadCast\<close> the conversion of a floating-point number outside
  the range of the target type, \<open>Uninit\<close> the use of a pointer variable that was never assigned,
  \<open>BadShift\<close> a shift that leaves the range of its type.
\<close>

datatype fault =
    NullDeref
  | NullCall
  | UseAfterFree
  | DoubleFree
  | OutOfBounds
  | DivByZero
  | Hang
  | Exit1
  | BadCast
  | Uninit
  | BadShift

type_synonym 'a res = "fault + 'a"

definition rbind :: "'a res \<Rightarrow> ('a \<Rightarrow> 'b res) \<Rightarrow> 'b res" where
  "rbind r f = (case r of Inl e \<Rightarrow> Inl e | Inr x \<Rightarrow> f x)"

definition deref :: "'a option \<Rightarrow> 'a res" where
  "deref p = (case p of None \<Rightarrow> Inl NullDeref | Some x \<Rightarrow> Inr x)"

section \<open>The C allocator\<close>

text \<open>
  With \<open>ALLOCATOR_TYPE\<close> 0 the macros \<open>am_malloc\<close> and \<open>am_calloc\<close> of \<open>alloc_manager.h\<close> are
  the C library's \<open>malloc\<close> and \<open>calloc\<close>: each call either fails or returns memory that is
  not in use.  The record counts the calls; \<open>alloc_fails n\<close> says whether call number \<open>n\<close>
  fails, and the address returned by call \<open>n\<close> is \<open>n\<close>, so addresses are never shared.
  Components that own further memory extend the record.
\<close>

type_synonym addr = nat

record mem =
  allocs :: nat
  alloc_fails :: "nat \<Rightarrow> bool"

definition am_malloc :: "'z mem_scheme \<Rightarrow> addr option \<times> 'z mem_scheme" where
  "am_malloc m =
     ((if alloc_fails m (allocs m) then None else Some (allocs m)),
      m\<lparr>allocs := Suc (allocs m)\<rparr>)"

definition am_calloc :: "'z mem_scheme \<Rightarrow> nat \<Rightarrow> nat \<Rightarrow> addr option \<times> 'z mem_scheme" where
  "am_calloc m count sz =
     (if 2 ^ 64 \<le> count * sz then (None, m\<lparr>allocs := Suc (allocs m)\<rparr>) else am_malloc m)"

definition never_fails :: "'z mem_scheme \<Rightarrow> bool" where
  "never_fails m \<longleftrightarrow> alloc_fails m = (\<lambda>_. False)"

section \<open>Arithmetic of size_t\<close>

definition usize :: "nat \<Rightarrow> nat" where
  "usize n = n mod 2 ^ 64"

definition usize_dec :: "nat \<Rightarrow> nat" where
  "usize_dec n = (n + (2 ^ 64 - 1)) mod 2 ^ 64"

definition usize_sub :: "nat \<Rightarrow> nat \<Rightarrow> nat" where
  "usize_sub m n = (m + (2 ^ 64 - n)) mod 2 ^ 64"

text \<open>The remainder operator on \<open>size_t\<close> traps on a zero divisor.\<close>

definition umod :: "nat \<Rightarrow> nat \<Rightarrow> nat res" where
  "umod a b = (if b = 0 then Inl DivByZero else Inr (a mod b))"

text \<open>Reading element \<open>i\<close> of an array.\<close>

definition elem :: "'a list \<Rightarrow> nat \<Rightarrow> 'a res" where
  "elem xs i = (if i < length xs then Inr (xs ! i) else Inl OutOfBounds)"

text \<open>The complement of a \<open>size_t\<close>, and the position above its highest set bit.\<close>

definition usize_not :: "nat \<Rightarrow> nat" where
  "usize_not n = 2 ^ 64 - 1 - n"

fun bit_length :: "nat \<Rightarrow> nat" where
  "bit_length n = (if n = 0 then 0 else Suc (bit_length (n div 2)))"

declare bit_length.simps [simp del]

section \<open>Byte buffers and C strings\<close>

type_synonym byte = "8 word"
type_synonym bytes = "byte list"

definition byte_at :: "bytes \<Rightarrow> nat \<Rightarrow> byte res" where
  "byte_at k i = (if i < length k then Inr (k ! i) else Inl OutOfBounds)"

text \<open>The C string that starts a buffer; a buffer without a NUL is read past its end.\<close>

fun cstr :: "bytes \<Rightarrow> bytes res" where
  "cstr [] = Inl OutOfBounds"
| "cstr (b # bs) = (if b = 0 then Inr [] else rbind (cstr bs) (\<lambda>s. Inr (b # s)))"

definition le64 :: "64 word \<Rightarrow> bytes" where
  "le64 w = map (\<lambda>i. ucast (drop_bit (8 * i) w)) [0..<8]"

section \<open>Shared lemmas\<close>

named_theorems res_simps \<open>evaluation of results\<close>
named_theorems mem_simps \<open>the allocator\<close>

lemma rbind_Inl [simp, res_simps]: "rbind (Inl e) f = Inl e"
  by (simp add: rbind_def)

lemma rbind_Inr [simp, res_simps]: "rbind (Inr x) f = f x"
  by (simp add: rbind_def)

lemma rbind_eq_Inr [simp]: "rbind r f = Inr y \<longleftrightarrow> (\<exists>x. r = Inr x \<and> f x = Inr y)"
  by (cases r) auto

lemma rbind_assoc: "rbind (rbind r f) g = rbind r (\<lambda>x. rbind (f x) g)"
  by (cases r) auto

lemma rbind_cong [fundef_cong]:
  assumes "r = r'" and "\<And>x. r' = Inr x \<Longrightarrow> f x = f' x"
  shows "rbind r f = rbind r' f'"
  using assms by (cases r') auto

lemma deref_simps [simp, res_simps]:
  "deref None = Inl NullDeref" "deref (Some x) = Inr x"
  by (simp_all add: deref_def)

lemma am_malloc_ok [mem_simps]:
  "never_fails m \<Longrightarrow> am_malloc m = (Some (allocs m), m\<lparr>allocs := Suc (allocs m)\<rparr>)"
  by (simp add: am_malloc_def never_fails_def)

lemma never_fails_upd [simp]: "never_fails (m\<lparr>allocs := n\<rparr>) = never_fails m"
  by (simp add: never_fails_def)

lemma am_calloc_ok [mem_simps]:
  "never_fails m \<Longrightarrow> count * sz < 2 ^ 64 \<Longrightarrow>
     am_calloc m count sz = (Some (allocs m), m\<lparr>allocs := Suc (allocs m)\<rparr>)"
  by (simp add: am_calloc_def am_malloc_ok)

lemma elem_ok [simp]: "i < length xs \<Longrightarrow> elem xs i = Inr (xs ! i)"
  by (simp add: elem_def)

lemma umod_pos [simp]: "0 < b \<Longrightarrow> umod a b = Inr (a mod b)"
  by (simp add: umod_def)

lemma usize_id [simp]: "n < 2 ^ 64 \<Longrightarrow> usize n = n"
  by (simp add: usize_def)

lemma usize_dec_pos: "0 < n \<Longrightarrow> n < 2 ^ 64 \<Longrightarrow> usize_dec n = n - 1"
proof -
  assume "0 < n" "n < 2 ^ 64"
  then have "n + (2 ^ 64 - 1) = (n - 1) + 2 ^ 64" by simp
  then have "usize_dec n = (n - 1) mod 2 ^ 64"
    unfolding usize_dec_def by (metis mod_add_self2)
  with \<open>n < 2 ^ 64\<close> show ?thesis by simp
qed

lemma usize_sub_le: "n \<le> m \<Longrightarrow> m < 2 ^ 64 \<Longrightarrow> usize_sub m n = m - n"
proof -
  assume "n \<le> m" "m < 2 ^ 64"
  then have "m + (2 ^ 64 - n) = (m - n) + 2 ^ 64" by simp
  then have "usize_sub m n = (m - n) mod 2 ^ 64"
    unfolding usize_sub_def by (metis mod_add_self2)
  with \<open>m < 2 ^ 64\<close> show ?thesis by simp
qed

lemma find_SomeD: "find P xs = Some x \<Longrightarrow> P x \<and> x \<in> set xs"
  by (induction xs) (auto split: if_splits)

lemma find_ex: "x \<in> set xs \<Longrightarrow> P x \<Longrightarrow> \<exists>y. find P xs = Some y"
  by (induction xs) auto

lemma unat_of_nat64 [simp]: "n < 2 ^ 64 \<Longrightarrow> unat (of_nat n :: 64 word) = n"
  by (simp add: unsigned_of_nat take_bit_nat_eq_self)

lemma cstr_append: "0 \<notin> set s \<Longrightarrow> cstr (s @ 0 # rest) = Inr s"
  by (induction s) auto

lemma length_le64 [simp]: "length (le64 w) = 8"
  by (simp add: le64_def)

lemma le64_hd: "le64 w = ucast w # map (\<lambda>i. ucast (drop_bit (8 * i) w)) [1..<8]"
  unfolding le64_def by (simp add: upt_conv_Cons)

lemma bit_length_bounds: "0 < n \<Longrightarrow> 2 ^ (bit_length n - 1) \<le> n \<and> n < 2 ^ bit_length n \<and> 0 < bit_length n"
proof (induction n rule: bit_length.induct)
  case (1 n)
  show ?case
  proof (cases "n div 2 = 0")
    case True
    then have "n = 1" using 1(2) by simp
    moreover have "bit_length 1 = 1" by (simp add: bit_length.simps)
    ultimately show ?thesis by simp
  next
    case False
    then have ih: "2 ^ (bit_length (n div 2) - 1) \<le> n div 2" "n div 2 < 2 ^ bit_length (n div 2)"
      "0 < bit_length (n div 2)" using 1 by auto
    then have "2 * 2 ^ (bit_length (n div 2) - 1) \<le> n" "n < 2 * 2 ^ bit_length (n div 2)" by linarith+
    moreover have "2 * 2 ^ (bit_length (n div 2) - 1) = (2 :: nat) ^ bit_length (n div 2)"
      using ih(3) by (metis Suc_diff_1 power_Suc)
    moreover have "bit_length n = Suc (bit_length (n div 2))" using 1(2) by (subst bit_length.simps) simp
    ultimately show ?thesis by simp
  qed
qed

text \<open>Masks and sums on \<open>size_t\<close>.\<close>

lemma and_usize_not_mask: "n < 2 ^ 64 \<Longrightarrow> k \<le> 64 \<Longrightarrow> n AND usize_not (2 ^ k - 1) = n div 2 ^ k * 2 ^ k"
proof -
  assume n: "n < 2 ^ 64" and k: "k \<le> 64"
  have "2 ^ k * 2 ^ (64 - k) = (2 :: nat) ^ 64" using k by (simp only: power_add [symmetric]) simp
  then have u: "usize_not (2 ^ k - 1) = push_bit k (mask (64 - k))"
    unfolding usize_not_def push_bit_eq_mult mask_eq_exp_minus_1 diff_mult_distrib
    by (simp only: mult.commute [of "2 ^ (64 - k)"]) simp
  have "n AND push_bit k (mask (64 - k)) = push_bit k (drop_bit k n)"
  proof (rule bit_eqI)
    fix i
    show "bit (n AND push_bit k (mask (64 - k))) i = bit (push_bit k (drop_bit k n)) i"
    proof (cases "i < 64")
      case False
      have "take_bit 64 n = n" using n by (simp add: take_bit_nat_eq_self)
      then have "\<not> bit n i" using False by (metis bit_take_bit_iff)
      then show ?thesis by (simp add: bit_simps)
    qed (use k in \<open>auto simp: bit_simps\<close>)
  qed
  then show ?thesis unfolding u by (simp add: push_bit_eq_mult drop_bit_nat_def)
qed

lemma or_disjoint: "2 ^ k dvd s \<Longrightarrow> r < 2 ^ k \<Longrightarrow> (s :: nat) OR r = s + r"
proof -
  assume s: "2 ^ k dvd s" "r < 2 ^ k"
  have "s AND r = 0"
  proof (rule bit_eqI)
    fix i
    obtain j where j: "s = push_bit k j" using s(1) by (auto elim!: dvdE simp: push_bit_eq_mult mult.commute)
    have r: "r = take_bit k r" using s(2) by (simp add: take_bit_nat_eq_self)
    show "bit (s AND r) i = bit 0 i" unfolding j by (subst r) (auto simp: bit_simps)
  qed
  then show ?thesis by (simp add: disjunctive_add_eq_or)
qed

end
