(* ===== verification/Cache_Key.thy ===== *)
theory Cache_Key
  imports Prelude
begin

text \<open>
  The search keys of \<open>cache/cache_key.h\<close>.  A key is one buffer: an operator byte, two
  8-byte little-endian lengths, then one or two NUL-terminated terms.  Every accessor works
  on the raw buffer with the byte reads of the source, so a read outside it is a fault of
  the model.  \<open>char\<close> is signed, as on the x86-64 target.
\<close>

section \<open>Definitions\<close>

definition SINGLE_OP :: byte where
  "SINGLE_OP = 48"

text \<open>\<open>key_create\<close> writes this buffer; \<open>sizeof(char) = 1\<close> and \<open>sizeof(size_t) = 8\<close>.\<close>

definition key_layout :: "byte \<Rightarrow> bytes \<Rightarrow> bytes option \<Rightarrow> bytes" where
  "key_layout op term1 term2 =
     (let t1Size = of_nat (length term1 + 1) :: 64 word;
          t2Size = (case term2 of None \<Rightarrow> 0 | Some t \<Rightarrow> of_nat (length t + 1)) :: 64 word
      in op # le64 t1Size @ le64 t2Size @ (term1 @ [0])
           @ (case term2 of None \<Rightarrow> [] | Some t \<Rightarrow> t @ [0]))"

definition key_create ::
  "'z mem_scheme \<Rightarrow> byte \<Rightarrow> bytes \<Rightarrow> bytes option \<Rightarrow> (bytes \<times> 'z mem_scheme) res" where
  "key_create m op term1 term2 =
     (case am_malloc m of
        (None, m') \<Rightarrow> Inl NullDeref
      | (Some _, m') \<Rightarrow> Inr (key_layout op term1 term2, m'))"

text \<open>\<open>(size_t) (*(p))\<close> for a \<open>const char *p\<close>: one signed byte, sign-extended.\<close>

definition char_to_size :: "byte \<Rightarrow> 64 word" where
  "char_to_size b = word_of_int (sint b)"

definition key_get_op :: "bytes \<Rightarrow> byte res" where
  "key_get_op k = byte_at k 0"

definition key_get_length :: "bytes \<Rightarrow> 64 word res" where
  "key_get_length k =
     rbind (byte_at k 1) (\<lambda>b1.
     rbind (byte_at k 0) (\<lambda>op.
       let len = 1 + 2 * 8 + char_to_size b1 in
       if op = SINGLE_OP then Inr len
       else rbind (byte_at k (1 + 8)) (\<lambda>b2. Inr (len + char_to_size b2))))"

definition key_size :: "bytes \<Rightarrow> 64 word res" where
  "key_size k =
     rbind (byte_at k 1) (\<lambda>b1.
     rbind (byte_at k 0) (\<lambda>op.
       let len = 1 + 2 * 8 + char_to_size b1 * 1 in
       if op = SINGLE_OP then Inr len
       else rbind (byte_at k (1 + 8)) (\<lambda>b2. Inr (len + char_to_size b2 * 1))))"

text \<open>Pointers into a key are offsets from its first byte.\<close>

definition key_get_term1 :: "bytes \<Rightarrow> 64 word" where
  "key_get_term1 k = 1 + 2 * 8"

definition key_get_term2 :: "bytes \<Rightarrow> 64 word option res" where
  "key_get_term2 k =
     rbind (byte_at k 0) (\<lambda>op.
       if op = SINGLE_OP then Inr None
       else rbind (byte_at k 1) (\<lambda>b1. Inr (Some (1 + 2 * 8 + char_to_size b1 * 1))))"

definition string_at :: "bytes \<Rightarrow> 64 word \<Rightarrow> bytes res" where
  "string_at k off = cstr (drop (unat off) k)"

definition term1_string :: "bytes \<Rightarrow> bytes res" where
  "term1_string k = string_at k (key_get_term1 k)"

definition term2_string :: "bytes \<Rightarrow> bytes res" where
  "term2_string k =
     rbind (key_get_term2 k) (\<lambda>p. rbind (deref p) (\<lambda>off. string_at k off))"

text \<open>
  \<open>key_sprint\<close>: a copy of the single term, or \<open>sprintf\<close> into a buffer of 100 bytes.  The
  scratch buffer is released by every caller at once; its allocation is taken to succeed.
\<close>

definition key_sprint :: "bytes option \<Rightarrow> bytes option res" where
  "key_sprint kp =
     (case kp of None \<Rightarrow> Inr None
      | Some k \<Rightarrow>
          rbind (byte_at k 0) (\<lambda>op.
            if op = SINGLE_OP then rbind (term1_string k) (\<lambda>t. Inr (Some t))
            else rbind (term1_string k) (\<lambda>t1. rbind (term2_string k) (\<lambda>t2.
              let s = t1 @ [op] @ t2 in
              if length s + 1 \<le> 100 then Inr (Some s) else Inl OutOfBounds))))"

definition key_cmp :: "bytes option \<Rightarrow> bytes option \<Rightarrow> 64 word res" where
  "key_cmp kp1 kp2 =
     (case (kp1, kp2) of
        (None, None) \<Rightarrow> Inr 0
      | (None, Some _) \<Rightarrow> Inr (- 1)
      | (Some _, None) \<Rightarrow> Inr 1
      | (Some k1, Some k2) \<Rightarrow>
          rbind (key_sprint kp1) (\<lambda>_. rbind (key_sprint kp2) (\<lambda>_.
          rbind (key_get_op k1) (\<lambda>op1. rbind (key_get_op k2) (\<lambda>op2.
            if op1 \<noteq> op2 then Inr 1
            else rbind (term1_string k1) (\<lambda>a1. rbind (term1_string k2) (\<lambda>a2.
              if a1 \<noteq> a2 then Inr 1
              else if op1 = SINGLE_OP then Inr 0
              else rbind (term2_string k1) (\<lambda>b1. rbind (term2_string k2) (\<lambda>b2.
                Inr (if b1 = b2 then 0 else 1)))))))))) "

definition key_copy :: "'z mem_scheme \<Rightarrow> bytes \<Rightarrow> (bytes \<times> 'z mem_scheme) res" where
  "key_copy m k =
     rbind (key_get_op k) (\<lambda>op. rbind (term1_string k) (\<lambda>t1.
     rbind (key_get_term2 k) (\<lambda>p.
       (case p of
          None \<Rightarrow> key_create m op t1 None
        | Some off \<Rightarrow> rbind (string_at k off) (\<lambda>t2. key_create m op t1 (Some t2))))))"

text \<open>
  \<open>key_clone\<close> repeats the body of \<open>key_create\<close> with \<open>am_malloc\<close>; it writes through the
  returned pointer without a check.
\<close>

definition key_clone :: "'z mem_scheme \<Rightarrow> bytes \<Rightarrow> (bytes \<times> 'z mem_scheme) res" where
  "key_clone m k =
     rbind (key_get_op k) (\<lambda>op.
     rbind (key_get_term2 k) (\<lambda>p.
     rbind (term1_string k) (\<lambda>t1.
     rbind (case p of None \<Rightarrow> Inr None | Some off \<Rightarrow> rbind (string_at k off) (\<lambda>t. Inr (Some t)))
       (\<lambda>t2.
       (case am_malloc m of
          (None, m') \<Rightarrow> Inl NullDeref
        | (Some _, m') \<Rightarrow> Inr (key_layout op t1 t2, m'))))))"

text \<open>
  The keys the code is meant for: the two-term form exactly for the operators other than
  \<open>'0'\<close>, terms without NUL, each length field below 128, and a printed form that fits the
  100-byte buffer of \<open>key_sprint\<close>.
\<close>

fun wf_parts :: "byte \<Rightarrow> bytes \<Rightarrow> bytes option \<Rightarrow> bool" where
  "wf_parts op t1 None \<longleftrightarrow> op = SINGLE_OP \<and> 0 \<notin> set t1 \<and> length t1 < 127"
| "wf_parts op t1 (Some t2) \<longleftrightarrow>
     op \<noteq> SINGLE_OP \<and> 0 \<notin> set t1 \<and> 0 \<notin> set t2 \<and> length t1 + length t2 + 2 \<le> 100"

definition wf_key :: "bytes \<Rightarrow> bool" where
  "wf_key k \<longleftrightarrow> (\<exists>op t1 t2. wf_parts op t1 t2 \<and> k = key_layout op t1 t2)"

section \<open>Accessors on a well-formed key\<close>

lemma char_to_size_small: "n < 128 \<Longrightarrow> char_to_size (ucast (of_nat n :: 64 word)) = of_nat n"
proof -
  assume n: "n < 128"
  have u: "(ucast (of_nat n :: 64 word) :: byte) = of_nat n"
    using n by (simp add: unsigned_of_nat take_bit_nat_eq_self)
  have "sint (of_nat n :: byte) = int n"
    using n by (simp add: sint_uint signed_take_bit_int_eq_self unsigned_of_nat take_bit_nat_eq_self)
  with u show ?thesis by (simp add: char_to_size_def)
qed

lemma key_layout_nth:
  "key_layout op t1 t2 ! 0 = op"
  "key_layout op t1 t2 ! Suc 0 = ucast (of_nat (length t1 + 1) :: 64 word)"
  "key_layout op t1 t2 ! 9 =
     ucast ((case t2 of None \<Rightarrow> 0 | Some t \<Rightarrow> of_nat (length t + 1)) :: 64 word)"
  by (simp_all add: key_layout_def Let_def le64_hd nth_append numeral_eq_Suc del: upt_Suc)

lemma key_layout_length:
  "length (key_layout op t1 t2) =
     17 + length t1 + 1 + (case t2 of None \<Rightarrow> 0 | Some t \<Rightarrow> length t + 1)"
  by (simp add: key_layout_def Let_def split: option.splits)


lemma wf_parts_lengths:
  "wf_parts op t1 t2 \<Longrightarrow> length t1 < 127"
  "wf_parts op t1 (Some t) \<Longrightarrow> length t < 127"
  by (cases t2; simp)+

lemma key_get_op_layout [simp]: "key_get_op (key_layout op t1 t2) = Inr op"
  by (simp add: key_get_op_def byte_at_def key_layout_nth key_layout_length)

lemma key_size_layout:
  "wf_parts op t1 t2 \<Longrightarrow>
     key_size (key_layout op t1 t2) = Inr (of_nat (length (key_layout op t1 t2)))"
  using wf_parts_lengths [of op t1]
  by (cases t2)
    (simp_all add: key_size_def byte_at_def key_layout_nth key_layout_length
      char_to_size_small [of "Suc _", simplified] Let_def)

lemma term1_string_layout:
  "0 \<notin> set t1 \<Longrightarrow> term1_string (key_layout op t1 t2) = Inr t1"
  by (simp add: term1_string_def key_get_term1_def string_at_def key_layout_def Let_def
      cstr_append)

lemma key_get_term2_single [simp]:
  "key_get_term2 (key_layout SINGLE_OP t1 t2) = Inr None"
  by (simp add: key_get_term2_def byte_at_def key_layout_nth key_layout_length)

lemma key_get_term2_layout:
  "op \<noteq> SINGLE_OP \<Longrightarrow> length t1 < 127 \<Longrightarrow>
     key_get_term2 (key_layout op t1 t2) = Inr (Some (of_nat (17 + length t1 + 1)))"
  by (simp add: key_get_term2_def byte_at_def key_layout_nth key_layout_length
      char_to_size_small [of "Suc _", simplified])

lemma string_at_term2:
  "0 \<notin> set t2 \<Longrightarrow> length t1 < 127 \<Longrightarrow>
     string_at (key_layout op t1 (Some t2)) (of_nat (17 + length t1 + 1)) = Inr t2"
proof -
  assume a: "0 \<notin> set t2" "length t1 < 127"
  have u: "unat (of_nat (17 + length t1 + 1) :: 64 word) = 17 + length t1 + 1"
    using a(2) by (intro unat_of_nat64) simp
  have "key_layout op t1 (Some t2) =
      (op # le64 (of_nat (length t1 + 1)) @ le64 (of_nat (length t2 + 1)) @ t1 @ [0]) @ t2 @ [0]"
    by (simp add: key_layout_def Let_def)
  moreover have "length (op # le64 (of_nat (length t1 + 1)) @ le64 (of_nat (length t2 + 1))
      @ t1 @ [0]) = 17 + length t1 + 1"
    by simp
  ultimately have "drop (17 + length t1 + 1) (key_layout op t1 (Some t2)) = t2 @ [0]"
    by (metis append_eq_conv_conj)
  then show ?thesis
    unfolding string_at_def u using a(1) by (simp only: cstr_append [of t2 "[]"] not_False_eq_True)
qed

lemma term2_string_layout:
  "wf_parts op t1 (Some t2) \<Longrightarrow> term2_string (key_layout op t1 (Some t2)) = Inr t2"
  using key_get_term2_layout [of op t1 "Some t2"] string_at_term2 [of t2 t1 op]
  by (simp add: term2_string_def)

lemma key_sprint_layout:
  assumes "wf_parts op t1 t2"
  shows "key_sprint (Some (key_layout op t1 t2)) =
    Inr (Some (case t2 of None \<Rightarrow> t1 | Some t \<Rightarrow> t1 @ [op] @ t))"
  using assms key_get_op_layout [of op t1 t2] term2_string_layout
  by (cases t2) (auto simp: key_sprint_def key_get_op_def term1_string_layout Let_def)

lemma key_layout_inj:
  assumes "wf_parts op t1 t2" and "wf_parts op' t1' t2'"
  shows "key_layout op t1 t2 = key_layout op' t1' t2' \<longleftrightarrow> op = op' \<and> t1 = t1' \<and> t2 = t2'"
proof
  assume eq: "key_layout op t1 t2 = key_layout op' t1' t2'"
  have op: "op = op'" using key_get_op_layout [of op t1 t2] key_get_op_layout [of op' t1' t2'] eq
    by simp
  have s: "0 \<notin> set t1" "0 \<notin> set t1'" using assms by (cases t2; cases t2'; simp)+
  have t1: "t1 = t1'"
    using term1_string_layout [OF s(1), of op t2] term1_string_layout [OF s(2), of op' t2'] eq
    by simp
  have "t2 = t2'"
  proof (cases "op = SINGLE_OP")
    case True
    with op assms show ?thesis by (cases t2; cases t2') simp_all
  next
    case False
    with op assms obtain a b where ab: "t2 = Some a" "t2' = Some b"
      by (cases t2; cases t2') auto
    have "term2_string (key_layout op t1 t2) = Inr a" "term2_string (key_layout op' t1' t2') = Inr b"
      using assms ab term2_string_layout by simp_all
    with eq ab show ?thesis by simp
  qed
  with op t1 show "op = op' \<and> t1 = t1' \<and> t2 = t2'" by simp
qed simp

lemma wf_key_layout: "wf_parts op t1 t2 \<Longrightarrow> wf_key (key_layout op t1 t2)"
  by (auto simp: wf_key_def)

lemma wf_key_size: "wf_key k \<Longrightarrow> key_size k = Inr (of_nat (length k))"
  by (auto simp: wf_key_def key_size_layout)

lemma wf_key_length: "wf_key k \<Longrightarrow> length k < 256"
  by (auto simp: wf_key_def key_layout_length dest: wf_parts_lengths split: option.splits)

lemma key_cmp_wf:
  assumes "wf_key k1" and "wf_key k2"
  shows "key_cmp (Some k1) (Some k2) = Inr (if k1 = k2 then 0 else 1)"
proof -
  from assms obtain op t1 t2 op' t1' t2' where
    p: "wf_parts op t1 t2" "k1 = key_layout op t1 t2"
    and p': "wf_parts op' t1' t2'" "k2 = key_layout op' t1' t2'"
    by (auto simp: wf_key_def)
  have s: "0 \<notin> set t1" "0 \<notin> set t1'" using p(1) p'(1) by (cases t2; cases t2'; simp)+
  note sp = key_sprint_layout [OF p(1)] key_sprint_layout [OF p'(1)]
    term1_string_layout [OF s(1)] term1_string_layout [OF s(2)]
  note inj = key_layout_inj [OF p(1) p'(1)]
  show ?thesis
  proof (cases "op = op' \<and> t1 = t1'")
    case False
    then show ?thesis by (auto simp: key_cmp_def sp p(2) p'(2) inj)
  next
    case True
    show ?thesis
    proof (cases "op = SINGLE_OP")
      case single: True
      with True p(1) p'(1) have "t2 = t2'" by (cases t2; cases t2') simp_all
      with True single sp show ?thesis by (simp add: key_cmp_def p(2) p'(2))
    next
      case False
      with True p(1) p'(1) obtain a b where ab: "t2 = Some a" "t2' = Some b"
        by (cases t2; cases t2') auto
      have "term2_string k1 = Inr a" "term2_string k2 = Inr b"
        using p p' ab term2_string_layout by simp_all
      with True False sp inj ab show ?thesis by (simp add: key_cmp_def p(2) p'(2))
    qed
  qed
qed

lemma key_clone_wf:
  assumes "wf_key k" and "never_fails m"
  shows "key_clone m k = Inr (k, m\<lparr>allocs := Suc (allocs m)\<rparr>)"
proof -
  from assms(1) obtain op t1 t2 where p: "wf_parts op t1 t2" "k = key_layout op t1 t2"
    by (auto simp: wf_key_def)
  have s: "0 \<notin> set t1" using p(1) by (cases t2) auto
  show ?thesis
  proof (cases t2)
    case None
    with p s assms(2) show ?thesis
      by (simp add: key_clone_def term1_string_layout am_malloc_ok)
  next
    case (Some t)
    with p s assms(2) show ?thesis
      using key_get_term2_layout [of op t1 t2] string_at_term2 [of t t1 op]
      by (simp add: key_clone_def term1_string_layout am_malloc_ok)
  qed
qed

section \<open>Properties\<close>

text \<open>
  C19: the accessors invert \<open>key_create\<close>.  On every well-formed triple of operator and
  terms the buffer gives back the operator, the first term, the second term where there is
  one, and its own length.
\<close>

theorem key_create_roundtrip:
  assumes "wf_parts op t1 t2" and "key_create m op t1 t2 = Inr (k, m')"
  shows "key_get_op k = Inr op \<and> term1_string k = Inr t1
    \<and> (case t2 of None \<Rightarrow> key_get_term2 k = Inr None | Some t \<Rightarrow> term2_string k = Inr t)
    \<and> key_size k = Inr (of_nat (length k)) \<and> key_get_length k = key_size k"
proof -
  have k: "k = key_layout op t1 t2"
    using assms(2) by (auto simp: key_create_def split: prod.splits option.splits)
  have "0 \<notin> set t1" using assms(1) by (cases t2) auto
  moreover have "key_get_length k = key_size k"
    by (simp add: key_get_length_def key_size_def Let_def cong: if_cong)
  ultimately show ?thesis
    using assms(1) term2_string_layout
    by (cases t2) (simp_all add: k term1_string_layout key_size_layout)
qed

theorem key_create_roundtrip_witness:
  "key_create (\<lparr>allocs = 0, alloc_fails = (\<lambda>_. False)\<rparr>) 94 [116] (Some [111]) =
     Inr (key_layout 94 [116] (Some [111]), \<lparr>allocs = 1, alloc_fails = (\<lambda>_. False)\<rparr>)
   \<and> key_size (key_layout 94 [116] (Some [111])) = Inr 21"
proof -
  let ?k = "key_layout 94 [116] (Some [111])"
  have w: "wf_parts 94 [116] (Some [111])" by (simp add: SINGLE_OP_def)
  have c: "key_create (\<lparr>allocs = 0, alloc_fails = (\<lambda>_. False)\<rparr>) 94 [116] (Some [111]) =
     Inr (?k, \<lparr>allocs = 1, alloc_fails = (\<lambda>_. False)\<rparr>)"
    by (simp add: key_create_def am_malloc_def)
  have "length ?k = 21" by (simp add: key_layout_length)
  with c key_create_roundtrip [OF w c] show ?thesis by simp
qed

text \<open>
  C20: \<open>key_cmp\<close> decides equality of keys: on well-formed keys it returns without a fault,
  0 exactly when the two buffers are equal and 1 otherwise.
\<close>

theorem key_cmp_decides:
  assumes "wf_key k1" and "wf_key k2"
  shows "key_cmp (Some k1) (Some k2) = Inr (if k1 = k2 then 0 else 1)"
  using assms by (rule key_cmp_wf)

theorem key_cmp_decides_witness:
  "key_cmp (Some (key_layout 94 [116] (Some [111]))) (Some (key_layout 48 [116] None)) = Inr 1"
proof -
  have "wf_key (key_layout 94 [116] (Some [111]))" "wf_key (key_layout 48 [116] None)"
    by (auto intro!: wf_key_layout simp: SINGLE_OP_def)
  from key_cmp_decides [OF this] show ?thesis
    by (simp add: key_layout_def)
qed

text \<open>
  The length fields are read through one signed byte.  For every single-term key whose
  term has at least 127 characters the size computed by \<open>key_size\<close> is not the size of
  the buffer.
\<close>

theorem key_size_wrong_for_long_terms:
  assumes "127 \<le> length t1" and "length t1 < 2 ^ 63"
  shows "key_size (key_layout SINGLE_OP t1 None) \<noteq>
    Inr (of_nat (length (key_layout SINGLE_OP t1 None)))"
proof -
  let ?b = "ucast (of_nat (length t1 + 1) :: 64 word) :: byte"
  have size: "key_size (key_layout SINGLE_OP t1 None) = Inr (17 + char_to_size ?b)"
    by (simp add: key_size_def byte_at_def key_layout_nth key_layout_length Let_def)
  have sint: "- 128 \<le> sint ?b" "sint ?b < 128"
    using sint_ge [of ?b] sint_lt [of ?b] by simp_all
  have "char_to_size ?b \<noteq> of_nat (length t1 + 1)"
  proof
    assume "char_to_size ?b = of_nat (length t1 + 1)"
    then have "(word_of_int (sint ?b) :: 64 word) = word_of_int (int (length t1 + 1))"
      by (simp add: char_to_size_def)
    then have "sint ?b mod 2 ^ 64 = int (length t1 + 1) mod 2 ^ 64"
      by (simp only: word_of_int_eq_iff take_bit_eq_mod) simp
    then have "sint ?b mod 2 ^ 64 = int (length t1 + 1)"
      using assms(2) by simp
    moreover have "sint ?b mod 2 ^ 64 = (if 0 \<le> sint ?b then sint ?b else sint ?b + 2 ^ 64)"
      using sint mod_add_self2 [of "sint ?b" "2 ^ 64"] mod_pos_pos_trivial [of "sint ?b + 2 ^ 64" "2 ^ 64"]
      by auto
    ultimately show False using sint assms by (auto split: if_splits)
  qed
  then show ?thesis by (simp add: size key_layout_length add.commute add.left_commute)
qed

theorem key_size_wrong_for_long_terms_witness:
  "key_size (key_layout SINGLE_OP (replicate 200 97) None) \<noteq>
     Inr (of_nat (length (key_layout SINGLE_OP (replicate 200 97) None)))"
  by (rule key_size_wrong_for_long_terms) simp_all

text \<open>
  \<open>key_cmp\<close> prints both keys through the 100-byte buffer of \<open>key_sprint\<close>.  A two-term
  key whose printed form needs more than 100 bytes overruns it, whatever it is compared to.
\<close>

theorem key_cmp_overruns_buffer:
  assumes "op \<noteq> SINGLE_OP" and "0 \<notin> set t1" and "0 \<notin> set t2"
    and "length t1 < 127" and "100 < length t1 + length t2 + 2"
  shows "key_cmp (Some (key_layout op t1 (Some t2))) (Some k) = Inl OutOfBounds"
proof -
  have "byte_at (key_layout op t1 (Some t2)) 0 = Inr op"
    using key_get_op_layout by (simp add: key_get_op_def)
  moreover have "term2_string (key_layout op t1 (Some t2)) = Inr t2"
    using assms key_get_term2_layout [of op t1 "Some t2"] string_at_term2 [of t2 t1 op]
    by (simp add: term2_string_def)
  ultimately show ?thesis
    using assms by (simp add: key_cmp_def key_sprint_def term1_string_layout Let_def)
qed

theorem key_cmp_overruns_buffer_witness:
  "key_cmp (Some (key_layout 94 (replicate 60 97) (Some (replicate 60 98))))
     (Some (key_layout 48 [97] None)) = Inl OutOfBounds"
  by (rule key_cmp_overruns_buffer) (simp_all add: SINGLE_OP_def)

end
