(* ===== verification/Hashing.thy ===== *)
theory Hashing
  imports Cache_Key
begin

text \<open>
  The two hash functions of \<open>cache/hashtable/hashing.h\<close> on raw key buffers, at 64 bits
  (\<open>checks.h\<close> defines \<open>ARCH_64_BIT\<close> before the constants are chosen).  The tables use
  \<open>fnv1a_hash\<close>, because no \<open>HASH_FUNC\<close> is configured.
\<close>

section \<open>Definitions\<close>

definition FNV_OFFSET :: "64 word" where
  "FNV_OFFSET = 14695981039346656037"

definition FNV_PRIME :: "64 word" where
  "FNV_PRIME = 1099511628211"

definition MEIYAN_H :: "64 word" where
  "MEIYAN_H = 0x811c9dc5"

definition MEIYAN_MULTIPLIER :: "64 word" where
  "MEIYAN_MULTIPLIER = 0xad3e7"

text \<open>The loop of \<open>fnv1a_hash\<close>: \<open>p\<close> is what is left of the buffer, the last argument the
  number of bytes still to be read.\<close>

fun fnv1a_loop :: "64 word \<Rightarrow> bytes \<Rightarrow> nat \<Rightarrow> 64 word res" where
  "fnv1a_loop hash p 0 = Inr hash"
| "fnv1a_loop hash [] (Suc n) = Inl OutOfBounds"
| "fnv1a_loop hash (b # p) (Suc n) = fnv1a_loop ((hash XOR ucast b) * FNV_PRIME) p n"

definition fnv1a_hash :: "bytes \<Rightarrow> 64 word res" where
  "fnv1a_hash key = rbind (key_size key) (\<lambda>keySize. fnv1a_loop FNV_OFFSET key (unat keySize))"

text \<open>Unaligned little-endian reads through \<open>uint16_t*\<close> and \<open>uint32_t*\<close>.\<close>

definition u16_at :: "bytes \<Rightarrow> 64 word res" where
  "u16_at p = rbind (byte_at p 0) (\<lambda>a. rbind (byte_at p 1) (\<lambda>b.
     Inr (ucast a OR push_bit 8 (ucast b))))"

definition u32_at :: "bytes \<Rightarrow> 32 word res" where
  "u32_at p = rbind (byte_at p 0) (\<lambda>a. rbind (byte_at p 1) (\<lambda>b.
     rbind (byte_at p 2) (\<lambda>c. rbind (byte_at p 3) (\<lambda>d.
     Inr (ucast a OR push_bit 8 (ucast b) OR push_bit 16 (ucast c) OR push_bit 24 (ucast d))))))"

function meiyan_loop :: "64 word \<Rightarrow> bytes \<Rightarrow> int \<Rightarrow> (64 word \<times> bytes \<times> int) res" where
  "meiyan_loop h key count =
     (if 8 \<le> count then
        rbind (u32_at key) (\<lambda>w. rbind (u32_at (drop 4 key)) (\<lambda>v.
          meiyan_loop ((h XOR ucast ((push_bit 5 w OR drop_bit 27 w) XOR v)) * MEIYAN_MULTIPLIER)
            (drop 8 key) (count - 8)))
      else Inr (h, key, count))"
  by pat_completeness auto
termination
  by (relation "measure (\<lambda>(h, key, count). nat count)") auto

declare meiyan_loop.simps [simp del]

definition meiyan_tmp :: "64 word \<times> bytes \<Rightarrow> (64 word \<times> bytes) res" where
  "meiyan_tmp = (\<lambda>(h, key). rbind (u16_at key) (\<lambda>w.
     Inr ((h XOR w) * MEIYAN_MULTIPLIER, drop 2 key)))"

definition meiyan_tail :: "64 word \<Rightarrow> bytes \<Rightarrow> int \<Rightarrow> 64 word res" where
  "meiyan_tail h key count =
     rbind (if bit count 2 then rbind (meiyan_tmp (h, key)) meiyan_tmp else Inr (h, key)) (\<lambda>(h, key).
     rbind (if bit count 1 then meiyan_tmp (h, key) else Inr (h, key)) (\<lambda>(h, key).
     if bit count 0
     then rbind (byte_at key 0) (\<lambda>b. Inr ((h XOR char_to_size b) * MEIYAN_MULTIPLIER))
     else Inr h))"

definition meiyan_hash :: "bytes \<Rightarrow> 64 word res" where
  "meiyan_hash key =
     rbind (key_size key) (\<lambda>sz.
     rbind (meiyan_loop MEIYAN_H key (sint (ucast sz :: 32 word))) (\<lambda>(h, key, count).
     rbind (meiyan_tail h key count) (\<lambda>h. Inr (h XOR drop_bit 16 h))))"

text \<open>The FNV-1a hash of a byte string, as a fold.\<close>

definition fnv :: "bytes \<Rightarrow> 64 word" where
  "fnv k = foldl (\<lambda>h b. (h XOR ucast b) * FNV_PRIME) FNV_OFFSET k"

section \<open>Lemmas\<close>

lemma fnv1a_loop_eq:
  "fnv1a_loop h p n =
     (if n \<le> length p then Inr (foldl (\<lambda>h b. (h XOR ucast b) * FNV_PRIME) h (take n p))
      else Inl OutOfBounds)"
  by (induction h p n rule: fnv1a_loop.induct) auto

lemma fnv1a_wf: "wf_key k \<Longrightarrow> fnv1a_hash k = Inr (fnv k)"
  using wf_key_length [of k]
  by (simp add: fnv1a_hash_def wf_key_size fnv1a_loop_eq fnv_def)

lemma ucast_of_nat_down:
  "LENGTH('b::len) \<le> LENGTH('a::len) \<Longrightarrow> (ucast (of_nat n :: 'a word) :: 'b word) = of_nat n"
  by (simp add: unsigned_of_nat word_of_nat_eq_iff)

lemma sint_of_nat_byte:
  assumes "128 \<le> n" and "n < 256"
  shows "sint (of_nat n :: byte) = int n - 256"
proof -
  have "uint (of_nat n :: byte) = int n"
    using assms(2) by (simp add: unsigned_of_nat take_bit_nat_eq_self)
  moreover have "(int n + 128) mod 256 = int n - 128"
    using assms mod_add_self2 [of "int n - 128" 256] by (simp add: add.commute)
  ultimately show ?thesis
    by (simp add: sint_uint signed_take_bit_eq_take_bit_shift take_bit_eq_mod)
qed

lemma byte_at_ok: "i < length p \<Longrightarrow> \<exists>b. byte_at p i = Inr b"
  by (simp add: byte_at_def)

lemma u16_at_ok: "2 \<le> length p \<Longrightarrow> \<exists>w. u16_at p = Inr w"
  by (auto simp: u16_at_def byte_at_def)

lemma u32_at_ok: "4 \<le> length p \<Longrightarrow> \<exists>w. u32_at p = Inr w"
  by (auto simp: u32_at_def byte_at_def)

lemma meiyan_tmp_Cons: "\<exists>h'. meiyan_tmp (h, a # b # p) = Inr (h', p)"
  by (simp add: meiyan_tmp_def u16_at_def byte_at_def)

lemma meiyan_tail_ok:
  assumes "length p < 8"
  shows "\<exists>h'. meiyan_tail h p (int (length p)) = Inr h'"
proof -
  have "length p \<in> {0, 1, 2, 3, 4, 5, 6, 7}" using assms by (simp only: insert_iff empty_iff) presburger
  then show ?thesis
    by (auto simp: meiyan_tail_def meiyan_tmp_def u16_at_def byte_at_def bit_iff_odd
        length_Suc_conv eval_nat_numeral; presburger)
qed

lemma meiyan_loop_ok:
  "int (length p) = count \<Longrightarrow>
     \<exists>h' p' c'. meiyan_loop h p count = Inr (h', p', c') \<and> int (length p') = c' \<and> c' < 8"
proof (induction h p count rule: meiyan_loop.induct)
  case (1 h key count)
  show ?case
  proof (cases "8 \<le> count")
    case True
    then have "4 \<le> length key" "4 \<le> length (drop 4 key)" using "1.prems" by auto
    then obtain w v where wv: "u32_at key = Inr w" "u32_at (drop 4 key) = Inr v"
      using u32_at_ok by blast
    have "int (length (drop 8 key)) = count - 8" using True "1.prems" by auto
    with "1.IH" [OF True wv] show ?thesis
      using True wv by (subst meiyan_loop.simps) simp
  next
    case False
    then show ?thesis using "1.prems" by (subst meiyan_loop.simps) simp
  qed
qed

section \<open>Properties\<close>

text \<open>
  C21: on a well-formed key \<open>fnv1a_hash\<close> stays inside the buffer and returns the FNV-1a
  fold over all its bytes.
\<close>

theorem fnv1a_hash_is_fold:
  assumes "wf_key k"
  shows "fnv1a_hash k = Inr (foldl (\<lambda>h b. (h XOR ucast b) * FNV_PRIME) FNV_OFFSET k)"
  using fnv1a_wf [OF assms] by (simp add: fnv_def)

theorem fnv1a_hash_is_fold_witness:
  "fnv1a_hash (key_layout 48 [97] None) =
     Inr (foldl (\<lambda>h b. (h XOR ucast b) * FNV_PRIME) FNV_OFFSET (key_layout 48 [97] None))"
  by (rule fnv1a_hash_is_fold, rule wf_key_layout) (simp add: SINGLE_OP_def)

text \<open>
  The alternative \<open>meiyan_hash\<close> also reads a well-formed key without leaving its
  buffer: its 8-, 4-, 2- and 1-byte reads consume exactly the bytes of the key.
\<close>

theorem meiyan_hash_in_bounds:
  assumes "wf_key k"
  shows "\<exists>h. meiyan_hash k = Inr h"
proof -
  have len: "length k < 256" using assms by (rule wf_key_length)
  have "sint (ucast (of_nat (length k) :: 64 word) :: 32 word) = int (length k)"
    using len by (simp add: unsigned_of_nat take_bit_nat_eq_self sint_uint
        signed_take_bit_int_eq_self)
  with meiyan_loop_ok [OF refl, of MEIYAN_H k] obtain h p where
    l: "meiyan_loop MEIYAN_H k (sint (ucast (of_nat (length k) :: 64 word) :: 32 word))
      = Inr (h, p, int (length p))" and "length p < 8"
    by auto
  from meiyan_tail_ok [OF this(2)] obtain h' where "meiyan_tail h p (int (length p)) = Inr h'" ..
  with l show ?thesis by (simp add: meiyan_hash_def wf_key_size [OF assms])
qed

theorem meiyan_hash_in_bounds_witness:
  "\<exists>h. meiyan_hash (key_layout 94 [116, 101] (Some [111])) = Inr h"
  by (rule meiyan_hash_in_bounds, rule wf_key_layout) (simp add: SINGLE_OP_def)

text \<open>
  The signed-byte length makes the hash loop leave the buffer.  A single-term key with
  127 to 237 characters is hashed past its end.
\<close>

theorem fnv1a_hash_reads_past_end:
  assumes "127 \<le> length t1" and "length t1 < 238"
  shows "fnv1a_hash (key_layout SINGLE_OP t1 None) = Inl OutOfBounds"
proof -
  let ?n = "length t1 + 1" and ?k = "key_layout SINGLE_OP t1 None"
  have b: "(ucast (of_nat ?n :: 64 word) :: byte) = of_nat ?n"
    by (rule ucast_of_nat_down) simp
  have "sint (of_nat ?n :: byte) = int ?n - 256"
    using assms by (intro sint_of_nat_byte) simp_all
  then have c: "char_to_size (of_nat ?n) = of_nat ?n - 256"
    by (simp add: char_to_size_def)
  have "key_size ?k = Inr (17 + (of_nat ?n - 256))"
    by (simp add: key_size_def byte_at_def key_layout_nth key_layout_length Let_def
        b [simplified] c [simplified])
  moreover have "unat (17 + (of_nat ?n - 256) :: 64 word) = 2 ^ 64 + length t1 - 238"
  proof -
    have "(17 + (of_nat ?n - 256) :: 64 word) = of_nat (2 ^ 64 + length t1 - 238)"
      using assms by (simp add: of_nat_diff)
    then show ?thesis using assms by (simp only:) (rule unat_of_nat64, simp)
  qed
  ultimately show ?thesis
    using assms by (simp add: fnv1a_hash_def fnv1a_loop_eq key_layout_length)
qed

theorem fnv1a_hash_reads_past_end_witness:
  "fnv1a_hash (key_layout SINGLE_OP (replicate 130 97) None) = Inl OutOfBounds"
  by (rule fnv1a_hash_reads_past_end) simp_all

end
