(* ===== verification/Table_Interface.thy ===== *)
theory Table_Interface
  imports Prelude
begin

text \<open>
  The two contracts the caches rely on, as locales.  \<open>keyed_table\<close> is what the hash table of
  \<open>cache_hashtable.c\<close> promises: on states that satisfy its invariant, lookups, insertions of
  new keys and deletions behave as on a finite map and never stop the program.
  \<open>ordered_table\<close> is what the dequeue hash table of \<open>dq_hashtable.c\<close> promises on top: the
  entries form a sequence, insertion appends to it and the oldest entry can be popped.
  Both are interpreted on the model of the code in the theories of those components.
\<close>

section \<open>Runs of operations\<close>

datatype ('k, 'v) tbl_op = Put 'k 'v | Del 'k

primrec run_ops ::
  "('s \<Rightarrow> 'k \<Rightarrow> 'v \<Rightarrow> 's res) \<Rightarrow> ('s \<Rightarrow> 'k \<Rightarrow> ('v option \<times> 's) res) \<Rightarrow>
     ('k, 'v) tbl_op list \<Rightarrow> 's \<Rightarrow> 's res" where
  "run_ops ins del [] s = Inr s"
| "run_ops ins del (x # xs) s =
     (case x of
        Put k v \<Rightarrow> rbind (ins s k v) (run_ops ins del xs)
      | Del k \<Rightarrow> rbind (del s k) (\<lambda>(_, s'). run_ops ins del xs s'))"

text \<open>The same run on a map; \<open>None\<close> when a key is inserted that is already there.\<close>

primrec spec_ops :: "('k, 'v) tbl_op list \<Rightarrow> ('k \<rightharpoonup> 'v) \<Rightarrow> ('k \<rightharpoonup> 'v) option" where
  "spec_ops [] c = Some c"
| "spec_ops (x # xs) c =
     (case x of
        Put k v \<Rightarrow> if c k = None then spec_ops xs (c(k \<mapsto> v)) else None
      | Del k \<Rightarrow> spec_ops xs (c(k := None)))"

primrec op_key :: "('k, 'v) tbl_op \<Rightarrow> 'k" where
  "op_key (Put k v) = k"
| "op_key (Del k) = k"

section \<open>Keyed tables\<close>

locale keyed_table =
  fixes inv :: "'s \<Rightarrow> bool"
    and content :: "'s \<Rightarrow> 'k \<Rightarrow> 'v option"
    and key_ok :: "'k \<Rightarrow> bool"
    and limit :: nat
    and get :: "'s \<Rightarrow> 'k \<Rightarrow> 'v option res"
    and ins :: "'s \<Rightarrow> 'k \<Rightarrow> 'v \<Rightarrow> 's res"
    and del :: "'s \<Rightarrow> 'k \<Rightarrow> ('v option \<times> 's) res"
  assumes fin: "inv s \<Longrightarrow> finite (dom (content s))"
    and get: "inv s \<Longrightarrow> key_ok k \<Longrightarrow> get s k = Inr (content s k)"
    and ins: "inv s \<Longrightarrow> key_ok k \<Longrightarrow> content s k = None \<Longrightarrow> card (dom (content s)) < limit \<Longrightarrow>
      \<exists>s'. ins s k v = Inr s' \<and> inv s' \<and> content s' = (content s)(k \<mapsto> v)"
    and del: "inv s \<Longrightarrow> key_ok k \<Longrightarrow>
      \<exists>s'. del s k = Inr (content s k, s') \<and> inv s' \<and> content s' = (content s)(k := None)"
begin

lemma get_ins_same:
  assumes "inv s" "key_ok k" "content s k = None" "card (dom (content s)) < limit"
    and "ins s k v = Inr s'" and "key_ok k'"
  shows "get s' k' = Inr (if k' = k then Some v else content s k')"
proof -
  have "inv s'" "content s' = (content s)(k \<mapsto> v)" using ins [OF assms(1-4), of v] assms(5) by auto
  then show ?thesis using get [OF _ assms(6)] by simp
qed

lemma card_grows: "card (dom (c(k \<mapsto> v))) \<le> Suc (card (dom c))"
  by (simp add: card_insert_le_m1)

lemma run_refines:
  assumes "inv s" and "\<forall>x \<in> set xs. key_ok (op_key x)" and "spec_ops xs (content s) = Some c"
    and "card (dom (content s)) + length xs \<le> limit"
  shows "\<exists>s'. run_ops ins del xs s = Inr s' \<and> inv s' \<and> content s' = c"
  using assms
proof (induction xs arbitrary: s)
  case (Cons x xs)
  show ?case
  proof (cases x)
    case (Put k v)
    then have "content s k = None" "spec_ops xs ((content s)(k \<mapsto> v)) = Some c"
      using Cons.prems(3) by (auto split: if_splits)
    moreover from this obtain s1 where s1: "ins s k v = Inr s1" "inv s1" "content s1 = (content s)(k \<mapsto> v)"
      using ins [of s k v] Cons.prems Put by auto
    moreover have "card (dom (content s1)) + length xs \<le> limit"
      unfolding s1(3) using Cons.prems(4) card_grows [of "content s" k v] by simp
    ultimately have "\<exists>s'. run_ops ins del xs s1 = Inr s' \<and> inv s' \<and> content s' = c"
      using Cons.IH [of s1] Cons.prems(2) by (metis list.set_intros(2))
    then show ?thesis using s1(1) Put by simp
  next
    case (Del k)
    then obtain s1 where s1: "del s k = Inr (content s k, s1)" "inv s1"
      "content s1 = (content s)(k := None)"
      using del [of s k] Cons.prems by auto
    have "card (dom (content s1)) \<le> card (dom (content s))"
      unfolding s1(3) using fin [OF Cons.prems(1)] by (simp add: card_Diff1_le)
    moreover have "spec_ops xs (content s1) = Some c" unfolding s1(3) using Cons.prems(3) Del by simp
    ultimately have "\<exists>s'. run_ops ins del xs s1 = Inr s' \<and> inv s' \<and> content s' = c"
      by (intro Cons.IH) (use Cons.prems(2,4) s1(2) in simp_all)
    then show ?thesis using s1(1) Del by simp
  qed
qed simp

end

section \<open>Ordered tables\<close>

definition del_key :: "'k \<Rightarrow> ('k \<times> 'v) list \<Rightarrow> ('k \<times> 'v) list" where
  "del_key k xs = filter (\<lambda>x. fst x \<noteq> k) xs"

locale ordered_table =
  fixes inv :: "'s \<Rightarrow> bool"
    and entries :: "'s \<Rightarrow> ('k \<times> 'v) list"
    and key_ok :: "'k \<Rightarrow> bool"
    and limit :: nat
    and get :: "'s \<Rightarrow> 'k \<Rightarrow> 'v option res"
    and push :: "'s \<Rightarrow> 'k \<Rightarrow> 'v \<Rightarrow> 's res"
    and rem :: "'s \<Rightarrow> 'k \<Rightarrow> ('v option \<times> 's) res"
    and pop :: "'s \<Rightarrow> ('v option \<times> 's) res"
  assumes uniq: "inv s \<Longrightarrow> distinct (map fst (entries s))"
    and keys_ok: "inv s \<Longrightarrow> x \<in> set (entries s) \<Longrightarrow> key_ok (fst x)"
    and get: "inv s \<Longrightarrow> key_ok k \<Longrightarrow> get s k = Inr (map_of (entries s) k)"
    and push: "inv s \<Longrightarrow> key_ok k \<Longrightarrow> map_of (entries s) k = None \<Longrightarrow> length (entries s) < limit \<Longrightarrow>
      \<exists>s'. push s k v = Inr s' \<and> inv s' \<and> entries s' = entries s @ [(k, v)]"
    and rem: "inv s \<Longrightarrow> key_ok k \<Longrightarrow>
      \<exists>s'. rem s k = Inr (map_of (entries s) k, s') \<and> inv s' \<and> entries s' = del_key k (entries s)"
    and pop_nil: "inv s \<Longrightarrow> entries s = [] \<Longrightarrow> pop s = Inr (None, s)"
    and pop_cons: "inv s \<Longrightarrow> entries s = (k, v) # xs \<Longrightarrow>
      \<exists>s'. pop s = Inr (Some v, s') \<and> inv s' \<and> entries s' = xs"
begin

text \<open>Removing a key and inserting it again moves it to the back of the order.\<close>

lemma touch:
  assumes "inv s" "key_ok k" "map_of (entries s) k = Some v" "length (entries s) \<le> limit"
  shows "\<exists>s1 s2. rem s k = Inr (Some v, s1) \<and> push s1 k v = Inr s2 \<and> inv s2
    \<and> entries s2 = del_key k (entries s) @ [(k, v)]"
proof -
  obtain s1 where s1: "rem s k = Inr (Some v, s1)" "inv s1" "entries s1 = del_key k (entries s)"
    using rem [OF assms(1,2)] assms(3) by auto
  have "map_of (entries s1) k = None"
    by (auto simp: s1(3) del_key_def map_of_eq_None_iff)
  moreover have "length (entries s1) < limit"
  proof -
    have "(k, v) \<in> set (entries s)" using assms(3) by (rule map_of_SomeD)
    then have "length (del_key k (entries s)) < length (entries s)"
      unfolding del_key_def by (intro length_filter_less) auto
    then show ?thesis using assms(4) s1(3) by simp
  qed
  ultimately obtain s2 where "push s1 k v = Inr s2" "inv s2" "entries s2 = entries s1 @ [(k, v)]"
    using push [OF s1(2) assms(2)] by blast
  with s1 show ?thesis by auto
qed

text \<open>Evicting the oldest entry before an insertion keeps the length.\<close>

lemma replace_oldest:
  assumes "inv s" "key_ok k" "map_of (entries s) k = None" "entries s = x # xs"
    and "length (entries s) \<le> limit"
  shows "\<exists>s1 s2. pop s = Inr (Some (snd x), s1) \<and> push s1 k v = Inr s2 \<and> inv s2
    \<and> entries s2 = xs @ [(k, v)]"
proof -
  obtain s1 where s1: "pop s = Inr (Some (snd x), s1)" "inv s1" "entries s1 = xs"
    using pop_cons [OF assms(1), of "fst x" "snd x" xs] assms(4) by auto
  have "map_of xs k = None" using assms(3,4) by (cases x) (auto split: if_splits)
  moreover have "length xs < limit" using assms(4,5) by simp
  ultimately obtain s2 where "push s1 k v = Inr s2" "inv s2" "entries s2 = xs @ [(k, v)]"
    using push [OF s1(2) assms(2)] s1(3) by auto
  with s1 show ?thesis by auto
qed

lemma map_of_del_key: "map_of (del_key k xs) = (map_of xs)(k := None)"
  by (induction xs) (auto simp: del_key_def)

lemma map_of_append_new: "map_of xs k = None \<Longrightarrow> map_of (xs @ [(k, v)]) = (map_of xs)(k \<mapsto> v)"
  by (simp add: map_add_def) (auto split: option.split)

end

text \<open>An ordered table is a keyed one.\<close>

sublocale ordered_table \<subseteq> keyed: keyed_table inv "\<lambda>s. map_of (entries s)" key_ok limit get push rem
proof
  fix s k v
  assume i: "inv s" "key_ok k"
  show "get s k = Inr (map_of (entries s) k)" by (rule get [OF i])
  show "\<exists>s'. rem s k = Inr (map_of (entries s) k, s') \<and> inv s'
      \<and> map_of (entries s') = (map_of (entries s))(k := None)"
    using rem [OF i] by (auto simp: map_of_del_key)
  assume "map_of (entries s) k = None" "card (dom (map_of (entries s))) < limit"
  moreover have "card (dom (map_of (entries s))) = length (entries s)"
    using uniq [OF i(1)] by (metis dom_map_of_conv_image_fst distinct_card length_map list.set_map)
  ultimately show "\<exists>s'. push s k v = Inr s' \<and> inv s'
      \<and> map_of (entries s') = (map_of (entries s))(k \<mapsto> v)"
    using push [OF i, of v] map_of_append_new by metis
qed (rule finite_dom_map_of)

end
