(* ===== verification/Cache_Hashtable.thy ===== *)
theory Cache_Hashtable
  imports Hashing Table_Interface
begin

text \<open>
  The open-addressing table of \<open>cache/hashtable/cache_hashtable.c\<close> and its entries
  (\<open>cache/dequeue_hashtable/dq_ht_entry.c\<close>).  The \<open>items\<close> array holds entry pointers, so
  the model keeps an explicit store of the entries a table owns; an address outside the
  store has been released.  A table handle is a record, hence never \<open>NULL\<close>; the array
  behind it may be.
\<close>

section \<open>Entries\<close>

record 'v DQHTEntry =
  e_key :: "bytes option"
  e_length :: "64 word"
  e_ptr :: "'v option"
  e_index :: nat
  e_prev :: "addr option"
  e_next :: "addr option"

type_synonym 'v store = "addr \<Rightarrow> 'v DQHTEntry option"

definition load :: "'v store \<Rightarrow> addr \<Rightarrow> 'v DQHTEntry res" where
  "load st a = (case st a of None \<Rightarrow> Inl UseAfterFree | Some e \<Rightarrow> Inr e)"

definition modify :: "'v store \<Rightarrow> addr \<Rightarrow> ('v DQHTEntry \<Rightarrow> 'v DQHTEntry) \<Rightarrow> 'v store res" where
  "modify st a f = rbind (load st a) (\<lambda>e. Inr (st(a \<mapsto> f e)))"

definition dqhtentry_create_full ::
  "'z mem_scheme \<Rightarrow> bytes \<Rightarrow> 'v option \<Rightarrow> addr option \<Rightarrow> addr option \<Rightarrow>
     ((addr \<times> 'v DQHTEntry) option \<times> 'z mem_scheme) res" where
  "dqhtentry_create_full m key ptr prev next =
     (case am_malloc m of
        (None, m1) \<Rightarrow> Inr (None, m1)
      | (Some a, m1) \<Rightarrow>
          rbind (key_size key) (\<lambda>len. rbind (key_clone m1 key) (\<lambda>(k, m2).
            Inr (Some (a, \<lparr>e_key = Some k, e_length = len, e_ptr = ptr, e_index = 0,
                           e_prev = prev, e_next = next\<rparr>), m2))))"

definition dqhtentry_create ::
  "'z mem_scheme \<Rightarrow> bytes \<Rightarrow> 'v option \<Rightarrow> ((addr \<times> 'v DQHTEntry) option \<times> 'z mem_scheme) res" where
  "dqhtentry_create m key ptr = dqhtentry_create_full m key ptr None None"

definition dqhtentry_destroy :: "'v store \<Rightarrow> addr option \<Rightarrow> 'v store res" where
  "dqhtentry_destroy st entry =
     (case entry of None \<Rightarrow> Inr st
      | Some a \<Rightarrow> rbind (load st a) (\<lambda>e. if e_key e = None then Inr st else Inr (st(a := None))))"

section \<open>The table\<close>

type_synonym 'v comparator = "bytes option \<Rightarrow> bytes option \<Rightarrow> 'v DQHTEntry \<Rightarrow> int res"

record 'v HashTable =
  ht_size :: nat
  ht_count :: nat
  ht_comparator :: "'v comparator option"
  ht_items :: "addr option list option"
  ht_entries :: "'v store"

definition ht_create ::
  "'z mem_scheme \<Rightarrow> nat \<Rightarrow> 'v comparator option \<Rightarrow> ('v HashTable \<times> 'z mem_scheme) res" where
  "ht_create m sz comparator =
     (case am_malloc m of
        (None, m1) \<Rightarrow> Inl NullDeref
      | (Some _, m1) \<Rightarrow>
          (case am_calloc m1 sz 8 of (items, m2) \<Rightarrow>
             Inr (\<lparr>ht_size = sz, ht_count = 0, ht_comparator = comparator,
                   ht_items = map_option (\<lambda>_. replicate sz None) items,
                   ht_entries = Map.empty\<rparr>, m2)))"

fun ht_destroy_loop :: "'v store \<Rightarrow> addr option list \<Rightarrow> 'v store res" where
  "ht_destroy_loop st [] = Inr st"
| "ht_destroy_loop st (None # items) = ht_destroy_loop st items"
| "ht_destroy_loop st (Some a # items) =
     rbind (dqhtentry_destroy st (Some a)) (\<lambda>st'. ht_destroy_loop st' items)"

text \<open>What is left of the store once the array and the handle have been freed too.\<close>

definition ht_destroy :: "'v HashTable \<Rightarrow> 'v store res" where
  "ht_destroy ht =
     (case ht_items ht of None \<Rightarrow> Inr (ht_entries ht)
      | Some items \<Rightarrow> ht_destroy_loop (ht_entries ht) items)"

text \<open>
  \<open>while (items[index] != NULL)\<close> of \<open>ht_resize_insert\<close>.  The last argument counts the
  slots not looked at yet; once all are occupied by other keys the loop has come back to
  its starting state and never ends.
\<close>

fun ht_resize_insert ::
  "addr option list \<Rightarrow> 'v store \<Rightarrow> nat \<Rightarrow> addr \<Rightarrow> nat \<Rightarrow> nat \<Rightarrow>
     (int \<times> addr option list \<times> 'v store) res" where
  "ht_resize_insert items st sz entry index 0 = Inl Hang"
| "ht_resize_insert items st sz entry index (Suc n) =
     rbind (elem items index) (\<lambda>item.
       (case item of
          None \<Rightarrow> rbind (modify st entry (\<lambda>e. e\<lparr>e_index := index\<rparr>)) (\<lambda>st'.
                    Inr (0, items[index := Some entry], st'))
        | Some a \<Rightarrow>
            rbind (load st entry) (\<lambda>e. rbind (load st a) (\<lambda>e'.
            rbind (key_cmp (e_key e) (e_key e')) (\<lambda>c.
              if c = 0 then Inr (- 1, items, st)
              else ht_resize_insert items st sz entry ((index + 1) mod sz) n)))))"

fun ht_resize_loop ::
  "addr option list \<Rightarrow> addr option list \<Rightarrow> 'v store \<Rightarrow> nat \<Rightarrow>
     (int \<times> addr option list \<times> 'v store) res" where
  "ht_resize_loop [] new_items st new_size = Inr (0, new_items, st)"
| "ht_resize_loop (None # items) new_items st new_size =
     ht_resize_loop items new_items st new_size"
| "ht_resize_loop (Some a # items) new_items st new_size =
     rbind (load st a) (\<lambda>e. rbind (deref (e_key e)) (\<lambda>k. rbind (fnv1a_hash k) (\<lambda>hash.
     rbind (umod (unat hash) new_size) (\<lambda>index.
     rbind (ht_resize_insert new_items st new_size a index new_size) (\<lambda>(r, new_items', st').
       if r \<noteq> 0 then Inr (- 1, new_items', st')
       else ht_resize_loop items new_items' st' new_size)))))"

definition ht_resize ::
  "'z mem_scheme \<Rightarrow> 'v HashTable \<Rightarrow> (int \<times> 'v HashTable \<times> 'z mem_scheme) res" where
  "ht_resize m ht =
     (let new_size = usize (ht_size ht * 2) in
      if new_size < ht_size ht then Inr (- 1, ht, m)
      else (case am_calloc m new_size 8 of
              (None, m') \<Rightarrow> Inr (- 1, ht, m')
            | (Some _, m') \<Rightarrow>
                rbind (deref (ht_items ht)) (\<lambda>items.
                rbind (ht_resize_loop items (replicate new_size None) (ht_entries ht) new_size)
                  (\<lambda>(r, new_items, st).
                   if r \<noteq> 0 then Inr (- 1, ht\<lparr>ht_entries := st\<rparr>, m')
                   else Inr (0, ht\<lparr>ht_items := Some new_items, ht_size := new_size,
                                   ht_entries := st\<rparr>, m')))))"

text \<open>
  The probe of \<open>ht_insert\<close>: it stops at the first empty slot or at an equal key, after at
  most \<open>size\<close> steps, and says which.
\<close>

fun ht_insert_probe ::
  "addr option list \<Rightarrow> 'v store \<Rightarrow> nat \<Rightarrow> bytes \<Rightarrow> nat \<Rightarrow> nat \<Rightarrow> (bool \<times> nat) res" where
  "ht_insert_probe items st sz key index 0 = Inr (False, index)"
| "ht_insert_probe items st sz key index (Suc n) =
     rbind (elem items index) (\<lambda>item.
       (case item of
          None \<Rightarrow> Inr (False, index)
        | Some a \<Rightarrow> rbind (load st a) (\<lambda>e.
            rbind (case e_key e of None \<Rightarrow> Inr False
                   | Some k \<Rightarrow> rbind (key_cmp (Some key) (Some k)) (\<lambda>c. Inr (c = 0)))
              (\<lambda>eq. if eq then Inr (True, index)
                    else ht_insert_probe items st sz key ((index + 1) mod sz) n))))"

text \<open>
  Result of \<open>ht_insert\<close>: the return code (-1 fail, 0 new entry, 1 existing entry) and what
  it stores through \<open>entryAtIndex\<close> and \<open>overridden\<close>.
\<close>

record 'v insert_result =
  ins_code :: int
  ins_entry :: "addr option"
  ins_overridden :: "'v option"

definition insert_failed :: "'v insert_result" where
  "insert_failed = \<lparr>ins_code = - 1, ins_entry = None, ins_overridden = None\<rparr>"

definition ht_insert_at ::
  "'z mem_scheme \<Rightarrow> 'v HashTable \<Rightarrow> bytes \<Rightarrow> 'v \<Rightarrow>
     ('v insert_result \<times> 'v HashTable \<times> 'z mem_scheme) res" where
  "ht_insert_at m ht key value =
     rbind (deref (ht_items ht)) (\<lambda>items.
     rbind (fnv1a_hash key) (\<lambda>hash.
     rbind (umod (unat hash) (ht_size ht)) (\<lambda>index.
     rbind (ht_insert_probe items (ht_entries ht) (ht_size ht) key index (ht_size ht))
       (\<lambda>(found, index).
       if found then
         rbind (elem items index) (\<lambda>item. rbind (deref item) (\<lambda>a.
         rbind (load (ht_entries ht) a) (\<lambda>e.
         rbind (modify (ht_entries ht) a (\<lambda>e. e\<lparr>e_ptr := Some value\<rparr>)) (\<lambda>st.
           Inr (\<lparr>ins_code = 1, ins_entry = Some a, ins_overridden = e_ptr e\<rparr>,
                ht\<lparr>ht_entries := st\<rparr>, m)))))
       else
         rbind (dqhtentry_create m key (Some value)) (\<lambda>(entry, m').
           (case entry of
              None \<Rightarrow> Inr (insert_failed, ht\<lparr>ht_items := Some (items[index := None])\<rparr>, m')
            | Some (a, e) \<Rightarrow>
                Inr (\<lparr>ins_code = 0, ins_entry = Some a, ins_overridden = None\<rparr>,
                     ht\<lparr>ht_items := Some (items[index := Some a]),
                        ht_entries := (ht_entries ht)(a \<mapsto> e\<lparr>e_index := index\<rparr>),
                        ht_count := usize (ht_count ht + 1)\<rparr>, m')))))))"

definition ht_insert ::
  "'z mem_scheme \<Rightarrow> 'v HashTable \<Rightarrow> bytes \<Rightarrow> 'v option \<Rightarrow>
     ('v insert_result \<times> 'v HashTable \<times> 'z mem_scheme) res" where
  "ht_insert m ht key value =
     (case (ht_items ht, value) of
        (Some _, Some v) \<Rightarrow>
          if ht_size ht div 2 \<le> ht_count ht then
            rbind (ht_resize m ht) (\<lambda>(r, ht', m').
              if r \<noteq> 0 then Inr (insert_failed, ht', m') else ht_insert_at m' ht' key v)
          else ht_insert_at m ht key v
      | _ \<Rightarrow> Inr (insert_failed, ht, m))"

text \<open>
  The search loop shared by \<open>ht_get\<close>, \<open>ht_delete\<close> and \<open>dqht_remove\<close>: it looks at all
  \<open>size\<close> slots from the hash position on and compares through a function pointer.
\<close>

fun ht_scan ::
  "'v comparator option \<Rightarrow> nat \<Rightarrow> addr option list \<Rightarrow> 'v store \<Rightarrow> bytes \<Rightarrow> nat \<Rightarrow> nat \<Rightarrow>
     nat option res" where
  "ht_scan cmp sz items st key index 0 = Inr None"
| "ht_scan cmp sz items st key index (Suc n) =
     rbind (elem items index) (\<lambda>item.
     rbind (case item of None \<Rightarrow> Inr False
            | Some a \<Rightarrow> rbind (load st a) (\<lambda>e.
                (case e_key e of None \<Rightarrow> Inr False
                 | Some k \<Rightarrow> (case cmp of None \<Rightarrow> Inl NullCall
                             | Some f \<Rightarrow> rbind (f (Some key) (Some k) e) (\<lambda>c. Inr (c = 0))))))
       (\<lambda>eq. if eq then Inr (Some index)
             else ht_scan cmp sz items st key ((index + 1) mod sz) n))"

definition ht_find :: "'v comparator option \<Rightarrow> 'v HashTable \<Rightarrow> addr option list \<Rightarrow> bytes \<Rightarrow> nat option res" where
  "ht_find cmp ht items key =
     rbind (fnv1a_hash key) (\<lambda>hash.
     rbind (umod (unat hash) (ht_size ht)) (\<lambda>index.
       ht_scan cmp (ht_size ht) items (ht_entries ht) key index (ht_size ht)))"

definition ht_get :: "'v HashTable \<Rightarrow> bytes option \<Rightarrow> addr option res" where
  "ht_get ht key =
     (case (ht_items ht, key) of
        (Some items, Some k) \<Rightarrow>
          rbind (ht_find (ht_comparator ht) ht items k) (\<lambda>r.
            (case r of None \<Rightarrow> Inr None | Some index \<Rightarrow> elem items index))
      | _ \<Rightarrow> Inr None)"

definition ht_delete_entry :: "'v HashTable \<Rightarrow> nat \<Rightarrow> ('v option \<times> 'v HashTable) res" where
  "ht_delete_entry ht index =
     (case ht_items ht of None \<Rightarrow> Inr (None, ht)
      | Some items \<Rightarrow>
          rbind (elem items index) (\<lambda>item.
            (case item of None \<Rightarrow> Inr (None, ht)
             | Some a \<Rightarrow>
                 rbind (load (ht_entries ht) a) (\<lambda>e.
                 rbind (modify (ht_entries ht) a (\<lambda>e. e\<lparr>e_ptr := None\<rparr>)) (\<lambda>st.
                 rbind (dqhtentry_destroy st (Some a)) (\<lambda>st'.
                   Inr (e_ptr e, ht\<lparr>ht_items := Some (items[index := None]),
                                    ht_entries := st', ht_count := usize_dec (ht_count ht)\<rparr>)))))))"

definition ht_delete :: "'v HashTable \<Rightarrow> bytes option \<Rightarrow> ('v option \<times> 'v HashTable) res" where
  "ht_delete ht key =
     (case (ht_items ht, key) of
        (Some items, Some k) \<Rightarrow>
          rbind (ht_find (ht_comparator ht) ht items k) (\<lambda>r.
            (case r of None \<Rightarrow> Inr (None, ht) | Some index \<Rightarrow> ht_delete_entry ht index))
      | _ \<Rightarrow> Inr (None, ht))"

text \<open>\<open>default_comparator\<close> of \<open>dq_hashtable.c\<close>, also \<open>default_key_compare\<close> of \<open>main.c\<close>: the
  \<open>size_t\<close> result of \<open>key_cmp\<close> returned as an \<open>int\<close>.\<close>

definition default_comparator :: "'v comparator" where
  "default_comparator key1 key2 ignored =
     rbind (key_cmp key1 key2) (\<lambda>c. Inr (sint (ucast c :: 32 word)))"

section \<open>Invariant and abstraction\<close>

definition addrs :: "addr option list \<Rightarrow> addr set" where
  "addrs items = {a. Some a \<in> set items}"

definition key_of :: "'v store \<Rightarrow> addr \<Rightarrow> bytes option" where
  "key_of st a = Option.bind (st a) e_key"

definition slot_key :: "addr option list \<Rightarrow> 'v store \<Rightarrow> nat \<Rightarrow> bytes option" where
  "slot_key items st i = Option.bind (items ! i) (key_of st)"

definition good_entry :: "'v DQHTEntry \<Rightarrow> bool" where
  "good_entry e \<longleftrightarrow> (\<exists>k. e_key e = Some k \<and> wf_key k) \<and> e_ptr e \<noteq> None"

text \<open>An array agrees with a store: every slot holds a live entry that records the slot's
  index, and no two entries have the same key.\<close>

definition tab :: "addr option list \<Rightarrow> 'v store \<Rightarrow> bool" where
  "tab items st \<longleftrightarrow>
     (\<forall>i a. i < length items \<longrightarrow> items ! i = Some a \<longrightarrow>
        (\<exists>e. st a = Some e \<and> e_index e = i \<and> good_entry e))
     \<and> inj_on (key_of st) (addrs items)"

definition cmp_ok :: "'v comparator option \<Rightarrow> bool" where
  "cmp_ok cmp \<longleftrightarrow>
     (\<exists>f. cmp = Some f \<and> (\<forall>k1 k2 e. wf_key k1 \<longrightarrow> wf_key k2 \<longrightarrow>
        (\<exists>c. f (Some k1) (Some k2) e = Inr c \<and> (c = 0 \<longleftrightarrow> k1 = k2))))"

definition ht_wf :: "'v HashTable \<Rightarrow> bool" where
  "ht_wf ht \<longleftrightarrow>
     (\<exists>items. ht_items ht = Some items \<and> length items = ht_size ht \<and> 0 < ht_size ht
        \<and> ht_count ht = card (addrs items) \<and> ht_count ht \<le> ht_size ht div 2
        \<and> tab items (ht_entries ht) \<and> dom (ht_entries ht) = addrs items
        \<and> cmp_ok (ht_comparator ht))"

text \<open>What a client of the table sees of an entry: everything but its slot.\<close>

type_synonym 'v eview = "bytes option \<times> 'v option \<times> addr option \<times> addr option"

definition view :: "'v store \<Rightarrow> addr \<Rightarrow> 'v eview option" where
  "view st a = map_option (\<lambda>e. (e_key e, e_ptr e, e_prev e, e_next e)) (st a)"

text \<open>The map a table implements.\<close>

definition ht_map :: "'v HashTable \<Rightarrow> bytes \<Rightarrow> 'v option" where
  "ht_map ht k =
     Option.bind (ht_items ht) (\<lambda>items.
     Option.bind (find (\<lambda>item. Option.bind item (key_of (ht_entries ht)) = Some k) items) (\<lambda>item.
     Option.bind item (\<lambda>a. Option.bind (ht_entries ht a) e_ptr)))"

text \<open>The keys a view mentions, and stores whose addresses the allocator has handed out.\<close>

definition view_keys :: "(addr \<Rightarrow> 'v eview option) \<Rightarrow> bytes set" where
  "view_keys V = {k. \<exists>a v p n. V a = Some (Some k, v, p, n)}"

definition ht_owned :: "'z mem_scheme \<Rightarrow> 'v HashTable \<Rightarrow> bool" where
  "ht_owned m ht \<longleftrightarrow> dom (ht_entries ht) \<subseteq> {..<allocs m}"

definition probe_seq :: "nat \<Rightarrow> nat \<Rightarrow> nat \<Rightarrow> nat list" where
  "probe_seq index sz n = map (\<lambda>j. (index + j) mod sz) [0..<n]"

section \<open>Lemmas\<close>

lemma addrs_update:
  assumes "i < length items" and "items ! i = None"
  shows "addrs (items[i := Some a]) = insert a (addrs items)"
  using assms unfolding addrs_def
  by (auto simp: in_set_conv_nth nth_list_update) (metis nth_list_update_neq option.distinct(1))+

lemma addrs_nth: "i < length items \<Longrightarrow> items ! i = Some a \<Longrightarrow> a \<in> addrs items"
  by (metis addrs_def mem_Collect_eq nth_mem)

lemma addrs_replicate [simp]: "addrs (replicate n None) = {}"
  by (auto simp: addrs_def)

lemma finite_addrs [simp]: "finite (addrs items)"
proof -
  have "Some ` addrs items \<subseteq> set items" by (auto simp: addrs_def)
  then show ?thesis by (meson List.finite_set finite_imageD finite_subset inj_Some inj_on_subset subset_UNIV)
qed

lemma tabD:
  assumes "tab items st" and "i < length items" and "items ! i = Some a"
  obtains e k v where "st a = Some e" "e_index e = i" "e_key e = Some k" "wf_key k" "e_ptr e = Some v"
  using assms unfolding tab_def good_entry_def by blast

lemma tab_slot_inj:
  assumes "tab items st" "i < length items" "j < length items" "items ! i = Some a" "items ! j = Some a"
  shows "i = j"
  using assms by (metis tabD option.inject)

lemma tab_key_slot:
  assumes "tab items st" "i < length items" "j < length items"
    and "slot_key items st i = Some k" "slot_key items st j = Some k"
  shows "i = j"
proof -
  from assms obtain a b where ab: "items ! i = Some a" "items ! j = Some b"
    "key_of st a = Some k" "key_of st b = Some k"
    by (auto simp: slot_key_def bind_eq_Some_conv)
  with assms have "a = b"
    by (metis addrs_nth inj_onD tab_def)
  with assms ab show ?thesis by (metis tab_slot_inj)
qed

lemma tab_slot_key_wf:
  assumes "tab items st" "i < length items" "slot_key items st i = Some k"
  shows "wf_key k"
  using assms by (auto simp: slot_key_def key_of_def bind_eq_Some_conv elim!: tabD)

lemma probe_seq_Suc:
  "index < sz \<Longrightarrow> probe_seq index sz (Suc n) = index # probe_seq ((index + 1) mod sz) sz n"
proof -
  assume "index < sz"
  have "probe_seq index sz (Suc n) = (index mod sz) # map (\<lambda>j. (index + Suc j) mod sz) [0..<n]"
    by (simp add: probe_seq_def upt_conv_Cons map_Suc_upt [symmetric] del: upt_Suc)
  also have "map (\<lambda>j. (index + Suc j) mod sz) [0..<n] = probe_seq ((index + 1) mod sz) sz n"
    by (simp add: probe_seq_def mod_simps)
  finally show ?thesis using \<open>index < sz\<close> by simp
qed

lemma probe_seq_0 [simp]: "probe_seq index sz 0 = []"
  by (simp add: probe_seq_def)

lemma set_probe_seq: "0 < sz \<Longrightarrow> set (probe_seq index sz sz) = {..<sz}"
proof
  assume "0 < sz"
  show "set (probe_seq index sz sz) \<subseteq> {..<sz}" using \<open>0 < sz\<close> by (auto simp: probe_seq_def)
  show "{..<sz} \<subseteq> set (probe_seq index sz sz)"
  proof
    fix i assume "i \<in> {..<sz}"
    then have i: "i < sz" by simp
    define r where "r = index mod sz"
    define j where "j = (if r \<le> i then i - r else i + sz - r)"
    have r: "r < sz" using \<open>0 < sz\<close> by (simp add: r_def)
    have "(index + j) mod sz = (r + j) mod sz" by (simp add: r_def mod_simps)
    also have "\<dots> = i" using i r by (auto simp: j_def)
    finally have "i = (index + j) mod sz" by simp
    moreover have "j < sz" using i r by (auto simp: j_def)
    ultimately show "i \<in> set (probe_seq index sz sz)" by (auto simp: probe_seq_def)
  qed
qed

lemma ht_scan_find:
  assumes "tab items st" and "length items = sz" and "0 < sz" and "cmp_ok cmp" and "wf_key key"
    and "index < sz"
  shows "ht_scan cmp sz items st key index n =
    Inr (find (\<lambda>i. slot_key items st i = Some key) (probe_seq index sz n))"
  using assms(6)
proof (induction n arbitrary: index)
  case (Suc n)
  obtain f where f: "cmp = Some f"
    "\<And>k1 k2 e. wf_key k1 \<Longrightarrow> wf_key k2 \<Longrightarrow> \<exists>c. f (Some k1) (Some k2) e = Inr c \<and> (c = 0 \<longleftrightarrow> k1 = k2)"
    using assms(4) unfolding cmp_ok_def by blast
  have next_ok: "(index + 1) mod sz < sz" using assms(3) by simp
  show ?case
  proof (cases "items ! index")
    case None
    then show ?thesis
      using Suc.prems assms(2) Suc.IH [OF next_ok] by (simp add: probe_seq_Suc slot_key_def)
  next
    case (Some a)
    then obtain e k where e: "st a = Some e" "e_key e = Some k" "wf_key k"
      using assms(1,2) Suc.prems by (auto elim: tabD)
    then obtain c where "f (Some key) (Some k) e = Inr c" "c = 0 \<longleftrightarrow> key = k"
      using f(2) [OF assms(5)] by blast
    then show ?thesis
      using Suc.prems assms(2) Suc.IH [OF next_ok] Some e f(1)
      by (auto simp: probe_seq_Suc slot_key_def key_of_def load_def)
  qed
qed simp

lemma find_slot_Some:
  assumes "tab items st" and "length items = sz" and "0 < sz" and "i < sz"
    and "slot_key items st i = Some key"
  shows "find (\<lambda>i. slot_key items st i = Some key) (probe_seq index sz sz) = Some i"
proof -
  have "i \<in> set (probe_seq index sz sz)" using assms by (simp add: set_probe_seq)
  then obtain j where j: "find (\<lambda>i. slot_key items st i = Some key) (probe_seq index sz sz) = Some j"
    using assms(5) find_ex [of i _ "\<lambda>i. slot_key items st i = Some key"] by blast
  from find_SomeD [OF j] have "slot_key items st j = Some key" "j \<in> set (probe_seq index sz sz)"
    by auto
  moreover from this(2) have "j < sz" using set_probe_seq [OF assms(3)] by auto
  ultimately have "j = i"
    using tab_key_slot [OF assms(1), of j i key] assms(2,4,5) by simp
  with j show ?thesis by simp
qed

lemma ht_find_wf:
  assumes "tab items (ht_entries ht)" and "length items = ht_size ht" and "0 < ht_size ht"
    and "cmp_ok cmp" and "wf_key key"
  shows "ht_find cmp ht items key =
    Inr (find (\<lambda>i. slot_key items (ht_entries ht) i = Some key)
      (probe_seq (unat (fnv key) mod ht_size ht) (ht_size ht) (ht_size ht)))"
  using assms by (simp add: ht_find_def fnv1a_wf ht_scan_find)

lemma ht_insert_probe_find:
  assumes "tab items st" and "length items = sz" and "0 < sz" and "wf_key key" and "index < sz"
  shows "ht_insert_probe items st sz key index n =
    (case find (\<lambda>i. items ! i = None \<or> slot_key items st i = Some key) (probe_seq index sz n) of
       Some i \<Rightarrow> Inr (items ! i \<noteq> None, i)
     | None \<Rightarrow> Inr (False, (index + n) mod sz))"
  using assms(5)
proof (induction n arbitrary: index)
  case (Suc n)
  have next_ok: "(index + 1) mod sz < sz" using assms(3) by simp
  have step: "((index + 1) mod sz + n) mod sz = (index + Suc n) mod sz" by (simp add: mod_simps)
  show ?case
  proof (cases "items ! index")
    case None
    then show ?thesis using Suc.prems assms(2) by (simp add: probe_seq_Suc)
  next
    case (Some a)
    then obtain e k where e: "st a = Some e" "e_key e = Some k" "wf_key k"
      using assms(1,2) Suc.prems by (auto elim: tabD)
    then show ?thesis
      using Suc.prems assms(2,4) Suc.IH [OF next_ok] Some step
      by (auto simp: probe_seq_Suc slot_key_def key_of_def load_def key_cmp_wf split: option.split)
  qed
qed simp

lemma tab_free_slot:
  assumes "tab items st" and "card (addrs items) < length items"
  shows "\<exists>i<length items. items ! i = None"
proof (rule ccontr)
  assume "\<not> ?thesis"
  then have some: "\<exists>a. items ! i = Some a" if "i < length items" for i using that by auto
  have "inj_on (\<lambda>i. the (items ! i)) {..<length items}"
    using some tab_slot_inj [OF assms(1)] by (intro inj_onI) (metis lessThan_iff option.sel)
  moreover have "(\<lambda>i. the (items ! i)) ` {..<length items} \<subseteq> addrs items"
    using some addrs_nth by fastforce
  ultimately have "card {..<length items} \<le> card (addrs items)"
    by (rule card_inj_on_le) simp
  with assms(2) show False by simp
qed

lemma tab_add:
  assumes t: "tab items st" and i: "i < length items" "items ! i = None" and a: "a \<notin> addrs items"
    and e: "good_entry e" "e_key e \<notin> key_of st ` addrs items"
  shows "tab (items[i := Some a]) (st(a \<mapsto> e\<lparr>e_index := i\<rparr>))"
proof -
  let ?st = "st(a \<mapsto> e\<lparr>e_index := i\<rparr>)"
  have same: "key_of ?st b = key_of st b" if "b \<in> addrs items" for b
    using that a by (auto simp: key_of_def)
  have "inj_on (key_of ?st) (insert a (addrs items))"
    using t a e(2) same unfolding tab_def inj_on_insert
    by (auto simp: inj_on_def key_of_def)
  moreover have "\<exists>e'. ?st b = Some e' \<and> e_index e' = j \<and> good_entry e'"
    if "j < length items" "items[i := Some a] ! j = Some b" for j b
    using that t i a e(1) addrs_nth [of j items b]
    by (cases "j = i") (auto simp: tab_def good_entry_def)
  ultimately show ?thesis
    unfolding tab_def by (auto simp: addrs_update [OF i])
qed

lemma addrs_clear:
  assumes "tab items st" and "i < length items" and "items ! i = Some a"
  shows "addrs (items[i := None]) = addrs items - {a}"
proof -
  have "b \<in> addrs (items[i := None]) \<longleftrightarrow> b \<in> addrs items \<and> b \<noteq> a" for b
  proof
    assume "b \<in> addrs (items[i := None])"
    then obtain j where j: "j < length items" "items[i := None] ! j = Some b"
      by (auto simp: addrs_def in_set_conv_nth)
    then have "j \<noteq> i" "items ! j = Some b" using assms(2) by (auto simp: nth_list_update split: if_splits)
    with j show "b \<in> addrs items \<and> b \<noteq> a"
      using assms tab_slot_inj [OF assms(1) j(1) assms(2)] addrs_nth by blast
  next
    assume "b \<in> addrs items \<and> b \<noteq> a"
    then obtain j where "j < length items" "items ! j = Some b" "b \<noteq> a"
      by (auto simp: addrs_def in_set_conv_nth)
    moreover from this have "j \<noteq> i" using assms(3) by auto
    ultimately show "b \<in> addrs (items[i := None])"
      by (intro addrs_nth [of j]) simp_all
  qed
  then show ?thesis by auto
qed

lemma tab_remove:
  assumes "tab items st" and "i < length items" and "items ! i = Some a"
  shows "tab (items[i := None]) (st(a := None))"
proof -
  have "\<exists>e. (st(a := None)) b = Some e \<and> e_index e = j \<and> good_entry e"
    if "j < length items" "items[i := None] ! j = Some b" for j b
  proof -
    have "j \<noteq> i" "items ! j = Some b" using that assms(2) by (auto simp: nth_list_update split: if_splits)
    then have "b \<noteq> a" using assms that(1) tab_slot_inj by metis
    with \<open>items ! j = Some b\<close> that(1) assms(1) show ?thesis by (auto simp: tab_def)
  qed
  moreover have "inj_on (key_of (st(a := None))) (addrs items - {a})"
    using assms(1) by (auto simp: tab_def inj_on_def key_of_def)
  ultimately show ?thesis unfolding tab_def by (auto simp: addrs_clear [OF assms])
qed

lemma view_index [simp]:
  "st a = Some e \<Longrightarrow> view (st(a \<mapsto> e\<lparr>e_index := i\<rparr>)) = view st"
  by (auto simp: view_def fun_eq_iff)

lemma view_upd: "view (st(a \<mapsto> e)) = (view st)(a \<mapsto> (e_key e, e_ptr e, e_prev e, e_next e))"
  by (auto simp: view_def fun_eq_iff)

lemma view_del: "view (st(a := None)) = (view st)(a := None)"
  by (auto simp: view_def fun_eq_iff)

lemma key_of_view: "key_of st a = Option.bind (view st a) fst"
  by (cases "st a") (auto simp: key_of_def view_def)

lemma view_keys_iff: "k \<in> view_keys (view st) \<longleftrightarrow> (\<exists>a. key_of st a = Some k)"
  by (auto simp: key_of_def view_def view_keys_def bind_eq_Some_conv)

lemma dom_view: "dom (view st) = dom st"
  by (auto simp: view_def dom_def)

lemma ht_resize_insert_find:
  assumes "tab items st" and "length items = sz" and "0 < sz" and "st a = Some e"
    and "good_entry e" and "e_key e \<notin> key_of st ` addrs items" and "index < sz"
  shows "ht_resize_insert items st sz a index n =
    (case find (\<lambda>i. items ! i = None) (probe_seq index sz n) of
       Some j \<Rightarrow> Inr (0, items[j := Some a], st(a \<mapsto> e\<lparr>e_index := j\<rparr>))
     | None \<Rightarrow> Inl Hang)"
  using assms(7)
proof (induction n arbitrary: index)
  case (Suc n)
  have next_ok: "(index + 1) mod sz < sz" using assms(3) by simp
  obtain key where key: "e_key e = Some key" "wf_key key"
    using assms(5) by (auto simp: good_entry_def)
  show ?case
  proof (cases "items ! index")
    case None
    then show ?thesis
      using Suc.prems assms(2,4) by (simp add: probe_seq_Suc modify_def load_def)
  next
    case (Some b)
    then obtain e' k where e': "st b = Some e'" "e_key e' = Some k" "wf_key k"
      using assms(1,2) Suc.prems by (auto elim: tabD)
    moreover have "b \<in> addrs items" using Some Suc.prems assms(2) addrs_nth by metis
    then have "key_of st b \<in> key_of st ` addrs items" by simp
    then have "k \<noteq> key" using assms(6) e' key by (auto simp: key_of_def)
    ultimately show ?thesis
      using Suc.prems assms(2,4) Suc.IH [OF next_ok] Some key
      by (auto simp: probe_seq_Suc load_def key_cmp_wf)
  qed
qed simp

lemma ht_resize_insert_ok:
  assumes "tab items st" and "length items = sz" and "card (addrs items) < sz" and "st a = Some e"
    and "good_entry e" and "e_key e \<notin> key_of st ` addrs items" and "index < sz"
  obtains j where "j < sz" and "items ! j = None"
    and "ht_resize_insert items st sz a index sz =
      Inr (0, items[j := Some a], st(a \<mapsto> e\<lparr>e_index := j\<rparr>))"
proof -
  have "0 < sz" using assms(3) by simp
  obtain i where "i < sz" "items ! i = None" using tab_free_slot assms(1-3) by metis
  then obtain j where j: "find (\<lambda>i. items ! i = None) (probe_seq index sz sz) = Some j"
    using find_ex [of i _ "\<lambda>i. items ! i = None"] set_probe_seq [OF \<open>0 < sz\<close>] by blast
  with find_SomeD [OF j] set_probe_seq [OF \<open>0 < sz\<close>, of index] show ?thesis
    using that ht_resize_insert_find [OF assms(1,2) \<open>0 < sz\<close> assms(4-7), of sz] by auto
qed

lemma tab_cong:
  "tab items st \<Longrightarrow> (\<And>a. a \<in> addrs items \<Longrightarrow> st' a = st a) \<Longrightarrow> tab items st'"
  unfolding tab_def by (auto simp: inj_on_def key_of_def addrs_nth)

lemma ht_resize_loop_ok:
  assumes "tab new st" and "length new = nsz"
    and "distinct (filter (\<lambda>x. x \<noteq> None) olds)"
    and "\<forall>a\<in>addrs olds. \<exists>e. st a = Some e \<and> good_entry e"
    and "addrs olds \<inter> addrs new = {}"
    and "inj_on (key_of st) (addrs olds \<union> addrs new)"
    and "card (addrs olds) + card (addrs new) \<le> nsz"
  shows "\<exists>new' st'. ht_resize_loop olds new st nsz = Inr (0, new', st') \<and> tab new' st'
    \<and> length new' = nsz \<and> addrs new' = addrs olds \<union> addrs new \<and> view st' = view st"
  using assms
proof (induction olds new st nsz rule: ht_resize_loop.induct)
  case (1 new st nsz)
  then show ?case by (auto simp: addrs_def)
next
  case (2 olds new st nsz)
  have "addrs (None # olds) = addrs olds" by (auto simp: addrs_def)
  with 2 show ?case by simp
next
  case (3 a olds new st nsz)
  have ad: "addrs (Some a # olds) = insert a (addrs olds)" by (auto simp: addrs_def)
  have a: "a \<notin> addrs olds" using "3.prems"(3) by (auto simp: addrs_def)
  obtain e k where e: "st a = Some e" "good_entry e" "e_key e = Some k" "wf_key k"
    using "3.prems"(4) unfolding ad good_entry_def by blast
  have card: "card (addrs new) < nsz" using "3.prems"(7) a by (simp add: ad)
  then have idx: "unat (fnv k) mod nsz < nsz" by simp
  have fresh: "e_key e \<notin> key_of st ` addrs new"
    using "3.prems"(5,6) e(1) unfolding ad by (auto simp: inj_on_def key_of_def)
  obtain j where j: "j < nsz" "new ! j = None"
    "ht_resize_insert new st nsz a (unat (fnv k) mod nsz) nsz =
       Inr (0, new[j := Some a], st(a \<mapsto> e\<lparr>e_index := j\<rparr>))"
    using ht_resize_insert_ok [OF "3.prems"(1,2) card e(1,2) fresh idx] .
  let ?new = "new[j := Some a]" and ?st = "st(a \<mapsto> e\<lparr>e_index := j\<rparr>)"
  have adn: "addrs ?new = insert a (addrs new)" using addrs_update j "3.prems"(2) by metis
  have ko: "key_of ?st = key_of st" using e(1) by (auto simp: key_of_view fun_eq_iff)
  have "\<exists>new' st'. ht_resize_loop olds ?new ?st nsz = Inr (0, new', st') \<and> tab new' st'
    \<and> length new' = nsz \<and> addrs new' = addrs olds \<union> addrs ?new \<and> view st' = view ?st"
  proof (rule "3.IH" [where x = e and xa = k and xb = "fnv k" and xc = "unat (fnv k) mod nsz"
        and y = "(?new, ?st)"])
    show "tab ?new ?st"
      using tab_add [OF "3.prems"(1)] j "3.prems"(2,5) e fresh by (auto simp: ad)
    show "inj_on (key_of ?st) (addrs olds \<union> addrs ?new)"
      using "3.prems"(6) by (simp add: ad adn ko)
    show "card (addrs olds) + card (addrs ?new) \<le> nsz"
      using "3.prems"(5,7) a by (simp add: ad adn)
  qed (use "3.prems" a e j card in \<open>auto simp: ad adn load_def fnv1a_wf\<close>)
  moreover have "ht_resize_loop (Some a # olds) new st nsz = ht_resize_loop olds ?new ?st nsz"
    using e j(3) card by (simp add: load_def fnv1a_wf)
  moreover have "addrs (Some a # olds) \<union> addrs new = addrs olds \<union> addrs ?new"
    by (auto simp: ad adn)
  ultimately show ?case using e(1) by simp
qed

lemma tab_distinct: "tab items st \<Longrightarrow> distinct (filter (\<lambda>x. x \<noteq> None) items)"
proof -
  assume t: "tab items st"
  have "distinct (map (\<lambda>i. items ! i) (filter (\<lambda>i. items ! i \<noteq> None) [0..<length items]))"
    using tab_slot_inj [OF t] by (auto simp: distinct_map inj_on_def)
  moreover have "map (\<lambda>i. items ! i) (filter (\<lambda>i. items ! i \<noteq> None) [0..<length items])
      = filter (\<lambda>x. x \<noteq> None) items"
    by (metis (mono_tags, lifting) comp_apply filter_cong filter_map map_nth)
  ultimately show ?thesis by simp
qed

lemma tab_good: "tab items st \<Longrightarrow> a \<in> addrs items \<Longrightarrow> \<exists>e. st a = Some e \<and> good_entry e"
  unfolding addrs_def mem_Collect_eq in_set_conv_nth tab_def by blast

lemma ht_wfD:
  assumes "ht_wf ht"
  obtains items where "ht_items ht = Some items" "length items = ht_size ht" "0 < ht_size ht"
    "ht_count ht = card (addrs items)" "ht_count ht \<le> ht_size ht div 2"
    "tab items (ht_entries ht)" "dom (ht_entries ht) = addrs items" "cmp_ok (ht_comparator ht)"
  using assms unfolding ht_wf_def by blast

lemma ht_resize_wf:
  assumes "ht_wf ht" and "never_fails m" and "ht_size ht < 2 ^ 59"
  shows "\<exists>ht'. ht_resize m ht = Inr (0, ht', m\<lparr>allocs := Suc (allocs m)\<rparr>)
    \<and> ht_wf ht' \<and> ht_size ht' = 2 * ht_size ht \<and> ht_count ht' = ht_count ht
    \<and> ht_comparator ht' = ht_comparator ht \<and> view (ht_entries ht') = view (ht_entries ht)"
proof -
  obtain items where w: "ht_items ht = Some items" "length items = ht_size ht" "0 < ht_size ht"
    "ht_count ht = card (addrs items)" "ht_count ht \<le> ht_size ht div 2"
    "tab items (ht_entries ht)" "dom (ht_entries ht) = addrs items" "cmp_ok (ht_comparator ht)"
    using assms(1) by (rule ht_wfD)
  let ?n = "2 * ht_size ht"
  have c2: "card (addrs items) \<le> ?n" using w(4,5) by linarith
  have inj: "inj_on (key_of (ht_entries ht)) (addrs items)" using w(6) by (simp add: tab_def)
  have "tab (replicate ?n None) (ht_entries ht)" by (simp add: tab_def)
  from ht_resize_loop_ok [OF this, where nsz = ?n and olds = items]
  obtain new st where l: "ht_resize_loop items (replicate ?n None) (ht_entries ht) ?n = Inr (0, new, st)"
    "tab new st" "length new = ?n" "addrs new = addrs items" "view st = view (ht_entries ht)"
    using c2 inj tab_distinct [OF w(6)] tab_good [OF w(6)] by auto
  have "usize (ht_size ht * 2) = ?n" using assms(3) by simp
  moreover have "am_calloc m ?n 8 = (Some (allocs m), m\<lparr>allocs := Suc (allocs m)\<rparr>)"
    using assms by (intro am_calloc_ok) simp_all
  ultimately have "ht_resize m ht = Inr (0, ht\<lparr>ht_items := Some new, ht_size := ?n, ht_entries := st\<rparr>,
      m\<lparr>allocs := Suc (allocs m)\<rparr>)"
    using w l by (simp add: ht_resize_def Let_def)
  moreover have "dom st = addrs items" using l(5) w(7) by (metis dom_view)
  then have "ht_wf (ht\<lparr>ht_items := Some new, ht_size := ?n, ht_entries := st\<rparr>)"
    using w l unfolding ht_wf_def by auto
  ultimately show ?thesis using l(5) by auto
qed

lemma wf_key_of_view:
  assumes "ht_wf ht" and "view (ht_entries ht) a = Some (Some k, v, p, n)"
  shows "wf_key k"
proof -
  obtain items where "tab items (ht_entries ht)" "dom (ht_entries ht) = addrs items"
    using ht_wfD [OF assms(1)] .
  moreover have "a \<in> dom (ht_entries ht)" using assms(2) by (auto simp: view_def)
  ultimately show ?thesis
    using assms(2) tab_good [of items "ht_entries ht" a] by (auto simp: view_def good_entry_def)
qed

lemma ht_insert_probe_absent:
  assumes t: "tab items st" and sz: "length items = sz" "0 < sz" and k: "wf_key k"
    "k \<notin> view_keys (view st)" and c: "card (addrs items) < length items"
  shows "\<exists>j < sz. ht_insert_probe items st sz k (unat (fnv k) mod sz) sz = Inr (False, j) \<and> items ! j = None"
proof -
  let ?P = "\<lambda>i. items ! i = None \<or> slot_key items st i = Some k" and ?i0 = "unat (fnv k) mod sz"
  have nokey: "slot_key items st i \<noteq> Some k" for i
    using k(2) by (auto simp: slot_key_def view_keys_iff bind_eq_Some_conv)
  obtain i where "i < sz" "items ! i = None" using tab_free_slot [OF t c] sz by metis
  then obtain j where j: "find ?P (probe_seq ?i0 sz sz) = Some j"
    using find_ex [of i _ ?P] set_probe_seq [OF sz(2)] by blast
  with find_SomeD [OF j] set_probe_seq [OF sz(2), of ?i0] nokey
  have "j < sz" "items ! j = None" by auto
  with ht_insert_probe_find [OF t sz k(1), of ?i0 sz] j sz(2) show ?thesis by auto
qed

lemma ht_insert_at_absent:
  assumes wf: "ht_wf ht" and room: "ht_count ht < ht_size ht div 2" and sz: "ht_size ht < 2 ^ 64"
    and mem: "never_fails m" "ht_owned m ht"
    and key: "wf_key k" "k \<notin> view_keys (view (ht_entries ht))"
  shows "\<exists>ht'. ht_insert_at m ht k v =
      Inr (\<lparr>ins_code = 0, ins_entry = Some (allocs m), ins_overridden = None\<rparr>, ht',
           m\<lparr>allocs := allocs m + 2\<rparr>)
    \<and> ht_wf ht' \<and> ht_size ht' = ht_size ht \<and> ht_count ht' = Suc (ht_count ht)
    \<and> ht_comparator ht' = ht_comparator ht
    \<and> view (ht_entries ht') = (view (ht_entries ht))(allocs m \<mapsto> (Some k, Some v, None, None))"
proof -
  obtain items where w: "ht_items ht = Some items" "length items = ht_size ht" "0 < ht_size ht"
    "ht_count ht = card (addrs items)" "ht_count ht \<le> ht_size ht div 2"
    "tab items (ht_entries ht)" "dom (ht_entries ht) = addrs items" "cmp_ok (ht_comparator ht)"
    using wf by (rule ht_wfD)
  let ?st = "ht_entries ht" and ?i0 = "unat (fnv k) mod ht_size ht" and ?a = "allocs m"
  have "card (addrs items) < length items" using room w by linarith
  then obtain j where jj: "j < ht_size ht" "items ! j = None"
    and p: "ht_insert_probe items ?st (ht_size ht) k ?i0 (ht_size ht) = Inr (False, j)"
    using ht_insert_probe_absent [OF w(6,2,3) key] by blast
  let ?e = "\<lparr>e_key = Some k, e_length = of_nat (length k), e_ptr = Some v, e_index = 0,
      e_prev = None, e_next = None\<rparr>"
  have c: "dqhtentry_create m k (Some v) = Inr (Some (?a, ?e), m\<lparr>allocs := ?a + 2\<rparr>)"
    using mem(1) key(1)
    by (simp add: dqhtentry_create_def dqhtentry_create_full_def am_malloc_ok wf_key_size key_clone_wf)
  let ?ht = "ht\<lparr>ht_items := Some (items[j := Some ?a]), ht_entries := ?st(?a \<mapsto> ?e\<lparr>e_index := j\<rparr>),
      ht_count := usize (ht_count ht + 1)\<rparr>"
  have run: "ht_insert_at m ht k v = Inr (\<lparr>ins_code = 0, ins_entry = Some ?a, ins_overridden = None\<rparr>,
      ?ht, m\<lparr>allocs := ?a + 2\<rparr>)"
    unfolding ht_insert_at_def using w(1,3) key(1) p c by (simp add: fnv1a_wf)
  have fresh: "?a \<notin> addrs items" using mem(2) w(7) by (auto simp: ht_owned_def)
  have "tab (items[j := Some ?a]) (?st(?a \<mapsto> ?e\<lparr>e_index := j\<rparr>))"
  proof (rule tab_add)
    show "e_key ?e \<notin> key_of ?st ` addrs items"
      using key(2) by (force simp: view_keys_iff)
  qed (use w jj key fresh in \<open>auto simp: good_entry_def\<close>)
  moreover have "addrs (items[j := Some ?a]) = insert ?a (addrs items)" using addrs_update jj w(2) by metis
  moreover have "usize (ht_count ht + 1) = Suc (ht_count ht)" using room sz by simp
  ultimately have "ht_wf ?ht"
    unfolding ht_wf_def using w room fresh by auto
  with run \<open>usize (ht_count ht + 1) = Suc (ht_count ht)\<close> show ?thesis
    by (auto simp: view_upd)
qed

lemma ht_insert_absent:
  assumes wf: "ht_wf ht" and sz: "ht_size ht < 2 ^ 59"
    and mem: "never_fails m" "ht_owned m ht"
    and key: "wf_key k" "k \<notin> view_keys (view (ht_entries ht))"
  shows "\<exists>ht' a n. ht_insert m ht k (Some v) =
      Inr (\<lparr>ins_code = 0, ins_entry = Some a, ins_overridden = None\<rparr>, ht', m\<lparr>allocs := n\<rparr>)
    \<and> ht_wf ht' \<and> ht_owned (m\<lparr>allocs := n\<rparr>) ht' \<and> ht_count ht' = Suc (ht_count ht)
    \<and> ht_size ht' \<le> max (ht_size ht) (4 * ht_count ht + 2)
    \<and> ht_comparator ht' = ht_comparator ht
    \<and> a \<notin> dom (ht_entries ht) \<and> allocs m \<le> a \<and> a < n
    \<and> view (ht_entries ht') = (view (ht_entries ht))(a \<mapsto> (Some k, Some v, None, None))"
proof -
  obtain items where items: "ht_items ht = Some items" using wf by (rule ht_wfD)
  have owned: "ht_owned (m'\<lparr>allocs := n\<rparr>) ht'"
    if "view (ht_entries ht') = (view st)(a \<mapsto> x)" "dom st \<subseteq> {..<allocs m'}" "allocs m' \<le> n" "a < n"
    for m' ht' a x st n
  proof -
    have "dom (ht_entries ht') = insert a (dom st)"
      using that(1) dom_view [of "ht_entries ht'"] dom_view [of st] by simp
    then show ?thesis using that(2-4) by (auto simp: ht_owned_def)
  qed
  have fresh: "b \<notin> dom (ht_entries ht)" if "allocs m \<le> b" for b
    using mem(2) that unfolding ht_owned_def by (meson leD lessThan_iff subsetD)
  have dom: "dom (ht_entries ht) \<subseteq> {..<allocs m}" using mem(2) by (simp add: ht_owned_def)
  show ?thesis
  proof (cases "ht_count ht < ht_size ht div 2")
    case True
    from ht_insert_at_absent [OF wf this _ mem key, of v] sz obtain ht' where
      r: "ht_insert_at m ht k v = Inr (\<lparr>ins_code = 0, ins_entry = Some (allocs m), ins_overridden = None\<rparr>,
        ht', m\<lparr>allocs := allocs m + 2\<rparr>)"
      "ht_wf ht'" "ht_size ht' = ht_size ht" "ht_count ht' = Suc (ht_count ht)"
      "ht_comparator ht' = ht_comparator ht"
      "view (ht_entries ht') = (view (ht_entries ht))(allocs m \<mapsto> (Some k, Some v, None, None))"
      by auto
    have "ht_owned (m\<lparr>allocs := allocs m + 2\<rparr>) ht'" by (rule owned [OF r(6) dom]) simp_all
    with r items True fresh [of "allocs m"] show ?thesis
      by (intro exI [of _ ht'] exI [of _ "allocs m"] exI [of _ "allocs m + 2"])
        (auto simp: ht_insert_def)
  next
    case False
    let ?m1 = "m\<lparr>allocs := Suc (allocs m)\<rparr>"
    from ht_resize_wf [OF wf mem(1) sz] obtain h1 where
      h1: "ht_resize m ht = Inr (0, h1, ?m1)" "ht_wf h1" "ht_size h1 = 2 * ht_size ht"
      "ht_count h1 = ht_count ht" "ht_comparator h1 = ht_comparator ht"
      "view (ht_entries h1) = view (ht_entries ht)" by blast
    have d1: "dom (ht_entries h1) = dom (ht_entries ht)" using h1(6) by (metis dom_view)
    have pos: "0 < ht_size ht" "ht_count ht \<le> ht_size ht div 2" using wf by (auto elim: ht_wfD)
    have "ht_count h1 < ht_size h1 div 2" using pos h1(3,4) by presburger
    moreover have "ht_owned ?m1 h1" using dom d1 by (fastforce simp: ht_owned_def)
    ultimately obtain ht' where
      r: "ht_insert_at ?m1 h1 k v = Inr (\<lparr>ins_code = 0, ins_entry = Some (allocs ?m1),
        ins_overridden = None\<rparr>, ht', ?m1\<lparr>allocs := allocs ?m1 + 2\<rparr>)"
      "ht_wf ht'" "ht_size ht' = ht_size h1" "ht_count ht' = Suc (ht_count h1)"
      "ht_comparator ht' = ht_comparator h1"
      "view (ht_entries ht') = (view (ht_entries h1))(allocs ?m1 \<mapsto> (Some k, Some v, None, None))"
      using ht_insert_at_absent [OF h1(2), of ?m1 k v] sz h1(3,6) mem(1) key by auto
    have "ht_owned (?m1\<lparr>allocs := allocs ?m1 + 2\<rparr>) ht'"
      by (rule owned [OF r(6)]) (use dom d1 in auto)
    moreover have "2 * ht_size ht \<le> 4 * ht_count ht + 2" using False by presburger
    ultimately show ?thesis
      using r h1 items False fresh [of "allocs ?m1"]
      by (intro exI [of _ ht'] exI [of _ "allocs ?m1"] exI [of _ "allocs ?m1 + 2"])
        (auto simp: ht_insert_def)
  qed
qed

lemma ht_get_absent:
  assumes "ht_wf ht" and "wf_key k" and "k \<notin> view_keys (view (ht_entries ht))"
  shows "ht_get ht (Some k) = Inr None"
proof -
  obtain items where w: "ht_items ht = Some items" "length items = ht_size ht" "0 < ht_size ht"
    "tab items (ht_entries ht)" "cmp_ok (ht_comparator ht)"
    using assms(1) by (rule ht_wfD)
  have "slot_key items (ht_entries ht) i \<noteq> Some k" for i
    using assms(3) by (auto simp: slot_key_def view_keys_iff bind_eq_Some_conv)
  then show ?thesis
    using ht_find_wf [OF w(4,2,3,5) assms(2)] w(1)
    by (simp add: ht_get_def find_None_iff [THEN iffD2])
qed

lemma ht_find_present:
  assumes "ht_wf ht" and "view (ht_entries ht) a = Some (Some k, v, p, n)"
    and "ht_items ht = Some items" and "cmp_ok cmp"
  obtains e where "ht_find cmp ht items k = Inr (Some (e_index e))"
    and "ht_entries ht a = Some e" and "e_index e < length items" and "items ! e_index e = Some a"
proof -
  have w: "length items = ht_size ht" "0 < ht_size ht" "tab items (ht_entries ht)"
    "dom (ht_entries ht) = addrs items"
    using ht_wfD [OF assms(1)] assms(3) by (metis option.inject)+
  have k: "wf_key k" using wf_key_of_view [OF assms(1,2)] .
  have "a \<in> dom (ht_entries ht)" using assms(2) by (auto simp: view_def)
  then obtain i where i: "i < length items" "items ! i = Some a"
    using w(4) by (auto simp: addrs_def in_set_conv_nth)
  with w(3) obtain e where e: "ht_entries ht a = Some e" "e_index e = i" by (rule tabD)
  have "slot_key items (ht_entries ht) i = Some k"
    using assms(2) i e by (auto simp: slot_key_def key_of_view)
  then have "ht_find cmp ht items k = Inr (Some i)"
    using ht_find_wf [OF w(3,1,2) assms(4) k] find_slot_Some [OF w(3,1,2)] i w(1) by simp
  with that i e show ?thesis by blast
qed

lemma ht_get_present:
  assumes "ht_wf ht" and "view (ht_entries ht) a = Some (Some k, v, p, n)"
  shows "ht_get ht (Some k) = Inr (Some a)"
proof -
  obtain items where w: "ht_items ht = Some items" "cmp_ok (ht_comparator ht)"
    using assms(1) by (rule ht_wfD)
  obtain e where "ht_find (ht_comparator ht) ht items k = Inr (Some (e_index e))"
    "ht_entries ht a = Some e" "e_index e < length items" "items ! e_index e = Some a"
    using ht_find_present [OF assms w] .
  with w show ?thesis by (simp add: ht_get_def)
qed

lemma ht_delete_entry_ok:
  assumes wf: "ht_wf ht" and e: "ht_entries ht a = Some e" and sz: "ht_size ht < 2 ^ 64"
  shows "\<exists>ht'. ht_delete_entry ht (e_index e) = Inr (e_ptr e, ht')
    \<and> ht_wf ht' \<and> ht_size ht' = ht_size ht \<and> Suc (ht_count ht') = ht_count ht
    \<and> ht_comparator ht' = ht_comparator ht
    \<and> view (ht_entries ht') = (view (ht_entries ht))(a := None)"
proof -
  obtain items where w: "ht_items ht = Some items" "length items = ht_size ht" "0 < ht_size ht"
    "ht_count ht = card (addrs items)" "ht_count ht \<le> ht_size ht div 2"
    "tab items (ht_entries ht)" "dom (ht_entries ht) = addrs items" "cmp_ok (ht_comparator ht)"
    using wf by (rule ht_wfD)
  let ?i = "e_index e"
  have "a \<in> addrs items" using e w(7) by auto
  then obtain i where i: "i < length items" "items ! i = Some a"
    by (auto simp: addrs_def in_set_conv_nth)
  then have ie: "?i = i" "e_key e \<noteq> None" using w(6) e by (auto elim: tabD)
  let ?ht = "ht\<lparr>ht_items := Some (items[i := None]), ht_entries := (ht_entries ht)(a := None),
      ht_count := usize_dec (ht_count ht)\<rparr>"
  have run: "ht_delete_entry ht ?i = Inr (e_ptr e, ?ht)"
    using w(1) i e ie by (auto simp: ht_delete_entry_def modify_def load_def dqhtentry_destroy_def)
  have card: "card (addrs (items[i := None])) = card (addrs items) - 1"
    using addrs_clear [OF w(6) i] \<open>a \<in> addrs items\<close> by simp
  have pos: "0 < card (addrs items)" using \<open>a \<in> addrs items\<close> by (auto simp: card_gt_0_iff)
  have "usize_dec (ht_count ht) = card (addrs items) - 1"
    using w(4,5) pos sz by (simp add: usize_dec_pos)
  moreover have "dom ((ht_entries ht)(a := None)) = addrs (items[i := None])"
    using addrs_clear [OF w(6) i] w(7) by auto
  ultimately have "ht_wf ?ht"
    unfolding ht_wf_def using w card tab_remove [OF w(6) i] by auto
  moreover have "Suc (ht_count ?ht) = ht_count ht"
    using \<open>usize_dec (ht_count ht) = card (addrs items) - 1\<close> pos w(4) by simp
  ultimately show ?thesis using run by (auto simp: view_del)
qed

lemma ht_map_view:
  assumes "ht_wf ht"
  shows "ht_map ht k = Some v \<longleftrightarrow> (\<exists>a p n. view (ht_entries ht) a = Some (Some k, Some v, p, n))"
proof -
  obtain items where w: "ht_items ht = Some items" "tab items (ht_entries ht)"
    "dom (ht_entries ht) = addrs items" using assms by (rule ht_wfD)
  let ?P = "\<lambda>item. Option.bind item (key_of (ht_entries ht)) = Some k"
  have inj: "a = b" if "a \<in> addrs items" "b \<in> addrs items" "key_of (ht_entries ht) a = key_of (ht_entries ht) b" for a b
    using that w(2) by (auto simp: tab_def inj_on_def)
  show ?thesis
  proof
    assume "ht_map ht k = Some v"
    then obtain a e where "find ?P items = Some (Some a)" "ht_entries ht a = Some e" "e_ptr e = Some v"
      using w(1) by (auto simp: ht_map_def bind_eq_Some_conv)
    with find_SomeD [of ?P items "Some a"] show "\<exists>a p n. view (ht_entries ht) a = Some (Some k, Some v, p, n)"
      by (auto simp: key_of_def view_def)
  next
    assume "\<exists>a p n. view (ht_entries ht) a = Some (Some k, Some v, p, n)"
    then obtain a e where a: "ht_entries ht a = Some e" "e_key e = Some k" "e_ptr e = Some v"
      by (auto simp: view_def)
    then have mem: "a \<in> addrs items" "?P (Some a)" using w(3) by (auto simp: key_of_def)
    then obtain x where x: "find ?P items = Some x"
      using find_ex [of "Some a" items ?P] by (auto simp: addrs_def)
    with find_SomeD [OF x] obtain b where b: "x = Some b" "b \<in> addrs items" "key_of (ht_entries ht) b = Some k"
      by (cases x) (auto simp: addrs_def)
    then have "b = a" using inj mem by simp
    with a b x w(1) show "ht_map ht k = Some v" by (simp add: ht_map_def)
  qed
qed

section \<open>The table as a map\<close>

lemma default_comparator_ok [simp]: "cmp_ok (Some default_comparator)"
  by (simp add: cmp_ok_def default_comparator_def key_cmp_wf)

lemma view_ptr:
  assumes "ht_wf ht" and "view (ht_entries ht) a = Some (k, v, p, n)"
  obtains k' v' where "k = Some k'" "wf_key k'" "v = Some v'"
proof -
  obtain items where w: "tab items (ht_entries ht)" "dom (ht_entries ht) = addrs items"
    using assms(1) by (rule ht_wfD)
  have "a \<in> addrs items" using assms(2) w(2) by (auto simp: view_def)
  then obtain i where "i < length items" "items ! i = Some a" by (auto simp: addrs_def in_set_conv_nth)
  with w(1) obtain e k' v' where "ht_entries ht a = Some e" "e_key e = Some k'" "wf_key k'" "e_ptr e = Some v'"
    by (rule tabD)
  with assms(2) show ?thesis using that [of k' v'] by (simp add: view_def)
qed

lemma view_keys_map: "ht_wf ht \<Longrightarrow> k \<in> view_keys (view (ht_entries ht)) \<longleftrightarrow> ht_map ht k \<noteq> None"
  using ht_map_view [of ht k] view_ptr [of ht]
  by (fastforce simp: view_keys_def)

lemma ht_map_SomeI:
  "ht_wf ht \<Longrightarrow> view (ht_entries ht) a = Some (Some k, Some v, p, n) \<Longrightarrow> ht_map ht k = Some v"
  by (simp add: ht_map_view) blast

lemma ht_map_insert:
  assumes "ht_wf ht" "ht_wf ht'" "ht_map ht k = None"
    and v: "view (ht_entries ht') = (view (ht_entries ht))(a \<mapsto> (Some k, Some v, p, n))"
    and a: "a \<notin> dom (ht_entries ht)"
  shows "ht_map ht' = (ht_map ht)(k \<mapsto> v)"
proof
  fix j
  have V: "view (ht_entries ht) a = None" using a by (simp add: domIff view_def)
  have "ht_map ht' j = Some x \<longleftrightarrow> ((ht_map ht)(k \<mapsto> v)) j = Some x" for x
  proof (cases "j = k")
    case True
    have "ht_map ht' k = Some v" using ht_map_SomeI [OF assms(2), of a k v p n] v by simp
    with True show ?thesis by simp
  next
    case False
    have "view (ht_entries ht') b = Some (Some j, Some x, p', n')
        \<longleftrightarrow> view (ht_entries ht) b = Some (Some j, Some x, p', n')" for b p' n'
      using False V unfolding v by (cases "b = a") auto
    with False show ?thesis by (simp add: ht_map_view [OF assms(1)] ht_map_view [OF assms(2)])
  qed
  then show "ht_map ht' j = ((ht_map ht)(k \<mapsto> v)) j" by (metis not_Some_eq)
qed

lemma ht_map_delete:
  assumes "ht_wf ht" "ht_wf ht'" and a: "view (ht_entries ht) a = Some (Some k, Some x, p, n)"
    and v: "view (ht_entries ht') = (view (ht_entries ht))(a := None)"
  shows "ht_map ht' = (ht_map ht)(k := None)"
proof
  fix j
  have uniq: "b = a" if "view (ht_entries ht) b = Some (Some k, y, q, m)" for b y q m
    using ht_get_present [OF assms(1) that] ht_get_present [OF assms(1) a] by simp
  have "view (ht_entries ht') b = Some (Some j, Some y, q, m)
      \<longleftrightarrow> j \<noteq> k \<and> view (ht_entries ht) b = Some (Some j, Some y, q, m)" for b y q m
    using a uniq [of b "Some y" q m] unfolding v by (cases "b = a") auto
  then have "ht_map ht' j = Some y \<longleftrightarrow> ((ht_map ht)(k := None)) j = Some y" for y
    unfolding ht_map_view [OF assms(2)] by (simp add: ht_map_view [OF assms(1)])
  then show "ht_map ht' j = ((ht_map ht)(k := None)) j" by (metis not_Some_eq)
qed

lemma ht_delete_present:
  assumes wf: "ht_wf ht" and sz: "ht_size ht < 2 ^ 64"
    and a: "view (ht_entries ht) a = Some (Some k, v, p, n)"
  shows "\<exists>ht'. ht_delete ht (Some k) = Inr (v, ht')
    \<and> ht_wf ht' \<and> ht_size ht' = ht_size ht \<and> Suc (ht_count ht') = ht_count ht
    \<and> ht_comparator ht' = ht_comparator ht
    \<and> view (ht_entries ht') = (view (ht_entries ht))(a := None)"
proof -
  obtain items where w: "ht_items ht = Some items" "cmp_ok (ht_comparator ht)"
    using wf by (rule ht_wfD)
  obtain e where e: "ht_find (ht_comparator ht) ht items k = Inr (Some (e_index e))"
    "ht_entries ht a = Some e"
    using ht_find_present [OF wf a w] .
  moreover have "e_ptr e = v" using a e(2) by (simp add: view_def)
  ultimately show ?thesis using ht_delete_entry_ok [OF wf e(2) sz] w(1) by (simp add: ht_delete_def)
qed

lemma ht_delete_absent:
  assumes "ht_wf ht" and "wf_key k" and "k \<notin> view_keys (view (ht_entries ht))"
  shows "ht_delete ht (Some k) = Inr (None, ht)"
proof -
  obtain items where w: "ht_items ht = Some items" "length items = ht_size ht" "0 < ht_size ht"
    "tab items (ht_entries ht)" "cmp_ok (ht_comparator ht)"
    using assms(1) by (rule ht_wfD)
  have "slot_key items (ht_entries ht) i \<noteq> Some k" for i
    using assms(3) by (auto simp: slot_key_def view_keys_iff bind_eq_Some_conv)
  then show ?thesis
    using ht_find_wf [OF w(4,2,3,5) assms(2)] w(1)
    by (simp add: ht_delete_def find_None_iff [THEN iffD2])
qed

lemma ht_create_ok:
  assumes "never_fails m" and "0 < n" and "n < 2 ^ 59" and "cmp_ok cmp"
  shows "\<exists>ht. ht_create m n cmp = Inr (ht, m\<lparr>allocs := allocs m + 2\<rparr>)
    \<and> ht_wf ht \<and> ht_size ht = n \<and> ht_count ht = 0 \<and> ht_comparator ht = cmp \<and> ht_entries ht = Map.empty
    \<and> ht_map ht = Map.empty"
proof -
  let ?ht = "\<lparr>ht_size = n, ht_count = 0, ht_comparator = cmp, ht_items = Some (replicate n None),
    ht_entries = Map.empty\<rparr>"
  have "ht_create m n cmp = Inr (?ht, m\<lparr>allocs := allocs m + 2\<rparr>)"
    using assms by (simp add: ht_create_def am_malloc_ok am_calloc_ok)
  moreover have wf: "ht_wf ?ht" using assms by (simp add: ht_wf_def tab_def)
  moreover have "ht_map ?ht k = None" for k
    using ht_map_view [OF wf, of k] by (cases "ht_map ?ht k") (auto simp: view_def)
  ultimately show ?thesis by auto
qed

lemma card_ht_map:
  assumes "ht_wf ht"
  shows "finite (dom (ht_map ht))" and "card (dom (ht_map ht)) = ht_count ht"
proof -
  obtain items where w: "ht_count ht = card (addrs items)" "tab items (ht_entries ht)"
    "dom (ht_entries ht) = addrs items" using assms by (rule ht_wfD)
  have "Some ` dom (ht_map ht) = key_of (ht_entries ht) ` addrs items"
  proof (intro equalityI subsetI)
    fix x assume "x \<in> Some ` dom (ht_map ht)"
    then obtain k v a p n where "x = Some k" "view (ht_entries ht) a = Some (Some k, Some v, p, n)"
      using ht_map_view [OF assms] by blast
    then show "x \<in> key_of (ht_entries ht) ` addrs items"
      unfolding w(3) [symmetric] by (force simp: view_def key_of_def)
  next
    fix x assume "x \<in> key_of (ht_entries ht) ` addrs items"
    then obtain a k v p n where a: "a \<in> dom (ht_entries ht)" "x = key_of (ht_entries ht) a"
      "view (ht_entries ht) a = Some (k, v, p, n)" using w(3) by (force simp: view_def)
    moreover obtain k' v' where "k = Some k'" "v = Some v'" using view_ptr [OF assms a(3)] .
    ultimately show "x \<in> Some ` dom (ht_map ht)"
      using ht_map_SomeI [OF assms, of a k' v' p n] by (auto simp: key_of_def view_def)
  qed
  moreover have "card (key_of (ht_entries ht) ` addrs items) = card (addrs items)"
    using w(2) by (intro card_image) (simp add: tab_def)
  moreover have "card (Some ` dom (ht_map ht)) = card (dom (ht_map ht))"
    by (rule card_image) simp
  ultimately show "card (dom (ht_map ht)) = ht_count ht" using w(1) by simp
  have "finite (Some ` dom (ht_map ht))"
    using \<open>Some ` dom (ht_map ht) = _\<close> by simp
  then show "finite (dom (ht_map ht))" by (rule finite_imageD) simp
qed

section \<open>The keyed-table contract\<close>

definition ht_inv :: "'v HashTable \<times> 'z mem_scheme \<Rightarrow> bool" where
  "ht_inv s = (case s of (ht, m) \<Rightarrow> ht_wf ht \<and> never_fails m \<and> ht_owned m ht \<and> ht_size ht < 2 ^ 59)"

text \<open>The operations in the shape the contract has; \<open>ht_put\<close> drops the return code.\<close>

definition ht_lookup :: "'v HashTable \<times> 'z mem_scheme \<Rightarrow> bytes \<Rightarrow> 'v option res" where
  "ht_lookup s k =
     rbind (ht_get (fst s) (Some k)) (\<lambda>r.
       (case r of None \<Rightarrow> Inr None | Some a \<Rightarrow> rbind (load (ht_entries (fst s)) a) (\<lambda>e. Inr (e_ptr e))))"

definition ht_put :: "'v HashTable \<times> 'z mem_scheme \<Rightarrow> bytes \<Rightarrow> 'v \<Rightarrow> ('v HashTable \<times> 'z mem_scheme) res" where
  "ht_put s k v = rbind (ht_insert (snd s) (fst s) k (Some v)) (\<lambda>(_, s'). Inr s')"

definition ht_take ::
  "'v HashTable \<times> 'z mem_scheme \<Rightarrow> bytes \<Rightarrow> ('v option \<times> 'v HashTable \<times> 'z mem_scheme) res" where
  "ht_take s k = rbind (ht_delete (fst s) (Some k)) (\<lambda>(v, ht'). Inr (v, ht', snd s))"

lemma ht_lookup_ok:
  assumes "ht_wf ht" and "wf_key k"
  shows "ht_lookup (ht, m) k = Inr (ht_map ht k)"
proof (cases "ht_map ht k")
  case None
  with assms show ?thesis by (simp add: ht_lookup_def ht_get_absent view_keys_map)
next
  case (Some v)
  then obtain a p n where a: "view (ht_entries ht) a = Some (Some k, Some v, p, n)"
    using ht_map_view [OF assms(1)] by blast
  then obtain e where "ht_entries ht a = Some e" "e_ptr e = Some v" by (auto simp: view_def)
  with Some ht_get_present [OF assms(1) a] show ?thesis by (simp add: ht_lookup_def load_def)
qed

lemma ht_insert_new:
  assumes "ht_inv (ht, m)" and "wf_key k" and "ht_map ht k = None"
  shows "\<exists>ht' m' a. ht_insert m ht k (Some v) =
      Inr (\<lparr>ins_code = 0, ins_entry = Some a, ins_overridden = None\<rparr>, ht', m')
    \<and> ht_wf ht' \<and> ht_owned m' ht' \<and> never_fails m' \<and> ht_size ht' \<le> max (ht_size ht) (4 * ht_count ht + 2)
    \<and> ht_count ht' = Suc (ht_count ht) \<and> ht_map ht' = (ht_map ht)(k \<mapsto> v)"
proof -
  have i: "ht_wf ht" "never_fails m" "ht_owned m ht" "ht_size ht < 2 ^ 59"
    using assms(1) by (simp_all add: ht_inv_def)
  have k: "k \<notin> view_keys (view (ht_entries ht))" using assms(3) view_keys_map [OF i(1)] by simp
  obtain ht' a n where r: "ht_insert m ht k (Some v) =
      Inr (\<lparr>ins_code = 0, ins_entry = Some a, ins_overridden = None\<rparr>, ht', m\<lparr>allocs := n\<rparr>)"
    "ht_wf ht'" "ht_owned (m\<lparr>allocs := n\<rparr>) ht'" "ht_count ht' = Suc (ht_count ht)"
    "ht_size ht' \<le> max (ht_size ht) (4 * ht_count ht + 2)" "a \<notin> dom (ht_entries ht)"
    "view (ht_entries ht') = (view (ht_entries ht))(a \<mapsto> (Some k, Some v, None, None))"
    using ht_insert_absent [OF i(1,4,2,3) assms(2) k, of v] by blast
  moreover have "ht_map ht' = (ht_map ht)(k \<mapsto> v)"
    by (rule ht_map_insert [OF i(1) r(2) assms(3) r(7) r(6)])
  ultimately show ?thesis using i(2) by (auto simp: never_fails_upd)
qed

lemma ht_delete_map:
  assumes "ht_wf ht" and "ht_size ht < 2 ^ 64" and "wf_key k"
  shows "\<exists>ht'. ht_delete ht (Some k) = Inr (ht_map ht k, ht') \<and> ht_wf ht' \<and> ht_size ht' = ht_size ht
    \<and> ht_map ht' = (ht_map ht)(k := None) \<and> dom (ht_entries ht') \<subseteq> dom (ht_entries ht)"
proof (cases "ht_map ht k")
  case None
  then have "ht_delete ht (Some k) = Inr (None, ht)"
    using ht_delete_absent [OF assms(1,3)] view_keys_map [OF assms(1)] by simp
  with None assms(1) show ?thesis by (auto simp: fun_upd_idem)
next
  case (Some v)
  then obtain a p n where a: "view (ht_entries ht) a = Some (Some k, Some v, p, n)"
    using ht_map_view [OF assms(1)] by blast
  then obtain ht' where r: "ht_delete ht (Some k) = Inr (Some v, ht')" "ht_wf ht'"
    "ht_size ht' = ht_size ht" "view (ht_entries ht') = (view (ht_entries ht))(a := None)"
    using ht_delete_present [OF assms(1,2) a] by blast
  moreover have "ht_map ht' = (ht_map ht)(k := None)" by (rule ht_map_delete [OF assms(1) r(2) a r(4)])
  moreover have "dom (ht_entries ht') \<subseteq> dom (ht_entries ht)"
    unfolding dom_view [of "ht_entries ht'", symmetric] dom_view [of "ht_entries ht", symmetric] r(4) by auto
  ultimately show ?thesis using Some by simp
qed

interpretation hash_table: keyed_table ht_inv "\<lambda>s. ht_map (fst s)" wf_key "2 ^ 56" ht_lookup ht_put ht_take
proof
  fix s :: "'v HashTable \<times> 'z mem_scheme" and k v
  obtain ht m where s: "s = (ht, m)" by fastforce
  assume "ht_inv s"
  then have i: "ht_wf ht" "never_fails m" "ht_owned m ht" "ht_size ht < 2 ^ 59"
    by (simp_all add: s ht_inv_def)
  show "finite (dom (ht_map (fst s)))" using card_ht_map [OF i(1)] by (simp add: s)
  assume k: "wf_key k"
  show "ht_lookup s k = Inr (ht_map (fst s) k)" using ht_lookup_ok [OF i(1) k] by (simp add: s)
  show "\<exists>s'. ht_take s k = Inr (ht_map (fst s) k, s') \<and> ht_inv s'
      \<and> ht_map (fst s') = (ht_map (fst s))(k := None)"
    using ht_delete_map [OF i(1) _ k] i by (auto simp: s ht_take_def ht_inv_def ht_owned_def)
  assume "ht_map (fst s) k = None" "card (dom (ht_map (fst s))) < 2 ^ 56"
  then have "ht_map ht k = None" "ht_count ht < 2 ^ 56" using card_ht_map [OF i(1)] by (simp_all add: s)
  then show "\<exists>s'. ht_put s k v = Inr s' \<and> ht_inv s' \<and> ht_map (fst s') = (ht_map (fst s))(k \<mapsto> v)"
    using ht_insert_new [OF \<open>ht_inv s\<close> [unfolded s] k, of v] i
    by (fastforce simp: s ht_put_def ht_inv_def)
qed

section \<open>Properties\<close>


text \<open>Memory that never runs out, and two keys that collide in a table of eight slots.\<close>

abbreviation mem0 :: mem where
  "mem0 \<equiv> \<lparr>allocs = 0, alloc_fails = (\<lambda>_. False)\<rparr>"

abbreviation key_a :: bytes where
  "key_a \<equiv> key_layout SINGLE_OP [97] None"

abbreviation key_i :: bytes where
  "key_i \<equiv> key_layout SINGLE_OP [105] None"

lemma key_a_wf [simp]: "wf_key key_a"
  unfolding wf_key_def by (intro exI [of _ SINGLE_OP] exI [of _ "[97]"] exI [of _ None]) simp

lemma key_i_wf [simp]: "wf_key key_i"
  unfolding wf_key_def by (intro exI [of _ SINGLE_OP] exI [of _ "[105]"] exI [of _ None]) simp

lemma key_a_neq_i [simp]: "key_a \<noteq> key_i" "key_i \<noteq> key_a"
  by (simp_all add: key_layout_def)

lemma mem0_never_fails [simp]: "never_fails mem0"
  by (simp add: never_fails_def)


text \<open>Evaluation of the operations on concrete tables.\<close>

lemma fnv1a_key_a: "fnv1a_hash key_a = Inr 12226762794355855724"
  by code_simp

lemma fnv1a_key_i: "fnv1a_hash key_i = Inr 12219110193425020964"
  by code_simp

lemmas ht_insert_probe_num =
  ht_insert_probe.simps(2) [of _ _ _ _ _ "pred_numeral k" for k, folded numeral_eq_Suc]

lemmas ht_scan_num =
  ht_scan.simps(2) [of _ _ _ _ _ _ "pred_numeral k" for k, folded numeral_eq_Suc]

lemmas ht_eval =
  ht_put_def ht_take_def ht_lookup_def ht_get_def ht_insert_def ht_insert_at_def ht_delete_def
  ht_find_def ht_delete_entry_def ht_insert_probe_num ht_scan_num dqhtentry_create_def
  dqhtentry_create_full_def dqhtentry_destroy_def am_malloc_def wf_key_size key_clone_wf
  never_fails_def elem_def load_def modify_def key_cmp_wf default_comparator_def
  usize_def usize_dec_def fnv1a_key_a fnv1a_key_i

lemma ht_create_8:
  "ht_create \<lparr>allocs = n, alloc_fails = (\<lambda>_. False)\<rparr> 8 cmp =
     Inr (\<lparr>ht_size = 8, ht_count = 0, ht_comparator = cmp,
           ht_items = Some [None, None, None, None, None, None, None, None], ht_entries = Map.empty\<rparr>,
          \<lparr>allocs = n + 2, alloc_fails = (\<lambda>_. False)\<rparr>)"
proof -
  have "replicate 8 None = [None, None, None, None, None, None, None, None :: addr option]"
    by (simp add: numeral_eq_Suc)
  then show ?thesis by (simp add: ht_create_def am_calloc_def am_malloc_def)
qed



text \<open>A table with one entry.\<close>

definition ht_one :: "nat HashTable" where
  "ht_one = \<lparr>ht_size = 8, ht_count = 1, ht_comparator = Some default_comparator,
     ht_items = Some ((replicate 8 None)[4 := Some 7]),
     ht_entries = [7 \<mapsto> \<lparr>e_key = Some key_a, e_length = 19, e_ptr = Some 1, e_index = 4,
                       e_prev = None, e_next = None\<rparr>]\<rparr>"

lemma ht_one_wf [simp]: "ht_wf ht_one"
proof -
  have "addrs ((replicate 8 None)[4 := Some 7]) = {7}"
    by (subst addrs_update) simp_all
  moreover have "tab ((replicate 8 None)[4 := Some 7]) (ht_entries ht_one)"
    unfolding tab_def \<open>addrs _ = {7}\<close>
    by (auto simp: ht_one_def good_entry_def nth_list_update split: if_splits)
  ultimately show ?thesis unfolding ht_wf_def by (simp add: ht_one_def)
qed

lemma ht_one_map: "ht_map ht_one key_i = None"
  by (simp add: ht_map_def ht_one_def key_of_def numeral_eq_Suc)

lemma ht_one_size [simp]: "ht_size ht_one = 8"
  by (simp add: ht_one_def)


lemma ht_destroy_loop_ok:
  assumes "distinct (filter (\<lambda>x. x \<noteq> None) items)"
    and "\<forall>a \<in> addrs items. \<exists>e. st a = Some e \<and> e_key e \<noteq> None"
  shows "ht_destroy_loop st items = Inr (\<lambda>a. if a \<in> addrs items then None else st a)"
  using assms
proof (induction st items rule: ht_destroy_loop.induct)
  case (3 st a items)
  obtain e where e: "st a = Some e" "e_key e \<noteq> None" using 3(3) by (auto simp: addrs_def)
  then have "dqhtentry_destroy st (Some a) = Inr (st(a := None))"
    by (auto simp: dqhtentry_destroy_def load_def)
  moreover have "ht_destroy_loop (st(a := None)) items
      = Inr (\<lambda>b. if b \<in> addrs items then None else (st(a := None)) b)"
    using 3 calculation by (auto simp: addrs_def)
  ultimately show ?case by (auto simp: addrs_def)
qed (auto simp: addrs_def)

text \<open>\<open>ht_destroy\<close> frees every entry the table owns, each exactly once.\<close>

theorem ht_destroy_frees_all:
  assumes "ht_wf ht"
  shows "ht_destroy ht = Inr Map.empty"
proof -
  obtain items where w: "ht_items ht = Some items" "tab items (ht_entries ht)"
    "dom (ht_entries ht) = addrs items" using assms by (rule ht_wfD)
  have "distinct (filter (\<lambda>x. x \<noteq> None) items)"
    using tab_distinct [OF w(2)] by (simp add: comp_def)
  moreover have "\<forall>a \<in> addrs items. \<exists>e. ht_entries ht a = Some e \<and> e_key e \<noteq> None"
    using tab_good [OF w(2)] by (force simp: good_entry_def)
  ultimately have "ht_destroy ht = Inr (\<lambda>a. if a \<in> addrs items then None else ht_entries ht a)"
    using ht_destroy_loop_ok w(1) by (simp add: ht_destroy_def)
  also have "(\<lambda>a. if a \<in> addrs items then None else ht_entries ht a) = Map.empty"
    using w(3) by (intro ext) (auto simp: domIff)
  finally show ?thesis .
qed

text \<open>
  When the allocator refuses the first request of \<open>ht_insert\<close> (the doubled array if the
  table is half full, the entry otherwise), the call reports failure and the table is as
  before.
\<close>

theorem ht_insert_out_of_memory:
  assumes wf: "ht_wf ht" and sz: "ht_size ht < 2 ^ 59" and k: "wf_key k" "ht_map ht k = None"
    and fails: "alloc_fails m (allocs m)"
  shows "\<exists>m'. ht_insert m ht k (Some v) = Inr (insert_failed, ht, m') \<and> alloc_fails m' = alloc_fails m"
proof -
  obtain items where w: "ht_items ht = Some items" "length items = ht_size ht" "0 < ht_size ht"
    "ht_count ht = card (addrs items)" "tab items (ht_entries ht)"
    using wf by (rule ht_wfD)
  show ?thesis
  proof (cases "ht_size ht div 2 \<le> ht_count ht")
    case True
    have "ht_resize m ht = Inr (- 1, ht, m\<lparr>allocs := Suc (allocs m)\<rparr>)"
      using fails sz by (simp add: ht_resize_def am_calloc_def am_malloc_def Let_def)
    with True w(1) show ?thesis by (simp add: ht_insert_def)
  next
    case False
    let ?st = "ht_entries ht" and ?i0 = "unat (fnv k) mod ht_size ht"
    have "card (addrs items) < length items" using False w by linarith
    then obtain j where j: "ht_insert_probe items ?st (ht_size ht) k ?i0 (ht_size ht) = Inr (False, j)"
      "items ! j = None"
      using ht_insert_probe_absent [OF w(5,2,3) k(1)] k(2) view_keys_map [OF wf] by metis
    have "dqhtentry_create m k (Some v) = Inr (None, m\<lparr>allocs := Suc (allocs m)\<rparr>)"
      using fails by (simp add: dqhtentry_create_def dqhtentry_create_full_def am_malloc_def)
    moreover have "items[j := None] = items" using j(2) by (metis list_update_id)
    ultimately have "ht_insert_at m ht k v = Inr (insert_failed, ht, m\<lparr>allocs := Suc (allocs m)\<rparr>)"
      unfolding ht_insert_at_def using w(1,3) k(1) j(1) by (simp add: fnv1a_wf)
    with False w(1) show ?thesis by (simp add: ht_insert_def)
  qed
qed

theorem ht_destroy_frees_all_witness: "ht_destroy ht_one = Inr Map.empty"
  by (rule ht_destroy_frees_all) simp

theorem ht_insert_out_of_memory_witness:
  "\<exists>m'. ht_insert \<lparr>allocs = 8, alloc_fails = (\<lambda>_. True)\<rparr> ht_one key_i (Some 2) = Inr (insert_failed, ht_one, m')"
  using ht_insert_out_of_memory [of ht_one key_i "\<lparr>allocs = 8, alloc_fails = (\<lambda>_. True)\<rparr>" 2] ht_one_map
  by auto

end
