(* ===== verification/DQ_Hashtable.thy ===== *)
theory DQ_Hashtable
  imports Cache_Hashtable
begin

text \<open>
  The dequeue hash table of \<open>cache/dequeue_hashtable/dq_hashtable.c\<close>: the hash table with
  its entries threaded on a doubly linked list through \<open>prev\<close> and \<open>next\<close>.  The links live in
  the store of the hash table, so aliasing is explicit.  The tracing that is part of the
  code (\<open>dqht_print_table\<close> walks the whole list inside \<open>dqht_unlink\<close>, \<open>dqht_insert\<close> and
  \<open>dqht_push_front\<close>) is kept, since it does not end on a cyclic list.
\<close>

section \<open>State\<close>

text \<open>A destroy handler gets the value, the context argument and the memory it works on.\<close>

type_synonym ('v, 'w) destroy_handler = "'v option \<Rightarrow> 'v option \<Rightarrow> 'w \<Rightarrow> 'w res"

record ('v, 'w) DequeueHashTable =
  keyComparator :: "'v comparator option"
  entryDestroyHandler :: "('v, 'w) destroy_handler option"
  dq_head :: "addr option"
  dq_tail :: "addr option"
  dq_ht :: "'v HashTable"

abbreviation dq_store :: "('v, 'w) DequeueHashTable \<Rightarrow> 'v store" where
  "dq_store d \<equiv> ht_entries (dq_ht d)"

definition set_next :: "('v, 'w) DequeueHashTable \<Rightarrow> addr \<Rightarrow> addr option \<Rightarrow> ('v, 'w) DequeueHashTable res" where
  "set_next d a n =
     rbind (modify (dq_store d) a (\<lambda>e. e\<lparr>e_next := n\<rparr>)) (\<lambda>st.
       Inr (d\<lparr>dq_ht := (dq_ht d)\<lparr>ht_entries := st\<rparr>\<rparr>))"

definition set_prev :: "('v, 'w) DequeueHashTable \<Rightarrow> addr \<Rightarrow> addr option \<Rightarrow> ('v, 'w) DequeueHashTable res" where
  "set_prev d a p =
     rbind (modify (dq_store d) a (\<lambda>e. e\<lparr>e_prev := p\<rparr>)) (\<lambda>st.
       Inr (d\<lparr>dq_ht := (dq_ht d)\<lparr>ht_entries := st\<rparr>\<rparr>))"

definition call_handler ::
  "('v, 'w) destroy_handler option \<Rightarrow> 'v option \<Rightarrow> 'v option \<Rightarrow> 'w \<Rightarrow> 'w res" where
  "call_handler h value ctx m = (case h of None \<Rightarrow> Inl NullCall | Some f \<Rightarrow> f value ctx m)"

section \<open>Operations\<close>

definition dqht_create ::
  "'z mem_scheme \<Rightarrow> nat \<Rightarrow> 'v comparator option \<Rightarrow> ('v, 'z mem_scheme) destroy_handler option \<Rightarrow>
     (('v, 'z mem_scheme) DequeueHashTable option \<times> 'z mem_scheme) res" where
  "dqht_create m sz comparator handler =
     (let cmp = (case comparator of None \<Rightarrow> Some default_comparator | Some f \<Rightarrow> Some f) in
      rbind (ht_create m sz cmp) (\<lambda>(ht, m1).
        (case am_malloc m1 of
           (None, m2) \<Rightarrow> Inr (None, m2)
         | (Some _, m2) \<Rightarrow>
             Inr (Some \<lparr>keyComparator = cmp, entryDestroyHandler = handler, dq_head = None,
                        dq_tail = None, dq_ht = ht\<rparr>, m2))))"

text \<open>
  One line of \<open>dqht_print_table\<close>: it prints the key of an entry and the keys of its two
  neighbours.
\<close>

definition print_key :: "'v store \<Rightarrow> addr option \<Rightarrow> unit res" where
  "print_key st p =
     (case p of None \<Rightarrow> Inr ()
      | Some a \<Rightarrow> rbind (load st a) (\<lambda>e. rbind (key_sprint (e_key e)) (\<lambda>_. Inr ())))"

definition print_entry :: "'v store \<Rightarrow> addr option \<Rightarrow> unit res" where
  "print_entry st p =
     (case p of None \<Rightarrow> Inr ()
      | Some a \<Rightarrow> rbind (load st a) (\<lambda>e. rbind (key_sprint (e_key e)) (\<lambda>_.
          rbind (print_key st (e_next e)) (\<lambda>_. print_key st (e_prev e)))))"

text \<open>
  The loop over the list.  The entries of a table are at most \<open>size\<close> many, so a walk that
  is still going after \<open>size\<close> entries has come back to one of them and never ends.
\<close>

fun print_loop :: "'v store \<Rightarrow> addr option \<Rightarrow> nat \<Rightarrow> unit res" where
  "print_loop st None n = Inr ()"
| "print_loop st (Some a) 0 = Inl Hang"
| "print_loop st (Some a) (Suc n) =
     rbind (print_entry st (Some a)) (\<lambda>_. rbind (load st a) (\<lambda>e. print_loop st (e_next e) n))"

definition dqht_print_table :: "('v, 'w) DequeueHashTable \<Rightarrow> unit res" where
  "dqht_print_table d =
     rbind (print_entry (dq_store d) (dq_head d)) (\<lambda>_.
     rbind (print_entry (dq_store d) (dq_tail d)) (\<lambda>_.
       print_loop (dq_store d) (dq_head d) (ht_size (dq_ht d))))"

text \<open>
  The loop of \<open>dqht_destroy_handled\<close>, with the handler already applied to the callback
  state.  Like the printing loop it has no end on a cyclic list.
\<close>

fun destroy_loop ::
  "('v option \<Rightarrow> 'w \<Rightarrow> 'w res) option \<Rightarrow> 'v store \<Rightarrow> 'w \<Rightarrow> addr option \<Rightarrow> addr option \<Rightarrow> nat \<Rightarrow>
     ('v store \<times> 'w) res" where
  "destroy_loop handler st m None nxt n = Inr (st, m)"
| "destroy_loop handler st m (Some a) nxt 0 = Inl Hang"
| "destroy_loop handler st m (Some a) nxt (Suc n) =
     rbind (case handler of
              None \<Rightarrow> Inr (st, m)
            | Some h \<Rightarrow> rbind (load st a) (\<lambda>e. rbind (h (e_ptr e) m) (\<lambda>m'.
                rbind (modify st a (\<lambda>e. e\<lparr>e_ptr := None\<rparr>)) (\<lambda>st'. Inr (st', m')))))
       (\<lambda>(st', m').
       (case nxt of
          None \<Rightarrow> destroy_loop handler st' m' None None n
        | Some b \<Rightarrow> rbind (load st' b) (\<lambda>e. destroy_loop handler st' m' (Some b) (e_next e) n)))"

definition dqht_destroy_handled ::
  "'w \<Rightarrow> ('v, 'w) DequeueHashTable \<Rightarrow> ('v option \<Rightarrow> 'w \<Rightarrow> 'w res) option \<Rightarrow> ('v store \<times> 'w) res" where
  "dqht_destroy_handled m d handler =
     rbind (case dq_head d of None \<Rightarrow> Inr None
            | Some a \<Rightarrow> rbind (load (dq_store d) a) (\<lambda>e. Inr (e_next e))) (\<lambda>nxt.
     rbind (destroy_loop handler (dq_store d) m (dq_head d) nxt (ht_size (dq_ht d))) (\<lambda>(st, m').
     rbind (ht_destroy ((dq_ht d)\<lparr>ht_entries := st\<rparr>)) (\<lambda>st'. Inr (st', m'))))"

definition dqht_destroy :: "'w \<Rightarrow> ('v, 'w) DequeueHashTable \<Rightarrow> ('v store \<times> 'w) res" where
  "dqht_destroy m d = dqht_destroy_handled m d None"

definition dqht_get :: "('v, 'w) DequeueHashTable \<Rightarrow> bytes option \<Rightarrow> 'v option res" where
  "dqht_get d key =
     (case key of None \<Rightarrow> Inr None
      | Some k \<Rightarrow> rbind (ht_get (dq_ht d) (Some k)) (\<lambda>entry.
          (case entry of None \<Rightarrow> Inr None
           | Some a \<Rightarrow> rbind (load (dq_store d) a) (\<lambda>e. Inr (e_ptr e)))))"

definition dqht_unlink :: "('v, 'w) DequeueHashTable \<Rightarrow> addr option \<Rightarrow> ('v, 'w) DequeueHashTable res" where
  "dqht_unlink d entry =
     (case entry of None \<Rightarrow> Inr d
      | Some a \<Rightarrow>
          rbind (load (dq_store d) a) (\<lambda>e.
          rbind (dqht_print_table d) (\<lambda>_.
          rbind (case e_prev e of
                   Some p \<Rightarrow> set_next d p (e_next e)
                 | None \<Rightarrow> Inr (d\<lparr>dq_head := e_next e\<rparr>)) (\<lambda>d1.
          rbind (case e_next e of
                   Some n \<Rightarrow> set_prev d1 n (e_prev e)
                 | None \<Rightarrow> Inr (d1\<lparr>dq_tail := e_prev e\<rparr>)) (\<lambda>d2.
          rbind (dqht_print_table d2) (\<lambda>_. Inr d2))))))"

definition dqht_insert ::
  "'z mem_scheme \<Rightarrow> ('v, 'z mem_scheme) DequeueHashTable \<Rightarrow> bytes option \<Rightarrow> 'v option \<Rightarrow>
     (int \<times> ('v, 'z mem_scheme) DequeueHashTable \<times> 'z mem_scheme) res" where
  "dqht_insert m d key value =
     (case key of None \<Rightarrow> Inr (- 1, d, m)
      | Some k \<Rightarrow>
          rbind (ht_insert m (dq_ht d) k value) (\<lambda>(r, ht, m1).
          let d1 = d\<lparr>dq_ht := ht\<rparr> in
          rbind (if ins_overridden r \<noteq> None
                 then call_handler (entryDestroyHandler d1) (ins_overridden r) value m1
                 else Inr m1) (\<lambda>m2.
          if ins_code r = - 1 then Inr (- 1, d1, m2)
          else
            rbind (if ins_code r = 1 then dqht_unlink d1 (ins_entry r) else Inr d1) (\<lambda>d2.
            rbind (dqht_print_table d2) (\<lambda>_.
            rbind (deref (ins_entry r)) (\<lambda>a.
            rbind (case dq_tail d2 of
                     Some t \<Rightarrow> rbind (set_next d2 t (Some a)) (\<lambda>d'. set_prev d' a (Some t))
                   | None \<Rightarrow> Inr (d2\<lparr>dq_head := Some a\<rparr>)) (\<lambda>d3.
            let d4 = d3\<lparr>dq_tail := Some a\<rparr> in
            rbind (dqht_print_table d4) (\<lambda>_. Inr (0, d4, m2)))))))))"

text \<open>
  \<open>dqht_remove\<close>: \<open>want\<close> tells whether the caller passed a place for the removed value; the
  second component is what was written there, \<open>None\<close> if nothing was.
\<close>

definition dqht_remove ::
  "'w \<Rightarrow> ('v, 'w) DequeueHashTable \<Rightarrow> bytes option \<Rightarrow> bool \<Rightarrow>
     (int \<times> 'v option option \<times> ('v, 'w) DequeueHashTable \<times> 'w) res" where
  "dqht_remove m d key want =
     (case key of None \<Rightarrow> Inr (- 1, None, d, m)
      | Some k \<Rightarrow>
          (case ht_items (dq_ht d) of
             None \<Rightarrow> rbind (fnv1a_hash k) (\<lambda>hash. rbind (umod (unat hash) (ht_size (dq_ht d))) (\<lambda>_.
                       Inl NullDeref))
           | Some items \<Rightarrow>
               rbind (ht_find (keyComparator d) (dq_ht d) items k) (\<lambda>r.
                 (case r of None \<Rightarrow> Inr (1, None, d, m)
                  | Some index \<Rightarrow>
                      rbind (elem items index) (\<lambda>item.
                      rbind (dqht_unlink d item) (\<lambda>d1.
                      rbind (ht_delete_entry (dq_ht d1) index) (\<lambda>(deleted, ht).
                      let d2 = d1\<lparr>dq_ht := ht\<rparr> in
                      if want then Inr (0, Some deleted, d2, m)
                      else rbind (call_handler (entryDestroyHandler d2) deleted None m) (\<lambda>m'.
                             Inr (0, None, d2, m')))))))))"

definition dqht_get_front :: "('v, 'w) DequeueHashTable \<Rightarrow> 'v option res" where
  "dqht_get_front d =
     (case dq_head d of None \<Rightarrow> Inr None | Some a \<Rightarrow> rbind (load (dq_store d) a) (\<lambda>e. Inr (e_ptr e)))"

definition dqht_push_front ::
  "'z mem_scheme \<Rightarrow> ('v, 'z mem_scheme) DequeueHashTable \<Rightarrow> bytes option \<Rightarrow> 'v option \<Rightarrow>
     (int \<times> ('v, 'z mem_scheme) DequeueHashTable \<times> 'z mem_scheme) res" where
  "dqht_push_front m d key value =
     (case key of None \<Rightarrow> Inr (- 1, d, m)
      | Some k \<Rightarrow>
          rbind (ht_insert m (dq_ht d) k value) (\<lambda>(r, ht, m1).
          let d1 = d\<lparr>dq_ht := ht\<rparr> in
          rbind (if ins_overridden r \<noteq> None
                 then call_handler (entryDestroyHandler d1) (ins_overridden r) None m1
                 else Inr m1) (\<lambda>m2.
          if ins_code r = - 1 then Inr (- 1, d1, m2)
          else
            rbind (if ins_code r = 1 then dqht_unlink d1 (ins_entry r) else Inr d1) (\<lambda>d2.
            rbind (dqht_print_table d2) (\<lambda>_.
            rbind (deref (ins_entry r)) (\<lambda>a.
            rbind (case dq_head d2 of
                     Some h \<Rightarrow> rbind (set_prev d2 h (Some a)) (\<lambda>d'. set_next d' a (Some h))
                   | None \<Rightarrow> Inr (d2\<lparr>dq_tail := Some a\<rparr>)) (\<lambda>d3.
            let d4 = d3\<lparr>dq_head := Some a\<rparr> in
            rbind (dqht_print_table d4) (\<lambda>_. Inr (0, d4, m2)))))))))"

text \<open>The two pops: unlink an end of the list, then delete the slot the entry records.\<close>

definition pop_entry ::
  "('v, 'w) DequeueHashTable \<Rightarrow> addr option \<Rightarrow> ('v option \<times> ('v, 'w) DequeueHashTable) res" where
  "pop_entry d entry =
     (case entry of None \<Rightarrow> Inr (None, d)
      | Some a \<Rightarrow>
          rbind (dqht_unlink d (Some a)) (\<lambda>d1.
          rbind (load (dq_store d1) a) (\<lambda>e.
          rbind (ht_delete_entry (dq_ht d1) (e_index e)) (\<lambda>(v, ht).
            Inr (v, d1\<lparr>dq_ht := ht\<rparr>)))))"

definition dqht_pop_front ::
  "('v, 'w) DequeueHashTable \<Rightarrow> ('v option \<times> ('v, 'w) DequeueHashTable) res" where
  "dqht_pop_front d = pop_entry d (dq_head d)"

definition dqht_get_last :: "('v, 'w) DequeueHashTable \<Rightarrow> 'v option res" where
  "dqht_get_last d =
     (case dq_tail d of None \<Rightarrow> Inr None | Some a \<Rightarrow> rbind (load (dq_store d) a) (\<lambda>e. Inr (e_ptr e)))"

definition dqht_push_last ::
  "'z mem_scheme \<Rightarrow> ('v, 'z mem_scheme) DequeueHashTable \<Rightarrow> bytes option \<Rightarrow> 'v option \<Rightarrow>
     (int \<times> ('v, 'z mem_scheme) DequeueHashTable \<times> 'z mem_scheme) res" where
  "dqht_push_last m d key value = dqht_insert m d key value"

definition dqht_pop_last ::
  "('v, 'w) DequeueHashTable \<Rightarrow> ('v option \<times> ('v, 'w) DequeueHashTable) res" where
  "dqht_pop_last d = pop_entry d (dq_tail d)"

section \<open>Linked lists in the store\<close>

abbreviation first_of :: "addr list \<Rightarrow> addr option \<Rightarrow> addr option" where
  "first_of xs q \<equiv> (case xs of [] \<Rightarrow> q | b # _ \<Rightarrow> Some b)"

abbreviation last_of :: "addr option \<Rightarrow> addr list \<Rightarrow> addr option" where
  "last_of p xs \<equiv> (if xs = [] then p else Some (last xs))"

text \<open>\<open>chain V p xs q\<close>: the entries \<open>xs\<close> are linked in this order, between \<open>p\<close> and \<open>q\<close>.\<close>

fun chain :: "(addr \<Rightarrow> 'v eview option) \<Rightarrow> addr option \<Rightarrow> addr list \<Rightarrow> addr option \<Rightarrow> bool" where
  "chain V p [] q \<longleftrightarrow> True"
| "chain V p (a # xs) q \<longleftrightarrow> (\<exists>k v. V a = Some (k, v, p, first_of xs q)) \<and> chain V (Some a) xs q"

definition vnext :: "(addr \<Rightarrow> 'v eview option) \<Rightarrow> addr \<Rightarrow> addr option \<Rightarrow> addr \<Rightarrow> 'v eview option" where
  "vnext V a n = V(a := map_option (\<lambda>(k, v, p, _). (k, v, p, n)) (V a))"

definition vprev :: "(addr \<Rightarrow> 'v eview option) \<Rightarrow> addr \<Rightarrow> addr option \<Rightarrow> addr \<Rightarrow> 'v eview option" where
  "vprev V a p = V(a := map_option (\<lambda>(k, v, _, n). (k, v, p, n)) (V a))"

lemma chain_cong: "\<forall>a \<in> set xs. V a = V' a \<Longrightarrow> chain V p xs q = chain V' p xs q"
  by (induction xs arbitrary: p) auto

lemma chain_append:
  "chain V p (xs @ ys) q \<longleftrightarrow> chain V p xs (first_of ys q) \<and> chain V (last_of p xs) ys q"
proof (induction xs arbitrary: p)
  case (Cons a xs)
  have "first_of (xs @ ys) q = first_of xs (first_of ys q)" by (cases xs) auto
  moreover have "last_of (Some a) xs = last_of p (a # xs)" by simp
  ultimately show ?case using Cons [of "Some a"] by simp
qed simp

lemma chain_vnext_other: "a \<notin> set xs \<Longrightarrow> chain (vnext V a n) p xs q = chain V p xs q"
  by (rule chain_cong) (auto simp: vnext_def)

lemma chain_vprev_other: "a \<notin> set xs \<Longrightarrow> chain (vprev V a n) p xs q = chain V p xs q"
  by (rule chain_cong) (auto simp: vprev_def)

lemma chain_vnext_last:
  assumes "chain V p xs q" and "distinct xs" and "xs \<noteq> []"
  shows "chain (vnext V (last xs) n) p xs n"
proof -
  have xs: "xs = butlast xs @ [last xs]" using assms(3) by simp
  have new: "last xs \<notin> set (butlast xs)"
    using assms(2) xs by (metis distinct_append disjoint_iff list.set_intros(1))
  have "chain V p (butlast xs) (Some (last xs))"
    "chain V (last_of p (butlast xs)) [last xs] q"
    using assms(1) chain_append [of V p "butlast xs" "[last xs]" q] xs by auto
  then have "chain (vnext V (last xs) n) p (butlast xs) (Some (last xs))"
    "chain (vnext V (last xs) n) (last_of p (butlast xs)) [last xs] n"
    by (simp add: chain_vnext_other [OF new], auto simp: vnext_def)
  then have "chain (vnext V (last xs) n) p (butlast xs @ [last xs]) n"
    unfolding chain_append by simp
  with xs show ?thesis by simp
qed

lemma chain_vprev_first:
  assumes "chain V p xs q" and "distinct xs" and "xs = b # ys"
  shows "chain (vprev V b p') p' xs q"
  using assms by (auto simp: chain_vprev_other) (auto simp: vprev_def)

lemma chain_dom: "chain V p xs q \<Longrightarrow> set xs \<subseteq> dom V"
  by (induction xs arbitrary: p) auto

section \<open>Well-linked tables\<close>

fun dq_walk :: "'v store \<Rightarrow> addr option \<Rightarrow> nat \<Rightarrow> addr list" where
  "dq_walk st None n = []"
| "dq_walk st (Some a) 0 = []"
| "dq_walk st (Some a) (Suc n) =
     (case st a of None \<Rightarrow> [] | Some e \<Rightarrow> a # dq_walk st (e_next e) n)"

definition linked :: "(addr \<Rightarrow> 'v eview option) \<Rightarrow> addr option \<Rightarrow> addr option \<Rightarrow> addr list \<Rightarrow> bool" where
  "linked V h t xs \<longleftrightarrow> h = first_of xs None \<and> t = last_of None xs \<and> chain V None xs None
     \<and> distinct xs"

lemma dq_walk_chain:
  "chain (view st) p xs None \<Longrightarrow> length xs \<le> n \<Longrightarrow> dq_walk st (first_of xs None) n = xs"
proof (induction xs arbitrary: p n)
  case (Cons a xs)
  then obtain n' where n: "n = Suc n'" by (cases n) auto
  from Cons.prems obtain e where "st a = Some e" "e_next e = first_of xs None"
    by (auto simp: view_def)
  with Cons n show ?case by auto
qed simp

lemma chain_neighbours:
  assumes "chain V p xs q" and "a \<in> set xs"
  shows "\<exists>k v p' n'. V a = Some (k, v, p', n') \<and> (p' = p \<or> p' \<in> Some ` set xs)
    \<and> (n' = q \<or> n' \<in> Some ` set xs)"
  using assms
proof (induction xs arbitrary: p)
  case (Cons b xs)
  show ?case
  proof (cases "a = b")
    case True
    with Cons.prems show ?thesis by (cases xs) auto
  next
    case False
    with Cons.prems have "\<exists>k v p' n'. V a = Some (k, v, p', n') \<and> (p' = Some b \<or> p' \<in> Some ` set xs)
      \<and> (n' = q \<or> n' \<in> Some ` set xs)" by (intro Cons.IH) auto
    then show ?thesis by auto
  qed
qed simp

text \<open>The pairs on a list, the list of a table, and the invariant.\<close>

definition pair_of :: "(addr \<Rightarrow> 'v eview option) \<Rightarrow> addr \<Rightarrow> (bytes \<times> 'v) option" where
  "pair_of V a = (case V a of Some (Some k, Some v, _, _) \<Rightarrow> Some (k, v) | _ \<Rightarrow> None)"

primrec pairs :: "(addr \<Rightarrow> 'v eview option) \<Rightarrow> addr list \<Rightarrow> (bytes \<times> 'v) list" where
  "pairs V [] = []"
| "pairs V (a # xs) = (case pair_of V a of None \<Rightarrow> pairs V xs | Some x \<Rightarrow> x # pairs V xs)"

definition dq_list :: "('v, 'w) DequeueHashTable \<Rightarrow> addr list" where
  "dq_list d = dq_walk (dq_store d) (dq_head d) (ht_size (dq_ht d))"

definition dq_entries :: "('v, 'w) DequeueHashTable \<Rightarrow> (bytes \<times> 'v) list" where
  "dq_entries d = pairs (view (dq_store d)) (dq_list d)"

definition dq_lnk :: "('v, 'w) DequeueHashTable \<Rightarrow> addr list \<Rightarrow> bool" where
  "dq_lnk d xs \<longleftrightarrow> ht_wf (dq_ht d) \<and> cmp_ok (keyComparator d)
     \<and> linked (view (dq_store d)) (dq_head d) (dq_tail d) xs"

definition dq_wf :: "('v, 'w) DequeueHashTable \<Rightarrow> bool" where
  "dq_wf d \<longleftrightarrow> dq_lnk d (dq_list d) \<and> set (dq_list d) = dom (dq_store d)"

lemma pairs_append [simp]: "pairs V (xs @ ys) = pairs V xs @ pairs V ys"
  by (induction xs) (auto split: option.split)

lemma pairs_cong: "\<forall>a \<in> set xs. pair_of V a = pair_of V' a \<Longrightarrow> pairs V xs = pairs V' xs"
  by (induction xs) (auto split: option.split)

lemma pair_of_vnext [simp]: "pair_of (vnext V a n) = pair_of V"
  by (rule ext) (auto simp: pair_of_def vnext_def split: option.split)

lemma pair_of_vprev [simp]: "pair_of (vprev V a n) = pair_of V"
  by (rule ext) (auto simp: pair_of_def vprev_def split: option.split)

lemma ht_dom_count: "ht_wf ht \<Longrightarrow> card (dom (ht_entries ht)) = ht_count ht \<and> finite (dom (ht_entries ht))"
  by (erule ht_wfD) simp

lemma dq_lnk_length:
  assumes "dq_lnk d xs"
  shows "length xs \<le> ht_count (dq_ht d)" and "length xs \<le> ht_size (dq_ht d)"
    and "set xs \<subseteq> dom (dq_store d)"
proof -
  have wf: "ht_wf (dq_ht d)" and "distinct xs" "set xs \<subseteq> dom (view (dq_store d))"
    using assms chain_dom [of "view (dq_store d)" None xs None] by (simp_all add: dq_lnk_def linked_def)
  then show sub: "set xs \<subseteq> dom (dq_store d)" by (simp add: dom_view)
  have "length xs = card (set xs)" using \<open>distinct xs\<close> by (simp add: distinct_card)
  also have "\<dots> \<le> ht_count (dq_ht d)"
    using ht_dom_count [OF wf] sub by (metis card_mono)
  finally show "length xs \<le> ht_count (dq_ht d)" .
  moreover have "ht_count (dq_ht d) \<le> ht_size (dq_ht d)" using wf by (auto elim: ht_wfD)
  ultimately show "length xs \<le> ht_size (dq_ht d)" by simp
qed

lemma dq_lnk_list: "dq_lnk d xs \<Longrightarrow> dq_list d = xs"
  using dq_lnk_length(2) [of d xs] dq_walk_chain [of "dq_store d" None xs]
  by (simp add: dq_list_def dq_lnk_def linked_def)

lemma dq_wfI: "dq_lnk d xs \<Longrightarrow> set xs = dom (dq_store d) \<Longrightarrow> dq_wf d"
  by (simp add: dq_wf_def dq_lnk_list)

lemma dq_wfD:
  assumes "dq_wf d"
  obtains xs where "dq_lnk d xs" "set xs = dom (dq_store d)" "dq_list d = xs"
    "dq_entries d = pairs (view (dq_store d)) xs" "distinct xs"
  using assms by (auto simp: dq_wf_def dq_entries_def dq_lnk_def linked_def)

section \<open>Printing never fails on a well-linked table\<close>

lemma store_key_sprint:
  assumes "ht_wf ht" and "a \<in> dom (ht_entries ht)"
  shows "\<exists>e s. ht_entries ht a = Some e \<and> key_sprint (e_key e) = Inr s"
proof -
  obtain items where w: "tab items (ht_entries ht)" "dom (ht_entries ht) = addrs items"
    using assms(1) by (rule ht_wfD)
  then obtain e k where "ht_entries ht a = Some e" "e_key e = Some k" "wf_key k"
    using tab_good [OF w(1), of a] assms(2) by (auto simp: good_entry_def)
  moreover have "\<exists>s. key_sprint (Some k) = Inr s"
    using key_cmp_wf [OF \<open>wf_key k\<close> \<open>wf_key k\<close>] by (auto simp: key_cmp_def)
  ultimately show ?thesis by auto
qed

lemma print_key_ok: "ht_wf ht \<Longrightarrow> p = None \<or> p \<in> Some ` dom (ht_entries ht) \<Longrightarrow>
    print_key (ht_entries ht) p = Inr ()"
  using store_key_sprint [of ht] by (force simp: print_key_def load_def)

lemma print_entry_ok:
  assumes "ht_wf ht" and "chain (view (ht_entries ht)) None xs None" and "p = None \<or> p \<in> Some ` set xs"
  shows "print_entry (ht_entries ht) p = Inr ()"
proof (cases p)
  case (Some a)
  have sub: "set xs \<subseteq> dom (ht_entries ht)" using chain_dom [OF assms(2)] by (simp add: dom_view)
  have a: "a \<in> set xs" using assms(3) Some by auto
  then obtain e s where e: "ht_entries ht a = Some e" "key_sprint (e_key e) = Inr s"
    using store_key_sprint [OF assms(1)] sub by blast
  have "(e_prev e = None \<or> e_prev e \<in> Some ` set xs) \<and> (e_next e = None \<or> e_next e \<in> Some ` set xs)"
    using chain_neighbours [OF assms(2) a] e(1) by (auto simp: view_def)
  with sub have "print_key (ht_entries ht) (e_next e) = Inr ()" "print_key (ht_entries ht) (e_prev e) = Inr ()"
    using print_key_ok [OF assms(1)] by blast+
  with e Some show ?thesis by (simp add: print_entry_def load_def)
qed (simp add: print_entry_def)

lemma print_loop_ok:
  assumes "chain (view st) p xs None" and "length xs \<le> n"
    and "\<forall>a \<in> set xs. print_entry st (Some a) = Inr ()"
  shows "print_loop st (first_of xs None) n = Inr ()"
  using assms
proof (induction xs arbitrary: p n)
  case (Cons a xs)
  then obtain n' where n: "n = Suc n'" by (cases n) auto
  from Cons.prems obtain e where "st a = Some e" "e_next e = first_of xs None"
    by (auto simp: view_def)
  with Cons n show ?case by (auto simp: load_def)
qed simp

lemma print_table_ok:
  assumes "dq_lnk d xs"
  shows "dqht_print_table d = Inr ()"
proof -
  have l: "ht_wf (dq_ht d)" "chain (view (dq_store d)) None xs None" "dq_head d = first_of xs None"
    "dq_tail d = last_of None xs" using assms by (auto simp: dq_lnk_def linked_def)
  have "\<forall>a \<in> set xs. print_entry (dq_store d) (Some a) = Inr ()"
    using print_entry_ok [OF l(1,2)] by blast
  moreover have "print_entry (dq_store d) (dq_head d) = Inr ()" "print_entry (dq_store d) (dq_tail d) = Inr ()"
    using print_entry_ok [OF l(1,2)] l(3,4) by (cases xs; auto)+
  ultimately show ?thesis
    using print_loop_ok [OF l(2) dq_lnk_length(2) [OF assms]] l(3) by (simp add: dqht_print_table_def)
qed

section \<open>The link updates\<close>

lemma tab_links:
  assumes "tab items st" and "st a = Some e"
    and "e_key e' = e_key e" "e_ptr e' = e_ptr e" "e_index e' = e_index e"
  shows "tab items (st(a \<mapsto> e'))"
proof -
  have "key_of (st(a \<mapsto> e')) = key_of st" using assms(2,3) by (auto simp: key_of_def)
  with assms show ?thesis unfolding tab_def good_entry_def by auto
qed

lemma ht_wf_links:
  assumes "ht_wf ht" and "ht_entries ht a = Some e"
    and "e_key e' = e_key e" "e_ptr e' = e_ptr e" "e_index e' = e_index e"
  shows "ht_wf (ht\<lparr>ht_entries := (ht_entries ht)(a \<mapsto> e')\<rparr>)"
proof -
  obtain items where w: "ht_items ht = Some items" "length items = ht_size ht" "0 < ht_size ht"
    "ht_count ht = card (addrs items)" "ht_count ht \<le> ht_size ht div 2"
    "tab items (ht_entries ht)" "dom (ht_entries ht) = addrs items" "cmp_ok (ht_comparator ht)"
    using assms(1) by (rule ht_wfD)
  have "dom ((ht_entries ht)(a \<mapsto> e')) = addrs items" using w(7) assms(2) by auto
  with w tab_links [OF w(6) assms(2-5)] show ?thesis by (simp add: ht_wf_def)
qed

text \<open>Two tables that differ in links and list ends only.\<close>

definition same_frame :: "('v, 'w) DequeueHashTable \<Rightarrow> ('v, 'w) DequeueHashTable \<Rightarrow> bool" where
  "same_frame d d' \<longleftrightarrow> keyComparator d' = keyComparator d
     \<and> entryDestroyHandler d' = entryDestroyHandler d
     \<and> ht_size (dq_ht d') = ht_size (dq_ht d) \<and> ht_count (dq_ht d') = ht_count (dq_ht d)
     \<and> ht_comparator (dq_ht d') = ht_comparator (dq_ht d) \<and> ht_items (dq_ht d') = ht_items (dq_ht d)
     \<and> map_option e_index \<circ> dq_store d' = map_option e_index \<circ> dq_store d"

lemma same_frame_refl [simp]: "same_frame d d"
  by (simp add: same_frame_def)

lemma same_frame_trans [trans]: "same_frame d d' \<Longrightarrow> same_frame d' d'' \<Longrightarrow> same_frame d d''"
  by (simp add: same_frame_def)

lemma same_frame_ends [simp]:
  "same_frame d (d'\<lparr>dq_head := h\<rparr>) = same_frame d d'" "same_frame d (d'\<lparr>dq_tail := t\<rparr>) = same_frame d d'"
  by (simp_all add: same_frame_def)

lemma set_next_ok:
  assumes "ht_wf (dq_ht d)" and "a \<in> dom (dq_store d)"
  shows "\<exists>d'. set_next d a n = Inr d' \<and> ht_wf (dq_ht d') \<and> same_frame d d'
    \<and> dq_head d' = dq_head d \<and> dq_tail d' = dq_tail d
    \<and> view (dq_store d') = vnext (view (dq_store d)) a n"
proof -
  obtain e where e: "dq_store d a = Some e" using assms(2) by auto
  let ?d = "d\<lparr>dq_ht := (dq_ht d)\<lparr>ht_entries := (dq_store d)(a \<mapsto> e\<lparr>e_next := n\<rparr>)\<rparr>\<rparr>"
  have "set_next d a n = Inr ?d" using e by (simp add: set_next_def modify_def load_def)
  moreover have "ht_wf (dq_ht ?d)" using ht_wf_links [OF assms(1) e, of "e\<lparr>e_next := n\<rparr>"] by simp
  moreover have "view (dq_store ?d) = vnext (view (dq_store d)) a n"
    using e by (auto simp: view_def vnext_def)
  moreover have "same_frame d ?d" using e by (auto simp: same_frame_def)
  ultimately show ?thesis by (intro exI [of _ ?d]) simp
qed

lemma set_prev_ok:
  assumes "ht_wf (dq_ht d)" and "a \<in> dom (dq_store d)"
  shows "\<exists>d'. set_prev d a p = Inr d' \<and> ht_wf (dq_ht d') \<and> same_frame d d'
    \<and> dq_head d' = dq_head d \<and> dq_tail d' = dq_tail d
    \<and> view (dq_store d') = vprev (view (dq_store d)) a p"
proof -
  obtain e where e: "dq_store d a = Some e" using assms(2) by auto
  let ?d = "d\<lparr>dq_ht := (dq_ht d)\<lparr>ht_entries := (dq_store d)(a \<mapsto> e\<lparr>e_prev := p\<rparr>)\<rparr>\<rparr>"
  have "set_prev d a p = Inr ?d" using e by (simp add: set_prev_def modify_def load_def)
  moreover have "ht_wf (dq_ht ?d)" using ht_wf_links [OF assms(1) e, of "e\<lparr>e_prev := p\<rparr>"] by simp
  moreover have "view (dq_store ?d) = vprev (view (dq_store d)) a p"
    using e by (auto simp: view_def vprev_def)
  moreover have "same_frame d ?d" using e by (auto simp: same_frame_def)
  ultimately show ?thesis by (intro exI [of _ ?d]) simp
qed

lemma dom_vnext [simp]: "dom (vnext V a n) = dom V"
  by (auto simp: vnext_def split: if_splits)

lemma dom_vprev [simp]: "dom (vprev V a n) = dom V"
  by (auto simp: vprev_def split: if_splits)

lemma dq_lnkD:
  assumes "dq_lnk d xs"
  shows "ht_wf (dq_ht d)" "cmp_ok (keyComparator d)" "dq_head d = first_of xs None"
    "dq_tail d = last_of None xs" "chain (view (dq_store d)) None xs None" "distinct xs"
  using assms by (simp_all add: dq_lnk_def linked_def)

text \<open>The first half of \<open>dqht_unlink\<close> repairs the entries before \<open>a\<close>, the second those after.\<close>

lemma unlink_before:
  assumes l: "dq_lnk d (xs @ a # ys)"
  shows "\<exists>d1. (case last_of None xs of Some p \<Rightarrow> set_next d p (first_of ys None)
                 | None \<Rightarrow> Inr (d\<lparr>dq_head := first_of ys None\<rparr>)) = Inr d1
    \<and> ht_wf (dq_ht d1) \<and> same_frame d d1 \<and> dq_head d1 = first_of (xs @ ys) None \<and> dq_tail d1 = dq_tail d
    \<and> chain (view (dq_store d1)) None xs (first_of ys None) \<and> chain (view (dq_store d1)) (Some a) ys None
    \<and> dom (view (dq_store d1)) = dom (view (dq_store d))
    \<and> pair_of (view (dq_store d1)) = pair_of (view (dq_store d))"
proof -
  let ?V = "view (dq_store d)"
  have c: "chain ?V None xs (Some a)" "chain ?V (Some a) ys None" "distinct xs" "set xs \<inter> set ys = {}"
    using dq_lnkD(5,6) [OF l] by (auto simp: chain_append)
  show ?thesis
  proof (cases "xs = []")
    case True
    then show ?thesis using c dq_lnkD [OF l] by (simp split: list.split)
  next
    case False
    have "last xs \<in> set (xs @ a # ys)" using False by simp
    then have "last xs \<in> dom (dq_store d)" using dq_lnk_length(3) [OF l] by blast
    then obtain d1 where d1: "set_next d (last xs) (first_of ys None) = Inr d1" "ht_wf (dq_ht d1)"
      "same_frame d d1" "dq_head d1 = dq_head d" "dq_tail d1 = dq_tail d"
      "view (dq_store d1) = vnext ?V (last xs) (first_of ys None)"
      using set_next_ok [OF dq_lnkD(1) [OF l]] by blast
    moreover have "chain (view (dq_store d1)) None xs (first_of ys None)"
      unfolding d1(6) by (rule chain_vnext_last [OF c(1,3) False])
    moreover have "last xs \<notin> set ys" using c(4) False by (auto simp: disjoint_iff)
    then have "chain (view (dq_store d1)) (Some a) ys None"
      unfolding d1(6) using c(2) by (simp add: chain_vnext_other)
    moreover have "dq_head d1 = first_of (xs @ ys) None"
      using d1(4) dq_lnkD(3) [OF l] False by (cases xs) auto
    ultimately show ?thesis using False by (intro exI [of _ d1]) simp
  qed
qed

lemma unlink_after:
  assumes wf: "ht_wf (dq_ht d1)" and c: "chain (view (dq_store d1)) None xs (first_of ys None)"
      "chain (view (dq_store d1)) (Some a) ys None" "distinct (xs @ ys)"
    and t: "dq_tail d1 = Some (last (a # ys))" "dq_head d1 = first_of (xs @ ys) None"
  shows "\<exists>d2. (case first_of ys None of Some n \<Rightarrow> set_prev d1 n (last_of None xs)
                 | None \<Rightarrow> Inr (d1\<lparr>dq_tail := last_of None xs\<rparr>)) = Inr d2
    \<and> ht_wf (dq_ht d2) \<and> same_frame d1 d2
    \<and> linked (view (dq_store d2)) (dq_head d2) (dq_tail d2) (xs @ ys)
    \<and> dom (view (dq_store d2)) = dom (view (dq_store d1))
    \<and> pair_of (view (dq_store d2)) = pair_of (view (dq_store d1))"
proof (cases ys)
  case Nil
  then show ?thesis using wf c t by (simp add: linked_def)
next
  case (Cons b zs)
  have "b \<in> dom (dq_store d1)" using chain_dom [OF c(2)] Cons by (auto simp: dom_view)
  then obtain d2 where d2: "set_prev d1 b (last_of None xs) = Inr d2" "ht_wf (dq_ht d2)"
    "same_frame d1 d2" "dq_head d2 = dq_head d1" "dq_tail d2 = dq_tail d1"
    "view (dq_store d2) = vprev (view (dq_store d1)) b (last_of None xs)"
    using set_prev_ok [OF wf] by blast
  have "b \<notin> set xs" using c(3) Cons by auto
  then have "chain (view (dq_store d2)) None xs (first_of ys None)"
    unfolding d2(6) using c(1) by (simp add: chain_vprev_other)
  moreover have "chain (view (dq_store d2)) (last_of None xs) ys None"
    unfolding d2(6) by (rule chain_vprev_first [OF c(2) _ Cons]) (use c(3) in simp)
  ultimately have "linked (view (dq_store d2)) (dq_head d2) (dq_tail d2) (xs @ ys)"
    using c(3) t d2(4,5) Cons by (simp add: linked_def chain_append)
  with d2 Cons show ?thesis by (intro exI [of _ d2]) simp
qed

lemma dqht_unlink_ok:
  assumes l: "dq_lnk d (xs @ a # ys)"
  shows "\<exists>d'. dqht_unlink d (Some a) = Inr d' \<and> dq_lnk d' (xs @ ys) \<and> same_frame d d'
    \<and> dom (dq_store d') = dom (dq_store d)
    \<and> pair_of (view (dq_store d')) = pair_of (view (dq_store d))"
proof -
  have "chain (view (dq_store d)) (last_of None xs) (a # ys) None"
    using dq_lnkD(5) [OF l] by (simp only: chain_append)
  then obtain e where e: "dq_store d a = Some e" "e_prev e = last_of None xs" "e_next e = first_of ys None"
    by (auto simp: view_def)
  obtain d1 where d1: "(case last_of None xs of Some p \<Rightarrow> set_next d p (first_of ys None)
                 | None \<Rightarrow> Inr (d\<lparr>dq_head := first_of ys None\<rparr>)) = Inr d1"
    "ht_wf (dq_ht d1)" "same_frame d d1" "dq_head d1 = first_of (xs @ ys) None" "dq_tail d1 = dq_tail d"
    "chain (view (dq_store d1)) None xs (first_of ys None)" "chain (view (dq_store d1)) (Some a) ys None"
    "dom (view (dq_store d1)) = dom (view (dq_store d))"
    "pair_of (view (dq_store d1)) = pair_of (view (dq_store d))"
    using unlink_before [OF l] by blast
  have "distinct (xs @ ys)" using dq_lnkD(6) [OF l] by auto
  moreover have "dq_tail d1 = Some (last (a # ys))" using d1(5) dq_lnkD(4) [OF l] by simp
  ultimately obtain d2 where d2: "(case first_of ys None of Some n \<Rightarrow> set_prev d1 n (last_of None xs)
                 | None \<Rightarrow> Inr (d1\<lparr>dq_tail := last_of None xs\<rparr>)) = Inr d2"
    "ht_wf (dq_ht d2)" "same_frame d1 d2"
    "linked (view (dq_store d2)) (dq_head d2) (dq_tail d2) (xs @ ys)"
    "dom (view (dq_store d2)) = dom (view (dq_store d1))"
    "pair_of (view (dq_store d2)) = pair_of (view (dq_store d1))"
    using unlink_after [OF d1(2,6,7)] d1(4) by blast
  have l2: "dq_lnk d2 (xs @ ys)"
    using d2(2-4) d1(3) dq_lnkD(2) [OF l] by (simp add: dq_lnk_def same_frame_def)
  have "dqht_unlink d (Some a) = Inr d2"
    unfolding dqht_unlink_def
    using e(1) print_table_ok [OF l] print_table_ok [OF l2] d1(1) [folded e(2,3)] d2(1) [folded e(2,3)]
    by (simp add: load_def)
  with l2 d1 d2 show ?thesis by (auto simp: dom_view intro: same_frame_trans)
qed

section \<open>Linking a new entry\<close>

lemma link_last:
  assumes l: "dq_lnk d xs" and a: "a \<notin> set xs" "view (dq_store d) a = Some (k, v, None, None)"
  shows "\<exists>d3. (case dq_tail d of
                 Some t \<Rightarrow> rbind (set_next d t (Some a)) (\<lambda>d'. set_prev d' a (Some t))
               | None \<Rightarrow> Inr (d\<lparr>dq_head := Some a\<rparr>)) = Inr d3
    \<and> dq_lnk (d3\<lparr>dq_tail := Some a\<rparr>) (xs @ [a]) \<and> same_frame d d3
    \<and> dom (dq_store d3) = dom (dq_store d)
    \<and> pair_of (view (dq_store d3)) = pair_of (view (dq_store d))"
proof (cases "xs = []")
  case True
  then show ?thesis using dq_lnkD [OF l] a by (simp add: dq_lnk_def linked_def)
next
  case False
  let ?t = "last xs"
  have t: "dq_tail d = Some ?t" using dq_lnkD(4) [OF l] False by simp
  have "?t \<in> dom (dq_store d)" using dq_lnk_length(3) [OF l] False by (meson last_in_set subsetD)
  then obtain d1 where d1: "set_next d ?t (Some a) = Inr d1" "ht_wf (dq_ht d1)" "same_frame d d1"
    "dq_head d1 = dq_head d" "view (dq_store d1) = vnext (view (dq_store d)) ?t (Some a)"
    using set_next_ok [OF dq_lnkD(1) [OF l]] by blast
  have "a \<in> dom (view (dq_store d1))" unfolding d1(5) dom_vnext using a(2) by auto
  then have "a \<in> dom (dq_store d1)" by (simp add: dom_view)
  then obtain d2 where d2: "set_prev d1 a (Some ?t) = Inr d2" "ht_wf (dq_ht d2)" "same_frame d1 d2"
    "dq_head d2 = dq_head d1" "view (dq_store d2) = vprev (view (dq_store d1)) a (Some ?t)"
    using set_prev_ok [OF d1(2)] by blast
  let ?V = "view (dq_store d2)"
  have ta: "?t \<noteq> a" using a(1) False by auto
  have "chain ?V None xs (Some a)"
    unfolding d2(5) d1(5) chain_vprev_other [OF a(1)]
    by (rule chain_vnext_last [OF dq_lnkD(5,6) [OF l] False])
  moreover have "?V a = Some (k, v, Some ?t, None)"
    using a(2) ta unfolding d2(5) d1(5) by (simp add: vprev_def vnext_def)
  ultimately have "chain ?V None (xs @ [a]) None" using False by (simp add: chain_append)
  moreover have "dq_head d2 = first_of (xs @ [a]) None"
    using d1(4) d2(4) dq_lnkD(3) [OF l] False by (cases xs) auto
  moreover have "same_frame d d2" using d1(3) d2(3) by (rule same_frame_trans)
  ultimately have "dq_lnk (d2\<lparr>dq_tail := Some a\<rparr>) (xs @ [a])"
    using d2(2) dq_lnkD(2,6) [OF l] a(1) by (simp add: dq_lnk_def linked_def same_frame_def)
  moreover have "dom ?V = dom (view (dq_store d))" "pair_of ?V = pair_of (view (dq_store d))"
    unfolding d2(5) d1(5) by simp_all
  ultimately show ?thesis
    using t d1(1) d2(1) \<open>same_frame d d2\<close> by (simp add: dom_view)
qed

lemma link_first:
  assumes l: "dq_lnk d xs" and a: "a \<notin> set xs" "view (dq_store d) a = Some (k, v, None, None)"
  shows "\<exists>d3. (case dq_head d of
                 Some h \<Rightarrow> rbind (set_prev d h (Some a)) (\<lambda>d'. set_next d' a (Some h))
               | None \<Rightarrow> Inr (d\<lparr>dq_tail := Some a\<rparr>)) = Inr d3
    \<and> dq_lnk (d3\<lparr>dq_head := Some a\<rparr>) (a # xs) \<and> same_frame d d3
    \<and> dom (dq_store d3) = dom (dq_store d)
    \<and> pair_of (view (dq_store d3)) = pair_of (view (dq_store d))"
proof (cases xs)
  case Nil
  then show ?thesis using dq_lnkD [OF l] a by (simp add: dq_lnk_def linked_def)
next
  case (Cons h ys)
  have h: "dq_head d = Some h" using dq_lnkD(3) [OF l] Cons by simp
  have "h \<in> dom (dq_store d)" using dq_lnk_length(3) [OF l] Cons by auto
  then obtain d1 where d1: "set_prev d h (Some a) = Inr d1" "ht_wf (dq_ht d1)" "same_frame d d1"
    "dq_tail d1 = dq_tail d" "view (dq_store d1) = vprev (view (dq_store d)) h (Some a)"
    using set_prev_ok [OF dq_lnkD(1) [OF l]] by blast
  have "a \<in> dom (view (dq_store d1))" unfolding d1(5) dom_vprev using a(2) by auto
  then have "a \<in> dom (dq_store d1)" by (simp add: dom_view)
  then obtain d2 where d2: "set_next d1 a (Some h) = Inr d2" "ht_wf (dq_ht d2)" "same_frame d1 d2"
    "dq_tail d2 = dq_tail d1" "view (dq_store d2) = vnext (view (dq_store d1)) a (Some h)"
    using set_next_ok [OF d1(2)] by blast
  let ?V = "view (dq_store d2)"
  have ha: "h \<noteq> a" using a(1) Cons by auto
  have "chain ?V (Some a) xs None"
    unfolding d2(5) d1(5) chain_vnext_other [OF a(1)]
    by (rule chain_vprev_first [OF dq_lnkD(5,6) [OF l] Cons])
  moreover have "?V a = Some (k, v, None, Some h)"
    using a(2) ha unfolding d2(5) d1(5) by (simp add: vprev_def vnext_def)
  ultimately have "chain ?V None (a # xs) None" using Cons by simp
  moreover have "dq_tail d2 = last_of None (a # xs)" using d1(4) d2(4) dq_lnkD(4) [OF l] Cons by simp
  moreover have "same_frame d d2" using d1(3) d2(3) by (rule same_frame_trans)
  ultimately have "dq_lnk (d2\<lparr>dq_head := Some a\<rparr>) (a # xs)"
    using d2(2) dq_lnkD(2,6) [OF l] a(1) by (simp add: dq_lnk_def linked_def same_frame_def)
  moreover have "dom ?V = dom (view (dq_store d))" "pair_of ?V = pair_of (view (dq_store d))"
    unfolding d2(5) d1(5) by simp_all
  ultimately show ?thesis
    using h d1(1) d2(1) \<open>same_frame d d2\<close> by (simp add: dom_view)
qed

section \<open>Inserting a new key\<close>

definition dq_inv :: "('v, 'z mem_scheme) DequeueHashTable \<times> 'z mem_scheme \<Rightarrow> bool" where
  "dq_inv s = (case s of (d, m) \<Rightarrow>
     dq_wf d \<and> never_fails m \<and> ht_owned m (dq_ht d) \<and> ht_size (dq_ht d) < 2 ^ 59)"

abbreviation dq_keys :: "('v, 'w) DequeueHashTable \<Rightarrow> bytes set" where
  "dq_keys d \<equiv> fst ` set (dq_entries d)"

lemma pairs_set: "x \<in> set (pairs V xs) \<longleftrightarrow> (\<exists>a \<in> set xs. pair_of V a = Some x)"
  by (induction xs) (auto split: option.split)

lemma pair_of_Some: "pair_of V a = Some (k, v) \<longleftrightarrow> (\<exists>p n. V a = Some (Some k, Some v, p, n))"
  by (auto simp: pair_of_def split: option.splits)

lemma dq_keys_view: "dq_wf d \<Longrightarrow> dq_keys d = view_keys (view (dq_store d))"
proof -
  assume wf: "dq_wf d"
  then obtain xs where xs: "dq_lnk d xs" "set xs = dom (dq_store d)"
    "dq_entries d = pairs (view (dq_store d)) xs" by (rule dq_wfD)
  have "k \<in> dq_keys d \<longleftrightarrow> k \<in> view_keys (view (dq_store d))" for k
  proof
    assume "k \<in> dq_keys d"
    then obtain v where "(k, v) \<in> set (pairs (view (dq_store d)) xs)" using xs(3) by force
    then show "k \<in> view_keys (view (dq_store d))"
      unfolding pairs_set pair_of_Some view_keys_def by blast
  next
    assume "k \<in> view_keys (view (dq_store d))"
    then obtain a v p n where a: "view (dq_store d) a = Some (Some k, v, p, n)" by (auto simp: view_keys_def)
    then obtain v' where "v = Some v'" using view_ptr [OF dq_lnkD(1) [OF xs(1)] a] by blast
    with a have "pair_of (view (dq_store d)) a = Some (k, v')" by (simp add: pair_of_Some)
    moreover have "a \<in> set xs" using a xs(2) by (auto simp: view_def)
    ultimately have "(k, v') \<in> set (dq_entries d)" unfolding xs(3) pairs_set by blast
    then show "k \<in> dq_keys d" by force
  qed
  then show ?thesis by blast
qed

text \<open>The table \<open>ht_insert\<close> leaves behind when it has made a new entry, not linked yet.\<close>

lemma dq_ht_insert_new:
  assumes i: "dq_inv (d, m)" and k: "wf_key k" "k \<notin> dq_keys d"
  shows "\<exists>ht a n xs. ht_insert m (dq_ht d) k (Some v) =
      Inr (\<lparr>ins_code = 0, ins_entry = Some a, ins_overridden = None\<rparr>, ht, m\<lparr>allocs := n\<rparr>)
    \<and> ht_owned (m\<lparr>allocs := n\<rparr>) ht \<and> ht_size ht \<le> max (ht_size (dq_ht d)) (4 * ht_count (dq_ht d) + 2)
    \<and> ht_count ht = Suc (ht_count (dq_ht d)) \<and> allocs m \<le> a \<and> a < n
    \<and> dq_lnk (d\<lparr>dq_ht := ht\<rparr>) xs \<and> a \<notin> set xs \<and> dom (ht_entries ht) = insert a (set xs)
    \<and> view (ht_entries ht) a = Some (Some k, Some v, None, None)
    \<and> pairs (view (ht_entries ht)) xs = dq_entries d"
proof -
  have w: "dq_wf d" "never_fails m" "ht_owned m (dq_ht d)" "ht_size (dq_ht d) < 2 ^ 59"
    using i by (simp_all add: dq_inv_def)
  obtain xs where xs: "dq_lnk d xs" "set xs = dom (dq_store d)"
    "dq_entries d = pairs (view (dq_store d)) xs" using w(1) by (rule dq_wfD)
  have k': "k \<notin> view_keys (view (dq_store d))" using dq_keys_view [OF w(1)] k(2) by simp
  obtain ht a n where r: "ht_insert m (dq_ht d) k (Some v) =
      Inr (\<lparr>ins_code = 0, ins_entry = Some a, ins_overridden = None\<rparr>, ht, m\<lparr>allocs := n\<rparr>)"
    "ht_wf ht" "ht_owned (m\<lparr>allocs := n\<rparr>) ht" "ht_count ht = Suc (ht_count (dq_ht d))"
    "ht_size ht \<le> max (ht_size (dq_ht d)) (4 * ht_count (dq_ht d) + 2)"
    "ht_comparator ht = ht_comparator (dq_ht d)" "a \<notin> dom (dq_store d)" "allocs m \<le> a" "a < n"
    "view (ht_entries ht) = (view (dq_store d))(a \<mapsto> (Some k, Some v, None, None))"
    using ht_insert_absent [OF dq_lnkD(1) [OF xs(1)] w(4,2,3) k(1) k', of v] by blast
  have ax: "a \<notin> set xs" using r(7) xs(2) by simp
  then have "chain (view (ht_entries ht)) None xs None"
    using dq_lnkD(5) [OF xs(1)] r(10) chain_cong [of xs "view (dq_store d)" "view (ht_entries ht)"] by auto
  then have "dq_lnk (d\<lparr>dq_ht := ht\<rparr>) xs" using dq_lnkD [OF xs(1)] r(2) by (simp add: dq_lnk_def linked_def)
  moreover have "dom (ht_entries ht) = insert a (set xs)"
    using xs(2) dom_view [of "ht_entries ht"] dom_view [of "dq_store d"] r(10) by simp
  moreover have "pairs (view (ht_entries ht)) xs = dq_entries d"
    unfolding xs(3) r(10) using ax by (intro pairs_cong) (auto simp: pair_of_def)
  ultimately show ?thesis using r ax by auto
qed

lemma dqht_insert_new:
  assumes i: "dq_inv (d, m)" and k: "wf_key k" "k \<notin> dq_keys d"
  shows "\<exists>d' m'. dqht_insert m d (Some k) (Some v) = Inr (0, d', m')
    \<and> dq_wf d' \<and> never_fails m' \<and> ht_owned m' (dq_ht d')
    \<and> ht_size (dq_ht d') \<le> max (ht_size (dq_ht d)) (4 * ht_count (dq_ht d) + 2)
    \<and> ht_count (dq_ht d') = Suc (ht_count (dq_ht d)) \<and> dq_entries d' = dq_entries d @ [(k, v)]
    \<and> entryDestroyHandler d' = entryDestroyHandler d \<and> (\<exists>n \<ge> allocs m. m' = m\<lparr>allocs := n\<rparr>)"
proof -
  obtain ht a n xs where r: "ht_insert m (dq_ht d) k (Some v) =
      Inr (\<lparr>ins_code = 0, ins_entry = Some a, ins_overridden = None\<rparr>, ht, m\<lparr>allocs := n\<rparr>)"
    "ht_owned (m\<lparr>allocs := n\<rparr>) ht" "ht_size ht \<le> max (ht_size (dq_ht d)) (4 * ht_count (dq_ht d) + 2)"
    "ht_count ht = Suc (ht_count (dq_ht d))" "dq_lnk (d\<lparr>dq_ht := ht\<rparr>) xs" "a \<notin> set xs"
    "dom (ht_entries ht) = insert a (set xs)"
    "view (ht_entries ht) a = Some (Some k, Some v, None, None)"
    "pairs (view (ht_entries ht)) xs = dq_entries d" "allocs m \<le> a" "a < n"
    using dq_ht_insert_new [OF i k, of v] by blast
  let ?d1 = "d\<lparr>dq_ht := ht\<rparr>"
  obtain d3 where d3: "(case dq_tail ?d1 of
        Some t \<Rightarrow> rbind (set_next ?d1 t (Some a)) (\<lambda>d'. set_prev d' a (Some t))
      | None \<Rightarrow> Inr (?d1\<lparr>dq_head := Some a\<rparr>)) = Inr d3"
    "dq_lnk (d3\<lparr>dq_tail := Some a\<rparr>) (xs @ [a])" "same_frame ?d1 d3"
    "dom (dq_store d3) = dom (dq_store ?d1)" "pair_of (view (dq_store d3)) = pair_of (view (dq_store ?d1))"
    using link_last [OF r(5,6)] r(8) by force
  let ?d4 = "d3\<lparr>dq_tail := Some a\<rparr>"
  have run: "dqht_insert m d (Some k) (Some v) = Inr (0, ?d4, m\<lparr>allocs := n\<rparr>)"
    unfolding dqht_insert_def
    using r(1) print_table_ok [OF r(5)] d3(1) print_table_ok [OF d3(2)] by (simp add: Let_def)
  have wf: "dq_wf ?d4" by (rule dq_wfI [OF d3(2)]) (use d3(4) r(7) in simp)
  have "dq_entries ?d4 = pairs (view (dq_store d3)) (xs @ [a])"
    using dq_lnk_list [OF d3(2)] by (simp add: dq_entries_def)
  also have "\<dots> = pairs (view (ht_entries ht)) (xs @ [a])"
    by (rule pairs_cong) (simp add: d3(5))
  also have "\<dots> = dq_entries d @ [(k, v)]" using r(8,9) by (simp add: pair_of_def)
  finally have "dq_entries ?d4 = dq_entries d @ [(k, v)]" .
  moreover have "ht_owned (m\<lparr>allocs := n\<rparr>) (dq_ht ?d4)" using r(2) d3(4) by (simp add: ht_owned_def)
  moreover have "never_fails m" using i by (simp add: dq_inv_def)
  moreover have "allocs m \<le> n" using r(10,11) by linarith
  ultimately show ?thesis using run wf r(3,4) d3(3) by (auto simp: same_frame_def)
qed

lemma dqht_push_front_new:
  assumes i: "dq_inv (d, m)" and k: "wf_key k" "k \<notin> dq_keys d"
  shows "\<exists>d' m'. dqht_push_front m d (Some k) (Some v) = Inr (0, d', m')
    \<and> dq_wf d' \<and> never_fails m' \<and> ht_owned m' (dq_ht d')
    \<and> ht_size (dq_ht d') \<le> max (ht_size (dq_ht d)) (4 * ht_count (dq_ht d) + 2)
    \<and> ht_count (dq_ht d') = Suc (ht_count (dq_ht d)) \<and> dq_entries d' = (k, v) # dq_entries d"
proof -
  obtain ht a n xs where r: "ht_insert m (dq_ht d) k (Some v) =
      Inr (\<lparr>ins_code = 0, ins_entry = Some a, ins_overridden = None\<rparr>, ht, m\<lparr>allocs := n\<rparr>)"
    "ht_owned (m\<lparr>allocs := n\<rparr>) ht" "ht_size ht \<le> max (ht_size (dq_ht d)) (4 * ht_count (dq_ht d) + 2)"
    "ht_count ht = Suc (ht_count (dq_ht d))" "dq_lnk (d\<lparr>dq_ht := ht\<rparr>) xs" "a \<notin> set xs"
    "dom (ht_entries ht) = insert a (set xs)"
    "view (ht_entries ht) a = Some (Some k, Some v, None, None)"
    "pairs (view (ht_entries ht)) xs = dq_entries d"
    using dq_ht_insert_new [OF i k, of v] by blast
  let ?d1 = "d\<lparr>dq_ht := ht\<rparr>"
  obtain d3 where d3: "(case dq_head ?d1 of
        Some h \<Rightarrow> rbind (set_prev ?d1 h (Some a)) (\<lambda>d'. set_next d' a (Some h))
      | None \<Rightarrow> Inr (?d1\<lparr>dq_tail := Some a\<rparr>)) = Inr d3"
    "dq_lnk (d3\<lparr>dq_head := Some a\<rparr>) (a # xs)" "same_frame ?d1 d3"
    "dom (dq_store d3) = dom (dq_store ?d1)" "pair_of (view (dq_store d3)) = pair_of (view (dq_store ?d1))"
    using link_first [OF r(5,6)] r(8) by force
  let ?d4 = "d3\<lparr>dq_head := Some a\<rparr>"
  have run: "dqht_push_front m d (Some k) (Some v) = Inr (0, ?d4, m\<lparr>allocs := n\<rparr>)"
    unfolding dqht_push_front_def
    using r(1) print_table_ok [OF r(5)] d3(1) print_table_ok [OF d3(2)] by (simp add: Let_def)
  have wf: "dq_wf ?d4" by (rule dq_wfI [OF d3(2)]) (use d3(4) r(7) in simp)
  have "dq_entries ?d4 = pairs (view (dq_store d3)) (a # xs)"
    using dq_lnk_list [OF d3(2)] by (simp add: dq_entries_def)
  also have "\<dots> = pairs (view (ht_entries ht)) (a # xs)"
    by (rule pairs_cong) (simp add: d3(5))
  also have "\<dots> = (k, v) # dq_entries d" using r(8,9) by (simp add: pair_of_def)
  finally have "dq_entries ?d4 = (k, v) # dq_entries d" .
  moreover have "ht_owned (m\<lparr>allocs := n\<rparr>) (dq_ht ?d4)" using r(2) d3(4) by (simp add: ht_owned_def)
  moreover have "never_fails m" using i by (simp add: dq_inv_def)
  ultimately show ?thesis using run wf r(3,4) d3(3) by (auto simp: same_frame_def)
qed

section \<open>Removing an entry\<close>

lemma unlink_delete:
  assumes l: "dq_lnk d (xs @ a # ys)" and dom: "set (xs @ a # ys) = dom (dq_store d)"
    and sz: "ht_size (dq_ht d) < 2 ^ 64" and e: "dq_store d a = Some e"
  shows "\<exists>d1 e1 ht. dqht_unlink d (Some a) = Inr d1 \<and> dq_store d1 a = Some e1 \<and> e_index e1 = e_index e
    \<and> ht_delete_entry (dq_ht d1) (e_index e1) = Inr (e_ptr e, ht)
    \<and> dq_wf (d1\<lparr>dq_ht := ht\<rparr>) \<and> dq_entries (d1\<lparr>dq_ht := ht\<rparr>) = pairs (view (dq_store d)) (xs @ ys)
    \<and> ht_size ht = ht_size (dq_ht d) \<and> Suc (ht_count ht) = ht_count (dq_ht d)
    \<and> dom (ht_entries ht) \<subseteq> dom (dq_store d) \<and> entryDestroyHandler d1 = entryDestroyHandler d"
proof -
  obtain d1 where d1: "dqht_unlink d (Some a) = Inr d1" "dq_lnk d1 (xs @ ys)" "same_frame d d1"
    "dom (dq_store d1) = dom (dq_store d)" "pair_of (view (dq_store d1)) = pair_of (view (dq_store d))"
    using dqht_unlink_ok [OF l] by blast
  then obtain e1 where e1: "dq_store d1 a = Some e1" using e by blast
  have ix: "e_index e1 = e_index e"
    using d1(3) e e1 by (simp add: same_frame_def fun_eq_iff) (metis option.map(2) option.inject)
  obtain k v p n where V: "view (dq_store d) a = Some (k, v, p, n)" "v = e_ptr e" using e by (simp add: view_def)
  obtain k' v' where kv: "k = Some k'" "v = Some v'" using view_ptr [OF dq_lnkD(1) [OF l] V(1)] .
  then have "pair_of (view (dq_store d1)) a = Some (k', v')" using V d1(5) by (simp add: pair_of_def)
  then have ptr: "e_ptr e1 = e_ptr e" using e1 V kv by (auto simp: pair_of_Some view_def)
  obtain ht where ht: "ht_delete_entry (dq_ht d1) (e_index e1) = Inr (e_ptr e1, ht)" "ht_wf ht"
    "ht_size ht = ht_size (dq_ht d1)" "Suc (ht_count ht) = ht_count (dq_ht d1)"
    "ht_comparator ht = ht_comparator (dq_ht d1)"
    "view (ht_entries ht) = (view (dq_store d1))(a := None)"
    using ht_delete_entry_ok [OF dq_lnkD(1) [OF d1(2)] e1] sz d1(3) by (auto simp: same_frame_def)
  let ?d2 = "d1\<lparr>dq_ht := ht\<rparr>"
  have ax: "a \<notin> set (xs @ ys)" using dq_lnkD(6) [OF l] by auto
  then have "chain (view (ht_entries ht)) None (xs @ ys) None"
    using dq_lnkD(5) [OF d1(2)] ht(6) chain_cong [of "xs @ ys" "view (dq_store d1)" "view (ht_entries ht)"]
    by auto
  then have l2: "dq_lnk ?d2 (xs @ ys)" using dq_lnkD [OF d1(2)] ht(2) by (simp add: dq_lnk_def linked_def)
  have dom2: "dom (ht_entries ht) = dom (dq_store d) - {a}"
    using dom_view [of "ht_entries ht"] dom_view [of "dq_store d1"] ht(6) d1(4) by simp
  then have wf: "dq_wf ?d2" using dom ax by (intro dq_wfI [OF l2]) auto
  have "dq_entries ?d2 = pairs (view (ht_entries ht)) (xs @ ys)"
    using dq_lnk_list [OF l2] by (simp add: dq_entries_def)
  also have "\<dots> = pairs (view (dq_store d)) (xs @ ys)"
    using ax by (intro pairs_cong) (auto simp: ht(6) pair_of_def d1(5) [unfolded fun_eq_iff pair_of_def])
  finally show ?thesis using d1 e1 ix ptr ht dom2 wf by (auto simp: same_frame_def)
qed

lemma distinct_keys:
  assumes "ht_wf ht" and "distinct xs"
  shows "distinct (map fst (pairs (view (ht_entries ht)) xs))"
  using assms(2)
proof (induction xs)
  case (Cons a xs)
  show ?case
  proof (cases "pair_of (view (ht_entries ht)) a")
    case (Some x)
    have "fst x \<notin> fst ` set (pairs (view (ht_entries ht)) xs)"
    proof
      assume "fst x \<in> fst ` set (pairs (view (ht_entries ht)) xs)"
      then obtain b v where b: "b \<in> set xs" "pair_of (view (ht_entries ht)) b = Some (fst x, v)"
        by (auto simp: pairs_set)
      obtain p n where "view (ht_entries ht) a = Some (Some (fst x), Some (snd x), p, n)"
        using Some pair_of_Some [of _ a "fst x" "snd x"] by auto
      moreover obtain p' n' where "view (ht_entries ht) b = Some (Some (fst x), Some v, p', n')"
        using b(2) pair_of_Some by metis
      ultimately have "a = b" using ht_get_present [OF assms(1)] by (metis option.inject sum.inject(2))
      with b(1) Cons.prems show False by simp
    qed
    with Some Cons show ?thesis by simp
  qed (use Cons in simp)
qed simp

lemma dq_entries_distinct: "dq_wf d \<Longrightarrow> distinct (map fst (dq_entries d))"
  by (erule dq_wfD) (simp add: dq_lnkD(1) distinct_keys)

lemma dq_entries_length: "dq_wf d \<Longrightarrow> length (dq_entries d) = ht_count (dq_ht d)"
proof (erule dq_wfD)
  fix xs assume xs: "dq_lnk d xs" "set xs = dom (dq_store d)" "dq_entries d = pairs (view (dq_store d)) xs"
    "distinct xs"
  have "length (pairs (view (dq_store d)) ys) = length ys" if "set ys \<subseteq> dom (dq_store d)" for ys
    using that
  proof (induction ys)
    case (Cons a ys)
    then obtain e where e: "dq_store d a = Some e" by auto
    then have V: "view (dq_store d) a = Some (e_key e, e_ptr e, e_prev e, e_next e)" by (simp add: view_def)
    from view_ptr [OF dq_lnkD(1) [OF xs(1)] V] obtain k v where "e_key e = Some k" "e_ptr e = Some v" by metis
    with V Cons show ?case by (simp add: pair_of_def)
  qed simp
  then have "length (dq_entries d) = length xs" using xs(2,3) by simp
  also have "\<dots> = card (dom (dq_store d))" using xs(2,4) by (metis distinct_card)
  finally show ?thesis using ht_dom_count [OF dq_lnkD(1) [OF xs(1)]] by simp
qed

lemma dq_entry_at:
  assumes "dq_wf d" and "map_of (dq_entries d) k = Some v"
  obtains xs a ys p n e where "dq_lnk d (xs @ a # ys)" "set (xs @ a # ys) = dom (dq_store d)"
    "view (dq_store d) a = Some (Some k, Some v, p, n)" "dq_store d a = Some e" "e_ptr e = Some v"
    "dq_entries d = pairs (view (dq_store d)) xs @ (k, v) # pairs (view (dq_store d)) ys"
proof -
  obtain zs where z: "dq_lnk d zs" "set zs = dom (dq_store d)" "dq_entries d = pairs (view (dq_store d)) zs"
    using assms(1) by (rule dq_wfD)
  have "(k, v) \<in> set (pairs (view (dq_store d)) zs)" using map_of_SomeD [OF assms(2)] z(3) by simp
  then obtain a where a: "a \<in> set zs" "pair_of (view (dq_store d)) a = Some (k, v)"
    unfolding pairs_set by blast
  then obtain p n where v: "view (dq_store d) a = Some (Some k, Some v, p, n)" using pair_of_Some by metis
  then obtain e where e: "dq_store d a = Some e" "e_ptr e = Some v" by (auto simp: view_def)
  obtain xs ys where "zs = xs @ a # ys" using split_list [OF a(1)] by blast
  with that [of xs a ys p n e] z v e a(2) show ?thesis by simp
qed

lemma del_key_split:
  assumes "distinct (map fst (xs @ (k, v) # ys))"
  shows "del_key k (xs @ (k, v) # ys) = xs @ ys"
proof -
  have "k \<notin> fst ` set xs" "k \<notin> fst ` set ys" using assms by auto
  then have "filter (\<lambda>x. fst x \<noteq> k) xs = xs" "filter (\<lambda>x. fst x \<noteq> k) ys = ys"
    by (auto intro!: filter_True)
  then show ?thesis by (simp add: del_key_def)
qed

lemma del_key_absent: "map_of xs k = None \<Longrightarrow> del_key k xs = xs"
  by (auto simp: del_key_def map_of_eq_None_iff intro!: filter_True)

lemma dq_keys_map_of: "k \<in> dq_keys d \<longleftrightarrow> map_of (dq_entries d) k \<noteq> None"
  by (simp add: map_of_eq_None_iff)

lemma dqht_get_ok:
  assumes "dq_wf d" and "wf_key k"
  shows "dqht_get d (Some k) = Inr (map_of (dq_entries d) k)"
proof (cases "map_of (dq_entries d) k")
  case None
  then have "k \<notin> view_keys (view (dq_store d))"
    using dq_keys_view [OF assms(1)] dq_keys_map_of by metis
  moreover have "ht_wf (dq_ht d)" using assms(1) by (auto elim: dq_wfD dest: dq_lnkD(1))
  ultimately have "ht_get (dq_ht d) (Some k) = Inr None" using ht_get_absent assms(2) by blast
  with None show ?thesis by (simp add: dqht_get_def)
next
  case (Some v)
  obtain xs a ys p n e where a: "dq_lnk d (xs @ a # ys)" "view (dq_store d) a = Some (Some k, Some v, p, n)"
    "dq_store d a = Some e" "e_ptr e = Some v"
    using dq_entry_at [OF assms(1) Some] by metis
  from ht_get_present [OF dq_lnkD(1) [OF a(1)] a(2)] a(3,4) Some show ?thesis
    by (simp add: dqht_get_def load_def)
qed

lemma dqht_remove_absent:
  assumes "dq_wf d" and "wf_key k" and "map_of (dq_entries d) k = None"
  shows "dqht_remove m d (Some k) want = Inr (1, None, d, m)"
proof -
  have n: "k \<notin> view_keys (view (dq_store d))"
    using dq_keys_view [OF assms(1)] dq_keys_map_of assms(3) by metis
  obtain xs where l: "dq_lnk d xs" using assms(1) by (rule dq_wfD)
  obtain items where w: "ht_items (dq_ht d) = Some items" "length items = ht_size (dq_ht d)"
    "0 < ht_size (dq_ht d)" "tab items (dq_store d)"
    using dq_lnkD(1) [OF l] by (rule ht_wfD)
  have "slot_key items (dq_store d) i \<noteq> Some k" for i
    using n by (auto simp: slot_key_def view_keys_iff bind_eq_Some_conv)
  then show ?thesis
    using ht_find_wf [OF w(4,2,3) dq_lnkD(2) [OF l] assms(2)] w(1)
    by (simp add: dqht_remove_def find_None_iff [THEN iffD2])
qed

lemma dqht_remove_present:
  assumes wf: "dq_wf d" and sz: "ht_size (dq_ht d) < 2 ^ 64" and k: "map_of (dq_entries d) k = Some v"
  shows "\<exists>d'. dqht_remove m d (Some k) True = Inr (0, Some (Some v), d', m)
    \<and> dqht_remove m d (Some k) False =
        rbind (call_handler (entryDestroyHandler d) (Some v) None m) (\<lambda>m'. Inr (0, None, d', m'))
    \<and> dq_wf d' \<and> dq_entries d' = del_key k (dq_entries d) \<and> ht_size (dq_ht d') = ht_size (dq_ht d)
    \<and> Suc (ht_count (dq_ht d')) = ht_count (dq_ht d)
    \<and> dom (dq_store d') \<subseteq> dom (dq_store d) \<and> entryDestroyHandler d' = entryDestroyHandler d"
proof -
  obtain xs a ys p n e where a: "dq_lnk d (xs @ a # ys)" "set (xs @ a # ys) = dom (dq_store d)"
    "view (dq_store d) a = Some (Some k, Some v, p, n)" "dq_store d a = Some e" "e_ptr e = Some v"
    "dq_entries d = pairs (view (dq_store d)) xs @ (k, v) # pairs (view (dq_store d)) ys"
    using dq_entry_at [OF wf k] .
  have hw: "ht_wf (dq_ht d)" by (rule dq_lnkD(1) [OF a(1)])
  obtain items where items: "ht_items (dq_ht d) = Some items" using hw by (rule ht_wfD)
  obtain e' where e': "ht_find (keyComparator d) (dq_ht d) items k = Inr (Some (e_index e'))"
    "dq_store d a = Some e'" "e_index e' < length items" "items ! e_index e' = Some a"
    using ht_find_present [OF hw a(3) items dq_lnkD(2) [OF a(1)]] .
  obtain d1 e1 ht where r: "dqht_unlink d (Some a) = Inr d1 \<and> dq_store d1 a = Some e1" "e_index e1 = e_index e"
    "ht_delete_entry (dq_ht d1) (e_index e1) = Inr (e_ptr e, ht)" "dq_wf (d1\<lparr>dq_ht := ht\<rparr>)"
    "dq_entries (d1\<lparr>dq_ht := ht\<rparr>) = pairs (view (dq_store d)) (xs @ ys)"
    "ht_size ht = ht_size (dq_ht d)" "Suc (ht_count ht) = ht_count (dq_ht d)"
    "dom (ht_entries ht) \<subseteq> dom (dq_store d)" "entryDestroyHandler d1 = entryDestroyHandler d"
    using unlink_delete [OF a(1,2) sz a(4)] by blast
  have "e' = e" using e'(2) a(4) by simp
  then have "dqht_remove m d (Some k) True = Inr (0, Some (Some v), d1\<lparr>dq_ht := ht\<rparr>, m)"
    "dqht_remove m d (Some k) False =
        rbind (call_handler (entryDestroyHandler d) (Some v) None m) (\<lambda>m'. Inr (0, None, d1\<lparr>dq_ht := ht\<rparr>, m'))"
    using e' items r(1-3,9) a(5) by (simp_all add: dqht_remove_def Let_def)
  moreover have "dq_entries (d1\<lparr>dq_ht := ht\<rparr>) = del_key k (dq_entries d)"
    unfolding r(5) using del_key_split [of "pairs (view (dq_store d)) xs" k v] dq_entries_distinct [OF wf]
    by (simp add: a(6))
  ultimately show ?thesis using r(4,6-9) by (intro exI [of _ "d1\<lparr>dq_ht := ht\<rparr>"]) simp
qed

text \<open>Popping the entry in the middle of a list; the two ends are instances.\<close>

lemma pop_entry_ok:
  assumes l: "dq_lnk d (xs @ a # ys)" and dom: "set (xs @ a # ys) = dom (dq_store d)"
    and sz: "ht_size (dq_ht d) < 2 ^ 64"
  shows "\<exists>d' k v. pop_entry d (Some a) = Inr (Some v, d') \<and> pair_of (view (dq_store d)) a = Some (k, v)
    \<and> dq_wf d' \<and> dq_entries d' = pairs (view (dq_store d)) (xs @ ys)
    \<and> ht_size (dq_ht d') = ht_size (dq_ht d) \<and> Suc (ht_count (dq_ht d')) = ht_count (dq_ht d)
    \<and> dom (dq_store d') \<subseteq> dom (dq_store d) \<and> entryDestroyHandler d' = entryDestroyHandler d"
proof -
  have "a \<in> dom (dq_store d)" using dom by auto
  then obtain e where e: "dq_store d a = Some e" by blast
  then have V: "view (dq_store d) a = Some (e_key e, e_ptr e, e_prev e, e_next e)" by (simp add: view_def)
  then obtain k v where kv: "e_key e = Some k" "e_ptr e = Some v"
    using view_ptr [OF dq_lnkD(1) [OF l] V] by metis
  obtain d1 e1 ht where r: "dqht_unlink d (Some a) = Inr d1" "dq_store d1 a = Some e1"
    "ht_delete_entry (dq_ht d1) (e_index e1) = Inr (e_ptr e, ht)" "dq_wf (d1\<lparr>dq_ht := ht\<rparr>)"
    "dq_entries (d1\<lparr>dq_ht := ht\<rparr>) = pairs (view (dq_store d)) (xs @ ys)"
    "ht_size ht = ht_size (dq_ht d)" "Suc (ht_count ht) = ht_count (dq_ht d)"
    "dom (ht_entries ht) \<subseteq> dom (dq_store d)" "entryDestroyHandler d1 = entryDestroyHandler d"
    using unlink_delete [OF l dom sz e] by blast
  then have "pop_entry d (Some a) = Inr (Some v, d1\<lparr>dq_ht := ht\<rparr>)"
    using kv by (simp add: pop_entry_def load_def)
  moreover have "pair_of (view (dq_store d)) a = Some (k, v)" using V kv by (simp add: pair_of_def)
  ultimately show ?thesis using r(4-9)
    by (intro exI [of _ "d1\<lparr>dq_ht := ht\<rparr>"] exI [of _ k] exI [of _ v]) simp
qed

lemma dq_entries_Nil: "dq_wf d \<Longrightarrow> dq_entries d = [] \<longleftrightarrow> dq_list d = []"
proof -
  assume wf: "dq_wf d"
  then obtain xs where xs: "dq_lnk d xs" "set xs = dom (dq_store d)" "dq_list d = xs" by (rule dq_wfD)
  have "dq_entries d = [] \<longleftrightarrow> card (set xs) = 0"
    using dq_entries_length [OF wf] ht_dom_count [OF dq_lnkD(1) [OF xs(1)]] xs(2) by auto
  then show ?thesis using xs(3) by simp
qed

lemma dqht_pop_front_nil: "dq_wf d \<Longrightarrow> dq_entries d = [] \<Longrightarrow> dqht_pop_front d = Inr (None, d)"
  using dq_entries_Nil [of d] by (auto elim!: dq_wfD dest: dq_lnkD(3) simp: dqht_pop_front_def pop_entry_def)

lemma dqht_get_front_cons:
  assumes wf: "dq_wf d" and ne: "dq_entries d = (k, v) # xs"
  shows "dqht_get_front d = Inr (Some v)"
proof -
  obtain zs where z: "dq_lnk d zs" "set zs = dom (dq_store d)" "dq_list d = zs"
    "dq_entries d = pairs (view (dq_store d)) zs" using wf by (rule dq_wfD)
  then obtain a ys where zs: "zs = a # ys" using dq_entries_Nil [OF wf] ne by (cases zs) auto
  then have "a \<in> dom (dq_store d)" using z(2) by auto
  then obtain e where e: "dq_store d a = Some e" by blast
  then have V: "view (dq_store d) a = Some (e_key e, e_ptr e, e_prev e, e_next e)" by (simp add: view_def)
  obtain k' v' where "e_key e = Some k'" "e_ptr e = Some v'" using view_ptr [OF dq_lnkD(1) [OF z(1)] V] by metis
  then have "e_ptr e = Some v" using V z(4) zs ne by (simp add: pair_of_def)
  then show ?thesis using e dq_lnkD(3) [OF z(1)] zs by (simp add: dqht_get_front_def load_def)
qed

lemma dqht_get_front_nil: "dq_wf d \<Longrightarrow> dq_entries d = [] \<Longrightarrow> dqht_get_front d = Inr None"
  using dq_entries_Nil [of d] by (auto elim!: dq_wfD dest: dq_lnkD(3) simp: dqht_get_front_def)

lemma dq_wf_print: "dq_wf d \<Longrightarrow> dqht_print_table d = Inr ()"
  by (auto elim: dq_wfD intro: print_table_ok)

lemma dqht_pop_last_nil: "dq_wf d \<Longrightarrow> dq_entries d = [] \<Longrightarrow> dqht_pop_last d = Inr (None, d)"
  using dq_entries_Nil [of d] by (auto elim!: dq_wfD dest: dq_lnkD(4) simp: dqht_pop_last_def pop_entry_def)

lemma dqht_pop_front_cons:
  assumes wf: "dq_wf d" and sz: "ht_size (dq_ht d) < 2 ^ 64" and ne: "dq_entries d = (k, v) # xs"
  shows "\<exists>d'. dqht_pop_front d = Inr (Some v, d') \<and> dq_wf d' \<and> dq_entries d' = xs
    \<and> ht_size (dq_ht d') = ht_size (dq_ht d) \<and> Suc (ht_count (dq_ht d')) = ht_count (dq_ht d)
    \<and> dom (dq_store d') \<subseteq> dom (dq_store d) \<and> entryDestroyHandler d' = entryDestroyHandler d"
proof -
  obtain zs where z: "dq_lnk d zs" "set zs = dom (dq_store d)" "dq_list d = zs"
    "dq_entries d = pairs (view (dq_store d)) zs" using wf by (rule dq_wfD)
  then obtain a ys where zs: "zs = a # ys" using dq_entries_Nil [OF wf] ne by (cases zs) auto
  have "dq_head d = Some a" using dq_lnkD(3) [OF z(1)] zs by simp
  moreover obtain d' k' v' where "pop_entry d (Some a) = Inr (Some v', d')"
    "pair_of (view (dq_store d)) a = Some (k', v')" "dq_wf d'" "dq_entries d' = pairs (view (dq_store d)) ys"
    "ht_size (dq_ht d') = ht_size (dq_ht d)" "Suc (ht_count (dq_ht d')) = ht_count (dq_ht d)"
    "dom (dq_store d') \<subseteq> dom (dq_store d)" "entryDestroyHandler d' = entryDestroyHandler d"
    using pop_entry_ok [of d "[]" a ys] z(1,2) zs sz by auto
  ultimately show ?thesis using z(4) zs ne by (simp add: dqht_pop_front_def)
qed

lemma dqht_pop_last_snoc:
  assumes wf: "dq_wf d" and sz: "ht_size (dq_ht d) < 2 ^ 64" and ne: "dq_entries d = xs @ [(k, v)]"
  shows "\<exists>d'. dqht_pop_last d = Inr (Some v, d') \<and> dq_wf d' \<and> dq_entries d' = xs
    \<and> ht_size (dq_ht d') = ht_size (dq_ht d) \<and> dom (dq_store d') \<subseteq> dom (dq_store d)"
proof -
  obtain zs where z: "dq_lnk d zs" "set zs = dom (dq_store d)" "dq_list d = zs"
    "dq_entries d = pairs (view (dq_store d)) zs" using wf by (rule dq_wfD)
  then obtain a ys where zs: "zs = ys @ [a]" using dq_entries_Nil [OF wf] ne by (cases zs rule: rev_cases) auto
  have "dq_tail d = Some a" using dq_lnkD(4) [OF z(1)] zs by simp
  moreover obtain d' k' v' where "pop_entry d (Some a) = Inr (Some v', d')"
    "pair_of (view (dq_store d)) a = Some (k', v')" "dq_wf d'" "dq_entries d' = pairs (view (dq_store d)) ys"
    "ht_size (dq_ht d') = ht_size (dq_ht d)" "dom (dq_store d') \<subseteq> dom (dq_store d)"
    using pop_entry_ok [of d ys a "[]"] z(1,2) zs sz by auto
  ultimately show ?thesis using z(4) zs ne by (simp add: dqht_pop_last_def)
qed

section \<open>The ordered-table contract\<close>

lemma dqht_create_ok:
  assumes "never_fails m" and "0 < n" and "n < 2 ^ 59" and "cmp = None \<or> cmp_ok cmp"
  shows "\<exists>d m'. dqht_create m n cmp h = Inr (Some d, m') \<and> dq_inv (d, m') \<and> dq_entries d = []
    \<and> entryDestroyHandler d = h \<and> (\<exists>j \<ge> allocs m. m' = m\<lparr>allocs := j\<rparr>)"
proof -
  let ?c = "case cmp of None \<Rightarrow> Some default_comparator | Some f \<Rightarrow> Some f"
  have c: "cmp_ok ?c" using assms(4) by (cases cmp) auto
  obtain ht where ht: "ht_create m n ?c = Inr (ht, m\<lparr>allocs := allocs m + 2\<rparr>)" "ht_wf ht" "ht_size ht = n"
    "ht_entries ht = Map.empty"
    using ht_create_ok [OF assms(1-3) c] by blast
  let ?m = "m\<lparr>allocs := allocs m + 2\<rparr>"
  let ?d = "\<lparr>keyComparator = ?c, entryDestroyHandler = h, dq_head = None, dq_tail = None, dq_ht = ht\<rparr>"
  have "dqht_create m n cmp h = Inr (Some ?d, ?m\<lparr>allocs := Suc (allocs ?m)\<rparr>)"
    using ht(1) am_malloc_ok [of ?m] assms(1) by (simp add: dqht_create_def Let_def)
  moreover have l: "dq_lnk ?d []" using c ht(2) by (simp add: dq_lnk_def linked_def)
  moreover have "dq_wf ?d" by (rule dq_wfI [OF l]) (simp add: ht(4))
  moreover have "dq_entries ?d = []" using dq_lnk_list [OF l] by (simp add: dq_entries_def)
  moreover have "\<exists>j \<ge> allocs m. ?m\<lparr>allocs := Suc (allocs ?m)\<rparr> = m\<lparr>allocs := j\<rparr>"
    by (intro exI [of _ "allocs m + 3"]) simp
  ultimately show ?thesis using assms(1,3) ht(3,4)
    by (intro exI [of _ ?d] exI [of _ "?m\<lparr>allocs := Suc (allocs ?m)\<rparr>"]) (simp add: dq_inv_def ht_owned_def)
qed

text \<open>The operations in the shape of the contract; a failed insertion is fatal.\<close>

type_synonym ('v, 'z) dq_state = "('v, 'z mem_scheme) DequeueHashTable \<times> 'z mem_scheme"

definition dq_lookup :: "('v, 'z) dq_state \<Rightarrow> bytes \<Rightarrow> 'v option res" where
  "dq_lookup s k = dqht_get (fst s) (Some k)"

definition dq_push :: "('v, 'z) dq_state \<Rightarrow> bytes \<Rightarrow> 'v \<Rightarrow> ('v, 'z) dq_state res" where
  "dq_push s k v =
     rbind (dqht_insert (snd s) (fst s) (Some k) (Some v)) (\<lambda>(r, s'). if r = 0 then Inr s' else Inl Exit1)"

definition dq_rem :: "('v, 'z) dq_state \<Rightarrow> bytes \<Rightarrow> ('v option \<times> ('v, 'z) dq_state) res" where
  "dq_rem s k =
     rbind (dqht_remove (snd s) (fst s) (Some k) True) (\<lambda>(_, removed, s').
       Inr (case removed of None \<Rightarrow> None | Some v \<Rightarrow> v, s'))"

definition dq_pop :: "('v, 'z) dq_state \<Rightarrow> ('v option \<times> ('v, 'z) dq_state) res" where
  "dq_pop s = rbind (dqht_pop_front (fst s)) (\<lambda>(v, d). Inr (v, d, snd s))"

lemma dq_push_eq: "dq_push (d, m) k v = Inr (d', m') \<longleftrightarrow> dqht_insert m d (Some k) (Some v) = Inr (0, d', m')"
  by (auto simp: dq_push_def split: if_splits)

lemma dqht_remove_codes:
  "dqht_remove m d (Some k) True = Inr (c, removed, d', m') \<Longrightarrow>
     c = 0 \<and> removed \<noteq> None \<or> c = 1 \<and> removed = None"
  by (auto simp: dqht_remove_def Let_def split: option.splits)

lemma dq_rem_Some:
  "dq_rem (d, m) k = Inr (Some v, d', m') \<longleftrightarrow> dqht_remove m d (Some k) True = Inr (0, Some (Some v), d', m')"
proof
  assume "dq_rem (d, m) k = Inr (Some v, d', m')"
  then obtain c removed where r: "dqht_remove m d (Some k) True = Inr (c, removed, d', m')"
    "(case removed of None \<Rightarrow> None | Some v \<Rightarrow> v) = Some v" by (auto simp: dq_rem_def)
  with dqht_remove_codes [OF r(1)] show "dqht_remove m d (Some k) True = Inr (0, Some (Some v), d', m')"
    by (cases removed) auto
qed (simp add: dq_rem_def)

lemma dq_pop_eq: "dq_pop (d, m) = Inr (v, d', m') \<longleftrightarrow> dqht_pop_front d = Inr (v, d') \<and> m' = m"
  by (auto simp: dq_pop_def)

lemma dq_inv_allocs: "dq_inv (d, m) \<Longrightarrow> allocs m \<le> n \<Longrightarrow> dq_inv (d, m\<lparr>allocs := n\<rparr>)"
  by (auto simp: dq_inv_def ht_owned_def)

lemma dq_inv_shrink:
  assumes "dq_inv (d, m)" and "dq_wf d'" and "ht_size (dq_ht d') = ht_size (dq_ht d)"
    and "dom (dq_store d') \<subseteq> dom (dq_store d)"
  shows "dq_inv (d', m)"
  using assms by (auto simp: dq_inv_def ht_owned_def)

lemma dq_inv_grow:
  assumes "dq_inv (d, m)" and "length (dq_entries d) < 2 ^ 56" and "dq_wf d'" and "never_fails m'"
    and "ht_owned m' (dq_ht d')" and "ht_size (dq_ht d') \<le> max (ht_size (dq_ht d)) (4 * ht_count (dq_ht d) + 2)"
  shows "dq_inv (d', m')"
  using assms dq_entries_length [of d] by (auto simp: dq_inv_def)

lemma dq_push_law:
  assumes "dq_inv s" and "wf_key k" and "map_of (dq_entries (fst s)) k = None"
    and "length (dq_entries (fst s)) < 2 ^ 56"
  shows "\<exists>s'. dq_push s k v = Inr s' \<and> dq_inv s' \<and> dq_entries (fst s') = dq_entries (fst s) @ [(k, v)]"
proof -
  obtain d m where s: "s = (d, m)" by fastforce
  then have i: "dq_inv (d, m)" "k \<notin> dq_keys d" using assms(1,3) by (simp_all add: map_of_eq_None_iff)
  obtain d' m' where r: "dqht_insert m d (Some k) (Some v) = Inr (0, d', m')" "dq_wf d'" "never_fails m'"
    "ht_owned m' (dq_ht d')" "ht_size (dq_ht d') \<le> max (ht_size (dq_ht d)) (4 * ht_count (dq_ht d) + 2)"
    "dq_entries d' = dq_entries d @ [(k, v)]"
    using dqht_insert_new [OF i(1) assms(2) i(2), of v] by blast
  have "dq_inv (d', m')" by (rule dq_inv_grow [OF i(1) _ r(2-5)]) (use assms(4) s in simp)
  with r s show ?thesis by (simp add: dq_push_def)
qed

lemma dq_rem_law:
  assumes "dq_inv s" and "wf_key k"
  shows "\<exists>s'. dq_rem s k = Inr (map_of (dq_entries (fst s)) k, s') \<and> dq_inv s'
    \<and> dq_entries (fst s') = del_key k (dq_entries (fst s))"
proof -
  obtain d m where s: "s = (d, m)" by fastforce
  then have i: "dq_inv (d, m)" "dq_wf d" "ht_size (dq_ht d) < 2 ^ 64" using assms(1) by (simp_all add: dq_inv_def)
  show ?thesis
  proof (cases "map_of (dq_entries d) k")
    case None
    then show ?thesis using dqht_remove_absent [OF i(2) assms(2)] del_key_absent [OF None] i(1)
      by (simp add: s dq_rem_def)
  next
    case (Some v)
    then obtain d' where "dqht_remove m d (Some k) True = Inr (0, Some (Some v), d', m)" "dq_wf d'"
      "dq_entries d' = del_key k (dq_entries d)" "ht_size (dq_ht d') = ht_size (dq_ht d)"
      "dom (dq_store d') \<subseteq> dom (dq_store d)"
      using dqht_remove_present [OF i(2,3), of k v m] by blast
    with Some show ?thesis using dq_inv_shrink [OF i(1)] by (simp add: s dq_rem_def)
  qed
qed

lemma dq_pop_law:
  assumes "dq_inv s" and "dq_entries (fst s) = (k, v) # xs"
  shows "\<exists>s'. dq_pop s = Inr (Some v, s') \<and> dq_inv s' \<and> dq_entries (fst s') = xs"
proof -
  obtain d m where s: "s = (d, m)" by fastforce
  then have i: "dq_inv (d, m)" "dq_wf d" "ht_size (dq_ht d) < 2 ^ 64" using assms(1) by (simp_all add: dq_inv_def)
  obtain d' where "dqht_pop_front d = Inr (Some v, d')" "dq_wf d'" "dq_entries d' = xs"
    "ht_size (dq_ht d') = ht_size (dq_ht d)" "dom (dq_store d') \<subseteq> dom (dq_store d)"
    using dqht_pop_front_cons [OF i(2,3), of k v xs] assms(2) s by auto
  then show ?thesis using dq_inv_shrink [OF i(1)] by (simp add: s dq_pop_def)
qed

lemma dq_entries_wf_key:
  assumes "dq_wf d" and "x \<in> set (dq_entries d)"
  shows "wf_key (fst x)"
proof -
  have "fst x \<in> dq_keys d" using assms(2) by simp
  then obtain a v p n where "view (dq_store d) a = Some (Some (fst x), v, p, n)"
    unfolding dq_keys_view [OF assms(1)] view_keys_def by blast
  with assms(1) show ?thesis by (auto elim!: dq_wfD dest!: dq_lnkD(1) intro: wf_key_of_view)
qed

interpretation dq: ordered_table dq_inv "\<lambda>s. dq_entries (fst s)" wf_key "2 ^ 56" dq_lookup dq_push dq_rem dq_pop
proof
  fix s :: "('v, 'z) dq_state" and k v x xs
  assume i: "dq_inv s"
  then have wf: "dq_wf (fst s)" by (auto simp: dq_inv_def)
  show "distinct (map fst (dq_entries (fst s)))" by (rule dq_entries_distinct [OF wf])
  show "x \<in> set (dq_entries (fst s)) \<Longrightarrow> wf_key (fst x)" by (rule dq_entries_wf_key [OF wf])
  show "dq_entries (fst s) = [] \<Longrightarrow> dq_pop s = Inr (None, s)"
    using dqht_pop_front_nil [OF wf] by (simp add: dq_pop_def)
  show "dq_entries (fst s) = (k, v) # xs \<Longrightarrow>
      \<exists>s'. dq_pop s = Inr (Some v, s') \<and> dq_inv s' \<and> dq_entries (fst s') = xs"
    by (rule dq_pop_law [OF i])
  assume k: "wf_key k"
  show "dq_lookup s k = Inr (map_of (dq_entries (fst s)) k)"
    using dqht_get_ok [OF wf k] by (simp add: dq_lookup_def)
  show "\<exists>s'. dq_rem s k = Inr (map_of (dq_entries (fst s)) k, s') \<and> dq_inv s'
      \<and> dq_entries (fst s') = del_key k (dq_entries (fst s))" by (rule dq_rem_law [OF i k])
  show "map_of (dq_entries (fst s)) k = None \<Longrightarrow> length (dq_entries (fst s)) < 2 ^ 56 \<Longrightarrow>
      \<exists>s'. dq_push s k v = Inr s' \<and> dq_inv s' \<and> dq_entries (fst s') = dq_entries (fst s) @ [(k, v)]"
    by (rule dq_push_law [OF i k])
qed

section \<open>Properties\<close>

text \<open>The operations of a deque, what they do to the table and what they do to a list.\<close>

datatype 'v dq_op = PushLast bytes 'v | PushFront bytes 'v | PopFront | PopLast | Remove bytes

fun dq_exec :: "'v dq_op \<Rightarrow> ('v, 'z) dq_state \<Rightarrow> ('v option \<times> ('v, 'z) dq_state) res" where
  "dq_exec (PushLast k v) s =
     rbind (dqht_push_last (snd s) (fst s) (Some k) (Some v)) (\<lambda>(_, s'). Inr (None, s'))"
| "dq_exec (PushFront k v) s =
     rbind (dqht_push_front (snd s) (fst s) (Some k) (Some v)) (\<lambda>(_, s'). Inr (None, s'))"
| "dq_exec PopFront s = rbind (dqht_pop_front (fst s)) (\<lambda>(v, d). Inr (v, d, snd s))"
| "dq_exec PopLast s = rbind (dqht_pop_last (fst s)) (\<lambda>(v, d). Inr (v, d, snd s))"
| "dq_exec (Remove k) s = dq_rem s k"

fun dq_spec :: "'v dq_op \<Rightarrow> (bytes \<times> 'v) list \<Rightarrow> 'v option \<times> (bytes \<times> 'v) list" where
  "dq_spec (PushLast k v) xs = (None, xs @ [(k, v)])"
| "dq_spec (PushFront k v) xs = (None, (k, v) # xs)"
| "dq_spec PopFront xs = (case xs of [] \<Rightarrow> (None, []) | x # ys \<Rightarrow> (Some (snd x), ys))"
| "dq_spec PopLast xs = (if xs = [] then (None, []) else (Some (snd (last xs)), butlast xs))"
| "dq_spec (Remove k) xs = (map_of xs k, del_key k xs)"

text \<open>Operations with well-formed keys that push only keys the list does not have.\<close>

fun dq_pre :: "'v dq_op \<Rightarrow> (bytes \<times> 'v) list \<Rightarrow> bool" where
  "dq_pre (PushLast k v) xs \<longleftrightarrow> wf_key k \<and> k \<notin> fst ` set xs"
| "dq_pre (PushFront k v) xs \<longleftrightarrow> wf_key k \<and> k \<notin> fst ` set xs"
| "dq_pre PopFront xs \<longleftrightarrow> True"
| "dq_pre PopLast xs \<longleftrightarrow> True"
| "dq_pre (Remove k) xs \<longleftrightarrow> wf_key k"

primrec dq_run :: "'v dq_op list \<Rightarrow> ('v, 'z) dq_state \<Rightarrow> ('v option list \<times> ('v, 'z) dq_state) res" where
  "dq_run [] s = Inr ([], s)"
| "dq_run (x # xs) s =
     rbind (dq_exec x s) (\<lambda>(v, s1). rbind (dq_run xs s1) (\<lambda>(vs, s2). Inr (v # vs, s2)))"

primrec dq_spec_run :: "'v dq_op list \<Rightarrow> (bytes \<times> 'v) list \<Rightarrow> 'v option list \<times> (bytes \<times> 'v) list" where
  "dq_spec_run [] l = ([], l)"
| "dq_spec_run (x # xs) l =
     (case dq_spec x l of (v, l1) \<Rightarrow> (case dq_spec_run xs l1 of (vs, l2) \<Rightarrow> (v # vs, l2)))"

primrec dq_pre_run :: "'v dq_op list \<Rightarrow> (bytes \<times> 'v) list \<Rightarrow> bool" where
  "dq_pre_run [] l \<longleftrightarrow> True"
| "dq_pre_run (x # xs) l \<longleftrightarrow> dq_pre x l \<and> dq_pre_run xs (snd (dq_spec x l))"

lemma dq_exec_refines:
  assumes i: "dq_inv s" and pre: "dq_pre x (dq_entries (fst s))" and lim: "length (dq_entries (fst s)) < 2 ^ 56"
  shows "\<exists>s'. dq_exec x s = Inr (fst (dq_spec x (dq_entries (fst s))), s') \<and> dq_inv s'
    \<and> dq_entries (fst s') = snd (dq_spec x (dq_entries (fst s)))"
proof -
  obtain d m where s: "s = (d, m)" by fastforce
  have w: "dq_inv (d, m)" "dq_wf d" "ht_size (dq_ht d) < 2 ^ 64" using i by (simp_all add: s dq_inv_def)
  show ?thesis
  proof (cases x)
    case (PushLast k v)
    have "map_of (dq_entries (fst s)) k = None" using pre PushLast by (simp add: map_of_eq_None_iff)
    then obtain s' where "dq_push s k v = Inr s'" "dq_inv s'" "dq_entries (fst s') = dq_entries (fst s) @ [(k, v)]"
      using dq_push_law [OF i _ _ lim, of k v] pre PushLast by auto
    then show ?thesis using PushLast by (auto simp: dq_push_def dqht_push_last_def split: if_splits)
  next
    case (PushFront k v)
    then obtain d' m' where r: "dqht_push_front m d (Some k) (Some v) = Inr (0, d', m')" "dq_wf d'"
      "never_fails m'" "ht_owned m' (dq_ht d')"
      "ht_size (dq_ht d') \<le> max (ht_size (dq_ht d)) (4 * ht_count (dq_ht d) + 2)"
      "dq_entries d' = (k, v) # dq_entries d"
      using dqht_push_front_new [OF w(1), of k v] pre s by auto
    have "dq_inv (d', m')" by (rule dq_inv_grow [OF w(1) _ r(2-5)]) (use lim s in simp)
    with r PushFront show ?thesis by (simp add: s)
  next
    case PopFront
    show ?thesis
    proof (cases "dq_entries d")
      case Nil
      then show ?thesis using PopFront dqht_pop_front_nil [OF w(2)] i by (simp add: s)
    next
      case (Cons y ys)
      then show ?thesis using PopFront dq_pop_law [OF i, of "fst y" "snd y" ys] by (auto simp: s dq_pop_def)
    qed
  next
    case PopLast
    show ?thesis
    proof (cases "dq_entries d" rule: rev_cases)
      case Nil
      then show ?thesis using PopLast dqht_pop_last_nil [OF w(2)] i by (simp add: s)
    next
      case (snoc ys y)
      then obtain d' where r: "dqht_pop_last d = Inr (Some (snd y), d')" "dq_wf d'" "dq_entries d' = ys"
        "ht_size (dq_ht d') = ht_size (dq_ht d)" "dom (dq_store d') \<subseteq> dom (dq_store d)"
        using dqht_pop_last_snoc [OF w(2,3), of ys "fst y" "snd y"] by auto
      then have "dq_inv (d', m)" using dq_inv_shrink [OF w(1)] by blast
      with r PopLast snoc show ?thesis by (simp add: s)
    qed
  next
    case (Remove k)
    then show ?thesis using dq_rem_law [OF i, of k] pre by simp
  qed
qed

lemma dq_spec_length: "length (snd (dq_spec x l)) \<le> Suc (length l)"
  by (cases x) (auto simp: del_key_def le_SucI split: list.split)

lemma dq_run_refines:
  assumes "dq_inv s" and "dq_pre_run xs (dq_entries (fst s))"
    and "length (dq_entries (fst s)) + length xs \<le> 2 ^ 56"
  shows "\<exists>s'. dq_run xs s = Inr (fst (dq_spec_run xs (dq_entries (fst s))), s') \<and> dq_inv s'
    \<and> dq_entries (fst s') = snd (dq_spec_run xs (dq_entries (fst s)))"
  using assms
proof (induction xs arbitrary: s)
  case (Cons x xs)
  obtain s1 where s1: "dq_exec x s = Inr (fst (dq_spec x (dq_entries (fst s))), s1)" "dq_inv s1"
    "dq_entries (fst s1) = snd (dq_spec x (dq_entries (fst s)))"
    using dq_exec_refines [OF Cons.prems(1), of x] Cons.prems(2,3) by auto
  have "length (dq_entries (fst s1)) + length xs \<le> 2 ^ 56"
    using dq_spec_length [of x "dq_entries (fst s)"] Cons.prems(3) s1(3) by simp
  then obtain s2 where "dq_run xs s1 = Inr (fst (dq_spec_run xs (dq_entries (fst s1))), s2)" "dq_inv s2"
    "dq_entries (fst s2) = snd (dq_spec_run xs (dq_entries (fst s1)))"
    using Cons.IH [OF s1(2)] Cons.prems(2) s1(3) by auto
  then show ?case using s1 by (simp add: case_prod_beta)
qed simp



text \<open>The values of a list handed to a destroy handler, one after the other.\<close>

primrec destroy_all :: "('v option \<Rightarrow> 'w \<Rightarrow> 'w res) \<Rightarrow> 'v list \<Rightarrow> 'w \<Rightarrow> 'w res" where
  "destroy_all h [] m = Inr m"
| "destroy_all h (v # vs) m = rbind (h (Some v) m) (destroy_all h vs)"

lemma destroy_loop_ok:
  assumes "chain (view st) p xs None" and "distinct xs" and "length xs \<le> n"
    and "\<forall>a \<in> set xs. \<exists>k v p n. view st a = Some (Some k, Some v, p, n)"
    and "nxt = (case xs of [] \<Rightarrow> None | a # ys \<Rightarrow> first_of ys None)"
  shows "destroy_loop (Some h) st m (first_of xs None) nxt n =
    rbind (destroy_all h (map snd (pairs (view st) xs)) m) (\<lambda>m'.
      Inr (\<lambda>a. if a \<in> set xs then map_option (\<lambda>e. e\<lparr>e_ptr := None\<rparr>) (st a) else st a, m'))"
  using assms
proof (induction xs arbitrary: st p n nxt m)
  case (Cons a xs)
  obtain n' where n: "n = Suc n'" using Cons.prems(3) by (cases n) auto
  obtain k v q r where V: "view st a = Some (Some k, Some v, q, r)" using Cons.prems(4) by auto
  then obtain e where e: "st a = Some e" "e_key e = Some k" "e_ptr e = Some v" by (auto simp: view_def)
  let ?st = "st(a \<mapsto> e\<lparr>e_ptr := None\<rparr>)"
  have same: "\<forall>b \<in> set xs. view ?st b = view st b" using Cons.prems(2) by (auto simp: view_def)
  have c: "chain (view ?st) (Some a) xs None"
    using Cons.prems(1) chain_cong [OF same] by simp
  have p: "pairs (view ?st) xs = pairs (view st) xs"
    using same by (intro pairs_cong) (simp add: pair_of_def)
  have live: "\<forall>b \<in> set xs. \<exists>k v p n. view ?st b = Some (Some k, Some v, p, n)"
    using same Cons.prems(4) by (metis list.set_intros(2))
  have "destroy_loop (Some h) ?st m' (first_of xs None) (case xs of [] \<Rightarrow> None | a # ys \<Rightarrow> first_of ys None) n' =
    rbind (destroy_all h (map snd (pairs (view st) xs)) m') (\<lambda>m''.
      Inr (\<lambda>b. if b \<in> set xs then map_option (\<lambda>e. e\<lparr>e_ptr := None\<rparr>) (?st b) else ?st b, m''))" for m'
    unfolding p [symmetric] by (rule Cons.IH [OF c _ _ live]) (use Cons.prems(2,3) n in simp_all)
  moreover have "(\<lambda>b. if b \<in> set xs then map_option (\<lambda>e. e\<lparr>e_ptr := None\<rparr>) (?st b) else ?st b)
    = (\<lambda>b. if b \<in> set (a # xs) then map_option (\<lambda>e. e\<lparr>e_ptr := None\<rparr>) (st b) else st b)"
    using e Cons.prems(2) by (auto simp: fun_eq_iff)
  moreover have "destroy_loop (Some h) st m (Some a) nxt n = rbind (h (Some v) m) (\<lambda>m'.
      destroy_loop (Some h) ?st m' (first_of xs None) (case xs of [] \<Rightarrow> None | a # ys \<Rightarrow> first_of ys None) n')"
  proof (cases xs)
    case Nil
    then show ?thesis using Cons.prems(5) n e by (simp add: load_def modify_def rbind_assoc)
  next
    case (Cons b ys)
    then obtain e' where "st b = Some e'" "e_next e' = first_of ys None" "b \<noteq> a"
      using Cons.prems(1,2) by (auto simp: view_def)
    then show ?thesis using Cons.prems(5) n e Cons by (simp add: load_def modify_def rbind_assoc)
  qed
  ultimately show ?case using V by (simp add: pair_of_def rbind_assoc)
qed simp



lemmas print_loop_num = print_loop.simps(3) [of _ _ "pred_numeral k" for k, folded numeral_eq_Suc]

lemma key_sprint_a [simp]: "key_sprint (Some key_a) = Inr (Some [97])"
  by code_simp

lemma key_sprint_i [simp]: "key_sprint (Some key_i) = Inr (Some [105])"
  by code_simp

lemmas dq_eval = ht_eval dqht_insert_def dqht_unlink_def dqht_print_table_def print_entry_def print_key_def
  print_loop_num set_next_def set_prev_def call_handler_def dqht_push_last_def dqht_create_def Let_def


end
