(* ===== verification/Result.thy ===== *)
theory Result
  imports Prelude
begin

text \<open>
  The cached values of \<open>result.c\<close>: a \<open>Result\<close> struct that owns an array of postings and,
  optionally, an array of orderings.  The three kinds of blocks are separate maps of the
  memory record; an address outside its map is not allocated.
\<close>

section \<open>Data\<close>

record PostIt =
  dn :: "64 word"
  wc :: "32 word"

record Result =
  term1Found :: bool
  term2Found :: bool
  offset2 :: "64 word"
  match_count :: nat
  ordering :: "addr option"
  results :: "addr option"

record res_mem = mem +
  result_at :: "addr \<Rightarrow> Result option"
  posts_at :: "addr \<Rightarrow> PostIt list option"
  order_at :: "addr \<Rightarrow> nat list option"

text \<open>\<open>free\<close> of each kind of block; a block that is not allocated is freed twice.\<close>

definition free_result :: "'z res_mem_scheme \<Rightarrow> addr \<Rightarrow> 'z res_mem_scheme res" where
  "free_result m a =
     (if result_at m a = None then Inl DoubleFree
      else Inr (m\<lparr>result_at := (result_at m)(a := None)\<rparr>))"

definition free_posts :: "'z res_mem_scheme \<Rightarrow> addr \<Rightarrow> 'z res_mem_scheme res" where
  "free_posts m a =
     (if posts_at m a = None then Inl DoubleFree
      else Inr (m\<lparr>posts_at := (posts_at m)(a := None)\<rparr>))"

definition free_order :: "'z res_mem_scheme \<Rightarrow> addr \<Rightarrow> 'z res_mem_scheme res" where
  "free_order m a =
     (if order_at m a = None then Inl DoubleFree
      else Inr (m\<lparr>order_at := (order_at m)(a := None)\<rparr>))"

definition load_result :: "'z res_mem_scheme \<Rightarrow> addr \<Rightarrow> Result res" where
  "load_result m a = (case result_at m a of None \<Rightarrow> Inl UseAfterFree | Some r \<Rightarrow> Inr r)"

text \<open>The source operand of \<open>memcpy(dst, p, n * sizeof(PostIt))\<close>.\<close>

definition read_posts :: "'z res_mem_scheme \<Rightarrow> addr option \<Rightarrow> nat \<Rightarrow> PostIt list res" where
  "read_posts m p n =
     (if n = 0 then Inr []
      else rbind (deref p) (\<lambda>a.
        (case posts_at m a of
           None \<Rightarrow> Inl UseAfterFree
         | Some ps \<Rightarrow> if n \<le> length ps then Inr (take n ps) else Inl OutOfBounds)))"

section \<open>Operations\<close>

definition result_copy_no_results :: "Result \<Rightarrow> Result \<Rightarrow> Result" where
  "result_copy_no_results new_result old_result =
     new_result\<lparr>term1Found := term1Found old_result, term2Found := term2Found old_result,
                offset2 := offset2 old_result, match_count := match_count old_result\<rparr>"

text \<open>What \<open>malloc\<close> leaves in a struct is never read; any value will do.\<close>

definition fresh_result :: Result where
  "fresh_result = \<lparr>term1Found = False, term2Found = False, offset2 = 0, match_count = 0,
                   ordering = None, results = None\<rparr>"

definition result_copy_sized ::
  "'z res_mem_scheme \<Rightarrow> addr \<Rightarrow> nat \<Rightarrow> (addr option \<times> 'z res_mem_scheme) res" where
  "result_copy_sized m old_result topK =
     (case am_malloc m of
        (None, m1) \<Rightarrow> Inr (None, m1)
      | (Some a, m1) \<Rightarrow>
          rbind (load_result m1 old_result) (\<lambda>old.
          let r1 = result_copy_no_results fresh_result old;
              r2 = (if 0 < topK \<and> topK \<le> match_count r1 then r1\<lparr>match_count := topK\<rparr> else r1);
              r3 = r2\<lparr>ordering := None\<rparr>
          in (case am_calloc m1 (match_count r3) 16 of
                (None, m2) \<Rightarrow> Inr (None, m2\<lparr>result_at := (result_at m2)(a \<mapsto> r3\<lparr>results := None\<rparr>)\<rparr>)
              | (Some b, m2) \<Rightarrow>
                  rbind (read_posts m2 (results old) (match_count r3)) (\<lambda>ps.
                    Inr (Some a, m2\<lparr>result_at := (result_at m2)(a \<mapsto> r3\<lparr>results := Some b\<rparr>),
                                    posts_at := (posts_at m2)(b \<mapsto> ps)\<rparr>)))))"

text \<open>\<open>result_copy\<close> passes \<open>(size_t) -1\<close>.\<close>

definition result_copy :: "'z res_mem_scheme \<Rightarrow> addr \<Rightarrow> (addr option \<times> 'z res_mem_scheme) res" where
  "result_copy m old_result = result_copy_sized m old_result (2 ^ 64 - 1)"

definition result_destroy :: "'z res_mem_scheme \<Rightarrow> addr option \<Rightarrow> 'z res_mem_scheme res" where
  "result_destroy m p =
     (case p of None \<Rightarrow> Inr m
      | Some a \<Rightarrow> rbind (load_result m a) (\<lambda>r.
          (case results r of None \<Rightarrow> Inr m
           | Some b \<Rightarrow>
               rbind (case ordering r of None \<Rightarrow> Inr m | Some c \<Rightarrow> free_order m c) (\<lambda>m1.
               rbind (free_posts m1 b) (\<lambda>m2. free_result m2 a)))))"

section \<open>Properties\<close>

text \<open>A live result whose posting array holds at least \<open>match_count\<close> postings.\<close>

definition result_ok :: "'z res_mem_scheme \<Rightarrow> addr \<Rightarrow> Result \<Rightarrow> PostIt list \<Rightarrow> bool" where
  "result_ok m a r ps \<longleftrightarrow> result_at m a = Some r \<and> match_count r \<le> length ps \<and> match_count r * 16 < 2 ^ 64
     \<and> (\<exists>b. results r = Some b \<and> posts_at m b = Some ps)"

definition res_fresh :: "'z res_mem_scheme \<Rightarrow> bool" where
  "res_fresh m \<longleftrightarrow> (\<forall>a \<ge> allocs m. result_at m a = None \<and> posts_at m a = None \<and> order_at m a = None)"

definition copied :: "Result \<Rightarrow> nat \<Rightarrow> addr \<Rightarrow> Result" where
  "copied r k b = \<lparr>term1Found = term1Found r, term2Found = term2Found r, offset2 = offset2 r,
     match_count = k, ordering = None, results = Some b\<rparr>"

definition copy_count :: "Result \<Rightarrow> nat \<Rightarrow> nat" where
  "copy_count r topK = (if 0 < topK \<and> topK \<le> match_count r then topK else match_count r)"

lemma result_copy_sized_ok:
  assumes "never_fails m" and "result_ok m old r ps"
  shows "result_copy_sized m old topK = Inr (Some (allocs m),
    m\<lparr>allocs := Suc (Suc (allocs m)),
      result_at := (result_at m)(allocs m \<mapsto> copied r (copy_count r topK) (Suc (allocs m))),
      posts_at := (posts_at m)(Suc (allocs m) \<mapsto> take (copy_count r topK) ps)\<rparr>)"
proof -
  obtain b where b: "result_at m old = Some r" "results r = Some b" "posts_at m b = Some ps"
    "match_count r \<le> length ps" "match_count r * 16 < 2 ^ 64"
    using assms(2) by (auto simp: result_ok_def)
  let ?m1 = "m\<lparr>allocs := Suc (allocs m)\<rparr>"
  have calloc: "am_calloc ?m1 k 16 = (Some (Suc (allocs m)), m\<lparr>allocs := Suc (Suc (allocs m))\<rparr>)"
    if "k \<le> match_count r" for k
    using assms(1) that b(5) by (subst am_calloc_ok) simp_all
  have posts: "read_posts (m\<lparr>allocs := n\<rparr>) (Some b) k = Inr (take k ps)" if "k \<le> match_count r" for n k
    using b(3,4) that by (simp add: read_posts_def)
  show ?thesis
  proof (cases "0 < topK \<and> topK \<le> match_count r")
    case True
    then show ?thesis using assms(1) b(1,2) calloc [of topK] posts [of topK]
      by (simp add: result_copy_sized_def am_malloc_ok load_result_def Let_def copied_def copy_count_def
          result_copy_no_results_def fresh_result_def)
  next
    case False
    then show ?thesis using assms(1) b(1,2) calloc [of "match_count r"] posts [of "match_count r"]
      by (auto simp: result_copy_sized_def am_malloc_ok load_result_def Let_def copied_def copy_count_def
          result_copy_no_results_def fresh_result_def)
  qed
qed

text \<open>
  C22: \<open>result_copy_sized\<close> makes a deep copy with the first \<open>topK\<close> postings (all of them for
  a bound of 0 or above \<open>match_count\<close>), in blocks that were not allocated, without an
  ordering; every other block keeps its contents.
\<close>

theorem result_copy_sized_deep:
  assumes "never_fails m" and "res_fresh m" and "result_ok m old r ps"
  shows "\<exists>a r' b m'. result_copy_sized m old topK = Inr (Some a, m')
    \<and> result_at m a = None \<and> posts_at m b = None
    \<and> result_at m' = (result_at m)(a \<mapsto> r') \<and> ordering r' = None \<and> results r' = Some b
    \<and> posts_at m' = (posts_at m)(b \<mapsto> take (match_count r') ps)
    \<and> match_count r' = (if 0 < topK \<and> topK \<le> match_count r then topK else match_count r)
    \<and> term1Found r' = term1Found r \<and> term2Found r' = term2Found r \<and> offset2 r' = offset2 r"
proof -
  have "result_at m (allocs m) = None" "posts_at m (Suc (allocs m)) = None"
    using assms(2) by (simp_all add: res_fresh_def)
  then show ?thesis
    using result_copy_sized_ok [OF assms(1,3), of topK]
    by (intro exI [of _ "allocs m"] exI [of _ "copied r (copy_count r topK) (Suc (allocs m))"]
        exI [of _ "Suc (allocs m)"]) (simp add: copied_def copy_count_def)
qed

text \<open>
  Destroying a copy gives back exactly the blocks the copy allocated: the memory is as
  before, but for the number of allocations.
\<close>

theorem result_copy_destroy_roundtrip:
  assumes "never_fails m" and "res_fresh m" and "result_ok m old r ps"
  shows "\<exists>a m'. result_copy m old = Inr (Some a, m') \<and> result_destroy m' (Some a) = Inr (m\<lparr>allocs := allocs m'\<rparr>)"
proof -
  let ?a = "allocs m"
  have f: "result_at m ?a = None" "posts_at m (Suc ?a) = None"
    using assms(2) by (auto simp: res_fresh_def)
  then have "(result_at m)(?a := None) = result_at m" "(posts_at m)(Suc ?a := None) = posts_at m"
    by (auto simp: fun_eq_iff)
  then show ?thesis
    using result_copy_sized_ok [OF assms(1,3), of "2 ^ 64 - 1"]
    by (simp add: copied_def result_copy_def result_destroy_def load_result_def free_posts_def free_result_def)
qed

text \<open>Five postings, of which the struct says three match.\<close>

definition post :: "nat \<Rightarrow> PostIt" where
  "post n = \<lparr>dn = of_nat n, wc = 7\<rparr>"

definition res_mem1 :: res_mem where
  "res_mem1 = \<lparr>allocs = 10, alloc_fails = (\<lambda>_. False),
     result_at = [1 \<mapsto> \<lparr>term1Found = True, term2Found = False, offset2 = 0, match_count = 3,
                        ordering = None, results = Some 2\<rparr>],
     posts_at = [2 \<mapsto> map post [0..<5]], order_at = Map.empty\<rparr>"

lemma res_mem1_ok: "never_fails res_mem1" "res_fresh res_mem1"
  "result_ok res_mem1 1 \<lparr>term1Found = True, term2Found = False, offset2 = 0, match_count = 3,
     ordering = None, results = Some 2\<rparr> (map post [0..<5])"
  by (simp_all add: res_mem1_def never_fails_def res_fresh_def result_ok_def)

theorem result_copy_sized_deep_witness:
  "\<exists>a r' b m'. result_copy_sized res_mem1 1 2 = Inr (Some a, m') \<and> result_at m' a = Some r'
    \<and> match_count r' = 2 \<and> results r' = Some b \<and> posts_at m' b = Some [post 0, post 1]"
  using result_copy_sized_deep [OF res_mem1_ok, of 2] by (auto simp: upt_rec)

theorem result_copy_destroy_roundtrip_witness:
  "\<exists>a m'. result_copy res_mem1 1 = Inr (Some a, m')
    \<and> result_destroy m' (Some a) = Inr (res_mem1\<lparr>allocs := allocs m'\<rparr>)"
  by (rule result_copy_destroy_roundtrip [OF res_mem1_ok])

text \<open>
  When the posting array cannot be allocated, \<open>result_copy_sized\<close> returns \<open>NULL\<close> and the
  struct it has already allocated stays behind, reachable from nowhere.
\<close>

theorem result_copy_sized_leaks:
  assumes "result_at m old = Some r" and "\<not> alloc_fails m (allocs m)" and "alloc_fails m (Suc (allocs m))"
    and "res_fresh m"
  shows "\<exists>m'. result_copy_sized m old topK = Inr (None, m')
    \<and> result_at m (allocs m) = None \<and> result_at m' (allocs m) \<noteq> None"
proof -
  have "am_calloc (m\<lparr>allocs := Suc (allocs m)\<rparr>) n 16 = (None, m\<lparr>allocs := Suc (Suc (allocs m))\<rparr>)" for n
    using assms(3) by (simp add: am_calloc_def am_malloc_def)
  then show ?thesis
    using assms by (simp add: result_copy_sized_def am_malloc_def load_result_def Let_def res_fresh_def)
qed

theorem result_copy_sized_leaks_witness:
  "\<exists>m'. result_copy_sized (res_mem1\<lparr>alloc_fails := \<lambda>n. n = 11\<rparr>) 1 2 = Inr (None, m')
    \<and> result_at m' 10 \<noteq> None"
  using result_copy_sized_leaks [of "res_mem1\<lparr>alloc_fails := \<lambda>n. n = 11\<rparr>" 1 _ 2]
  by (auto simp: res_mem1_def res_fresh_def)

end
