(* ===== verification/LRU.thy ===== *)
theory LRU
  imports DQ_Hashtable Result
begin

text \<open>
  The least-recently-used cache of \<open>cache/lru/lru.c\<close>, built on the dequeue hash table: the
  front of the list is the oldest entry.  Cached values are addresses of \<open>Result\<close> structs,
  as the client of \<open>main.c\<close> stores them.
\<close>

section \<open>Definitions\<close>

record 'w LRUCache =
  lru_cache_size :: nat
  lru_dqht :: "(addr, 'w) DequeueHashTable"

definition destroy_entry :: "(addr, 'z res_mem_scheme) destroy_handler" where
  "destroy_entry entry ignored m = (case entry of None \<Rightarrow> Inr m | Some a \<Rightarrow> free_result m a)"

text \<open>The options struct holds the comparator only; both pointers may be \<open>NULL\<close>.\<close>

definition lru_create ::
  "'z res_mem_scheme \<Rightarrow> nat \<Rightarrow> nat \<Rightarrow> addr comparator option option \<Rightarrow>
     ('z res_mem_scheme LRUCache option \<times> 'z res_mem_scheme) res" where
  "lru_create m ht_sz cache_size options =
     (case am_malloc m of
        (None, m1) \<Rightarrow> Inr (None, m1)
      | (Some _, m1) \<Rightarrow>
          rbind (dqht_create m1 ht_sz (case options of None \<Rightarrow> None | Some c \<Rightarrow> c) (Some destroy_entry))
            (\<lambda>(dq, m2).
            (case dq of None \<Rightarrow> Inr (None, m2)
             | Some d \<Rightarrow> Inr (Some \<lparr>lru_cache_size = cache_size, lru_dqht = d\<rparr>, m2))))"

definition lru_destroy :: "'z res_mem_scheme \<Rightarrow> 'z res_mem_scheme LRUCache \<Rightarrow> (addr store \<times> 'z res_mem_scheme) res" where
  "lru_destroy m cache = dqht_destroy_handled m (lru_dqht cache) (Some (\<lambda>v. destroy_entry v None))"

definition lru_contains :: "'w LRUCache \<Rightarrow> bytes option \<Rightarrow> bool res" where
  "lru_contains cache key =
     (case key of None \<Rightarrow> Inr False
      | Some k \<Rightarrow> rbind (dqht_get (lru_dqht cache) (Some k)) (\<lambda>v. Inr (v \<noteq> None)))"

definition lru_is_full :: "'w LRUCache \<Rightarrow> bool" where
  "lru_is_full cache \<longleftrightarrow> lru_cache_size cache \<le> ht_count (dq_ht (lru_dqht cache))"

text \<open>
  \<open>lru_request\<close> returns its code and what it stores through \<open>evicted\<close> (\<open>None\<close>: nothing is
  written, on a \<open>NULL\<close> key).
\<close>

definition lru_request ::
  "'z res_mem_scheme \<Rightarrow> 'z res_mem_scheme LRUCache \<Rightarrow> bytes option \<Rightarrow> addr option \<Rightarrow>
     (int \<times> addr option option \<times> 'z res_mem_scheme LRUCache \<times> 'z res_mem_scheme) res" where
  "lru_request m cache key value =
     (case key of None \<Rightarrow> Inr (- 1, None, cache, m)
      | Some k \<Rightarrow>
          let insert = (\<lambda>ret_val evicted d.
                rbind (dqht_insert m d (Some k) value) (\<lambda>(r, d', m').
                  Inr (if r = 0 then ret_val else - 1, Some evicted, cache\<lparr>lru_dqht := d'\<rparr>, m')))
          in if lru_cache_size cache \<le> ht_count (dq_ht (lru_dqht cache)) then
               rbind (dqht_pop_front (lru_dqht cache)) (\<lambda>(evicted, d).
                 if evicted = None then Inr (- 1, Some None, cache\<lparr>lru_dqht := d\<rparr>, m)
                 else insert 1 evicted d)
             else insert 0 None (lru_dqht cache))"

definition lru_get ::
  "'z res_mem_scheme \<Rightarrow> 'z res_mem_scheme LRUCache \<Rightarrow> bytes option \<Rightarrow>
     (addr option \<times> 'z res_mem_scheme LRUCache \<times> 'z res_mem_scheme) res" where
  "lru_get m cache key =
     (case key of None \<Rightarrow> Inr (None, cache, m)
      | Some k \<Rightarrow>
          rbind (dqht_remove m (lru_dqht cache) (Some k) True) (\<lambda>(r, removed, d, m1).
            if r \<noteq> 0 then Inr (None, cache\<lparr>lru_dqht := d\<rparr>, m1)
            else
              let entry = (case removed of None \<Rightarrow> None | Some v \<Rightarrow> v) in
              rbind (dqht_insert m1 d (Some k) entry) (\<lambda>(r', d', m2).
                Inr (if r' = 0 then entry else None, cache\<lparr>lru_dqht := d'\<rparr>, m2))))"

definition lru_evict ::
  "'w LRUCache \<Rightarrow> (int \<times> addr option \<times> 'w LRUCache) res" where
  "lru_evict cache =
     rbind (dqht_pop_front (lru_dqht cache)) (\<lambda>(evicted, d).
       Inr (if evicted \<noteq> None then 0 else - 1, evicted, cache\<lparr>lru_dqht := d\<rparr>))"

section \<open>Invariant and specification\<close>

definition lru_entries :: "'w LRUCache \<Rightarrow> (bytes \<times> addr) list" where
  "lru_entries c = dq_entries (lru_dqht c)"

definition lru_inv :: "'z res_mem_scheme LRUCache \<times> 'z res_mem_scheme \<Rightarrow> bool" where
  "lru_inv s = (case s of (c, m) \<Rightarrow> dq_inv (lru_dqht c, m) \<and> length (lru_entries c) \<le> lru_cache_size c
     \<and> lru_cache_size c \<le> 2 ^ 56)"

text \<open>One access to a key: a hit moves the pair to the back, a miss drops the front if the
  list is full and appends the new pair.\<close>

definition lru_access :: "nat \<Rightarrow> bytes \<Rightarrow> addr \<Rightarrow> (bytes \<times> addr) list \<Rightarrow> (bytes \<times> addr) list" where
  "lru_access cap k v xs =
     (case map_of xs k of
        Some w \<Rightarrow> del_key k xs @ [(k, w)]
      | None \<Rightarrow> (if cap \<le> length xs then tl xs else xs) @ [(k, v)])"

text \<open>The client's step (\<open>queryProcessor\<close> of \<open>main.c\<close>): look the key up, and on a miss
  request that the value be cached.\<close>

definition lru_query ::
  "bytes \<times> addr \<Rightarrow> 'z res_mem_scheme LRUCache \<times> 'z res_mem_scheme \<Rightarrow>
     (addr option \<times> 'z res_mem_scheme LRUCache \<times> 'z res_mem_scheme) res" where
  "lru_query kv s =
     rbind (lru_get (snd s) (fst s) (Some (fst kv))) (\<lambda>(r, c, m).
       if r \<noteq> None then Inr (None, c, m)
       else rbind (lru_request m c (Some (fst kv)) (Some (snd kv))) (\<lambda>(code, evicted, s').
              if code = - 1 then Inl Exit1
              else Inr (case evicted of None \<Rightarrow> None | Some e \<Rightarrow> e, s')))"

primrec lru_queries ::
  "(bytes \<times> addr) list \<Rightarrow> 'z res_mem_scheme LRUCache \<times> 'z res_mem_scheme \<Rightarrow>
     (addr option list \<times> 'z res_mem_scheme LRUCache \<times> 'z res_mem_scheme) res" where
  "lru_queries [] s = Inr ([], s)"
| "lru_queries (x # xs) s =
     rbind (lru_query x s) (\<lambda>(e, s1). rbind (lru_queries xs s1) (\<lambda>(es, s2). Inr (e # es, s2)))"

section \<open>Lemmas\<close>

lemma lru_invD:
  assumes "lru_inv (c, m)"
  shows "dq_inv (lru_dqht c, m)" "length (lru_entries c) \<le> lru_cache_size c" "lru_cache_size c \<le> 2 ^ 56"
    "dq_wf (lru_dqht c)" "ht_count (dq_ht (lru_dqht c)) = length (lru_entries c)"
    "ht_size (dq_ht (lru_dqht c)) < 2 ^ 64"
  using assms dq_entries_length [of "lru_dqht c"] by (auto simp: lru_inv_def dq_inv_def lru_entries_def)

lemma lru_get_miss:
  assumes "lru_inv (c, m)" and "wf_key k" and "map_of (lru_entries c) k = None"
  shows "lru_get m c (Some k) = Inr (None, c, m)"
  using dqht_remove_absent [OF lru_invD(4) [OF assms(1)] assms(2), of m True] assms(3)
  by (simp add: lru_get_def lru_entries_def)

lemma lru_get_hit:
  assumes "lru_inv (c, m)" and "wf_key k" and "map_of (lru_entries c) k = Some v"
  shows "\<exists>c' m'. lru_get m c (Some k) = Inr (Some v, c', m') \<and> lru_inv (c', m')
    \<and> lru_cache_size c' = lru_cache_size c \<and> lru_entries c' = del_key k (lru_entries c) @ [(k, v)]"
proof -
  note i = lru_invD [OF assms(1)]
  have "length (dq_entries (lru_dqht c)) \<le> 2 ^ 56" using i(2,3) by (simp add: lru_entries_def)
  then obtain d1 m1 d2 m2 where r: "dq_rem (lru_dqht c, m) k = Inr (Some v, d1, m1)"
    "dq_push (d1, m1) k v = Inr (d2, m2)" "dq_inv (d2, m2)"
    "dq_entries d2 = del_key k (dq_entries (lru_dqht c)) @ [(k, v)]"
    using dq.touch [OF i(1) assms(2), of v] assms(3) by (auto simp: lru_entries_def)
  have "(k, v) \<in> set (lru_entries c)" using assms(3) by (rule map_of_SomeD)
  then have "length (del_key k (lru_entries c)) < length (lru_entries c)"
    unfolding del_key_def by (intro length_filter_less) auto
  then have "lru_inv (c\<lparr>lru_dqht := d2\<rparr>, m2)"
    using r(3,4) i(2,3) by (simp add: lru_inv_def lru_entries_def)
  then show ?thesis using r by (simp add: lru_get_def lru_entries_def dq_rem_Some dq_push_eq)
qed

lemma lru_request_new:
  assumes "lru_inv (c, m)" and "wf_key k" and "map_of (lru_entries c) k = None" and "0 < lru_cache_size c"
  shows "\<exists>c' m'. lru_request m c (Some k) (Some v) =
      Inr (if lru_is_full c then 1 else 0,
           Some (if lru_is_full c then Some (snd (hd (lru_entries c))) else None), c', m')
    \<and> lru_inv (c', m') \<and> lru_cache_size c' = lru_cache_size c
    \<and> lru_entries c' = (if lru_is_full c then tl (lru_entries c) else lru_entries c) @ [(k, v)]"
proof -
  note i = lru_invD [OF assms(1)]
  have full: "lru_is_full c \<longleftrightarrow> lru_cache_size c \<le> length (lru_entries c)" by (simp add: lru_is_full_def i(5))
  have k: "map_of (dq_entries (lru_dqht c)) k = None" using assms(3) by (simp add: lru_entries_def)
  have len: "length (dq_entries (lru_dqht c)) \<le> 2 ^ 56" using i(2,3) by (simp add: lru_entries_def)
  show ?thesis
  proof (cases "lru_is_full c")
    case False
    then have "length (dq_entries (lru_dqht c)) < 2 ^ 56" using full i(3) by (simp add: lru_entries_def)
    then obtain d' m' where "dq_push (lru_dqht c, m) k v = Inr (d', m')" "dq_inv (d', m')"
      "dq_entries d' = dq_entries (lru_dqht c) @ [(k, v)]"
      using dq.push [OF i(1) assms(2), of v] k by auto
    with False show ?thesis using full i(3,5)
      by (auto simp: lru_request_def lru_entries_def lru_inv_def dq_push_eq)
  next
    case True
    then obtain x xs where x: "lru_entries c = x # xs"
      using full assms(4) by (cases "lru_entries c") auto
    then obtain d1 m1 d2 m2 where r: "dq_pop (lru_dqht c, m) = Inr (Some (snd x), d1, m1)"
      "dq_push (d1, m1) k v = Inr (d2, m2)" "dq_inv (d2, m2)" "dq_entries d2 = xs @ [(k, v)]"
      using dq.replace_oldest [OF i(1) assms(2), of x xs v] k len by (auto simp: lru_entries_def)
    have "lru_inv (c\<lparr>lru_dqht := d2\<rparr>, m2)" using r(3,4) x i(2,3) by (simp add: lru_inv_def lru_entries_def)
    then show ?thesis using True r x full i(5)
      by (auto simp: lru_request_def lru_entries_def dq_pop_eq dq_push_eq)
  qed
qed

lemma lru_query_ok:
  assumes "lru_inv s" and "wf_key k" and "0 < lru_cache_size (fst s)"
  shows "\<exists>e s'. lru_query (k, v) s = Inr (e, s') \<and> lru_inv s' \<and> lru_cache_size (fst s') = lru_cache_size (fst s)
    \<and> lru_entries (fst s') = lru_access (lru_cache_size (fst s)) k v (lru_entries (fst s))
    \<and> e = (if map_of (lru_entries (fst s)) k = None \<and> lru_cache_size (fst s) \<le> length (lru_entries (fst s))
           then Some (snd (hd (lru_entries (fst s)))) else None)"
proof -
  obtain c m where s: "s = (c, m)" by fastforce
  have i: "lru_inv (c, m)" using assms(1) s by simp
  show ?thesis
  proof (cases "map_of (lru_entries c) k")
    case (Some w)
    then obtain c' m' where h: "lru_get m c (Some k) = Inr (Some w, c', m')" "lru_inv (c', m')"
      "lru_cache_size c' = lru_cache_size c" "lru_entries c' = del_key k (lru_entries c) @ [(k, w)]"
      using lru_get_hit [OF i assms(2)] by blast
    then have "lru_query (k, v) (c, m) = Inr (None, c', m')" by (simp add: lru_query_def)
    with h Some show ?thesis by (simp add: s lru_access_def)
  next
    case None
    have full: "lru_is_full c \<longleftrightarrow> lru_cache_size c \<le> length (lru_entries c)"
      using lru_invD(5) [OF i] by (simp add: lru_is_full_def)
    from lru_request_new [OF i assms(2) None, of v] assms(3) s obtain c' m' where
      "lru_request m c (Some k) (Some v) =
        Inr (if lru_is_full c then 1 else 0,
             Some (if lru_is_full c then Some (snd (hd (lru_entries c))) else None), c', m')"
      "lru_inv (c', m')" "lru_cache_size c' = lru_cache_size c"
      "lru_entries c' = (if lru_is_full c then tl (lru_entries c) else lru_entries c) @ [(k, v)]" by auto
    with None lru_get_miss [OF i assms(2) None] full show ?thesis
      by (simp add: s lru_query_def lru_access_def)
  qed
qed

lemma lru_create_ok:
  assumes "never_fails m" and "0 < n" and "n < 2 ^ 59" and "cap \<le> 2 ^ 56"
    and "\<forall>f. opts = Some (Some f) \<longrightarrow> cmp_ok (Some f)"
  shows "\<exists>c m'. lru_create m n cap opts = Inr (Some c, m') \<and> lru_inv (c, m') \<and> lru_cache_size c = cap
    \<and> lru_entries c = []"
proof -
  let ?m = "m\<lparr>allocs := Suc (allocs m)\<rparr>" and ?o = "case opts of None \<Rightarrow> None | Some c \<Rightarrow> c"
  have "?o = None \<or> cmp_ok ?o" using assms(5) by (cases opts; cases "the opts") auto
  then obtain d m' where "dqht_create ?m n ?o (Some destroy_entry) = Inr (Some d, m')" "dq_inv (d, m')"
    "dq_entries d = []"
    using dqht_create_ok [of ?m n ?o "Some destroy_entry"] assms(1-3) by auto
  then show ?thesis using assms(1,4)
    by (simp add: lru_create_def am_malloc_ok lru_inv_def lru_entries_def)
qed

section \<open>Properties\<close>

text \<open>The whole run on the list.\<close>

primrec lru_accesses :: "nat \<Rightarrow> (bytes \<times> addr) list \<Rightarrow> (bytes \<times> addr) list \<Rightarrow> (bytes \<times> addr) list" where
  "lru_accesses cap [] xs = xs"
| "lru_accesses cap (q # qs) xs = lru_accesses cap qs (lru_access cap (fst q) (snd q) xs)"

lemma lru_queries_refine:
  assumes "lru_inv s" and "0 < lru_cache_size (fst s)" and "\<forall>q \<in> set qs. wf_key (fst q)"
  shows "\<exists>es s'. lru_queries qs s = Inr (es, s') \<and> lru_inv s' \<and> lru_cache_size (fst s') = lru_cache_size (fst s)
    \<and> lru_entries (fst s') = lru_accesses (lru_cache_size (fst s)) qs (lru_entries (fst s))"
  using assms
proof (induction qs arbitrary: s)
  case (Cons q qs)
  obtain e s1 where s1: "lru_query q s = Inr (e, s1)" "lru_inv s1"
    "lru_cache_size (fst s1) = lru_cache_size (fst s)"
    "lru_entries (fst s1) = lru_access (lru_cache_size (fst s)) (fst q) (snd q) (lru_entries (fst s))"
    using lru_query_ok [OF Cons.prems(1) _ Cons.prems(2), of "fst q" "snd q"] Cons.prems(3) by auto
  then show ?case using Cons.IH [OF s1(2)] Cons.prems(2,3) by fastforce
qed simp


abbreviation res_mem0 :: res_mem where
  "res_mem0 \<equiv> \<lparr>allocs = 100, alloc_fails = (\<lambda>_. False), result_at = Map.empty, posts_at = Map.empty,
     order_at = Map.empty\<rparr>"

abbreviation key_z :: bytes where
  "key_z \<equiv> key_layout 94 [122] (Some [122])"

lemma key_z_wf [simp]: "wf_key key_z"
  unfolding wf_key_def by (intro exI [of _ 94] exI [of _ "[122]"] exI [of _ "Some [122]"]) (simp add: SINGLE_OP_def)

lemma key_z_neq [simp]: "key_z \<noteq> key_a" "key_z \<noteq> key_i" "key_a \<noteq> key_z" "key_i \<noteq> key_z"
  by (simp_all add: key_layout_def SINGLE_OP_def)

lemma lru_accesses_example:
  "lru_accesses 2 [(key_a, 1), (key_i, 2), (key_a, 3), (key_z, 4)] [] = [(key_a, 1), (key_z, 4)]"
  by (simp add: lru_access_def del_key_def)



lemma lru_example:
  obtains c m where "lru_inv (c, m :: res_mem)" "lru_cache_size c = 2" "lru_entries c = [(key_a, 1), (key_i, 2)]"
proof -
  obtain c m1 where c: "lru_create res_mem0 8 2 None = Inr (Some c, m1)" "lru_inv (c, m1)"
    "lru_cache_size c = 2" "lru_entries c = []"
    using lru_create_ok [of res_mem0 8 2 None] by (auto simp: never_fails_def)
  then obtain es s' where "lru_queries [(key_a, 1), (key_i, 2)] (c, m1) = Inr (es, s')" "lru_inv s'"
    "lru_cache_size (fst s') = 2" "lru_entries (fst s') = [(key_a, 1), (key_i, 2)]"
    using lru_queries_refine [OF c(2), of "[(key_a, 1), (key_i, 2)]"] by (auto simp: lru_access_def)
  with that [of "fst s'" "snd s'"] show ?thesis by simp
qed


text \<open>
  \<open>lru_get\<close> returns the cached value and makes it the most recent entry, the order of the
  others unchanged; a key that is not cached gives \<open>NULL\<close> and changes nothing.
\<close>

theorem lru_get_moves_to_back:
  assumes "lru_inv (c, m)" and "wf_key k"
  shows "\<exists>c' m'. lru_get m c (Some k) = Inr (map_of (lru_entries c) k, c', m') \<and> lru_inv (c', m')
    \<and> lru_entries c' = (case map_of (lru_entries c) k of None \<Rightarrow> lru_entries c
                        | Some v \<Rightarrow> del_key k (lru_entries c) @ [(k, v)])"
proof (cases "map_of (lru_entries c) k")
  case None
  then show ?thesis using lru_get_miss [OF assms None] assms(1) by simp
next
  case (Some v)
  then show ?thesis using lru_get_hit [OF assms Some] by auto
qed

theorem lru_get_moves_to_back_witness:
  "\<exists>c m c' m'. lru_entries c = [(key_a, 1), (key_i, 2)]
    \<and> lru_get (m :: res_mem) c (Some key_a) = Inr (Some 1, c', m') \<and> lru_entries c' = [(key_i, 2), (key_a, 1)]"
proof -
  obtain c and m :: res_mem where c: "lru_inv (c, m)" "lru_entries c = [(key_a, 1), (key_i, 2)]"
    by (rule lru_example)
  then show ?thesis using lru_get_moves_to_back [OF c(1), of key_a] by (fastforce simp: del_key_def)
qed

end
