(* ===== verification/Random_Cache.thy ===== *)
theory Random_Cache
  imports Cache_Hashtable Result
begin

text \<open>
  The random-replacement cache of \<open>cache/simple/random.c\<close>, built directly on the hash table.
  The numbers \<open>rand()\<close> returns are a parameter: draw number \<open>i\<close> is \<open>rnd i\<close>.  The eviction
  loop may run forever, so it is a partial function, and a call that may evict returns
  \<open>None\<close> when it does not return.
\<close>

section \<open>Definitions\<close>

record RandomCache =
  rc_cache_size :: nat
  rc_ht :: "addr HashTable"

definition rc_create ::
  "'z mem_scheme \<Rightarrow> nat \<Rightarrow> nat \<Rightarrow> addr comparator option option \<Rightarrow>
     (RandomCache option \<times> 'z mem_scheme) res" where
  "rc_create m ht_sz cache_size options =
     (case am_malloc m of
        (None, m1) \<Rightarrow> Inr (None, m1)
      | (Some _, m1) \<Rightarrow>
          rbind (ht_create m1 ht_sz (case options of None \<Rightarrow> None | Some c \<Rightarrow> c)) (\<lambda>(ht, m2).
            Inr (Some \<lparr>rc_cache_size = cache_size, rc_ht = ht\<rparr>, m2)))"

definition rc_destroy :: "RandomCache \<Rightarrow> addr store res" where
  "rc_destroy cache = ht_destroy (rc_ht cache)"

definition rc_contains :: "RandomCache \<Rightarrow> bytes option \<Rightarrow> bool res" where
  "rc_contains cache key =
     (case key of None \<Rightarrow> Inr False
      | Some k \<Rightarrow> rbind (ht_get (rc_ht cache) (Some k)) (\<lambda>e. Inr (e \<noteq> None)))"

definition rc_is_full :: "RandomCache \<Rightarrow> bool" where
  "rc_is_full cache \<longleftrightarrow> ht_count (rc_ht cache) = rc_cache_size cache"

text \<open>\<open>while ((entry = items[rand() % size]) != NULL);\<close>: the number of the draw that ends it.\<close>

partial_function (option) rc_evict_loop ::
  "(nat \<Rightarrow> nat) \<Rightarrow> addr option list \<Rightarrow> nat \<Rightarrow> nat \<Rightarrow> nat res option" where
  "rc_evict_loop rnd items sz i =
     (case rbind (umod (rnd i) sz) (elem items) of
        Inl e \<Rightarrow> Some (Inl e)
      | Inr None \<Rightarrow> Some (Inr i)
      | Inr (Some a) \<Rightarrow> rc_evict_loop rnd items sz (Suc i))"

text \<open>\<open>entry->key\<close> after the loop; the pointer is the one the loop stopped at.\<close>

definition rc_evict_random ::
  "(nat \<Rightarrow> nat) \<Rightarrow> RandomCache \<Rightarrow> (addr option \<times> RandomCache) res option" where
  "rc_evict_random rnd cache =
     (case ht_items (rc_ht cache) of
        None \<Rightarrow> Some (Inl NullDeref)
      | Some items \<Rightarrow>
          (case rc_evict_loop rnd items (ht_size (rc_ht cache)) 0 of
             None \<Rightarrow> None
           | Some r \<Rightarrow> Some
               (rbind r (\<lambda>i.
                rbind (umod (rnd i) (ht_size (rc_ht cache))) (\<lambda>index.
                rbind (elem items index) (\<lambda>item.
                rbind (deref item) (\<lambda>a.
                rbind (load (ht_entries (rc_ht cache)) a) (\<lambda>e.
                rbind (ht_delete (rc_ht cache) (e_key e)) (\<lambda>(v, ht).
                  Inr (v, cache\<lparr>rc_ht := ht\<rparr>))))))))))"

definition rc_request ::
  "(nat \<Rightarrow> nat) \<Rightarrow> 'z res_mem_scheme \<Rightarrow> RandomCache \<Rightarrow> bytes option \<Rightarrow> addr option \<Rightarrow>
     (int \<times> addr option option \<times> RandomCache \<times> 'z res_mem_scheme) res option" where
  "rc_request rnd m cache key value =
     (case key of None \<Rightarrow> Some (Inr (- 1, None, cache, m))
      | Some k \<Rightarrow>
          let insert = (\<lambda>ret_val evicted c.
                rbind (ht_insert m (rc_ht c) k value) (\<lambda>(r, ht, m1).
                rbind (if ins_overridden r \<noteq> None then result_destroy m1 (ins_overridden r) else Inr m1) (\<lambda>m2.
                  Inr (if ins_code r \<noteq> - 1 then ret_val else - 1, Some evicted, c\<lparr>rc_ht := ht\<rparr>, m2))))
          in if rc_cache_size cache \<le> ht_count (rc_ht cache) then
               (case rc_evict_random rnd cache of
                  None \<Rightarrow> None
                | Some r \<Rightarrow> Some (rbind r (\<lambda>(evicted, c). insert 1 evicted c)))
             else Some (insert 0 None cache))"

definition rc_get :: "RandomCache \<Rightarrow> bytes option \<Rightarrow> addr option res" where
  "rc_get cache key = (case key of None \<Rightarrow> Inr None | Some k \<Rightarrow> ht_get (rc_ht cache) (Some k))"

definition rc_evict_by_key :: "RandomCache \<Rightarrow> bytes option \<Rightarrow> (addr option \<times> RandomCache) res" where
  "rc_evict_by_key cache key =
     (case key of None \<Rightarrow> Inr (None, cache)
      | Some k \<Rightarrow> rbind (ht_delete (rc_ht cache) (Some k)) (\<lambda>(v, ht). Inr (v, cache\<lparr>rc_ht := ht\<rparr>)))"

section \<open>Lemmas\<close>

text \<open>The loop ends at the first draw that hits an empty slot, and at no other.\<close>

lemma rc_evict_loop_least:
  assumes "length items = sz" and "0 < sz" and "i \<le> n" and "items ! (rnd n mod sz) = None"
    and "\<forall>j. i \<le> j \<longrightarrow> j < n \<longrightarrow> items ! (rnd j mod sz) \<noteq> None"
  shows "rc_evict_loop rnd items sz i = Some (Inr n)"
  using assms(3,5)
proof (induction "n - i" arbitrary: i)
  case 0
  then have "i = n" by simp
  with assms show ?case by (subst rc_evict_loop.simps) simp
next
  case (Suc d)
  then have "items ! (rnd i mod sz) \<noteq> None" by simp
  then obtain a where "items ! (rnd i mod sz) = Some a" by blast
  moreover have "rc_evict_loop rnd items sz (Suc i) = Some (Inr n)" using Suc by (intro Suc(1)) auto
  ultimately show ?case using assms(1,2) by (subst rc_evict_loop.simps) simp
qed

lemma rc_evict_loop_result:
  assumes "rc_evict_loop rnd items sz i = Some r" and "length items = sz" and "0 < sz"
  shows "\<exists>n \<ge> i. r = Inr n \<and> items ! (rnd n mod sz) = None"
  using assms
proof (induction rule: rc_evict_loop.raw_induct [rotated 1, consumes 1, case_names step])
  case (step loop rnd items sz i r)
  show ?case
  proof (cases "items ! (rnd i mod sz)")
    case None
    then show ?thesis using step(2-4) by auto
  next
    case (Some a)
    then have "loop rnd items sz (Suc i) = Some r" using step(2-4) by simp
    from step(1) [OF this step(3,4)] obtain n where "Suc i \<le> n" "r = Inr n" "items ! (rnd n mod sz) = None"
      by blast
    then show ?thesis by (intro exI [of _ n]) simp
  qed
qed

section \<open>Properties\<close>

text \<open>
  C25: the eviction loop has its condition the wrong way round.  On every well-formed table
  \<open>rc_evict_random\<close> stops the program with a \<open>NULL\<close> dereference if some draw hits an empty
  slot, and otherwise runs forever; it never evicts anything.
\<close>

theorem rc_evict_random_never_evicts:
  assumes "ht_wf (rc_ht cache)"
  shows "rc_evict_random rnd cache =
    (if \<exists>n. the (ht_items (rc_ht cache)) ! (rnd n mod ht_size (rc_ht cache)) = None
     then Some (Inl NullDeref) else None)"
proof -
  obtain items where w: "ht_items (rc_ht cache) = Some items" "length items = ht_size (rc_ht cache)"
    "0 < ht_size (rc_ht cache)" using assms by (rule ht_wfD)
  let ?hit = "\<lambda>n. items ! (rnd n mod ht_size (rc_ht cache)) = None"
  show ?thesis
  proof (cases "\<exists>n. ?hit n")
    case True
    define n where "n = (LEAST n. ?hit n)"
    have "?hit n" unfolding n_def using True by (rule LeastI_ex)
    moreover have "\<forall>j. 0 \<le> j \<longrightarrow> j < n \<longrightarrow> \<not> ?hit j" unfolding n_def using not_less_Least by blast
    ultimately have "rc_evict_loop rnd items (ht_size (rc_ht cache)) 0 = Some (Inr n)"
      using rc_evict_loop_least [OF w(2,3), of 0 n rnd] by simp
    with True w \<open>?hit n\<close> show ?thesis by (simp add: rc_evict_random_def)
  next
    case False
    then have "rc_evict_loop rnd items (ht_size (rc_ht cache)) 0 \<noteq> Some r" for r
      using rc_evict_loop_result [OF _ w(2,3), of rnd 0 r] by blast
    then have "rc_evict_loop rnd items (ht_size (rc_ht cache)) 0 = None" by blast
    with False w(1) show ?thesis by (simp add: rc_evict_random_def)
  qed
qed

theorem rc_evict_random_never_evicts_witness:
  "rc_evict_random (\<lambda>i. i) \<lparr>rc_cache_size = 1, rc_ht = ht_one\<rparr> = Some (Inl NullDeref)
   \<and> rc_evict_random (\<lambda>i. 12) \<lparr>rc_cache_size = 1, rc_ht = ht_one\<rparr> = None"
proof -
  have "the (ht_items ht_one) ! 0 = None" "the (ht_items ht_one) ! 4 \<noteq> None" by (simp_all add: ht_one_def)
  then show ?thesis
    using rc_evict_random_never_evicts [of "\<lparr>rc_cache_size = 1, rc_ht = ht_one\<rparr>" "\<lambda>i. i"]
      rc_evict_random_never_evicts [of "\<lparr>rc_cache_size = 1, rc_ht = ht_one\<rparr>" "\<lambda>i. 12"]
    by (auto intro: exI [of _ 0])
qed

text \<open>
  Below its capacity the cache takes a new key: \<open>rc_request\<close> returns 0, evicts nothing,
  and the table maps the key to the value, the other keys unchanged.
\<close>

theorem rc_request_below_capacity:
  assumes "ht_inv (rc_ht cache, m)" and "ht_count (rc_ht cache) < rc_cache_size cache"
    and "wf_key k" and "ht_map (rc_ht cache) k = None"
  shows "\<exists>cache' m'. rc_request rnd m cache (Some k) (Some v) = Some (Inr (0, Some None, cache', m'))
    \<and> ht_wf (rc_ht cache') \<and> ht_count (rc_ht cache') \<le> rc_cache_size cache'
    \<and> ht_map (rc_ht cache') = (ht_map (rc_ht cache))(k \<mapsto> v)"
proof -
  obtain ht' m' a where "ht_insert m (rc_ht cache) k (Some v) =
      Inr (\<lparr>ins_code = 0, ins_entry = Some a, ins_overridden = None\<rparr>, ht', m')"
    "ht_wf ht'" "ht_count ht' = Suc (ht_count (rc_ht cache))" "ht_map ht' = (ht_map (rc_ht cache))(k \<mapsto> v)"
    using ht_insert_new [OF assms(1,3,4), of v] by blast
  then show ?thesis using assms(2) by (simp add: rc_request_def)
qed

lemma ht_one_inv: "ht_inv (ht_one, \<lparr>allocs = 9, alloc_fails = (\<lambda>_. False), result_at = r, posts_at = p, order_at = q\<rparr>)"
  by (simp add: ht_inv_def ht_owned_def never_fails_def) (simp add: ht_one_def)

theorem rc_request_below_capacity_witness:
  "\<exists>cache' m'. rc_request (\<lambda>i. i) \<lparr>allocs = 9, alloc_fails = (\<lambda>_. False), result_at = Map.empty,
      posts_at = Map.empty, order_at = Map.empty\<rparr> \<lparr>rc_cache_size = 2, rc_ht = ht_one\<rparr> (Some key_i) (Some 5)
      = Some (Inr (0, Some None, cache', m')) \<and> ht_map (rc_ht cache') key_i = Some 5"
proof -
  have "ht_count ht_one = 1" by (simp add: ht_one_def)
  then show ?thesis
    using rc_request_below_capacity [of "\<lparr>rc_cache_size = 2, rc_ht = ht_one\<rparr>" "\<lparr>allocs = 9,
      alloc_fails = (\<lambda>_. False), result_at = Map.empty, posts_at = Map.empty, order_at = Map.empty\<rparr>" key_i
      "\<lambda>i. i" 5] ht_one_inv ht_one_map by auto
qed

text \<open>
  Without options \<open>rc_create\<close> stores a \<open>NULL\<close> comparator (\<open>dqht_create\<close> would put the
  default one), so the first look-up that meets an entry calls through it.
\<close>

theorem rc_default_comparator_crashes:
  "rbind (rc_create mem0 8 4 None) (\<lambda>(c, m). rbind (deref c) (\<lambda>c.
   rbind (ht_insert m (rc_ht c) key_a (Some 1)) (\<lambda>(_, ht, m).
     rc_contains (c\<lparr>rc_ht := ht\<rparr>) (Some key_a)))) = Inl NullCall"
  by (simp add: rc_create_def am_malloc_def ht_create_8 rc_contains_def ht_eval)

end
