(* ===== verification/Locks.thy ===== *)
theory Locks
  imports Prelude
begin

text \<open>
  Error codes (\<open>allocator/error\<close>) and the lock wrappers of \<open>allocator/thread/lock.h\<close>.  The
  \<open>pthread\<close> calls are the C library's: call number \<open>n\<close> returns \<open>lk_ret n\<close>, and a call that
  returns 0 changes the mode of the lock.
\<close>

section \<open>Error codes\<close>

datatype AllocatorErrno =
    NONE
  | NULL_ALLOCATOR_INSTANCE
  | HEAP_ALREADY_MAPPED
  | HEAP_MMAP_FAILED
  | HEAP_UNMAP_FAILED
  | BAD_DEALLOC
  | MALLOC_FAILED
  | HEAP_MISALIGNED
  | MUTEX_LOCK_INIT
  | MUTEX_LOCK_LOCK
  | MUTEX_LOCK_UNLOCK
  | MUTEX_LOCK_DESTROY
  | RWLOCK_LOCK_INIT
  | RWLOCK_WRLOCK_LOCK
  | RWLOCK_RDLOCK_LOCK
  | RWLOCK_LOCK_UNLOCK
  | RWLOCK_LOCK_DESTROY
  | PREV_BLOCK_FREE
  | BLOCK_IS_LAST
  | NEXT_BLOCK_NULL
  | PREV_BLOCK_NULL
  | PREV_BLOCK_NOT_FREE
  | BLOCK_IS_NULL
  | NON_ZERO_BLOCK_SIZE
  | BLOCK_NOT_FREE
  | BLOCK_NOT_ALIGNED
  | BLOCK_SIZE_MISMATCH
  | INVALID_BLOCK_SPLIT_SIZE
  | BLOCK_ALREADY_FREED
  | CANNOT_REMOVE_BLOCK
  | ALIGN_POWER_OF_TWO
  | NULL_CONTROLLER_INSTANCE
  | SECOND_LEVEL_BITMAP_NULL
  | FIRST_LEVEL_BITMAP_NULL
  | HEAP_FULL
  | POOL_MISALIGNED
  | INVALID_POOL_SIZE
  | FREE_NULL_PTR
  | PTR_NOT_TO_BLOCK_HEADER
  | MERGE_PREV_FAILED
  | MERGE_NEXT_FAILED
  | GAP_TOO_SMALL

fun get_alloc_errmsg :: "AllocatorErrno \<Rightarrow> string" where
  "get_alloc_errmsg NONE = ''''"
| "get_alloc_errmsg NULL_ALLOCATOR_INSTANCE = ''Allocator is not initialised''"
| "get_alloc_errmsg HEAP_ALREADY_MAPPED = ''Managed heap has already been allocated''"
| "get_alloc_errmsg HEAP_MMAP_FAILED = ''Failed to map memory for heap''"
| "get_alloc_errmsg HEAP_UNMAP_FAILED = ''Failed to unmap anonymous memory for heap''"
| "get_alloc_errmsg BAD_DEALLOC = ''Unable to destruct Allocator instance''"
| "get_alloc_errmsg MALLOC_FAILED = ''Unable to reserve memory''"
| "get_alloc_errmsg HEAP_MISALIGNED = ''Heap size is not aligned correctly''"
| "get_alloc_errmsg MUTEX_LOCK_INIT = ''Creation of mutex lock failed''"
| "get_alloc_errmsg MUTEX_LOCK_LOCK = ''Unable to lock mutex''"
| "get_alloc_errmsg MUTEX_LOCK_UNLOCK = ''Unable to unlock mutex''"
| "get_alloc_errmsg MUTEX_LOCK_DESTROY = ''Failed to destroy mutex lock''"
| "get_alloc_errmsg RWLOCK_LOCK_INIT = ''Creation of rwlock failed''"
| "get_alloc_errmsg RWLOCK_WRLOCK_LOCK = ''Unable to write-lock rwlock''"
| "get_alloc_errmsg RWLOCK_RDLOCK_LOCK = ''Unable to read-lock rwlock''"
| "get_alloc_errmsg RWLOCK_LOCK_UNLOCK = ''Unable to unlock rwlock''"
| "get_alloc_errmsg RWLOCK_LOCK_DESTROY = ''Failed to destroy rwlock''"
| "get_alloc_errmsg PREV_BLOCK_FREE = ''Previous block must be free''"
| "get_alloc_errmsg BLOCK_IS_LAST = ''Current block is last, next not present''"
| "get_alloc_errmsg NEXT_BLOCK_NULL = ''Next block is null''"
| "get_alloc_errmsg PREV_BLOCK_NULL = ''Previous block is null''"
| "get_alloc_errmsg PREV_BLOCK_NOT_FREE = ''Previous block must be free''"
| "get_alloc_errmsg BLOCK_IS_NULL = ''Block in context is null''"
| "get_alloc_errmsg NON_ZERO_BLOCK_SIZE = ''Block size must be non-zero''"
| "get_alloc_errmsg BLOCK_NOT_FREE = ''Block in context is not free''"
| "get_alloc_errmsg BLOCK_NOT_ALIGNED = ''Block was not aligned correctly''"
| "get_alloc_errmsg BLOCK_SIZE_MISMATCH = ''Size of block in context did not match required structural size''"
| "get_alloc_errmsg INVALID_BLOCK_SPLIT_SIZE = ''Block was split with invalid size''"
| "get_alloc_errmsg BLOCK_ALREADY_FREED = ''Block was already freed''"
| "get_alloc_errmsg CANNOT_REMOVE_BLOCK = ''Unable to remove block''"
| "get_alloc_errmsg ALIGN_POWER_OF_TWO = ''Must align to a power of two''"
| "get_alloc_errmsg NULL_CONTROLLER_INSTANCE = ''Controller is not initialised''"
| "get_alloc_errmsg SECOND_LEVEL_BITMAP_NULL = ''Second level bitmap is null''"
| "get_alloc_errmsg FIRST_LEVEL_BITMAP_NULL = ''First level bitmap is null''"
| "get_alloc_errmsg HEAP_FULL = ''Cannot allocate, heap is full''"
| "get_alloc_errmsg POOL_MISALIGNED = ''Memory pool was not aligned correctly''"
| "get_alloc_errmsg INVALID_POOL_SIZE = ''Memory pool was of an invalid size''"
| "get_alloc_errmsg FREE_NULL_PTR = ''Attempted to free null pointer''"
| "get_alloc_errmsg PTR_NOT_TO_BLOCK_HEADER = ''Pointer does not point to a block header''"
| "get_alloc_errmsg MERGE_PREV_FAILED = ''Unable to merge free block with previous''"
| "get_alloc_errmsg MERGE_NEXT_FAILED = ''Unable to merge free block with next''"
| "get_alloc_errmsg GAP_TOO_SMALL = ''Gap size is too small''"

section \<open>Locks\<close>

datatype lock_mode = Unlocked | Locked nat | ReadLocked | WriteLocked | Destroyed

text \<open>The mutexes of the program are recursive: \<open>Locked n\<close> is held \<open>n\<close> times.\<close>

fun relock :: "lock_mode \<Rightarrow> lock_mode" where
  "relock (Locked n) = Locked (Suc n)"
| "relock _ = Locked 1"

fun release :: "lock_mode \<Rightarrow> lock_mode" where
  "release (Locked (Suc (Suc n))) = Locked (Suc n)"
| "release _ = Unlocked"

record lock =
  lk_mode :: lock_mode
  lk_calls :: nat
  lk_ret :: "nat \<Rightarrow> int"
  lk_errno :: AllocatorErrno

definition EINVAL :: int where
  "EINVAL = 22"

text \<open>One library call on a lock: its return code, and the mode after a success.\<close>

definition pthread_call :: "lock_mode \<Rightarrow> lock \<Rightarrow> int \<times> lock" where
  "pthread_call mode l =
     (let r = lk_ret l (lk_calls l) in
      (r, l\<lparr>lk_calls := Suc (lk_calls l), lk_mode := if r = 0 then mode else lk_mode l\<rparr>))"

text \<open>The initialisers make four calls, three of them on the attribute object.\<close>

definition attr_call :: "lock \<Rightarrow> int \<times> lock" where
  "attr_call l = (lk_ret l (lk_calls l), l\<lparr>lk_calls := Suc (lk_calls l)\<rparr>)"

definition htfh_lock_init :: "lock \<Rightarrow> int \<times> lock" where
  "htfh_lock_init l0 =
     (case attr_call l0 of (r1, l1) \<Rightarrow> if r1 \<noteq> 0 then (r1, l1) else
     (case attr_call l1 of (r2, l2) \<Rightarrow> if r2 \<noteq> 0 then (r2, l2) else
     (case pthread_call Unlocked l2 of (r3, l3) \<Rightarrow> if r3 \<noteq> 0 then (r3, l3) else
     (case attr_call l3 of (r4, l4) \<Rightarrow> (if r4 = EINVAL then EINVAL else 0, l4)))))"

definition htfh_rwlock_init :: "lock \<Rightarrow> int \<times> lock" where
  "htfh_rwlock_init l0 =
     (case attr_call l0 of (r1, l1) \<Rightarrow> if r1 \<noteq> 0 then (r1, l1) else
     (case attr_call l1 of (r2, l2) \<Rightarrow> if r2 \<noteq> 0 then (r2, l2) else
     (case pthread_call Unlocked l2 of (r3, l3) \<Rightarrow> if r3 \<noteq> 0 then (r3, l3) else
     (case attr_call l3 of (r4, l4) \<Rightarrow> (if r4 = EINVAL then EINVAL else 0, l4)))))"

text \<open>The mutex wrapper treats only \<open>EINVAL\<close> as a failure of the lock call.\<close>

definition htfh_lock_lock_handled :: "lock \<Rightarrow> int \<times> lock" where
  "htfh_lock_lock_handled l =
     (case pthread_call (relock (lk_mode l)) l of (r, l1) \<Rightarrow>
        if r = EINVAL then (- 1, l1\<lparr>lk_errno := MUTEX_LOCK_LOCK\<rparr>) else (0, l1))"

definition htfh_lock_unlock_handled :: "lock \<Rightarrow> int \<times> lock" where
  "htfh_lock_unlock_handled l =
     (case pthread_call (release (lk_mode l)) l of (r, l1) \<Rightarrow>
        if r \<noteq> 0 then (- 1, l1\<lparr>lk_errno := MUTEX_LOCK_UNLOCK\<rparr>) else (0, l1))"

definition htfh_lock_destroy_handled :: "lock \<Rightarrow> int \<times> lock" where
  "htfh_lock_destroy_handled l =
     (case pthread_call Destroyed l of (r, l1) \<Rightarrow>
        if r \<noteq> 0 then (- 1, l1\<lparr>lk_errno := MUTEX_LOCK_UNLOCK\<rparr>) else (0, l1))"

definition htfh_rwlock_rdlock_handled :: "lock \<Rightarrow> int \<times> lock" where
  "htfh_rwlock_rdlock_handled l =
     (case pthread_call ReadLocked l of (r, l1) \<Rightarrow>
        if r \<noteq> 0 then (- 1, l1\<lparr>lk_errno := RWLOCK_WRLOCK_LOCK\<rparr>) else (0, l1))"

definition htfh_rwlock_wrlock_handled :: "lock \<Rightarrow> int \<times> lock" where
  "htfh_rwlock_wrlock_handled l =
     (case pthread_call WriteLocked l of (r, l1) \<Rightarrow>
        if r \<noteq> 0 then (- 1, l1\<lparr>lk_errno := RWLOCK_RDLOCK_LOCK\<rparr>) else (0, l1))"

definition htfh_rwlock_unlock_handled :: "lock \<Rightarrow> int \<times> lock" where
  "htfh_rwlock_unlock_handled l =
     (case pthread_call Unlocked l of (r, l1) \<Rightarrow>
        if r \<noteq> 0 then (- 1, l1\<lparr>lk_errno := RWLOCK_LOCK_UNLOCK\<rparr>) else (0, l1))"

definition htfh_rwlock_destroy_handled :: "lock \<Rightarrow> int \<times> lock" where
  "htfh_rwlock_destroy_handled l =
     (case pthread_call Destroyed l of (r, l1) \<Rightarrow>
        if r \<noteq> 0 then (- 1, l1\<lparr>lk_errno := RWLOCK_LOCK_UNLOCK\<rparr>) else (0, l1))"

text \<open>A lock whose library calls all succeed.\<close>

definition lock_good :: "lock \<Rightarrow> bool" where
  "lock_good l \<longleftrightarrow> lk_ret l = (\<lambda>_. 0)"

lemma pthread_call_good: "lock_good l \<Longrightarrow>
    pthread_call mode l = (0, l\<lparr>lk_calls := Suc (lk_calls l), lk_mode := mode\<rparr>)"
  by (simp add: pthread_call_def lock_good_def)

lemmas lock_defs = htfh_rwlock_rdlock_handled_def htfh_rwlock_wrlock_handled_def
  htfh_rwlock_unlock_handled_def htfh_rwlock_destroy_handled_def

end
