(* ===== verification/Cache_Front.thy ===== *)
theory Cache_Front
  imports LRU Random_Cache Locks
begin

text \<open>
  The front end of \<open>cache/cache.c\<close>: a backing cache behind a table of function pointers
  (\<open>cache_backing.h\<close>) and a read-write lock.  The backing is a type parameter; the LRU and
  random caches are instances.  The second half is the interleaving of threads that the
  lock allows.
\<close>

section \<open>Handlers\<close>

record ('b, 'w, 'o) CacheBackingHandlers =
  createHandler :: "'w \<Rightarrow> nat \<Rightarrow> nat \<Rightarrow> 'o \<Rightarrow> ('b option \<times> 'w) res"
  destroyHandler :: "'w \<Rightarrow> 'b \<Rightarrow> (int \<times> 'w) res"
  requestHandler :: "'w \<Rightarrow> 'b \<Rightarrow> bytes option \<Rightarrow> addr option \<Rightarrow>
     (int \<times> addr option option \<times> 'b \<times> 'w) res"
  getHandler :: "'w \<Rightarrow> 'b \<Rightarrow> bytes option \<Rightarrow> (addr option \<times> addr option option \<times> 'b \<times> 'w) res"
  containsHandler :: "'w \<Rightarrow> 'b \<Rightarrow> bytes option \<Rightarrow> bool res"
  isFullHandler :: "'b \<Rightarrow> bool res"

text \<open>
  \<open>lru_destroy\<close> and \<open>rc_destroy\<close> return nothing but are called through a pointer to a
  function that returns \<open>int\<close>; what the caller reads as the result is not determined by
  the program, hence a parameter.
\<close>

definition LRU_CACHE_BACKING_HANDLERS ::
  "int \<Rightarrow> ('z res_mem_scheme LRUCache, 'z res_mem_scheme, addr comparator option option) CacheBackingHandlers" where
  "LRU_CACHE_BACKING_HANDLERS junk =
     \<lparr>createHandler = lru_create,
      destroyHandler = (\<lambda>m c. rbind (lru_destroy m c) (\<lambda>(_, m'). Inr (junk, m'))),
      requestHandler = lru_request,
      getHandler = (\<lambda>m c k. rbind (lru_get m c k) (\<lambda>(v, c', m'). Inr (v, None, c', m'))),
      containsHandler = (\<lambda>_. lru_contains),
      isFullHandler = (\<lambda>c. Inr (lru_is_full c))\<rparr>"

definition RANDOM_CACHE_BACKING_HANDLERS ::
  "(nat \<Rightarrow> nat) \<Rightarrow> int \<Rightarrow> (RandomCache, 'z res_mem_scheme, addr comparator option option) CacheBackingHandlers" where
  "RANDOM_CACHE_BACKING_HANDLERS rnd junk =
     \<lparr>createHandler = rc_create,
      destroyHandler = (\<lambda>m c. rbind (rc_destroy c) (\<lambda>_. Inr (junk, m))),
      requestHandler = (\<lambda>m c k v. case rc_request rnd m c k v of None \<Rightarrow> Inl Hang | Some r \<Rightarrow> r),
      getHandler = (\<lambda>m c k. rbind (rc_get c k) (\<lambda>e. Inr (e, None, c, m))),
      containsHandler = (\<lambda>_. rc_contains),
      isFullHandler = (\<lambda>c. Inr (rc_is_full c))\<rparr>"

section \<open>The cache\<close>

record ('b, 'w, 'o) Cache =
  rwlock :: lock
  backing :: 'b
  handlers :: "('b, 'w, 'o) CacheBackingHandlers"

text \<open>\<open>cache_create\<close> works on a lock in its unconstructed state.\<close>

definition cache_create ::
  "'z mem_scheme \<Rightarrow> lock \<Rightarrow> nat \<Rightarrow> nat \<Rightarrow> ('b, 'z mem_scheme, 'o) CacheBackingHandlers \<Rightarrow> 'o \<Rightarrow>
     (('b, 'z mem_scheme, 'o) Cache option \<times> 'z mem_scheme) res" where
  "cache_create m l ht_sz cache_size hs options =
     (case am_malloc m of
        (None, m1) \<Rightarrow> Inr (None, m1)
      | (Some _, m1) \<Rightarrow>
          (case htfh_rwlock_init l of (r, l1) \<Rightarrow>
             if r \<noteq> 0 then Inr (None, m1)
             else rbind (createHandler hs m1 ht_sz cache_size options) (\<lambda>(b, m2).
               (case b of None \<Rightarrow> Inr (None, m2)
                | Some b' \<Rightarrow> Inr (Some \<lparr>rwlock = l1, backing = b', handlers = hs\<rparr>, m2)))))"

text \<open>The first component of the result is the return code; the cache is gone only after 0.\<close>

definition cache_destroy ::
  "'w \<Rightarrow> ('b, 'w, 'o) Cache \<Rightarrow> (int \<times> lock \<times> 'w) res" where
  "cache_destroy m cache =
     (case htfh_rwlock_wrlock_handled (rwlock cache) of (r1, l1) \<Rightarrow>
        if r1 \<noteq> 0 then Inr (- 1, l1, m)
        else rbind (destroyHandler (handlers cache) m (backing cache)) (\<lambda>(r2, m1).
          if r2 \<noteq> 0 then Inr (- 1, l1, m1)
          else (case htfh_rwlock_unlock_handled l1 of (r3, l2) \<Rightarrow>
            if r3 \<noteq> 0 then Inr (- 1, l2, m1)
            else (case htfh_rwlock_destroy_handled l2 of (r4, l3) \<Rightarrow>
              Inr (if r4 \<noteq> 0 then - 1 else 0, l3, m1)))))"

definition cache_contains ::
  "'w \<Rightarrow> ('b, 'w, 'o) Cache \<Rightarrow> bytes option \<Rightarrow> (bool \<times> ('b, 'w, 'o) Cache) res" where
  "cache_contains m cache key =
     (case htfh_rwlock_rdlock_handled (rwlock cache) of (r1, l1) \<Rightarrow>
        if r1 \<noteq> 0 then Inr (False, cache\<lparr>rwlock := l1\<rparr>)
        else rbind (containsHandler (handlers cache) m (backing cache) key) (\<lambda>b.
          (case htfh_rwlock_unlock_handled l1 of (r2, l2) \<Rightarrow>
             Inr (if r2 \<noteq> 0 then False else b, cache\<lparr>rwlock := l2\<rparr>))))"

definition cache_is_full :: "('b, 'w, 'o) Cache \<Rightarrow> (bool \<times> ('b, 'w, 'o) Cache) res" where
  "cache_is_full cache =
     (case htfh_rwlock_rdlock_handled (rwlock cache) of (r1, l1) \<Rightarrow>
        if r1 \<noteq> 0 then Inr (False, cache\<lparr>rwlock := l1\<rparr>)
        else rbind (isFullHandler (handlers cache) (backing cache)) (\<lambda>b.
          (case htfh_rwlock_unlock_handled l1 of (r2, l2) \<Rightarrow>
             Inr (if r2 \<noteq> 0 then False else b, cache\<lparr>rwlock := l2\<rparr>))))"

definition cache_request ::
  "'w \<Rightarrow> ('b, 'w, 'o) Cache \<Rightarrow> bytes option \<Rightarrow> addr option \<Rightarrow>
     (int \<times> addr option option \<times> ('b, 'w, 'o) Cache \<times> 'w) res" where
  "cache_request m cache key value =
     (case htfh_rwlock_wrlock_handled (rwlock cache) of (r1, l1) \<Rightarrow>
        if r1 \<noteq> 0 then Inr (- 1, None, cache\<lparr>rwlock := l1\<rparr>, m)
        else rbind (requestHandler (handlers cache) m (backing cache) key value) (\<lambda>(r, evicted, b, m1).
          (case htfh_rwlock_unlock_handled l1 of (r2, l2) \<Rightarrow>
             Inr (if r2 \<noteq> 0 then - 1 else r, evicted, cache\<lparr>rwlock := l2, backing := b\<rparr>, m1))))"

definition cache_get ::
  "'w \<Rightarrow> ('b, 'w, 'o) Cache \<Rightarrow> bytes option \<Rightarrow>
     (addr option \<times> addr option option \<times> ('b, 'w, 'o) Cache \<times> 'w) res" where
  "cache_get m cache key =
     (case htfh_rwlock_wrlock_handled (rwlock cache) of (r1, l1) \<Rightarrow>
        if r1 \<noteq> 0 then Inr (None, None, cache\<lparr>rwlock := l1\<rparr>, m)
        else rbind (getHandler (handlers cache) m (backing cache) key) (\<lambda>(v, evicted, b, m1).
          (case htfh_rwlock_unlock_handled l1 of (r2, l2) \<Rightarrow>
             Inr (if r2 \<noteq> 0 then None else v, evicted, cache\<lparr>rwlock := l2, backing := b\<rparr>, m1))))"

section \<open>The backing contract\<close>

text \<open>
  What the front end relies on: on states of the invariant, the handlers return, keep the
  invariant, and a look-up agrees with \<open>containsHandler\<close>.
\<close>

locale cache_backing =
  fixes hs :: "('b, 'w, 'o) CacheBackingHandlers"
    and inv :: "'b \<times> 'w \<Rightarrow> bool"
    and cached :: "'b \<Rightarrow> bytes \<Rightarrow> addr option"
    and key_ok :: "bytes \<Rightarrow> bool"
  assumes get_ok: "inv (b, m) \<Longrightarrow> key_ok k \<Longrightarrow>
      \<exists>ev b' m'. getHandler hs m b (Some k) = Inr (cached b k, ev, b', m') \<and> inv (b', m') \<and> cached b' = cached b"
    and contains_ok: "inv (b, m) \<Longrightarrow> key_ok k \<Longrightarrow> containsHandler hs m b (Some k) = Inr (cached b k \<noteq> None)"
    and request_ok: "inv (b, m) \<Longrightarrow> key_ok k \<Longrightarrow> cached b k = None \<Longrightarrow>
      \<exists>r ev b' m'. requestHandler hs m b (Some k) (Some v) = Inr (r, ev, b', m') \<and> r \<noteq> - 1 \<and> inv (b', m')
        \<and> cached b' k = Some v"
begin

lemma get_returns:
  assumes "inv (backing c, m)" "key_ok k" "lock_good (rwlock c)" "handlers c = hs"
  shows "\<exists>ev c' m'. cache_get m c (Some k) = Inr (cached (backing c) k, ev, c', m') \<and> inv (backing c', m')
    \<and> cached (backing c') = cached (backing c) \<and> lk_mode (rwlock c') = Unlocked \<and> lock_good (rwlock c')
    \<and> handlers c' = hs"
proof -
  obtain ev b' m' where "getHandler hs m (backing c) (Some k) = Inr (cached (backing c) k, ev, b', m')"
    "inv (b', m')" "cached b' = cached (backing c)" using get_ok [OF assms(1,2)] by blast
  then show ?thesis using assms(3,4)
    by (simp add: cache_get_def lock_defs pthread_call_def lock_good_def Let_def)
qed

lemma request_returns:
  assumes "inv (backing c, m)" "key_ok k" "lock_good (rwlock c)" "handlers c = hs" "cached (backing c) k = None"
  shows "\<exists>r ev c' m'. cache_request m c (Some k) (Some v) = Inr (r, ev, c', m') \<and> r \<noteq> - 1 \<and> inv (backing c', m')
    \<and> cached (backing c') k = Some v \<and> lk_mode (rwlock c') = Unlocked \<and> lock_good (rwlock c')
    \<and> handlers c' = hs"
proof -
  obtain r ev b' m' where "requestHandler hs m (backing c) (Some k) (Some v) = Inr (r, ev, b', m')" "r \<noteq> - 1"
    "inv (b', m')" "cached b' k = Some v" using request_ok [OF assms(1,2,5)] by blast
  then show ?thesis using assms(3,4)
    by (simp add: cache_request_def lock_defs pthread_call_def lock_good_def Let_def)
qed

text \<open>A requested value is what the next look-up of the key returns.\<close>

lemma request_then_get:
  assumes "inv (backing c, m)" "key_ok k" "lock_good (rwlock c)" "handlers c = hs" "cached (backing c) k = None"
  shows "\<exists>r ev c1 m1 ev' c2 m2. cache_request m c (Some k) (Some v) = Inr (r, ev, c1, m1) \<and> r \<noteq> - 1
    \<and> cache_get m1 c1 (Some k) = Inr (Some v, ev', c2, m2) \<and> inv (backing c2, m2)
    \<and> lk_mode (rwlock c2) = Unlocked"
proof -
  obtain r ev c1 m1 where r: "cache_request m c (Some k) (Some v) = Inr (r, ev, c1, m1)" "r \<noteq> - 1"
    "inv (backing c1, m1)" "cached (backing c1) k = Some v" "lock_good (rwlock c1)" "handlers c1 = hs"
    using request_returns [OF assms, of v] by blast
  then obtain ev' c2 m2 where "cache_get m1 c1 (Some k) = Inr (Some v, ev', c2, m2)" "inv (backing c2, m2)"
    "lk_mode (rwlock c2) = Unlocked"
    using get_returns [OF r(3) assms(2) r(5,6)] by auto
  with r show ?thesis by blast
qed

end

definition lru_front_inv :: "'z res_mem_scheme LRUCache \<times> 'z res_mem_scheme \<Rightarrow> bool" where
  "lru_front_inv s \<longleftrightarrow> lru_inv s \<and> 0 < lru_cache_size (fst s)"

definition lru_cached :: "'w LRUCache \<Rightarrow> bytes \<Rightarrow> addr option" where
  "lru_cached c = map_of (lru_entries c)"

lemma lru_front_get:
  assumes "lru_front_inv (c, m)" and "wf_key k"
  shows "\<exists>c' m'. lru_get m c (Some k) = Inr (lru_cached c k, c', m') \<and> lru_front_inv (c', m')
    \<and> lru_cached c' = lru_cached c"
proof (cases "map_of (lru_entries c) k")
  case None
  then show ?thesis using lru_get_miss [of c m k] assms by (simp add: lru_front_inv_def lru_cached_def)
next
  case (Some v)
  then obtain c' m' where r: "lru_get m c (Some k) = Inr (Some v, c', m')" "lru_inv (c', m')"
    "lru_cache_size c' = lru_cache_size c" "lru_entries c' = del_key k (lru_entries c) @ [(k, v)]"
    using lru_get_hit [of c m k v] assms by (auto simp: lru_front_inv_def)
  moreover have "map_of (lru_entries c') = map_of (lru_entries c)"
    unfolding r(4) using Some by (auto simp: fun_eq_iff map_add_def dq.map_of_del_key split: option.split)
  ultimately show ?thesis using assms Some by (simp add: lru_front_inv_def lru_cached_def)
qed

lemma lru_front_request:
  assumes "lru_front_inv (c, m)" and "wf_key k" and "lru_cached c k = None"
  shows "\<exists>r ev c' m'. lru_request m c (Some k) (Some v) = Inr (r, ev, c', m') \<and> r \<noteq> - 1
    \<and> lru_front_inv (c', m') \<and> lru_cached c' k = Some v"
proof -
  have l: "lru_inv (c, m)" "map_of (lru_entries c) k = None" "0 < lru_cache_size c"
    using assms by (simp_all add: lru_front_inv_def lru_cached_def)
  obtain c' m' where r: "lru_request m c (Some k) (Some v) =
      Inr (if lru_is_full c then 1 else 0,
           Some (if lru_is_full c then Some (snd (hd (lru_entries c))) else None), c', m')"
    "lru_inv (c', m')" "lru_cache_size c' = lru_cache_size c"
    "lru_entries c' = (if lru_is_full c then tl (lru_entries c) else lru_entries c) @ [(k, v)]"
    using lru_request_new [OF l(1) assms(2) l(2,3)] by blast
  have "map_of (tl (lru_entries c)) k = None" using l(2) by (cases "lru_entries c") (auto split: if_splits)
  then have "lru_cached c' k = Some v" using r(4) l(2) by (simp add: lru_cached_def map_add_def)
  with r l(3) show ?thesis by (simp add: lru_front_inv_def)
qed

interpretation lru_backing: cache_backing "LRU_CACHE_BACKING_HANDLERS junk" lru_front_inv lru_cached wf_key
proof
  fix b :: "'z res_mem_scheme LRUCache" and m k v
  assume i: "lru_front_inv (b, m)" "wf_key k"
  then have l: "lru_inv (b, m)" "0 < lru_cache_size b" by (simp_all add: lru_front_inv_def)
  show "\<exists>ev b' m'. getHandler (LRU_CACHE_BACKING_HANDLERS junk) m b (Some k) = Inr (lru_cached b k, ev, b', m')
      \<and> lru_front_inv (b', m') \<and> lru_cached b' = lru_cached b"
    using lru_front_get [OF i] by (fastforce simp: LRU_CACHE_BACKING_HANDLERS_def)
  show "containsHandler (LRU_CACHE_BACKING_HANDLERS junk) m b (Some k) = Inr (lru_cached b k \<noteq> None)"
    using dqht_get_ok [OF lru_invD(4) [OF l(1)] i(2)]
    by (simp add: LRU_CACHE_BACKING_HANDLERS_def lru_contains_def lru_cached_def lru_entries_def)
  assume "lru_cached b k = None"
  then show "\<exists>r ev b' m'. requestHandler (LRU_CACHE_BACKING_HANDLERS junk) m b (Some k) (Some v) = Inr (r, ev, b', m')
      \<and> r \<noteq> - 1 \<and> lru_front_inv (b', m') \<and> lru_cached b' k = Some v"
    using lru_front_request [OF i] by (simp add: LRU_CACHE_BACKING_HANDLERS_def)
qed

section \<open>Threads\<close>

text \<open>
  The operations threads run on one cache.  \<open>cache_get\<close> and \<open>cache_request\<close> take the write
  lock, \<open>cache_contains\<close> and \<open>cache_is_full\<close> the read lock.
\<close>

datatype cache_op = CGet bytes | CRequest bytes addr | CContains bytes | CIsFull

datatype cache_ret = RPtr "addr option" | RInt int | RBool bool

fun needs_write :: "cache_op \<Rightarrow> bool" where
  "needs_write (CGet k) = True"
| "needs_write (CRequest k v) = True"
| "needs_write (CContains k) = False"
| "needs_write CIsFull = False"

text \<open>What an operation does between taking and releasing the lock.\<close>

fun cache_body ::
  "('b, 'w, 'o) CacheBackingHandlers \<Rightarrow> cache_op \<Rightarrow> 'b \<times> 'w \<Rightarrow> (cache_ret \<times> 'b \<times> 'w) res" where
  "cache_body hs (CGet k) (b, m) =
     rbind (getHandler hs m b (Some k)) (\<lambda>(v, _, b', m'). Inr (RPtr v, b', m'))"
| "cache_body hs (CRequest k v) (b, m) =
     rbind (requestHandler hs m b (Some k) (Some v)) (\<lambda>(r, _, b', m'). Inr (RInt r, b', m'))"
| "cache_body hs (CContains k) (b, m) = rbind (containsHandler hs m b (Some k)) (\<lambda>r. Inr (RBool r, b, m))"
| "cache_body hs CIsFull (b, m) = rbind (isFullHandler hs b) (\<lambda>r. Inr (RBool r, b, m))"

text \<open>The operations of \<open>cache.c\<close> by their names.\<close>

fun cache_call ::
  "cache_op \<Rightarrow> 'w \<Rightarrow> ('b, 'w, 'o) Cache \<Rightarrow> (cache_ret \<times> ('b, 'w, 'o) Cache \<times> 'w) res" where
  "cache_call (CGet k) m cache = rbind (cache_get m cache (Some k)) (\<lambda>(v, _, c', m'). Inr (RPtr v, c', m'))"
| "cache_call (CRequest k v) m cache =
     rbind (cache_request m cache (Some k) (Some v)) (\<lambda>(r, _, c', m'). Inr (RInt r, c', m'))"
| "cache_call (CContains k) m cache = rbind (cache_contains m cache (Some k)) (\<lambda>(r, c'). Inr (RBool r, c', m))"
| "cache_call CIsFull m cache = rbind (cache_is_full cache) (\<lambda>(r, c'). Inr (RBool r, c', m))"

text \<open>
  A thread is outside, inside the critical section of an operation with the state it read
  when it entered, or on its way out.
\<close>

datatype 's phase = Outside | Inside cache_op 's | Leaving cache_op

datatype rw_mode = RW_Free | RW_Read nat | RW_Write

record 's sys =
  sy_lock :: rw_mode
  sy_state :: 's
  sy_thread :: "nat \<Rightarrow> 's phase"
  sy_log :: "(cache_op \<times> cache_ret) list"

text \<open>
  One step of one thread.  The result of a critical section is computed from the state read
  on entry, so an update in between would be lost; the log records results in the order in
  which the operations take effect.
\<close>

inductive sys_step ::
  "('b, 'w, 'o) CacheBackingHandlers \<Rightarrow> ('b \<times> 'w) sys \<Rightarrow> ('b \<times> 'w) sys \<Rightarrow> bool"
  for hs where
  enter_write: "sy_thread s t = Outside \<Longrightarrow> needs_write c \<Longrightarrow> sy_lock s = RW_Free \<Longrightarrow>
    sys_step hs s (s\<lparr>sy_lock := RW_Write, sy_thread := (sy_thread s)(t := Inside c (sy_state s))\<rparr>)"
| enter_first_read: "sy_thread s t = Outside \<Longrightarrow> \<not> needs_write c \<Longrightarrow> sy_lock s = RW_Free \<Longrightarrow>
    sys_step hs s (s\<lparr>sy_lock := RW_Read 1, sy_thread := (sy_thread s)(t := Inside c (sy_state s))\<rparr>)"
| enter_read: "sy_thread s t = Outside \<Longrightarrow> \<not> needs_write c \<Longrightarrow> sy_lock s = RW_Read n \<Longrightarrow>
    sys_step hs s (s\<lparr>sy_lock := RW_Read (Suc n), sy_thread := (sy_thread s)(t := Inside c (sy_state s))\<rparr>)"
| finish_write: "sy_thread s t = Inside c x \<Longrightarrow> needs_write c \<Longrightarrow> cache_body hs c x = Inr (r, x') \<Longrightarrow>
    sys_step hs s (s\<lparr>sy_state := x', sy_thread := (sy_thread s)(t := Leaving c), sy_log := sy_log s @ [(c, r)]\<rparr>)"
| finish_read: "sy_thread s t = Inside c x \<Longrightarrow> \<not> needs_write c \<Longrightarrow> cache_body hs c x = Inr (r, x') \<Longrightarrow>
    sys_step hs s (s\<lparr>sy_thread := (sy_thread s)(t := Leaving c), sy_log := sy_log s @ [(c, r)]\<rparr>)"
| leave_write: "sy_thread s t = Leaving c \<Longrightarrow> needs_write c \<Longrightarrow>
    sys_step hs s (s\<lparr>sy_lock := RW_Free, sy_thread := (sy_thread s)(t := Outside)\<rparr>)"
| leave_read: "sy_thread s t = Leaving c \<Longrightarrow> \<not> needs_write c \<Longrightarrow> sy_lock s = RW_Read (Suc n) \<Longrightarrow>
    sys_step hs s (s\<lparr>sy_lock := if n = 0 then RW_Free else RW_Read n, sy_thread := (sy_thread s)(t := Outside)\<rparr>)"

definition sys_init :: "'s \<Rightarrow> 's sys" where
  "sys_init x = \<lparr>sy_lock = RW_Free, sy_state = x, sy_thread = (\<lambda>_. Outside), sy_log = []\<rparr>"

inductive sys_reach :: "('b, 'w, 'o) CacheBackingHandlers \<Rightarrow> 'b \<times> 'w \<Rightarrow> ('b \<times> 'w) sys \<Rightarrow> bool" for hs x where
  sys_start: "sys_reach hs x (sys_init x)"
| sys_next: "sys_reach hs x s \<Longrightarrow> sys_step hs s s' \<Longrightarrow> sys_reach hs x s'"

text \<open>The log run one operation after the other; it must reproduce every recorded result.\<close>

primrec replay ::
  "('b, 'w, 'o) CacheBackingHandlers \<Rightarrow> (cache_op \<times> cache_ret) list \<Rightarrow> 'b \<times> 'w \<Rightarrow> ('b \<times> 'w) option" where
  "replay hs [] x = Some x"
| "replay hs (cr # l) x =
     (case cache_body hs (fst cr) x of
        Inr (r, x') \<Rightarrow> if r = snd cr then replay hs l x' else None
      | Inl _ \<Rightarrow> None)"

lemma replay_snoc:
  "replay hs l x = Some y \<Longrightarrow> cache_body hs c y = Inr (r, y') \<Longrightarrow> replay hs (l @ [(c, r)]) x = Some y'"
  by (induction l arbitrary: x) (auto split: sum.splits prod.splits if_splits)

lemma read_body_keeps: "\<not> needs_write c \<Longrightarrow> cache_body hs c x = Inr (r, x') \<Longrightarrow> x' = x"
  by (cases c; cases x) auto

fun in_section :: "bool \<Rightarrow> 's phase \<Rightarrow> bool" where
  "in_section w Outside \<longleftrightarrow> False"
| "in_section w (Inside c x) \<longleftrightarrow> needs_write c = w"
| "in_section w (Leaving c) \<longleftrightarrow> needs_write c = w"

definition holders :: "bool \<Rightarrow> 's sys \<Rightarrow> nat set" where
  "holders w s = {t. in_section w (sy_thread s t)}"

definition sys_inv :: "('b, 'w, 'o) CacheBackingHandlers \<Rightarrow> 'b \<times> 'w \<Rightarrow> ('b \<times> 'w) sys \<Rightarrow> bool" where
  "sys_inv hs x s \<longleftrightarrow>
     (case sy_lock s of
        RW_Free \<Rightarrow> holders True s = {} \<and> holders False s = {}
      | RW_Read n \<Rightarrow> holders True s = {} \<and> finite (holders False s) \<and> card (holders False s) = n
      | RW_Write \<Rightarrow> (\<exists>t. holders True s = {t}) \<and> holders False s = {})
     \<and> (\<forall>t c y. sy_thread s t = Inside c y \<longrightarrow> y = sy_state s)
     \<and> replay hs (sy_log s) x = Some (sy_state s)"

lemma holders_upd:
  "holders w (s\<lparr>sy_lock := l, sy_thread := (sy_thread s)(t := ph)\<rparr>) =
     (if in_section w ph then insert t (holders w s) else holders w s - {t})"
  by (auto simp: holders_def)

lemma holdersI: "in_section w (sy_thread s t) \<Longrightarrow> t \<in> holders w s"
  by (simp add: holders_def)

lemma holders_out: "sy_thread s t = Outside \<Longrightarrow> t \<notin> holders w s"
  by (simp add: holders_def)

lemma sys_inv_step:
  assumes "sys_step hs s s'" and "sys_inv hs x s"
  shows "sys_inv hs x s'"
  using assms
proof (induction rule: sys_step.induct)
  case (enter_write s t c)
  then show ?case using holders_out [of s t]
    by (auto simp: sys_inv_def holders_upd split: if_splits)
next
  case (enter_first_read s t c)
  then show ?case using holders_out [of s t]
    by (auto simp: sys_inv_def holders_upd split: if_splits)
next
  case (enter_read s t c n)
  then show ?case using holders_out [of s t False]
    by (auto simp: sys_inv_def holders_upd split: if_splits)
next
  case (finish_write s t c y r y')
  have t: "t \<in> holders True s" using finish_write by (intro holdersI) simp
  have y: "y = sy_state s" using finish_write(1,4) unfolding sys_inv_def by blast
  have lock: "sy_lock s = RW_Write" "holders True s = {t}" "holders False s = {}"
    using finish_write(4) t by (auto simp: sys_inv_def split: rw_mode.splits)
  have alone: "sy_thread s u \<noteq> Inside d z" if "u \<noteq> t" for u d z
  proof
    assume "sy_thread s u = Inside d z"
    then have "u \<in> holders (needs_write d) s" by (simp add: holders_def)
    then show False using lock(2,3) that by (cases "needs_write d") auto
  qed
  let ?s = "s\<lparr>sy_state := y', sy_thread := (sy_thread s)(t := Leaving c), sy_log := sy_log s @ [(c, r)]\<rparr>"
  have "holders w ?s = holders w s" for w
    using finish_write(1) by (auto simp: holders_def)
  moreover have "replay hs (sy_log s @ [(c, r)]) x = Some y'"
    using finish_write(3,4) y by (intro replay_snoc) (auto simp: sys_inv_def)
  ultimately show ?case using lock alone by (auto simp: sys_inv_def split: if_splits)
next
  case (finish_read s t c y r y')
  have y: "y = sy_state s" using finish_read(1,4) unfolding sys_inv_def by blast
  let ?s = "s\<lparr>sy_thread := (sy_thread s)(t := Leaving c), sy_log := sy_log s @ [(c, r)]\<rparr>"
  have "holders w ?s = holders w s" for w
    using finish_read(1) by (auto simp: holders_def)
  moreover have "y' = y" using read_body_keeps finish_read by blast
  then have "replay hs (sy_log s @ [(c, r)]) x = Some (sy_state s)"
    using finish_read(3,4) y by (intro replay_snoc) (auto simp: sys_inv_def)
  ultimately show ?case using finish_read(4) by (auto simp: sys_inv_def split: rw_mode.splits if_splits)
next
  case (leave_write s t c)
  have "t \<in> holders True s" using leave_write by (intro holdersI) simp
  then show ?case using leave_write
    by (auto simp: sys_inv_def holders_upd split: rw_mode.splits if_splits)
next
  case (leave_read s t c n)
  have "t \<in> holders False s" using leave_read by (intro holdersI) simp
  moreover from this have "n = 0 \<Longrightarrow> holders False s = {t}"
    using leave_read by (auto simp: sys_inv_def card_1_singleton_iff)
  ultimately show ?case using leave_read
    by (auto simp: sys_inv_def holders_upd split: rw_mode.splits if_splits)
qed

lemma sys_inv_reach: "sys_reach hs x s \<Longrightarrow> sys_inv hs x s"
proof (induction rule: sys_reach.induct)
  case sys_start
  show ?case by (simp add: sys_inv_def sys_init_def holders_def)
next
  case (sys_next s s')
  then show ?case by (blast intro: sys_inv_step)
qed

text \<open>With a lock that can be taken, an operation is its body between the two lock calls.\<close>

lemma cache_call_body:
  assumes "lock_good (rwlock cache)"
  shows "cache_call c m cache = rbind (cache_body (handlers cache) c (backing cache, m)) (\<lambda>(r, b, m').
    Inr (r, cache\<lparr>rwlock := (rwlock cache)\<lparr>lk_calls := Suc (Suc (lk_calls (rwlock cache))), lk_mode := Unlocked\<rparr>, backing := b\<rparr>, m'))"
proof -
  have g: "lock_good (l\<lparr>lk_calls := i, lk_mode := md\<rparr>) = lock_good l" for l i md by (simp add: lock_good_def)
  show ?thesis
    using assms
    by (cases c) (auto simp: cache_get_def cache_request_def cache_contains_def cache_is_full_def lock_defs pthread_call_good g
        rbind_def split: sum.splits prod.splits)
qed

section \<open>Properties\<close>



text \<open>
  On the LRU backing, a value stored by \<open>cache_request\<close> is what \<open>cache_get\<close> returns
  next for the key, and the lock is free again afterwards.
\<close>

theorem cache_request_then_get:
  assumes "lru_front_inv (backing c, m)" and "wf_key k" and "lock_good (rwlock c)"
    and "handlers c = LRU_CACHE_BACKING_HANDLERS junk" and "lru_cached (backing c) k = None"
  shows "\<exists>r ev c1 m1 ev' c2 m2. cache_request m c (Some k) (Some v) = Inr (r, ev, c1, m1) \<and> r \<noteq> - 1
    \<and> cache_get m1 c1 (Some k) = Inr (Some v, ev', c2, m2) \<and> lru_front_inv (backing c2, m2)
    \<and> lk_mode (rwlock c2) = Unlocked"
  by (rule lru_backing.request_then_get [OF assms])

abbreviation good_lock :: lock where
  "good_lock \<equiv> \<lparr>lk_mode = Unlocked, lk_calls = 0, lk_ret = (\<lambda>_. 0), lk_errno = NONE\<rparr>"

theorem cache_request_then_get_witness:
  "\<exists>(c :: (res_mem LRUCache, res_mem, addr comparator option option) Cache) m r ev c1 m1 ev' c2 m2.
    lru_entries (backing c) = [(key_a, 1), (key_i, 2)]
    \<and> cache_request (m :: res_mem) c (Some key_z) (Some 3) = Inr (r, ev, c1, m1)
    \<and> cache_get m1 c1 (Some key_z) = Inr (Some 3, ev', c2, m2)"
proof -
  obtain b and m :: res_mem where b: "lru_inv (b, m)" "lru_cache_size b = 2"
    "lru_entries b = [(key_a, 1), (key_i, 2)]" by (rule lru_example)
  let ?c = "\<lparr>rwlock = good_lock, backing = b, handlers = LRU_CACHE_BACKING_HANDLERS 0\<rparr>"
  have "\<exists>r ev c1 m1 ev' c2 m2. cache_request m ?c (Some key_z) (Some 3) = Inr (r, ev, c1, m1) \<and> r \<noteq> - 1
    \<and> cache_get m1 c1 (Some key_z) = Inr (Some 3, ev', c2, m2) \<and> lru_front_inv (backing c2, m2)
    \<and> lk_mode (rwlock c2) = Unlocked"
    by (rule cache_request_then_get [of ?c m key_z 0 3])
      (use b in \<open>simp_all add: lru_front_inv_def lock_good_def lru_cached_def\<close>)
  moreover have "lru_entries (backing ?c) = [(key_a, 1), (key_i, 2)]" using b(3) by simp
  ultimately show ?thesis by blast
qed

text \<open>
  \<open>cache_destroy\<close> on the LRU backing tests a result \<open>lru_destroy\<close> never returns.  If the
  value it reads is not 0, it fails after the backing has been freed and leaves the write
  lock held; if it is 0 the lock is released and destroyed.
\<close>

theorem cache_destroy_reads_junk:
  assumes "lock_good (rwlock c)" and "handlers c = LRU_CACHE_BACKING_HANDLERS junk"
    and "lru_destroy m (backing c) = Inr (st, m')"
  shows "\<exists>l. cache_destroy m c = Inr (if junk = 0 then 0 else - 1, l, m')
    \<and> lk_mode l = (if junk = 0 then Destroyed else WriteLocked)"
  using assms by (simp add: cache_destroy_def lock_defs pthread_call_def lock_good_def
      LRU_CACHE_BACKING_HANDLERS_def Let_def)

abbreviation lru_empty :: "res_mem LRUCache" where
  "lru_empty \<equiv> \<lparr>lru_cache_size = 2, lru_dqht = \<lparr>keyComparator = Some default_comparator,
     entryDestroyHandler = Some destroy_entry, dq_head = None, dq_tail = None,
     dq_ht = \<lparr>ht_size = 1, ht_count = 0, ht_comparator = Some default_comparator, ht_items = Some [None],
       ht_entries = Map.empty\<rparr>\<rparr>\<rparr>"

theorem cache_destroy_reads_junk_witness:
  "\<exists>l. cache_destroy res_mem0 \<lparr>rwlock = good_lock, backing = lru_empty, handlers = LRU_CACHE_BACKING_HANDLERS 7\<rparr>
      = Inr (- 1, l, res_mem0) \<and> lk_mode l = WriteLocked"
proof -
  have "lru_destroy res_mem0 lru_empty = Inr (Map.empty, res_mem0)"
    by (simp add: lru_destroy_def dqht_destroy_handled_def ht_destroy_def)
  then show ?thesis
    using cache_destroy_reads_junk [of "\<lparr>rwlock = good_lock, backing = lru_empty,
      handlers = LRU_CACHE_BACKING_HANDLERS 7\<rparr>" 7 res_mem0 Map.empty res_mem0]
    by (simp add: lock_good_def)
qed

end
