(* ===== verification/DLIRS_Entry.thy ===== *)
theory DLIRS_Entry
  imports DQ_Hashtable Result
begin

text \<open>
  The reference-counted entries of \<open>cache/dlirs/dlirs_entry.c\<close>.  One entry is shared by up
  to three dequeue hash tables, so entries live in a store of the memory record, and a
  pointer to an entry is its address there.  The only value destroyer the code ever stores
  in an entry is \<open>result_destroy\<close>, hence the field is left out and the call made directly.
\<close>

section \<open>Definitions\<close>

record DLIRSEntry =
  is_LIR :: bool
  is_demoted :: bool
  in_cache :: bool
  d_length :: "64 word"
  reference_counter :: nat
  d_key :: "bytes option"
  d_value :: "addr option"

record dl_mem = res_mem +
  dentry_at :: "addr \<Rightarrow> DLIRSEntry option"

definition load_dentry :: "'z dl_mem_scheme \<Rightarrow> addr \<Rightarrow> DLIRSEntry res" where
  "load_dentry m a = (case dentry_at m a of None \<Rightarrow> Inl UseAfterFree | Some e \<Rightarrow> Inr e)"

definition modify_dentry ::
  "'z dl_mem_scheme \<Rightarrow> addr \<Rightarrow> (DLIRSEntry \<Rightarrow> DLIRSEntry) \<Rightarrow> 'z dl_mem_scheme res" where
  "modify_dentry m a f =
     rbind (load_dentry m a) (\<lambda>e. Inr (m\<lparr>dentry_at := (dentry_at m)(a \<mapsto> f e)\<rparr>))"

definition dlirs_entry_create_full ::
  "'z dl_mem_scheme \<Rightarrow> bytes \<Rightarrow> addr option \<Rightarrow> bool \<Rightarrow> bool \<Rightarrow> (addr option \<times> 'z dl_mem_scheme) res" where
  "dlirs_entry_create_full m key value isLIR inCache =
     (case am_malloc m of
        (None, m1) \<Rightarrow> Inr (None, m1)
      | (Some a, m1) \<Rightarrow>
          rbind (key_size key) (\<lambda>len. rbind (key_clone m1 key) (\<lambda>(k, m2).
            Inr (Some a, m2\<lparr>dentry_at := (dentry_at m2)(a \<mapsto>
              \<lparr>is_LIR = isLIR, is_demoted = False, in_cache = inCache, d_length = len,
               reference_counter = 1, d_key = Some k, d_value = value\<rparr>)\<rparr>))))"

definition dlirs_entry_create ::
  "'z dl_mem_scheme \<Rightarrow> bytes \<Rightarrow> addr option \<Rightarrow> (addr option \<times> 'z dl_mem_scheme) res" where
  "dlirs_entry_create m key value = dlirs_entry_create_full m key value False True"

definition dlirs_entry_reference_copy ::
  "'z dl_mem_scheme \<Rightarrow> addr option \<Rightarrow> (addr option \<times> 'z dl_mem_scheme) res" where
  "dlirs_entry_reference_copy m p =
     (case p of None \<Rightarrow> Inr (None, m)
      | Some a \<Rightarrow> rbind (load_dentry m a) (\<lambda>e.
          if d_key e = None then Inr (None, m)
          else rbind (modify_dentry m a (\<lambda>e. e\<lparr>reference_counter := usize (reference_counter e + 1)\<rparr>)) (\<lambda>m'.
            Inr (Some a, m'))))"

text \<open>\<open>dlirs_entry_copy\<close>; \<open>copy\<close> is the value copier, the identity when the pointer is \<open>NULL\<close>.\<close>

definition dlirs_entry_copy ::
  "'z dl_mem_scheme \<Rightarrow> addr option \<Rightarrow>
     ('z dl_mem_scheme \<Rightarrow> addr option \<Rightarrow> (addr option \<times> 'z dl_mem_scheme) res) option \<Rightarrow>
     (addr option \<times> 'z dl_mem_scheme) res" where
  "dlirs_entry_copy m other copy =
     (case other of None \<Rightarrow> Inr (None, m)
      | Some o' \<Rightarrow> rbind (load_dentry m o') (\<lambda>e.
          (case d_key e of None \<Rightarrow> Inr (None, m)
           | Some k \<Rightarrow>
               rbind (case copy of None \<Rightarrow> Inr (d_value e, m) | Some f \<Rightarrow> f m (d_value e)) (\<lambda>(v, m1).
               rbind (dlirs_entry_create_full m1 k v (is_LIR e) (in_cache e)) (\<lambda>(p, m2).
               rbind (deref p) (\<lambda>a.
               rbind (modify_dentry m2 a (\<lambda>n. n\<lparr>is_demoted := is_demoted e, d_length := d_length e\<rparr>)) (\<lambda>m3.
                 Inr (Some a, m3))))))))"

text \<open>
  Dropping one reference.  The counter is decremented; the last reference frees the key,
  destroys the value unless \<open>keep\<close> says it is still in use, and frees the entry.
\<close>

definition drop_reference ::
  "'z dl_mem_scheme \<Rightarrow> addr \<Rightarrow> (addr option \<Rightarrow> bool) \<Rightarrow> 'z dl_mem_scheme res" where
  "drop_reference m a keep =
     rbind (load_dentry m a) (\<lambda>e.
       if d_key e = None then Inr m
       else
         let n = usize_dec (reference_counter e) in
         rbind (modify_dentry m a (\<lambda>e. e\<lparr>reference_counter := n\<rparr>)) (\<lambda>m1.
         rbind (key_sprint (d_key e)) (\<lambda>_.
           if n \<noteq> 0 then Inr m1
           else
             rbind (modify_dentry m1 a (\<lambda>e. e\<lparr>d_key := None\<rparr>)) (\<lambda>m2.
             rbind (if keep (d_value e) then Inr m2 else result_destroy m2 (d_value e)) (\<lambda>m3.
               Inr (m3\<lparr>dentry_at := (dentry_at m3)(a := None)\<rparr>))))))"

definition dlirs_entry_destroy :: "'z dl_mem_scheme \<Rightarrow> addr option \<Rightarrow> 'z dl_mem_scheme res" where
  "dlirs_entry_destroy m entry =
     (case entry of None \<Rightarrow> Inr m | Some a \<Rightarrow> drop_reference m a (\<lambda>_. False))"

text \<open>The destroy handler of the three tables (\<open>dlirs.c\<close>).\<close>

definition entry_destroy_handler :: "(addr, 'z dl_mem_scheme) destroy_handler" where
  "entry_destroy_handler entry currentValue m =
     (case entry of None \<Rightarrow> Inr m | Some a \<Rightarrow> drop_reference m a (\<lambda>v. currentValue = v))"

section \<open>Properties\<close>

text \<open>A live entry with a well-formed key.\<close>

definition dentry_ok :: "'z dl_mem_scheme \<Rightarrow> addr \<Rightarrow> DLIRSEntry \<Rightarrow> bool" where
  "dentry_ok m a e \<longleftrightarrow> dentry_at m a = Some e \<and> (\<exists>k. d_key e = Some k \<and> wf_key k)
     \<and> 0 < reference_counter e \<and> reference_counter e < 2 ^ 64 - 1"

lemma wf_key_sprint: "wf_key k \<Longrightarrow> \<exists>s. key_sprint (Some k) = Inr s"
  using key_cmp_wf [of k k] by (auto simp: key_cmp_def)

lemma dentry_sprint: "dentry_ok m a e \<Longrightarrow> \<exists>s. key_sprint (d_key e) = Inr s"
  by (metis dentry_ok_def wf_key_sprint)

lemma drop_reference_shared:
  assumes "dentry_ok m a e" and "1 < reference_counter e"
  shows "drop_reference m a keep =
    Inr (m\<lparr>dentry_at := (dentry_at m)(a \<mapsto> e\<lparr>reference_counter := reference_counter e - 1\<rparr>)\<rparr>)"
proof -
  have e: "dentry_at m a = Some e" "d_key e \<noteq> None" "reference_counter e < 2 ^ 64"
    using assms(1) by (auto simp: dentry_ok_def)
  obtain s where "key_sprint (d_key e) = Inr s" using dentry_sprint [OF assms(1)] by blast
  moreover have "usize_dec (reference_counter e) = reference_counter e - 1"
    using assms(2) e(3) by (intro usize_dec_pos) auto
  ultimately show ?thesis using e assms(2)
    by (auto simp: drop_reference_def load_dentry_def modify_dentry_def Let_def)
qed

text \<open>
  Reference counting is balanced: taking a reference to an entry that is referenced and
  dropping it again leaves the memory as it was, and dropping the last reference destroys
  the value and frees the entry.
\<close>

theorem dlirs_reference_balanced:
  assumes "dentry_ok m a e"
  shows "\<exists>m1. dlirs_entry_reference_copy m (Some a) = Inr (Some a, m1) \<and> dlirs_entry_destroy m1 (Some a) = Inr m
    \<and> (reference_counter e = 1 \<longrightarrow>
        dlirs_entry_destroy m (Some a) =
          rbind (result_destroy (m\<lparr>dentry_at := (dentry_at m)(a \<mapsto> e\<lparr>reference_counter := 0, d_key := None\<rparr>)\<rparr>)
            (d_value e)) (\<lambda>m'. Inr (m'\<lparr>dentry_at := (dentry_at m')(a := None)\<rparr>)))"
proof -
  have e: "dentry_at m a = Some e" "d_key e \<noteq> None" "reference_counter e < 2 ^ 64 - 1"
    "0 < reference_counter e" using assms by (auto simp: dentry_ok_def)
  obtain s where s: "key_sprint (d_key e) = Inr s" using dentry_sprint [OF assms] by blast
  let ?e1 = "e\<lparr>reference_counter := reference_counter e + 1\<rparr>"
  let ?m1 = "m\<lparr>dentry_at := (dentry_at m)(a \<mapsto> ?e1)\<rparr>"
  have "dlirs_entry_reference_copy m (Some a) = Inr (Some a, ?m1)"
    using e by (auto simp: dlirs_entry_reference_copy_def load_dentry_def modify_dentry_def)
  moreover have "dlirs_entry_destroy ?m1 (Some a) = Inr m"
  proof -
    have u: "usize_dec (reference_counter e + 1) = reference_counter e"
      using e(3) by (subst usize_dec_pos) auto
    have "(dentry_at m)(a \<mapsto> e) = dentry_at m" using e(1) by auto
    then show ?thesis using e(2,4) s u
      by (auto simp: dlirs_entry_destroy_def drop_reference_def load_dentry_def modify_dentry_def Let_def)
  qed
  moreover have "dlirs_entry_destroy m (Some a) =
          rbind (result_destroy (m\<lparr>dentry_at := (dentry_at m)(a \<mapsto> e\<lparr>reference_counter := 0, d_key := None\<rparr>)\<rparr>)
            (d_value e)) (\<lambda>m'. Inr (m'\<lparr>dentry_at := (dentry_at m')(a := None)\<rparr>))" if "reference_counter e = 1"
  proof -
    have "usize_dec 1 = 0" by (simp add: usize_dec_def)
    then show ?thesis using e(1,2) s that
      by (auto simp: dlirs_entry_destroy_def drop_reference_def load_dentry_def modify_dentry_def Let_def)
  qed
  ultimately show ?thesis by blast
qed

definition dl_mem1 :: dl_mem where
  "dl_mem1 = \<lparr>allocs = 10, alloc_fails = (\<lambda>_. False), result_at = Map.empty, posts_at = Map.empty,
     order_at = Map.empty, dentry_at = [3 \<mapsto> \<lparr>is_LIR = True, is_demoted = False, in_cache = True, d_length = 19,
       reference_counter = 1, d_key = Some key_a, d_value = None\<rparr>]\<rparr>"

theorem dlirs_reference_balanced_witness:
  "(\<exists>m1. dlirs_entry_reference_copy dl_mem1 (Some 3) = Inr (Some 3, m1)
      \<and> dlirs_entry_destroy m1 (Some 3) = Inr dl_mem1)
   \<and> (\<exists>m2. dlirs_entry_destroy dl_mem1 (Some 3) = Inr m2 \<and> dentry_at m2 = Map.empty)"
proof -
  let ?e = "\<lparr>is_LIR = True, is_demoted = False, in_cache = True, d_length = 19,
       reference_counter = 1, d_key = Some key_a, d_value = None\<rparr>"
  have "dentry_ok dl_mem1 3 ?e" by (simp add: dentry_ok_def dl_mem1_def)
  from dlirs_reference_balanced [OF this] show ?thesis
    by (auto simp: result_destroy_def dl_mem1_def)
qed

end
