(* ===== verification/Float_Model.thy ===== *)
theory Float_Model
  imports Prelude Complex_Main
begin

text \<open>
  The floating-point arithmetic of \<open>dlirs.c\<close>: rationals rounded to 24 bits (\<open>float\<close>) or 53
  bits (\<open>double\<close>), ties to even, with the infinities and NaN.  Overflow and subnormals are
  left out: every finite operand in the code is 0 or lies between \<open>2 ^ - 65\<close> and \<open>2 ^ 66\<close> in
  magnitude.
\<close>

section \<open>Rounding\<close>

text \<open>\<open>rint\<close> in the default rounding mode.\<close>

definition round_even :: "rat \<Rightarrow> int" where
  "round_even x =
     (let f = \<lfloor>x\<rfloor>; d = x - of_int f in
      if d < 1 / 2 then f else if 1 / 2 < d then f + 1 else if even f then f else f + 1)"

text \<open>The exponent of the leading bit; the difference of the bit lengths is at most one off.\<close>

definition exponent :: "rat \<Rightarrow> int" where
  "exponent x =
     (let n = nat \<bar>fst (quotient_of x)\<bar>; d = nat (snd (quotient_of x));
          e = int (bit_length n) - int (bit_length d)
      in if \<bar>x\<bar> < 2 powi e then e - 1 else e)"

definition round_bits :: "nat \<Rightarrow> rat \<Rightarrow> rat" where
  "round_bits p x =
     (if x = 0 then 0
      else let u = 2 powi (exponent x - int p + 1) in of_int (round_even (x / u)) * u)"

section \<open>Numbers\<close>

datatype flt = Fin rat | PInf | NInf | NaN

definition to_bits :: "nat \<Rightarrow> flt \<Rightarrow> flt" where
  "to_bits p a = (case a of Fin x \<Rightarrow> Fin (round_bits p x) | _ \<Rightarrow> a)"

abbreviation to_float :: "flt \<Rightarrow> flt" where
  "to_float \<equiv> to_bits 24"

abbreviation to_double :: "flt \<Rightarrow> flt" where
  "to_double \<equiv> to_bits 53"

definition of_size :: "nat \<Rightarrow> nat \<Rightarrow> flt" where
  "of_size p n = to_bits p (Fin (of_nat n))"

fun fl_add :: "nat \<Rightarrow> flt \<Rightarrow> flt \<Rightarrow> flt" where
  "fl_add p (Fin x) (Fin y) = Fin (round_bits p (x + y))"
| "fl_add p NaN b = NaN"
| "fl_add p a NaN = NaN"
| "fl_add p PInf NInf = NaN"
| "fl_add p NInf PInf = NaN"
| "fl_add p PInf b = PInf"
| "fl_add p NInf b = NInf"
| "fl_add p a PInf = PInf"
| "fl_add p a NInf = NInf"

fun fl_neg :: "flt \<Rightarrow> flt" where
  "fl_neg (Fin x) = Fin (- x)"
| "fl_neg PInf = NInf"
| "fl_neg NInf = PInf"
| "fl_neg NaN = NaN"

definition fl_sub :: "nat \<Rightarrow> flt \<Rightarrow> flt \<Rightarrow> flt" where
  "fl_sub p a b = fl_add p a (fl_neg b)"

text \<open>Products and quotients of finite numbers; the only quotients are of converted \<open>size_t\<close>
  values, so a zero divisor is \<open>+0\<close>.\<close>

fun fl_mul :: "nat \<Rightarrow> flt \<Rightarrow> flt \<Rightarrow> flt" where
  "fl_mul p (Fin x) (Fin y) = Fin (round_bits p (x * y))"
| "fl_mul p a b = NaN"

fun fl_div :: "nat \<Rightarrow> flt \<Rightarrow> flt \<Rightarrow> flt" where
  "fl_div p (Fin x) (Fin y) =
     (if y \<noteq> 0 then Fin (round_bits p (x / y))
      else if x = 0 then NaN else if 0 < x then PInf else NInf)"
| "fl_div p a b = NaN"

definition fl_rint :: "flt \<Rightarrow> flt" where
  "fl_rint a = (case a of Fin x \<Rightarrow> Fin (of_int (round_even x)) | _ \<Rightarrow> a)"

text \<open>\<open>fmin\<close> and \<open>fmax\<close> ignore a NaN.\<close>

fun fl_le :: "flt \<Rightarrow> flt \<Rightarrow> bool" where
  "fl_le (Fin x) (Fin y) \<longleftrightarrow> x \<le> y"
| "fl_le NaN b \<longleftrightarrow> False"
| "fl_le a NaN \<longleftrightarrow> False"
| "fl_le NInf b \<longleftrightarrow> True"
| "fl_le a PInf \<longleftrightarrow> True"
| "fl_le a b \<longleftrightarrow> False"

definition fmin :: "flt \<Rightarrow> flt \<Rightarrow> flt" where
  "fmin a b = (if a = NaN then b else if b = NaN then a else if fl_le a b then a else b)"

definition fmax :: "flt \<Rightarrow> flt \<Rightarrow> flt" where
  "fmax a b = (if a = NaN then b else if b = NaN then a else if fl_le b a then a else b)"

definition fl_less :: "flt \<Rightarrow> flt \<Rightarrow> bool" where
  "fl_less a b \<longleftrightarrow> fl_le a b \<and> \<not> fl_le b a"

text \<open>\<open>(size_t) a\<close>: truncation, undefined outside the range of \<open>size_t\<close>.\<close>

definition fl_to_size :: "flt \<Rightarrow> nat res" where
  "fl_to_size a =
     (case a of
        Fin x \<Rightarrow> if - 1 < x \<and> x < 2 ^ 64 then Inr (nat \<lfloor>x\<rfloor>) else Inl BadCast
      | _ \<Rightarrow> Inl BadCast)"

section \<open>Integers are exact\<close>

lemma round_even_int [simp]: "round_even (of_int n) = n"
  by (simp add: round_even_def Let_def)

lemma exponent_int:
  assumes "n \<noteq> 0"
  shows "exponent (of_int n) = int (bit_length (nat \<bar>n\<bar>)) - 1"
proof -
  let ?k = "nat \<bar>n\<bar>"
  have k: "2 ^ (bit_length ?k - 1) \<le> ?k" "?k < 2 ^ bit_length ?k" "0 < bit_length ?k"
    using bit_length_bounds [of ?k] assms by auto
  have q: "quotient_of (of_int n) = (n, 1)"
    unfolding Fract_of_int_eq [symmetric] by (simp add: quotient_of_Fract normalize_def)
  have b1: "bit_length 1 = 1" by (simp add: bit_length.simps)
  have ge: "\<bar>of_int n\<bar> \<ge> (2 :: rat) powi (int (bit_length ?k) - 1)"
  proof -
    have "(2 :: rat) powi (int (bit_length ?k) - 1) = 2 ^ (bit_length ?k - 1)"
      using k(3) by (simp add: power_int_def nat_diff_distrib)
    also have "\<dots> = of_nat (2 ^ (bit_length ?k - 1))" by simp
    also have "\<dots> \<le> of_nat ?k" using k(1) by (rule of_nat_mono)
    also have "\<dots> = \<bar>of_int n\<bar>" by (simp add: of_nat_nat)
    finally show ?thesis .
  qed
  show ?thesis using q b1 ge by (simp add: exponent_def Let_def)
qed

lemma round_bits_int:
  assumes "\<bar>n\<bar> \<le> 2 ^ p" and "0 < p"
  shows "round_bits p (of_int n) = of_int n"
proof (cases "n = 0")
  case True
  then show ?thesis by (simp add: round_bits_def)
next
  case False
  let ?k = "nat \<bar>n\<bar>" and ?e = "int (bit_length (nat \<bar>n\<bar>)) - 1"
  have k: "2 ^ (bit_length ?k - 1) \<le> ?k" "0 < bit_length ?k"
    using bit_length_bounds [of ?k] False by auto
  have "?k \<le> 2 ^ p" using assms(1) by (simp add: nat_le_iff)
  then have "(2 :: nat) ^ (bit_length ?k - 1) \<le> 2 ^ p" using k(1) by linarith
  then have e: "?e \<le> int p" using k(2) by (simp add: power_increasing_iff)
  let ?u = "(2 :: rat) powi (?e - int p + 1)"
  have "\<exists>j :: int. of_int n / ?u = of_int j"
  proof (cases "?e = int p")
    case False
    then have "?e - int p + 1 \<le> 0" using e by simp
    then have "?u = 1 / 2 ^ nat (int p - 1 - ?e)" by (simp add: power_int_def divide_simps)
    then have "of_int n / ?u = of_int (n * 2 ^ nat (int p - 1 - ?e))" by simp
    then show ?thesis by blast
  next
    case True
    then have "bit_length ?k - 1 = p" using k(2) by simp
    then have "?k = 2 ^ p" using k(1) \<open>?k \<le> 2 ^ p\<close> by simp
    then have "int ?k = 2 ^ p" by simp
    then have "\<bar>n\<bar> = 2 ^ p" by simp
    then have "even \<bar>n\<bar>" using assms(2) by simp
    then have "even n" by simp
    then obtain j where "n = 2 * j" by (elim evenE)
    then show ?thesis using True by (intro exI [of _ j]) simp
  qed
  then obtain j :: int where j: "of_int n / ?u = of_int j" by blast
  have "?u \<noteq> 0" by simp
  then have "of_int j * ?u = of_int n" using j by (metis nonzero_eq_divide_eq)
  with j False show ?thesis by (simp add: round_bits_def Let_def exponent_int)
qed

lemma round_even_ge: "of_int j \<le> x \<Longrightarrow> j \<le> round_even x"
proof -
  assume "of_int j \<le> x"
  then have "j \<le> \<lfloor>x\<rfloor>" by (simp add: le_floor_iff)
  then show ?thesis by (auto simp: round_even_def Let_def)
qed

lemma round_bits_ge:
  assumes "2 ^ p \<le> n" and "0 < p"
  shows "2 ^ p \<le> round_bits p (of_int n)"
proof -
  let ?k = "nat \<bar>n\<bar>"
  have n: "0 < n" using assms(1) by (smt (verit) zero_less_power)
  then have k: "2 ^ (bit_length ?k - 1) \<le> ?k" "?k < 2 ^ bit_length ?k" "0 < bit_length ?k"
    using bit_length_bounds [of ?k] by auto
  have "(2 :: nat) ^ p \<le> ?k" using assms(1) n by (simp add: nat_le_eq_zle nat_power_eq le_nat_iff)
  then have "(2 :: nat) ^ p < 2 ^ bit_length ?k" using k(2) by linarith
  then have pb: "p < bit_length ?k" by (simp add: power_strict_increasing_iff)
  define j where "j = bit_length ?k - p"
  let ?u = "(2 :: rat) powi (int (bit_length ?k) - 1 - int p + 1)"
  have u: "?u = 2 ^ j" using pb by (simp add: j_def power_int_def nat_diff_distrib)
  have "(2 :: int) ^ (p - 1) * 2 ^ j = 2 ^ (bit_length ?k - 1)"
    using pb assms(2) by (simp add: power_add [symmetric] j_def)
  also have "\<dots> \<le> n" using k(1) n by (simp add: le_nat_iff)
  finally have "(of_int (2 ^ (p - 1) * 2 ^ j) :: rat) \<le> of_int n" by (simp only: of_int_le_iff)
  then have "of_int (2 ^ (p - 1)) \<le> of_int n / (2 ^ j :: rat)" by (simp add: field_simps)
  then have "2 ^ (p - 1) \<le> round_even (of_int n / (2 ^ j :: rat))" by (rule round_even_ge)
  then have "(of_int (2 ^ (p - 1)) :: rat) \<le> of_int (round_even (of_int n / (2 ^ j :: rat)))"
    by (simp only: of_int_le_iff)
  then have "2 ^ (p - 1) * 2 ^ j \<le> (of_int (round_even (of_int n / (2 ^ j :: rat))) * 2 ^ j :: rat)" by simp
  moreover have "(2 :: rat) ^ p \<le> 2 ^ (p - 1) * 2 ^ j"
  proof -
    have "p \<le> p - 1 + j" using pb by (simp add: j_def)
    then have "(2 :: rat) ^ p \<le> 2 ^ (p - 1 + j)" by (rule power_increasing) simp
    then show ?thesis by (simp add: power_add)
  qed
  moreover have "round_bits p (of_int n) = of_int (round_even (of_int n / 2 ^ j)) * 2 ^ j"
    using n u by (simp add: round_bits_def Let_def exponent_int)
  ultimately show ?thesis by linarith
qed

section \<open>Dyadic fractions are exact\<close>

lemma exponent_le:
  assumes "x \<noteq> 0"
  shows "2 powi exponent x \<le> \<bar>x\<bar>"
proof -
  obtain a b where q: "quotient_of x = (a, b)" by fastforce
  let ?n = "nat \<bar>a\<bar>" and ?d = "nat b"
  have b: "0 < b" and x: "x = of_int a / of_int b" using q by (auto intro: quotient_of_denom_pos quotient_of_div)
  have a: "a \<noteq> 0" using assms x by auto
  have n: "2 ^ (bit_length ?n - 1) \<le> ?n" "0 < bit_length ?n" using bit_length_bounds [of ?n] a by auto
  have d: "?d < 2 ^ bit_length ?d" using bit_length_bounds [of ?d] b by auto
  have "(2 :: rat) powi (int (bit_length ?n) - int (bit_length ?d) - 1)
      = 2 ^ (bit_length ?n - 1) / 2 ^ bit_length ?d"
  proof -
    have "int (bit_length ?n) - int (bit_length ?d) - 1 = int (bit_length ?n - 1) - int (bit_length ?d)"
      using n(2) by simp
    moreover have "(2 :: rat) powi (int (bit_length ?n - 1) - int (bit_length ?d))
        = 2 powi int (bit_length ?n - 1) / 2 powi int (bit_length ?d)" by (rule power_int_diff) simp
    ultimately show ?thesis by (simp only: power_int_of_nat)
  qed
  also have "\<dots> \<le> of_nat ?n / of_nat ?d"
  proof (rule frac_le)
    have "(of_nat (2 ^ (bit_length ?n - 1)) :: rat) \<le> of_nat ?n" using n(1) by (rule of_nat_mono)
    then show "(2 :: rat) ^ (bit_length ?n - 1) \<le> of_nat ?n" by simp
    have "(of_nat ?d :: rat) \<le> of_nat (2 ^ bit_length ?d)" using d by (intro of_nat_mono) simp
    then show "of_nat ?d \<le> (2 :: rat) ^ bit_length ?d" by simp
  qed (use b in auto)
  also have "\<dots> = \<bar>x\<bar>" using b x by (simp add: of_nat_nat abs_divide)
  finally have "(2 :: rat) powi (int (bit_length ?n) - int (bit_length ?d) - 1) \<le> \<bar>x\<bar>" .
  then show ?thesis using q by (auto simp: exponent_def Let_def not_less)
qed

lemma round_bits_dyadic:
  assumes "\<bar>n\<bar> < 2 ^ p"
  shows "round_bits p (of_int n / 2 ^ k) = of_int n / 2 ^ k"
proof (cases "n = 0")
  case False
  let ?x = "of_int n / 2 ^ k :: rat"
  let ?e = "exponent ?x"
  have "\<bar>?x\<bar> < 2 powi (int p - int k)"
  proof -
    have "(of_int \<bar>n\<bar> :: rat) < of_int (2 ^ p)" using assms by (simp only: of_int_less_iff)
    then have "\<bar>of_int n :: rat\<bar> / 2 ^ k < 2 ^ p / 2 ^ k" by (simp add: divide_strict_right_mono)
    then show ?thesis by (simp add: power_int_diff)
  qed
  then have "(2 :: rat) powi ?e < 2 powi (int p - int k)" using exponent_le [of ?x] False by simp
  then have e: "?e < int p - int k"
    by (metis (no_types, opaque_lifting) linorder_not_le numeral_One one_le_numeral power_int_increasing semiring_norm(69))
  define j where "j = nat (int p - 1 - ?e - int k)"
  let ?u = "(2 :: rat) powi (?e - int p + 1)"
  have "?e - int p + 1 = - int (j + k)" using e by (simp add: j_def)
  then have "?u = inverse (2 powi int (j + k))" by (simp only: power_int_minus)
  then have u: "?u = 1 / 2 ^ (j + k)" by (simp only: power_int_of_nat inverse_eq_divide)
  have "?x / ?u = of_int (n * 2 ^ j)" by (simp add: u power_add)
  then have "round_bits p ?x = of_int (n * 2 ^ j) * ?u"
    using False unfolding round_bits_def Let_def by (simp del: of_int_mult)
  also have "\<dots> = ?x" by (simp add: u power_add)
  finally show ?thesis .
qed (simp add: round_bits_def)

end
