(* ===== verification/DLIRS.thy ===== *)
theory DLIRS
  imports DLIRS_Entry Float_Model
begin

text \<open>
  The DLIRS cache of \<open>cache/dlirs/dlirs.c\<close>: a LIRS stack (\<open>lirs\<close>) and two queues of entries
  with high inter-reference recency, resident and not, all three dequeue hash tables over
  shared reference-counted entries, with limits that adapt as hits are observed.  The
  counters are \<open>size_t\<close> and wrap; the limits are \<open>float\<close>.
\<close>

section \<open>State\<close>

record 'w DLIRS =
  dl_cache_size :: nat
  hirs_ratio :: flt
  hirs_limit :: flt
  lirs_limit :: flt
  hirs_count :: nat
  lirs_count :: nat
  demoted :: nat
  non_resident :: nat
  lirs :: "(addr, 'w) DequeueHashTable"
  non_resident_hirs :: "(addr, 'w) DequeueHashTable"
  resident_hirs :: "(addr, 'w) DequeueHashTable"

text \<open>The third field of the options, \<open>value_copy_handler\<close>, is stored by \<open>dlirs_create\<close> and
  never used.\<close>

record DLIRSOptions =
  opt_comparator :: "addr comparator option"
  opt_hirs_ratio :: flt

type_synonym 'z dlirs_state = "'z dl_mem_scheme DLIRS \<times> 'z dl_mem_scheme"

section \<open>Creation and limits\<close>

definition initial_hirs_limit :: "nat \<Rightarrow> flt \<Rightarrow> flt" where
  "initial_hirs_limit cache_size ratio =
     to_float (fmax (Fin 1) (fl_rint (fl_add 53 (fl_mul 53 (of_size 53 cache_size) ratio) (Fin (1 / 2)))))"

definition dlirs_create ::
  "'z dl_mem_scheme \<Rightarrow> nat \<Rightarrow> nat \<Rightarrow> DLIRSOptions option \<Rightarrow>
     ('z dl_mem_scheme DLIRS option \<times> 'z dl_mem_scheme) res" where
  "dlirs_create m ht_sz cache_size options =
     (case am_malloc m of
        (None, m1) \<Rightarrow> Inr (None, m1)
      | (Some _, m1) \<Rightarrow>
          rbind (deref options) (\<lambda>opts.
          let ratio = opt_hirs_ratio opts;
              hlim = initial_hirs_limit cache_size ratio;
              llim = fl_sub 24 (of_size 24 cache_size) hlim
          in
          rbind (dqht_create m1 ht_sz (opt_comparator opts) (Some entry_destroy_handler)) (\<lambda>(t1, m2).
          (case t1 of None \<Rightarrow> Inr (None, m2) | Some d1 \<Rightarrow>
          rbind (dqht_create m2 ht_sz (opt_comparator opts) (Some entry_destroy_handler)) (\<lambda>(t2, m3).
          (case t2 of None \<Rightarrow> Inr (None, m3) | Some d2 \<Rightarrow>
          rbind (dqht_create m3 ht_sz (opt_comparator opts) (Some entry_destroy_handler)) (\<lambda>(t3, m4).
          (case t3 of None \<Rightarrow> Inr (None, m4) | Some d3 \<Rightarrow>
             Inr (Some \<lparr>dl_cache_size = cache_size, hirs_ratio = ratio, hirs_limit = hlim, lirs_limit = llim,
                        hirs_count = 0, lirs_count = 0, demoted = 0, non_resident = 0,
                        lirs = d1, non_resident_hirs = d2, resident_hirs = d3\<rparr>, m4)))))))))"

definition dlirs_contains :: "'z dl_mem_scheme \<Rightarrow> 'z dl_mem_scheme DLIRS \<Rightarrow> bytes option \<Rightarrow> bool res" where
  "dlirs_contains m cache key =
     (case key of None \<Rightarrow> Inr False
      | Some k \<Rightarrow>
          let resident = rbind (dqht_get (resident_hirs cache) (Some k)) (\<lambda>p.
                (case p of None \<Rightarrow> Inr False
                 | Some a \<Rightarrow> rbind (load_dentry m a) (\<lambda>e. Inr (d_value e \<noteq> None))))
          in rbind (dqht_get (lirs cache) (Some k)) (\<lambda>p.
               (case p of None \<Rightarrow> resident
                | Some a \<Rightarrow> rbind (load_dentry m a) (\<lambda>e.
                    if in_cache e then Inr (d_value e \<noteq> None) else resident))))"

definition dlirs_is_full :: "'w DLIRS \<Rightarrow> bool" where
  "dlirs_is_full cache \<longleftrightarrow> usize (hirs_count cache + lirs_count cache) = dl_cache_size cache"

text \<open>\<open>fmax(1, rint((double) a / (double) b + 0.5))\<close>, by how much a limit moves.\<close>

definition limit_step :: "nat \<Rightarrow> nat \<Rightarrow> flt" where
  "limit_step a b =
     fmax (Fin 1) (fl_rint (fl_add 53 (fl_div 53 (of_size 53 a) (of_size 53 b)) (Fin (1 / 2))))"

definition dlirs_resize :: "'w DLIRS \<Rightarrow> bool \<Rightarrow> 'w DLIRS" where
  "dlirs_resize cache hit_nonresident_hir =
     (let top = fl_sub 53 (of_size 53 (dl_cache_size cache)) (Fin 1) in
      if hit_nonresident_hir then
        let h = to_float (fmin top (fl_add 53 (hirs_limit cache) (limit_step (demoted cache) (non_resident cache))))
        in cache\<lparr>hirs_limit := h, lirs_limit := fl_sub 24 (of_size 24 (dl_cache_size cache)) h\<rparr>
      else
        let l = to_float (fmin top (fl_add 53 (lirs_limit cache) (limit_step (non_resident cache) (demoted cache))))
        in cache\<lparr>lirs_limit := l, hirs_limit := fl_sub 24 (of_size 24 (dl_cache_size cache)) l\<rparr>)"

section \<open>The stack\<close>

text \<open>What \<open>dqht_remove\<close> stored through a pointer to a variable that is uninitialised,
  and to one that is \<open>NULL\<close> before the call.\<close>

definition read_removed :: "addr option option \<Rightarrow> addr option res" where
  "read_removed r = (case r of None \<Rightarrow> Inl Uninit | Some p \<Rightarrow> Inr p)"

definition removed_or_null :: "addr option option \<Rightarrow> addr option" where
  "removed_or_null r = (case r of None \<Rightarrow> None | Some p \<Rightarrow> p)"

text \<open>
  \<open>dlirs_prune\<close>.  Every round that goes on removes one entry from the stack, so \<open>count\<close>
  rounds are enough.
\<close>

fun prune_loop :: "nat \<Rightarrow> 'z dlirs_state \<Rightarrow> 'z dlirs_state res" where
  "prune_loop 0 (cache, m) = (if 0 < ht_count (dq_ht (lirs cache)) then Inl Hang else Inr (cache, m))"
| "prune_loop (Suc n) (cache, m) =
     (if 0 < ht_count (dq_ht (lirs cache)) then
        rbind (dqht_print_table (lirs cache)) (\<lambda>_.
        rbind (dqht_get_front (lirs cache)) (\<lambda>p. rbind (deref p) (\<lambda>a.
        rbind (load_dentry m a) (\<lambda>e.
          if is_LIR e then Inr (cache, m)
          else
            rbind (dqht_remove m (lirs cache) (d_key e) True) (\<lambda>(r, removed, d, m1).
            if r \<noteq> 0 then Inl Exit1
            else
              rbind (read_removed removed) (\<lambda>entry1.
              rbind (dlirs_entry_destroy m1 entry1) (\<lambda>m2.
              rbind (load_dentry m2 a) (\<lambda>e2.
              rbind (dqht_remove m2 (non_resident_hirs cache) (d_key e2) True) (\<lambda>(r2, removed2, d2, m3).
              if r2 = - 1 then Inl Exit1
              else
                rbind (dlirs_entry_destroy m3 (removed_or_null removed2)) (\<lambda>m4.
                let c1 = cache\<lparr>lirs := d, non_resident_hirs := d2\<rparr>;
                    c2 = (if in_cache e then c1 else c1\<lparr>non_resident := usize_dec (non_resident c1)\<rparr>)
                in prune_loop n (c2, m4)))))))))))
      else Inr (cache, m))"

definition dlirs_prune :: "'z dlirs_state \<Rightarrow> 'z dlirs_state res" where
  "dlirs_prune s = prune_loop (ht_count (dq_ht (lirs (fst s)))) s"

definition dlirs_evict_lir :: "'z dlirs_state \<Rightarrow> 'z dlirs_state res" where
  "dlirs_evict_lir s =
     (case s of (cache, m) \<Rightarrow>
        rbind (dqht_print_table (lirs cache)) (\<lambda>_.
        rbind (dqht_pop_front (lirs cache)) (\<lambda>(lru, d).
        rbind (dqht_print_table d) (\<lambda>_.
          (case lru of None \<Rightarrow> Inr (cache\<lparr>lirs := d\<rparr>, m)
           | Some a \<Rightarrow>
               rbind (modify_dentry m a (\<lambda>e. e\<lparr>is_LIR := False, is_demoted := True\<rparr>)) (\<lambda>m1.
               rbind (load_dentry m1 a) (\<lambda>e.
               rbind (dqht_insert m1 (resident_hirs cache) (d_key e) (Some a)) (\<lambda>(r, d2, m2).
               if r \<noteq> 0 then Inl Exit1
               else dlirs_prune
                 (cache\<lparr>lirs := d, lirs_count := usize_dec (lirs_count cache),
                        demoted := usize (demoted cache + 1), resident_hirs := d2,
                        hirs_count := usize (hirs_count cache + 1)\<rparr>, m2)))))))))"

definition dlirs_evict_resident_hir :: "'z dlirs_state \<Rightarrow> (addr option \<times> 'z dlirs_state) res" where
  "dlirs_evict_resident_hir s =
     (case s of (cache, m) \<Rightarrow>
        rbind (dqht_pop_front (resident_hirs cache)) (\<lambda>(lru, d).
        let c1 = cache\<lparr>resident_hirs := d\<rparr> in
          (case lru of None \<Rightarrow> Inr (None, c1, m)
           | Some a \<Rightarrow>
               rbind (load_dentry m a) (\<lambda>e.
               rbind (dqht_get (lirs c1) (d_key e)) (\<lambda>p.
               rbind (if p \<noteq> None
                      then rbind (modify_dentry m a (\<lambda>e. e\<lparr>in_cache := False\<rparr>)) (\<lambda>m1.
                             Inr (c1\<lparr>non_resident := usize (non_resident c1 + 1)\<rparr>, m1))
                      else Inr (c1, m)) (\<lambda>(c2, m2).
               rbind (load_dentry m2 a) (\<lambda>e2.
               rbind (if is_demoted e2
                      then rbind (modify_dentry m2 a (\<lambda>e. e\<lparr>is_demoted := False\<rparr>)) (\<lambda>m3.
                             Inr (c2\<lparr>demoted := usize_dec (demoted c2)\<rparr>, m3))
                      else Inr (c2, m2)) (\<lambda>(c3, m3).
                 Inr (Some a, c3\<lparr>hirs_count := usize_dec (hirs_count c3)\<rparr>, m3)))))))))"

definition dlirs_hit_lir :: "'z dlirs_state \<Rightarrow> bytes option \<Rightarrow> 'z dlirs_state res" where
  "dlirs_hit_lir s key =
     (case s of (cache, m) \<Rightarrow>
        (case key of None \<Rightarrow> Inr s
         | Some k \<Rightarrow>
             rbind (dqht_get_front (lirs cache)) (\<lambda>p.
               (case p of None \<Rightarrow> Inr s
                | Some lru_lir \<Rightarrow>
                    rbind (dqht_remove m (lirs cache) (Some k) True) (\<lambda>(r, removed, d, m1).
                    if r \<noteq> 0 then Inl Exit1
                    else
                      rbind (deref (removed_or_null removed)) (\<lambda>a.
                      rbind (load_dentry m1 a) (\<lambda>e.
                      rbind (dqht_insert m1 d (d_key e) (Some a)) (\<lambda>(r2, d2, m2).
                      if r2 \<noteq> 0 then Inl Exit1
                      else
                        rbind (load_dentry m2 lru_lir) (\<lambda>e2.
                        rbind (key_cmp (d_key e2) (Some k)) (\<lambda>c.
                          let c1 = cache\<lparr>lirs := d2\<rparr> in
                          if c = 0 then dlirs_prune (c1, m2) else Inr (c1, m2)))))))))))"

text \<open>
  The two eviction loops of \<open>dlirs_hir_in_lirs\<close>.  A round either takes an entry out of a
  table or, the table being empty, changes nothing; so once as many rounds as the table had
  entries have passed and the condition still holds, the loop never ends.
\<close>

fun eject_lir_loop :: "nat \<Rightarrow> 'z dlirs_state \<Rightarrow> 'z dlirs_state res" where
  "eject_lir_loop n (cache, m) =
     rbind (fl_to_size (lirs_limit cache)) (\<lambda>limit.
       if limit \<le> lirs_count cache then
         (case n of 0 \<Rightarrow> Inl Hang
          | Suc n' \<Rightarrow> rbind (dlirs_evict_lir (cache, m)) (eject_lir_loop n'))
       else Inr (cache, m))"

fun eject_hir_loop :: "nat \<Rightarrow> addr option \<Rightarrow> 'z dlirs_state \<Rightarrow> (addr option \<times> 'z dlirs_state) res" where
  "eject_hir_loop n evicted (cache, m) =
     (if dl_cache_size cache \<le> usize (hirs_count cache + lirs_count cache) then
        (case n of 0 \<Rightarrow> Inl Hang
         | Suc n' \<Rightarrow> rbind (dlirs_evict_resident_hir (cache, m)) (\<lambda>(ev, s). eject_hir_loop n' ev s))
      else Inr (evicted, cache, m))"

text \<open>The two branches on \<open>in_cache\<close> in \<open>dlirs_hir_in_lirs\<close>.\<close>

definition leave_resident_hirs :: "'z dlirs_state \<Rightarrow> bytes \<Rightarrow> addr \<Rightarrow> (int \<times> 'z dlirs_state) res" where
  "leave_resident_hirs s k a =
     (case s of (cache, m) \<Rightarrow>
        rbind (dqht_remove m (resident_hirs cache) (Some k) True) (\<lambda>(r, removed, d, m1).
        let c1 = cache\<lparr>resident_hirs := d\<rparr> in
        if r = - 1 then rbind (dlirs_entry_destroy m1 (Some a)) (\<lambda>m2. Inr (- 1, c1, m2))
        else
          rbind (read_removed removed) (\<lambda>residentEntry.
          rbind (dlirs_entry_destroy m1 residentEntry) (\<lambda>m2.
            Inr (0, c1\<lparr>hirs_count := usize_dec (hirs_count c1)\<rparr>, m2)))))"

definition miss_nonresident_hir :: "'z dlirs_state \<Rightarrow> addr \<Rightarrow> (int \<times> 'z dlirs_state) res" where
  "miss_nonresident_hir s a =
     (case s of (cache, m) \<Rightarrow>
        let c1 = dlirs_resize cache True in
        rbind (modify_dentry m a (\<lambda>e. e\<lparr>in_cache := True\<rparr>)) (\<lambda>m1.
          Inr (0, c1\<lparr>non_resident := usize_dec (non_resident c1)\<rparr>, m1)))"

definition dlirs_hir_in_lirs ::
  "'z dlirs_state \<Rightarrow> bytes option \<Rightarrow> addr option \<Rightarrow> (int \<times> addr option \<times> 'z dlirs_state) res" where
  "dlirs_hir_in_lirs s key evicted =
     (case s of (cache, m) \<Rightarrow>
        (case key of None \<Rightarrow> Inr (- 1, evicted, s)
         | Some k \<Rightarrow>
             rbind (dqht_remove m (lirs cache) (Some k) True) (\<lambda>(r, removed, d, m1).
             if r \<noteq> 0 then Inr (r, evicted, cache\<lparr>lirs := d\<rparr>, m1)
             else
               rbind (deref (removed_or_null removed)) (\<lambda>a.
               rbind (load_dentry m1 a) (\<lambda>e.
               rbind (modify_dentry m1 a (\<lambda>e. e\<lparr>is_LIR := True\<rparr>)) (\<lambda>m2.
               rbind (dqht_remove m2 (non_resident_hirs cache) (Some k) True) (\<lambda>(r2, removed2, d2, m3).
               let c1 = cache\<lparr>lirs := d, non_resident_hirs := d2\<rparr> in
               if r2 = - 1 then
                 rbind (dlirs_entry_destroy m3 (Some a)) (\<lambda>m4. Inr (- 1, evicted, c1, m4))
               else
               rbind (read_removed removed2) (\<lambda>hirsEntry.
               rbind (dlirs_entry_destroy m3 hirsEntry) (\<lambda>m4.
               rbind (if in_cache e then leave_resident_hirs (c1, m4) k a else miss_nonresident_hir (c1, m4) a)
                 (\<lambda>(r3, s1).
               if r3 = - 1 then Inr (- 1, evicted, s1)
               else
               rbind (eject_lir_loop (Suc (ht_count (dq_ht (lirs (fst s1))))) s1) (\<lambda>s2.
               rbind (eject_hir_loop (Suc (ht_count (dq_ht (resident_hirs (fst s2))))) evicted s2)
                 (\<lambda>(evicted', c3, m7).
               rbind (dqht_insert m7 (lirs c3) (Some k) (Some a)) (\<lambda>(r4, d4, m8).
               if r4 \<noteq> 0 then Inl Exit1
               else Inr (if in_cache e then 0 else 1, evicted',
                         c3\<lparr>lirs := d4, lirs_count := usize (lirs_count c3 + 1)\<rparr>, m8))))))))))))))"

text \<open>\<open>(int) n\<close> for a \<open>size_t\<close>.\<close>

definition size_to_int :: "nat \<Rightarrow> int" where
  "size_to_int n = sint (of_nat n :: 32 word)"

fun limit_loop :: "nat \<Rightarrow> 'z dlirs_state \<Rightarrow> 'z dlirs_state res" where
  "limit_loop 0 s = Inr s"
| "limit_loop (Suc pruneSize) (cache, m) =
     rbind (dqht_pop_front (non_resident_hirs cache)) (\<lambda>(lru, d).
       (case lru of None \<Rightarrow> Inl Exit1
        | Some a \<Rightarrow>
            rbind (load_dentry m a) (\<lambda>e.
            let c1 = cache\<lparr>non_resident_hirs := d\<rparr>;
                c2 = (if in_cache e then c1 else c1\<lparr>non_resident := usize_dec (non_resident c1)\<rparr>)
            in
            rbind (dqht_remove m (lirs c2) (d_key e) True) (\<lambda>(r, removed, d2, m1).
            if r \<noteq> 0 then Inl Exit1
            else
              rbind (read_removed removed) (\<lambda>entry.
              rbind (dlirs_entry_destroy m1 entry) (\<lambda>m2.
              rbind (dlirs_entry_destroy m2 (Some a)) (\<lambda>m3.
                limit_loop pruneSize (c2\<lparr>lirs := d2\<rparr>, m3))))))))"

definition dlirs_limit_stack :: "'z dlirs_state \<Rightarrow> 'z dlirs_state res" where
  "dlirs_limit_stack s =
     (let cache = fst s;
          pruneSize = size_to_int (hirs_count cache) + size_to_int (lirs_count cache)
            + size_to_int (non_resident cache) - size_to_int (dl_cache_size cache) * 2
      in limit_loop (nat pruneSize) s)"

text \<open>\<open>dqht_insert\<close> into one of the tables, and the chain of three of them.\<close>

definition dlirs_hit_hir_in_resident_hirs :: "'z dlirs_state \<Rightarrow> bytes option \<Rightarrow> 'z dlirs_state res" where
  "dlirs_hit_hir_in_resident_hirs s key =
     (case s of (cache, m) \<Rightarrow>
        (case key of None \<Rightarrow> Inr s
         | Some k \<Rightarrow>
             rbind (dqht_get (resident_hirs cache) (Some k)) (\<lambda>p.
               (case p of None \<Rightarrow> Inr s
                | Some a \<Rightarrow>
                    rbind (load_dentry m a) (\<lambda>e.
                    rbind (if is_demoted e then
                             let c1 = dlirs_resize cache False in
                             rbind (modify_dentry m a (\<lambda>e. e\<lparr>is_demoted := False\<rparr>)) (\<lambda>m1.
                               Inr (c1\<lparr>demoted := usize_dec (demoted c1)\<rparr>, m1))
                           else Inr (cache, m)) (\<lambda>(c1, m1).
                    rbind (dlirs_entry_reference_copy m1 (Some a)) (\<lambda>(lirs_entry, m2).
                    rbind (dlirs_entry_reference_copy m2 (Some a)) (\<lambda>(non_resident_entry, m3).
                    rbind (dqht_insert m3 (resident_hirs c1) (Some k) (Some a)) (\<lambda>(r1, d1, m4).
                    if r1 \<noteq> 0 then Inl Exit1 else
                    rbind (dqht_insert m4 (lirs c1) (Some k) lirs_entry) (\<lambda>(r2, d2, m5).
                    if r2 \<noteq> 0 then Inl Exit1 else
                    rbind (dqht_insert m5 (non_resident_hirs c1) (Some k) non_resident_entry) (\<lambda>(r3, d3, m6).
                    if r3 \<noteq> 0 then Inl Exit1 else
                    rbind (dqht_print_table d3) (\<lambda>_.
                      dlirs_limit_stack
                        (c1\<lparr>resident_hirs := d1, lirs := d2, non_resident_hirs := d3\<rparr>, m6)))))))))))))"

definition dlirs_get ::
  "'z dlirs_state \<Rightarrow> bytes option \<Rightarrow> (addr option \<times> addr option option \<times> 'z dlirs_state) res" where
  "dlirs_get s key =
     (case s of (cache, m) \<Rightarrow>
        (case key of None \<Rightarrow> Inr (None, None, s)
         | Some k \<Rightarrow>
             rbind (dqht_get (lirs cache) (Some k)) (\<lambda>p.
               (case p of
                  Some a \<Rightarrow>
                    rbind (load_dentry m a) (\<lambda>e.
                      if is_LIR e then rbind (dlirs_hit_lir s key) (\<lambda>s'. Inr (Some a, Some None, s'))
                      else rbind (dlirs_hir_in_lirs s key None) (\<lambda>(miss, evicted, s').
                             Inr (if miss = 1 then None else Some a, Some evicted, s')))
                | None \<Rightarrow>
                    rbind (dqht_get (resident_hirs cache) (Some k)) (\<lambda>q.
                      (case q of
                         Some a \<Rightarrow> rbind (dlirs_hit_hir_in_resident_hirs s key) (\<lambda>s'.
                                     Inr (Some a, Some None, s'))
                       | None \<Rightarrow> Inr (None, Some None, s)))))))"

section \<open>Requests\<close>

text \<open>The nested loops of \<open>dlirs_request\<close>, with the bounds explained above.\<close>

fun evict_lir_loop :: "nat \<Rightarrow> 'z dlirs_state \<Rightarrow> 'z dlirs_state res" where
  "evict_lir_loop n (cache, m) =
     (if fl_less (lirs_limit cache) (of_size 24 (lirs_count cache)) then
        (case n of 0 \<Rightarrow> Inl Hang
         | Suc n' \<Rightarrow> rbind (dlirs_evict_lir (cache, m)) (evict_lir_loop n'))
      else Inr (cache, m))"

fun evict_loop :: "nat \<Rightarrow> addr option option \<Rightarrow> 'z dlirs_state \<Rightarrow> (addr option option \<times> 'z dlirs_state) res" where
  "evict_loop n evicted (cache, m) =
     (if dl_cache_size cache \<le> usize (hirs_count cache + lirs_count cache) then
        (case n of 0 \<Rightarrow> Inl Hang
         | Suc n' \<Rightarrow>
             rbind (evict_lir_loop (Suc (ht_count (dq_ht (lirs cache)))) (cache, m)) (\<lambda>s1.
             rbind (dlirs_evict_resident_hir s1) (\<lambda>(ev, s2). evict_loop n' (Some ev) s2)))
      else Inr (evicted, cache, m))"

text \<open>The second component is what was stored through \<open>evicted\<close>, \<open>None\<close> if nothing was.\<close>

definition dlirs_request ::
  "'z dlirs_state \<Rightarrow> bytes option \<Rightarrow> addr option \<Rightarrow> (int \<times> addr option option \<times> 'z dlirs_state) res" where
  "dlirs_request s key value =
     (case s of (cache, m) \<Rightarrow>
        (case key of None \<Rightarrow> Inr (- 1, None, s)
         | Some k \<Rightarrow>
             rbind (fl_to_size (lirs_limit cache)) (\<lambda>limit.
             if lirs_count cache < limit \<and> hirs_count cache = 0 then
               rbind (dlirs_entry_create m k value) (\<lambda>(p, m1).
                 (case p of None \<Rightarrow> Inr (- 1, None, cache, m1)
                  | Some a \<Rightarrow>
                      rbind (modify_dentry m1 a (\<lambda>e. e\<lparr>is_LIR := True\<rparr>)) (\<lambda>m2.
                      rbind (dqht_insert m2 (lirs cache) (Some k) (Some a)) (\<lambda>(r, d, m3).
                      if r \<noteq> 0 then Inr (- 1, None, cache\<lparr>lirs := d\<rparr>, m3)
                      else Inr (0, Some None,
                                cache\<lparr>lirs := d, lirs_count := usize (lirs_count cache + 1)\<rparr>, m3)))))
             else
               rbind (evict_loop
                   (Suc (ht_count (dq_ht (lirs cache)) + ht_count (dq_ht (resident_hirs cache)))) None s)
                 (\<lambda>(evicted, c1, m1).
               rbind (dlirs_entry_create m1 k value) (\<lambda>(p, m2).
               rbind (dlirs_entry_reference_copy m2 p) (\<lambda>(p2, m3).
               rbind (dlirs_entry_reference_copy m3 p) (\<lambda>(p3, m4).
               if p = None then Inr (- 1, evicted, c1, m4) else
               rbind (dqht_insert m4 (lirs c1) (Some k) p) (\<lambda>(r1, d1, m5).
               if r1 \<noteq> 0 then Inr (- 1, evicted, c1\<lparr>lirs := d1\<rparr>, m5) else
               rbind (dqht_insert m5 (non_resident_hirs c1) (Some k) p2) (\<lambda>(r2, d2, m6).
               if r2 \<noteq> 0 then Inr (- 1, evicted, c1\<lparr>lirs := d1, non_resident_hirs := d2\<rparr>, m6) else
               rbind (dqht_insert m6 (resident_hirs c1) (Some k) p3) (\<lambda>(r3, d3, m7).
               let c2 = c1\<lparr>lirs := d1, non_resident_hirs := d2, resident_hirs := d3\<rparr> in
               if r3 \<noteq> 0 then Inr (- 1, evicted, c2, m7) else
               rbind (dqht_print_table d2) (\<lambda>_.
               rbind (dlirs_limit_stack (c2\<lparr>hirs_count := usize (hirs_count c2 + 1)\<rparr>, m7)) (\<lambda>s'.
                 Inr (0, evicted, s')))))))))))))"

section \<open>Destruction\<close>

definition destroy_hirs :: "addr option \<Rightarrow> 'z dl_mem_scheme \<Rightarrow> 'z dl_mem_scheme res" where
  "destroy_hirs entry m =
     (case entry of None \<Rightarrow> Inr m
      | Some a \<Rightarrow> rbind (load_dentry m a) (\<lambda>e.
          if d_key e = None then Inr m else dlirs_entry_destroy m (Some a)))"

definition destroy_resident_hirs :: "addr option \<Rightarrow> 'z dl_mem_scheme \<Rightarrow> 'z dl_mem_scheme res" where
  "destroy_resident_hirs entry m =
     (case entry of None \<Rightarrow> Inr m
      | Some a \<Rightarrow> rbind (load_dentry m a) (\<lambda>e.
          if d_key e = None then Inr m else dlirs_entry_destroy m (Some a)))"

definition destroy_lirs :: "addr option \<Rightarrow> 'z dl_mem_scheme \<Rightarrow> 'z dl_mem_scheme res" where
  "destroy_lirs entry m =
     (case entry of None \<Rightarrow> Inr m
      | Some a \<Rightarrow> rbind (load_dentry m a) (\<lambda>e.
          if d_key e = None then Inr m else dlirs_entry_destroy m (Some a)))"

text \<open>The return value, always 0, and the memory.\<close>

definition dlirs_destroy :: "'z dlirs_state \<Rightarrow> (int \<times> 'z dl_mem_scheme) res" where
  "dlirs_destroy s =
     (case s of (cache, m) \<Rightarrow>
        rbind (dqht_destroy_handled m (resident_hirs cache) (Some destroy_hirs)) (\<lambda>(_, m1).
        rbind (dqht_destroy_handled m1 (non_resident_hirs cache) (Some destroy_resident_hirs)) (\<lambda>(_, m2).
        rbind (dqht_destroy_handled m2 (lirs cache) (Some destroy_lirs)) (\<lambda>(_, m3).
          Inr (0, m3)))))"

section \<open>Limits\<close>

text \<open>The limits are whole numbers, at least 1, that add up to the size of the cache.\<close>

definition dlirs_limits :: "'w DLIRS \<Rightarrow> int \<Rightarrow> int \<Rightarrow> bool" where
  "dlirs_limits c h l \<longleftrightarrow> hirs_limit c = Fin (of_int h) \<and> lirs_limit c = Fin (of_int l)
     \<and> h + l = int (dl_cache_size c) \<and> 1 \<le> h \<and> 1 \<le> l"

lemma of_size_exact: "n \<le> 2 ^ p \<Longrightarrow> 0 < p \<Longrightarrow> of_size p n = Fin (of_int (int n))"
proof -
  assume "n \<le> 2 ^ p" "0 < p"
  then have "int n \<le> int (2 ^ p)" by (simp only: of_nat_le_iff)
  then have "\<bar>int n\<bar> \<le> 2 ^ p" by simp
  then have "round_bits p (of_int (int n)) = of_int (int n)" using \<open>0 < p\<close> by (rule round_bits_int)
  then show ?thesis by (simp add: of_size_def to_bits_def)
qed

lemma fl_sub_exact: "\<bar>a - b\<bar> \<le> 2 ^ p \<Longrightarrow> 0 < p \<Longrightarrow> fl_sub p (Fin (of_int a)) (Fin (of_int b)) = Fin (of_int (a - b))"
  using round_bits_int [of "a - b" p] by (simp add: fl_sub_def)

lemma to_bits_exact: "\<bar>a\<bar> \<le> 2 ^ p \<Longrightarrow> 0 < p \<Longrightarrow> to_bits p (Fin (of_int a)) = Fin (of_int a)"
  by (simp add: to_bits_def round_bits_int)

lemma fmax_one_rint:
  "fmax (Fin 1) (fl_rint x) = PInf \<or> (\<exists>k. 1 \<le> k \<and> fmax (Fin 1) (fl_rint x) = Fin (of_int k))"
proof (cases x)
  case (Fin y)
  let ?k = "round_even y"
  show ?thesis
  proof (cases "?k \<le> 1")
    case True
    then have "(of_int ?k :: rat) \<le> 1" by simp
    then have "fmax (Fin 1) (fl_rint x) = Fin (of_int 1)" using Fin by (simp add: fmax_def fl_rint_def)
    then show ?thesis by (metis order_refl)
  next
    case False
    then have "\<not> (of_int ?k :: rat) \<le> 1" by simp
    then have "fmax (Fin 1) (fl_rint x) = Fin (of_int ?k)" using Fin by (simp add: fmax_def fl_rint_def)
    then show ?thesis using False by (intro disjI2 exI [of _ ?k]) simp
  qed
next
  case NInf
  then have "fmax (Fin 1) (fl_rint x) = Fin (of_int 1)" by (simp add: fmax_def fl_rint_def)
  then show ?thesis by (metis order_refl)
next
  case NaN
  then have "fmax (Fin 1) (fl_rint x) = Fin (of_int 1)" by (simp add: fmax_def fl_rint_def)
  then show ?thesis by (metis order_refl)
qed (simp add: fmax_def fl_rint_def)

lemma limit_step_pos: "limit_step a b = PInf \<or> (\<exists>k. 1 \<le> k \<and> limit_step a b = Fin (of_int k))"
  unfolding limit_step_def by (rule fmax_one_rint)

text \<open>Moving a limit up by at least one, capped below the size of the cache.\<close>

lemma move_limit:
  assumes cs: "1 \<le> cs" "cs \<le> 2 ^ 24" and a: "1 \<le> a" "a \<le> int cs - 1"
    and step: "st = PInf \<or> (\<exists>k. 1 \<le> k \<and> st = Fin (of_int k))"
  shows "\<exists>a'. to_float (fmin (fl_sub 53 (of_size 53 cs) (Fin 1)) (fl_add 53 (Fin (of_int a)) st)) = Fin (of_int a')
    \<and> 1 \<le> a' \<and> a' \<le> int cs - 1 \<and> (a < a' \<or> a' = int cs - 1)"
proof -
  have "of_size 53 cs = Fin (of_int (int cs))" using cs(2) by (intro of_size_exact) auto
  moreover have "fl_sub 53 (Fin (of_int (int cs))) (Fin (of_int 1)) = Fin (of_int (int cs - 1))"
    using cs by (intro fl_sub_exact) auto
  ultimately have top: "fl_sub 53 (of_size 53 cs) (Fin 1) = Fin (of_int (int cs - 1))" by simp
  have fl: "to_float (Fin (of_int b)) = Fin (of_int b)" if "1 \<le> b" "b \<le> int cs - 1" for b
    using that cs by (intro to_bits_exact) auto
  show ?thesis
  proof (cases "st = PInf")
    case True
    then have "fmin (Fin (of_int (int cs - 1))) (fl_add 53 (Fin (of_int a)) st) = Fin (of_int (int cs - 1))"
      by (simp add: fmin_def)
    then show ?thesis unfolding top using fl [of "int cs - 1"] a by (intro exI [of _ "int cs - 1"]) simp
  next
    case False
    then obtain k where k: "1 \<le> k" "st = Fin (of_int k)" using step by blast
    let ?r = "round_bits 53 (of_int (a + k))"
    have add: "fl_add 53 (Fin (of_int a)) st = Fin ?r" using k(2) by simp
    show ?thesis
    proof (cases "a + k \<le> 2 ^ 53 \<and> a + k < int cs - 1")
      case True
      then have r: "?r = of_int (a + k)" using a(1) k(1) by (intro round_bits_int) auto
      have "\<not> (of_int (int cs - 1) :: rat) \<le> of_int (a + k)" using True unfolding of_int_le_iff by linarith
      then have "fmin (Fin (of_int (int cs - 1))) (Fin ?r) = Fin (of_int (a + k))"
        unfolding r by (simp add: fmin_def del: of_int_add of_int_diff)
      then show ?thesis unfolding top add using fl [of "a + k"] a k True by (intro exI [of _ "a + k"]) simp
    next
      case False
      have "(of_int (int cs - 1) :: rat) \<le> ?r"
      proof (cases "a + k \<le> 2 ^ 53")
        case True
        then have "?r = of_int (a + k)" using a(1) k(1) by (intro round_bits_int) auto
        moreover have "int cs - 1 \<le> a + k" using False True by simp
        ultimately show ?thesis by (simp only: of_int_le_iff)
      next
        case big: False
        then have "2 ^ 53 \<le> ?r" by (intro round_bits_ge) auto
        moreover have "(of_int (int cs - 1) :: rat) \<le> of_int (2 ^ 53)" using cs(2) by (simp only: of_int_le_iff) simp
        ultimately show ?thesis by simp
      qed
      then have "fmin (Fin (of_int (int cs - 1))) (Fin ?r) = Fin (of_int (int cs - 1))"
        by (simp add: fmin_def)
      then show ?thesis unfolding top add using fl [of "int cs - 1"] a by (intro exI [of _ "int cs - 1"]) simp
    qed
  qed
qed

end
