(* ===== verification/DLIRS_Phases.thy ===== *)
theory DLIRS_Phases
  imports DLIRS
begin

text \<open>
  What a DLIRS cache does as it fills: while the stack has room it is a recency list, when
  the stack is full requests become resident entries shared by the three tables, and a cache
  of one entry, which has no stack, does not survive its first hit.
\<close>

section \<open>Filling the stack\<close>

text \<open>
  Until the stack holds \<open>lirs_limit\<close> entries every new key becomes a LIR entry.  The
  invariant of that phase: the two queues are empty, every entry of the stack is a live LIR
  entry with its own key and one reference.
\<close>

definition lir_entry :: "'z dl_mem_scheme \<Rightarrow> bytes \<Rightarrow> addr \<Rightarrow> bool" where
  "lir_entry m k a \<longleftrightarrow> (\<exists>e. dentry_at m a = Some e \<and> d_key e = Some k \<and> is_LIR e \<and> in_cache e
     \<and> reference_counter e = 1)"

definition fill_inv :: "nat \<Rightarrow> 'z dlirs_state \<Rightarrow> bool" where
  "fill_inv l s \<longleftrightarrow> (case s of (c, m) \<Rightarrow>
     dq_inv (lirs c, m) \<and> dq_inv (non_resident_hirs c, m) \<and> dq_inv (resident_hirs c, m)
     \<and> dq_entries (non_resident_hirs c) = [] \<and> dq_entries (resident_hirs c) = []
     \<and> hirs_count c = 0 \<and> lirs_count c = length (dq_entries (lirs c))
     \<and> lirs_count c \<le> l \<and> lirs_limit c = Fin (of_int (int l)) \<and> l \<le> 2 ^ 24
     \<and> (\<forall>x \<in> set (dq_entries (lirs c)). lir_entry m (fst x) (snd x))
     \<and> (\<forall>a \<ge> allocs m. dentry_at m a = None))"

text \<open>The keys on the stack with the values of their entries, oldest first.\<close>

definition dlirs_values :: "'z dlirs_state \<Rightarrow> (bytes \<times> addr option) list" where
  "dlirs_values s = map (\<lambda>x. (fst x, Option.bind (dentry_at (snd s) (snd x)) d_value)) (dq_entries (lirs (fst s)))"

lemma fill_invD:
  assumes "fill_inv l (c, m)"
  shows "dq_inv (lirs c, m)" "dq_inv (non_resident_hirs c, m)" "dq_inv (resident_hirs c, m)"
    "dq_entries (non_resident_hirs c) = []" "dq_entries (resident_hirs c) = []" "hirs_count c = 0"
    "lirs_count c = length (dq_entries (lirs c))" "lirs_limit c = Fin (of_int (int l))" "l \<le> 2 ^ 24"
    "x \<in> set (dq_entries (lirs c)) \<Longrightarrow> lir_entry m (fst x) (snd x)"
    "allocs m \<le> a \<Longrightarrow> dentry_at m a = None" "dq_wf (lirs c)" "dq_wf (resident_hirs c)"
    "ht_size (dq_ht (lirs c)) < 2 ^ 64" "lirs_count c \<le> l"
  using assms by (auto simp: fill_inv_def dq_inv_def)

lemma dq_inv_dentry: "dq_inv (d, m) \<Longrightarrow> dq_inv (d, m\<lparr>dentry_at := f\<rparr>)"
  by (simp add: dq_inv_def ht_owned_def never_fails_def)

lemma fl_to_size_nat: "n < 2 ^ 64 \<Longrightarrow> fl_to_size (Fin (of_int (int n))) = Inr n"
proof -
  assume "n < 2 ^ 64"
  then have "(of_nat n :: rat) < of_nat (2 ^ 64)" by (simp only: of_nat_less_iff)
  moreover have "(0 :: rat) \<le> of_nat n" by simp
  ultimately have "- 1 < (of_nat n :: rat)" "(of_nat n :: rat) < 2 ^ 64" by (linarith, simp)
  then show ?thesis by (simp add: fl_to_size_def)
qed

lemma fill_get_miss:
  assumes "fill_inv l (c, m)" and "wf_key k" and "map_of (dq_entries (lirs c)) k = None"
  shows "dlirs_get (c, m) (Some k) = Inr (None, Some None, c, m)"
proof -
  note i = fill_invD [OF assms(1)]
  have "dqht_get (lirs c) (Some k) = Inr None" using dqht_get_ok [OF i(12) assms(2)] assms(3) by simp
  moreover have "dqht_get (resident_hirs c) (Some k) = Inr None"
    using dqht_get_ok [OF i(13) assms(2)] i(5) by simp
  ultimately show ?thesis by (simp add: dlirs_get_def)
qed

text \<open>With a LIR entry at the front there is nothing to prune.\<close>

lemma prune_lir_front:
  assumes "dq_wf (lirs c)" and "dq_entries (lirs c) = x # xs" and "lir_entry m (fst x) (snd x)"
  shows "dlirs_prune (c, m) = Inr (c, m)"
proof -
  have "0 < ht_count (dq_ht (lirs c))" using dq_entries_length [OF assms(1)] assms(2) by simp
  then obtain n where n: "ht_count (dq_ht (lirs c)) = Suc n" by (cases "ht_count (dq_ht (lirs c))") auto
  have "dqht_get_front (lirs c) = Inr (Some (snd x))"
    using dqht_get_front_cons [OF assms(1), of "fst x" "snd x" xs] assms(2) by simp
  moreover obtain e where "dentry_at m (snd x) = Some e" "is_LIR e" using assms(3) by (auto simp: lir_entry_def)
  ultimately show ?thesis using n dq_wf_print [OF assms(1)]
    by (simp add: dlirs_prune_def load_dentry_def)
qed

lemma fill_get_hit:
  assumes i0: "fill_inv l (c, m)" and k: "wf_key k" "map_of (dq_entries (lirs c)) k = Some a"
  shows "\<exists>c' m'. dlirs_get (c, m) (Some k) = Inr (Some a, Some None, c', m') \<and> fill_inv l (c', m')
    \<and> dq_entries (lirs c') = del_key k (dq_entries (lirs c)) @ [(k, a)] \<and> dentry_at m' = dentry_at m
    \<and> dl_cache_size c' = dl_cache_size c"
proof -
  note i = fill_invD [OF i0]
  let ?d = "lirs c" and ?xs = "dq_entries (lirs c)"
  have mem: "(k, a) \<in> set ?xs" using k(2) by (rule map_of_SomeD)
  then have "lir_entry m k a" using i(10) by force
  then obtain e where e: "dentry_at m a = Some e" "d_key e = Some k" "is_LIR e" by (auto simp: lir_entry_def)
  obtain x ys where x: "?xs = x # ys" using mem by (cases ?xs) auto
  then have front: "dqht_get_front ?d = Inr (Some (snd x))"
    using dqht_get_front_cons [OF i(12), of "fst x" "snd x" ys] by simp
  have "lir_entry m (fst x) (snd x)" using i(10) x by simp
  then obtain e2 where e2: "dentry_at m (snd x) = Some e2" "d_key e2 = Some (fst x)" by (auto simp: lir_entry_def)
  have wfx: "wf_key (fst x)" using dq_entries_wf_key [OF i(12)] x by simp
  obtain d1 where r: "dqht_remove m ?d (Some k) True = Inr (0, Some (Some a), d1, m)" "dq_wf d1"
    "dq_entries d1 = del_key k ?xs" "ht_size (dq_ht d1) = ht_size (dq_ht ?d)"
    "Suc (ht_count (dq_ht d1)) = ht_count (dq_ht ?d)" "dom (dq_store d1) \<subseteq> dom (dq_store ?d)"
    using dqht_remove_present [OF i(12,14) k(2), of m] by blast
  have i1: "dq_inv (d1, m)" by (rule dq_inv_shrink [OF i(1) r(2,4,6)])
  have "k \<notin> dq_keys d1" by (auto simp: r(3) del_key_def)
  then obtain d2 n where p: "dqht_insert m d1 (Some k) (Some a) = Inr (0, d2, m\<lparr>allocs := n\<rparr>)" "dq_wf d2"
    "never_fails (m\<lparr>allocs := n\<rparr>)" "ht_owned (m\<lparr>allocs := n\<rparr>) (dq_ht d2)"
    "ht_size (dq_ht d2) \<le> max (ht_size (dq_ht d1)) (4 * ht_count (dq_ht d1) + 2)"
    "dq_entries d2 = dq_entries d1 @ [(k, a)]" "ht_count (dq_ht d2) = Suc (ht_count (dq_ht d1))" "allocs m \<le> n"
    using dqht_insert_new [OF i1 k(1), of a] by blast
  let ?m = "m\<lparr>allocs := n\<rparr>" and ?c = "c\<lparr>lirs := d2\<rparr>"
  have ents: "dq_entries d2 = del_key k ?xs @ [(k, a)]" using p(6) r(3) by simp
  have lir: "lir_entry ?m (fst y) (snd y)" if "y \<in> set (dq_entries d2)" for y
    using that i(10) mem unfolding ents by (auto simp: del_key_def lir_entry_def)
  have "dlirs_prune (?c, ?m) = Inr (?c, ?m)"
  proof (cases "dq_entries d2")
    case (Cons y zs)
    then show ?thesis using prune_lir_front [of ?c y zs ?m] p(2) lir by simp
  qed (use ents in simp)
  then have "dlirs_hit_lir (c, m) (Some k) = Inr (?c, ?m)"
    using front r(1) p(1) e e2 key_cmp_wf [OF wfx k(1)]
    by (simp add: dlirs_hit_lir_def read_removed_def removed_or_null_def load_dentry_def Let_def)
  then have run: "dlirs_get (c, m) (Some k) = Inr (Some a, Some None, ?c, ?m)"
    using dqht_get_ok [OF i(12) k(1)] k(2) e by (simp add: dlirs_get_def load_dentry_def)
  have len: "length (dq_entries d2) = length ?xs"
    using dq_entries_length [OF p(2)] dq_entries_length [OF i(12)] p(7) r(5) by simp
  have "length (dq_entries d1) < 2 ^ 56"
    using dq_entries_length [OF r(2)] dq_entries_length [OF i(12)] r(5) i(7,9,15) by simp
  then have "dq_inv (d2, ?m)" by (rule dq_inv_grow [OF i1 _ p(2-5)])
  then have "fill_inv l (?c, ?m)"
    using i dq_inv_allocs [OF i(2) p(8)] dq_inv_allocs [OF i(3) p(8)] lir len p(8) by (simp add: fill_inv_def)
  with run ents show ?thesis by (intro exI [of _ ?c] exI [of _ ?m]) simp
qed

lemma fill_request:
  assumes i0: "fill_inv l (c, m)" and room: "lirs_count c < l"
    and k: "wf_key k" "map_of (dq_entries (lirs c)) k = None"
  shows "\<exists>c' m' a. dlirs_request (c, m) (Some k) v = Inr (0, Some None, c', m') \<and> fill_inv l (c', m')
    \<and> dq_entries (lirs c') = dq_entries (lirs c) @ [(k, a)] \<and> lirs_count c' = Suc (lirs_count c)
    \<and> dl_cache_size c' = dl_cache_size c
    \<and> dentry_at m a = None
    \<and> (\<exists>e. dentry_at m' = (dentry_at m)(a \<mapsto> e) \<and> d_value e = v \<and> d_key e = Some k)"
proof -
  note i = fill_invD [OF i0]
  let ?d = "lirs c" and ?xs = "dq_entries (lirs c)" and ?a = "allocs m"
  let ?e = "\<lparr>is_LIR = True, is_demoted = False, in_cache = True, d_length = of_nat (length k),
    reference_counter = 1, d_key = Some k, d_value = v\<rparr>"
  let ?m1 = "m\<lparr>allocs := ?a + 2, dentry_at := (dentry_at m)(?a \<mapsto> ?e)\<rparr>"
  have nf: "never_fails m" using i(1) by (simp add: dq_inv_def)
  have create: "dlirs_entry_create m k v = Inr (Some ?a, m\<lparr>allocs := ?a + 2,
      dentry_at := (dentry_at m)(?a \<mapsto> ?e\<lparr>is_LIR := False\<rparr>)\<rparr>)"
    using nf k(1) by (simp add: dlirs_entry_create_def dlirs_entry_create_full_def am_malloc_ok wf_key_size key_clone_wf)
  have dq1: "dq_inv (d, ?m1)" if "dq_inv (d, m)" for d
    using dq_inv_dentry [OF dq_inv_allocs [OF that, of "?a + 2"]] by simp
  have "k \<notin> dq_keys ?d" using k(2) by (simp add: map_of_eq_None_iff)
  then obtain d2 n where p: "dqht_insert ?m1 ?d (Some k) (Some ?a) = Inr (0, d2, ?m1\<lparr>allocs := n\<rparr>)" "dq_wf d2"
    "never_fails (?m1\<lparr>allocs := n\<rparr>)" "ht_owned (?m1\<lparr>allocs := n\<rparr>) (dq_ht d2)"
    "ht_size (dq_ht d2) \<le> max (ht_size (dq_ht ?d)) (4 * ht_count (dq_ht ?d) + 2)"
    "dq_entries d2 = ?xs @ [(k, ?a)]" "allocs ?m1 \<le> n"
    using dqht_insert_new [OF dq1 [OF i(1)] k(1), of ?a] by blast
  let ?m = "?m1\<lparr>allocs := n\<rparr>" and ?c = "c\<lparr>lirs := d2, lirs_count := Suc (lirs_count c)\<rparr>"
  have len: "length ?xs < 2 ^ 56" "lirs_count c < 2 ^ 64 - 1" using room i(7,9) by simp_all
  have "fl_to_size (lirs_limit c) = Inr l" unfolding i(8) using i(9) by (intro fl_to_size_nat) simp
  then have run: "dlirs_request (c, m) (Some k) v = Inr (0, Some None, ?c, ?m)"
    using create p(1) room i(6) len(2)
    by (simp add: dlirs_request_def modify_dentry_def load_dentry_def)
  have tabs: "dq_inv (d2, ?m)" "dq_inv (non_resident_hirs c, ?m)" "dq_inv (resident_hirs c, ?m)"
    using dq_inv_grow [OF dq1 [OF i(1)] len(1) p(2-5)] dq_inv_allocs [OF dq1 [OF i(2)] p(7)]
      dq_inv_allocs [OF dq1 [OF i(3)] p(7)] by blast+
  have old: "lir_entry ?m (fst x) (snd x)" if x: "x \<in> set ?xs" for x
  proof -
    obtain e where e: "dentry_at m (snd x) = Some e" "d_key e = Some (fst x)" "is_LIR e" "in_cache e"
      "reference_counter e = 1" using i(10) [OF x] by (auto simp: lir_entry_def)
    have "dentry_at m ?a = None" using i(11) by simp
    then have "snd x \<noteq> ?a" using e(1) by auto
    with e show ?thesis by (simp add: lir_entry_def)
  qed
  have "lir_entry ?m k ?a" by (simp add: lir_entry_def)
  then have all: "\<forall>x \<in> set (dq_entries d2). lir_entry ?m (fst x) (snd x)" unfolding p(6) using old by simp
  have fresh: "\<forall>a \<ge> allocs ?m. dentry_at ?m a = None" using i(11) p(7) by simp
  have "fill_inv l (?c, ?m)"
    unfolding fill_inv_def prod.case using tabs all fresh i(4-9) p(6) room by simp
  moreover have "\<exists>e. dentry_at ?m = (dentry_at m)(?a \<mapsto> e) \<and> d_value e = v \<and> d_key e = Some k"
    by (intro exI [of _ ?e]) simp
  ultimately show ?thesis using run p(6) i(11) by (intro exI [of _ ?c] exI [of _ ?m] exI [of _ ?a]) simp
qed

text \<open>The client's step, and what it does to the list of keys and values in this phase.\<close>

definition dlirs_query :: "bytes \<times> addr \<Rightarrow> 'z dlirs_state \<Rightarrow> 'z dlirs_state res" where
  "dlirs_query kv s =
     rbind (dlirs_get s (Some (fst kv))) (\<lambda>(r, _, s1).
       if r \<noteq> None then Inr s1
       else rbind (dlirs_request s1 (Some (fst kv)) (Some (snd kv))) (\<lambda>(code, _, s2).
              if code = - 1 then Inl Exit1 else Inr s2))"

primrec dlirs_queries :: "(bytes \<times> addr) list \<Rightarrow> 'z dlirs_state \<Rightarrow> 'z dlirs_state res" where
  "dlirs_queries [] s = Inr s"
| "dlirs_queries (q # qs) s = rbind (dlirs_query q s) (dlirs_queries qs)"

definition fill_access ::
  "bytes \<times> addr \<Rightarrow> (bytes \<times> addr option) list \<Rightarrow> (bytes \<times> addr option) list" where
  "fill_access q xs =
     (case map_of xs (fst q) of
        Some w \<Rightarrow> del_key (fst q) xs @ [(fst q, w)]
      | None \<Rightarrow> xs @ [(fst q, Some (snd q))])"

lemma map_of_map_snd: "map_of (map (\<lambda>x. (fst x, f (snd x))) xs) k = map_option f (map_of xs k)"
  by (induction xs) auto

lemma map_del_key: "map (\<lambda>x. (fst x, f (snd x))) (del_key k xs) = del_key k (map (\<lambda>x. (fst x, f (snd x))) xs)"
  by (induction xs) (auto simp: del_key_def)

lemma dlirs_query_fill:
  assumes i: "fill_inv l s" and k: "wf_key (fst q)"
    and room: "card (insert (fst q) (fst ` set (dlirs_values s))) \<le> l"
  shows "\<exists>s'. dlirs_query q s = Inr s' \<and> fill_inv l s' \<and> dlirs_values s' = fill_access q (dlirs_values s)
    \<and> fst ` set (dlirs_values s') = insert (fst q) (fst ` set (dlirs_values s))"
proof -
  obtain c m where s: "s = (c, m)" by fastforce
  have i0: "fill_inv l (c, m)" using i s by simp
  let ?xs = "dq_entries (lirs c)"
  have keys: "fst ` set (dlirs_values s) = fst ` set ?xs" by (auto simp: dlirs_values_def s image_image)
  have mo: "map_of (dlirs_values s) (fst q)
      = map_option (\<lambda>a. Option.bind (dentry_at m a) d_value) (map_of ?xs (fst q))"
    using map_of_map_snd [of "\<lambda>a. Option.bind (dentry_at m a) d_value" ?xs "fst q"]
    by (simp add: dlirs_values_def s)
  show ?thesis
  proof (cases "map_of ?xs (fst q)")
    case (Some a)
    obtain c' m' where r: "dlirs_get (c, m) (Some (fst q)) = Inr (Some a, Some None, c', m')" "fill_inv l (c', m')"
      "dq_entries (lirs c') = del_key (fst q) ?xs @ [(fst q, a)]" "dentry_at m' = dentry_at m"
      using fill_get_hit [OF i0 k Some] by blast
    have "dlirs_values (c', m') = fill_access q (dlirs_values s)"
      using r(3,4) mo Some map_del_key [of "\<lambda>a. Option.bind (dentry_at m a) d_value" "fst q" ?xs]
      by (simp add: dlirs_values_def fill_access_def s)
    moreover have "fst q \<in> fst ` set ?xs" using Some by (metis map_of_eq_None_iff option.distinct(1))
    then have "fst ` set (dlirs_values (c', m')) = insert (fst q) (fst ` set ?xs)"
      using r(3) by (force simp: dlirs_values_def del_key_def image_image)
    ultimately show ?thesis using r(1,2) keys by (intro exI [of _ "(c', m')"]) (simp add: dlirs_query_def s)
  next
    case None
    have new: "fst q \<notin> fst ` set ?xs" using None by (simp add: map_of_eq_None_iff)
    have "length ?xs = card (fst ` set ?xs)"
      using dq_entries_distinct [OF fill_invD(12) [OF i0]] by (metis distinct_card length_map list.set_map)
    then have "lirs_count c < l" using room new fill_invD(7) [OF i0] unfolding keys by simp
    then obtain c' m' a e where r: "dlirs_request (c, m) (Some (fst q)) (Some (snd q)) = Inr (0, Some None, c', m')"
      "fill_inv l (c', m')" "dq_entries (lirs c') = ?xs @ [(fst q, a)]" "dentry_at m a = None"
      "dentry_at m' = (dentry_at m)(a \<mapsto> e)" "d_value e = Some (snd q)"
      using fill_request [OF i0 _ k None, of "Some (snd q)"] by blast
    have "snd x \<noteq> a" if "x \<in> set ?xs" for x
      using fill_invD(10) [OF i0 that] r(4) by (auto simp: lir_entry_def)
    then have "dlirs_values (c', m') = dlirs_values s @ [(fst q, Some (snd q))]"
      using r(3,5,6) by (simp add: dlirs_values_def s)
    moreover from this have "dlirs_values (c', m') = fill_access q (dlirs_values s)"
      using mo None by (simp add: fill_access_def)
    ultimately show ?thesis using r(1,2) fill_get_miss [OF i0 k None]
      by (intro exI [of _ "(c', m')"]) (simp add: dlirs_query_def s)
  qed
qed

lemma dlirs_queries_fill:
  assumes "fill_inv l s" and "\<forall>q \<in> set qs. wf_key (fst q)"
    and "card (fst ` set (dlirs_values s) \<union> fst ` set qs) \<le> l"
  shows "\<exists>s'. dlirs_queries qs s = Inr s' \<and> fill_inv l s' \<and> dlirs_values s' = fold fill_access qs (dlirs_values s)"
  using assms
proof (induction qs arbitrary: s)
  case (Cons q qs)
  let ?K = "fst ` set (dlirs_values s)"
  have "card (insert (fst q) ?K) \<le> card (?K \<union> fst ` set (q # qs))" by (intro card_mono) auto
  then obtain s1 where s1: "dlirs_query q s = Inr s1" "fill_inv l s1"
    "dlirs_values s1 = fill_access q (dlirs_values s)" "fst ` set (dlirs_values s1) = insert (fst q) ?K"
    using dlirs_query_fill [OF Cons.prems(1), of q] Cons.prems(2,3) by auto
  have "fst ` set (dlirs_values s1) \<union> fst ` set qs = ?K \<union> fst ` set (q # qs)" using s1(4) by auto
  then show ?case using Cons.IH [OF s1(2)] Cons.prems(2,3) s1(1,3) by auto
qed simp

lemma dlirs_create_fill:
  assumes "never_fails m" and "0 < n" and "n < 2 ^ 59" and "opt_comparator opts = None \<or> cmp_ok (opt_comparator opts)"
    and "initial_hirs_limit cs (opt_hirs_ratio opts) = Fin (of_int h)" and "1 \<le> h" and "h \<le> int cs" and "cs \<le> 2 ^ 24"
    and "\<forall>a. dentry_at m a = None"
  shows "\<exists>c m'. dlirs_create m n cs (Some opts) = Inr (Some c, m') \<and> fill_inv (nat (int cs - h)) (c, m')
    \<and> dl_cache_size c = cs \<and> hirs_limit c = Fin (of_int h) \<and> non_resident c = 0 \<and> demoted c = 0
    \<and> dlirs_values (c, m') = []"
proof -
  let ?m = "m\<lparr>allocs := Suc (allocs m)\<rparr>" and ?h = "Some entry_destroy_handler"
  let ?o = "opt_comparator opts"
  have nf: "never_fails ?m" using assms(1) by simp
  obtain d1 j1 where d1: "dqht_create ?m n ?o ?h = Inr (Some d1, ?m\<lparr>allocs := j1\<rparr>)"
    "dq_inv (d1, ?m\<lparr>allocs := j1\<rparr>)" "dq_entries d1 = []"
    using dqht_create_ok [OF nf assms(2-4), of ?h] by blast
  obtain d2 j2 where d2: "dqht_create (?m\<lparr>allocs := j1\<rparr>) n ?o ?h = Inr (Some d2, ?m\<lparr>allocs := j2\<rparr>)"
    "dq_inv (d2, ?m\<lparr>allocs := j2\<rparr>)" "dq_entries d2 = []" "j1 \<le> j2"
    using dqht_create_ok [OF _ assms(2-4), of "?m\<lparr>allocs := j1\<rparr>" ?h] nf by auto
  obtain d3 j3 where d3: "dqht_create (?m\<lparr>allocs := j2\<rparr>) n ?o ?h = Inr (Some d3, ?m\<lparr>allocs := j3\<rparr>)"
    "dq_inv (d3, ?m\<lparr>allocs := j3\<rparr>)" "dq_entries d3 = []" "j2 \<le> j3"
    using dqht_create_ok [OF _ assms(2-4), of "?m\<lparr>allocs := j2\<rparr>" ?h] nf by auto
  have "of_size 24 cs = Fin (of_int (int cs))" using assms(8) by (intro of_size_exact) auto
  then have lim: "fl_sub 24 (of_size 24 cs) (Fin (of_int h)) = Fin (of_int (int (nat (int cs - h))))"
    using fl_sub_exact [of "int cs" h 24] assms(6-8) by simp
  have "dq_inv (d1, ?m\<lparr>allocs := j3\<rparr>)" "dq_inv (d2, ?m\<lparr>allocs := j3\<rparr>)"
    using dq_inv_allocs [OF d1(2), of j3] dq_inv_allocs [OF d2(2), of j3] d2(4) d3(4) by simp_all
  then show ?thesis
    using d1 d2 d3 lim assms
    by (simp add: dlirs_create_def am_malloc_ok Let_def fill_inv_def dlirs_values_def del: of_nat_nat int_nat_eq)
qed

lemma fill_access_some: "\<forall>x \<in> set xs. snd x \<noteq> None \<Longrightarrow> \<forall>x \<in> set (fill_access q xs). snd x \<noteq> None"
  by (fastforce simp: fill_access_def del_key_def split: option.splits dest: map_of_SomeD)

lemma fold_fill_access_some:
  "\<forall>x \<in> set xs. snd x \<noteq> None \<Longrightarrow> \<forall>x \<in> set (fold fill_access qs xs). snd x \<noteq> None"
proof (induction qs arbitrary: xs)
  case (Cons q qs)
  show ?case unfolding fold_simps by (rule Cons.IH [OF fill_access_some [OF Cons.prems]])
qed simp

lemma fst_fill_access: "fst ` set (fill_access q xs) = insert (fst q) (fst ` set xs)"
proof (cases "map_of xs (fst q)")
  case (Some w)
  then have "fst q \<in> fst ` set xs" by (metis map_of_eq_None_iff option.distinct(1))
  with Some show ?thesis by (force simp: fill_access_def del_key_def)
qed (simp add: fill_access_def)

lemma fst_fold_fill_access: "fst ` set (fold fill_access qs xs) = fst ` set xs \<union> fst ` set qs"
  by (induction qs arbitrary: xs) (auto simp: fst_fill_access)

lemma fill_contains:
  assumes "fill_inv l (c, m)" and "wf_key k" and "\<forall>x \<in> set (dlirs_values (c, m)). snd x \<noteq> None"
  shows "dlirs_contains m c (Some k) = Inr (k \<in> fst ` set (dlirs_values (c, m)))"
proof -
  note i = fill_invD [OF assms(1)]
  have keys: "fst ` set (dlirs_values (c, m)) = fst ` set (dq_entries (lirs c))"
    by (simp add: dlirs_values_def image_image)
  have none: "dqht_get (resident_hirs c) (Some k) = Inr None" using dqht_get_ok [OF i(13) assms(2)] i(5) by simp
  show ?thesis
  proof (cases "map_of (dq_entries (lirs c)) k")
    case None
    then show ?thesis using dqht_get_ok [OF i(12) assms(2)] none
      unfolding keys by (simp add: dlirs_contains_def map_of_eq_None_iff [symmetric])
  next
    case (Some a)
    then have mem: "(k, a) \<in> set (dq_entries (lirs c))" by (rule map_of_SomeD)
    then obtain e where e: "dentry_at m a = Some e" "in_cache e" using i(10) by (force simp: lir_entry_def)
    have "(k, Option.bind (dentry_at m a) d_value) \<in> set (dlirs_values (c, m))"
      using mem by (force simp: dlirs_values_def)
    then have "d_value e \<noteq> None" using assms(3) e(1) by fastforce
    moreover have "k \<in> fst ` set (dq_entries (lirs c))" using mem by force
    ultimately show ?thesis using dqht_get_ok [OF i(12) assms(2)] Some e
      unfolding keys by (simp add: dlirs_contains_def load_dentry_def)
  qed
qed


definition dl_mem0 :: dl_mem where
  "dl_mem0 = \<lparr>allocs = 0, alloc_fails = (\<lambda>_. False), result_at = Map.empty, posts_at = Map.empty,
     order_at = Map.empty, dentry_at = Map.empty\<rparr>"

definition dl_opts :: DLIRSOptions where
  "dl_opts = \<lparr>opt_comparator = None, opt_hirs_ratio = Fin (10737418 / 2 ^ 30)\<rparr>"

text \<open>\<open>0.01f\<close> is \<open>10737418 / 2 ^ 30\<close>; the limit it gives a small cache is 1.\<close>

lemma dl_ratio_limit: "n < 8 \<Longrightarrow> initial_hirs_limit n (opt_hirs_ratio dl_opts) = Fin (of_int 1)"
proof -
  assume n: "n < 8"
  let ?x = "int n * 10737418"
  have cs: "of_size 53 n = Fin (of_nat n)" using of_size_exact [of n 53] n by simp
  have mul: "round_bits 53 (of_nat n * (10737418 / 2 ^ 30)) = of_int ?x / 2 ^ 30"
    using round_bits_dyadic [of ?x 53 30] n by (simp add: mult.commute)
  have add: "round_bits 53 (of_int ?x / 2 ^ 30 + 1 / 2) = of_int (?x + 2 ^ 29) / 2 ^ 30"
    using round_bits_dyadic [of "?x + 2 ^ 29" 53 30] n by (simp add: add_divide_distrib)
  have "\<lfloor>(of_int (?x + 2 ^ 29) / 2 ^ 30 :: rat)\<rfloor> = 0"
    using n by (simp add: floor_eq_iff)
  then have "round_even (of_int (?x + 2 ^ 29) / 2 ^ 30) \<in> {0, 1}" by (simp add: round_even_def Let_def)
  then have "fmax (Fin 1) (Fin (of_int (round_even (of_int (?x + 2 ^ 29) / 2 ^ 30)))) = Fin 1"
    by (auto simp: fmax_def)
  moreover have "round_bits 24 1 = 1" using round_bits_int [of 1 24] by simp
  ultimately show ?thesis
    by (simp only: initial_hirs_limit_def dl_opts_def DLIRSOptions.simps cs fl_mul.simps fl_add.simps
        mul add fl_rint_def to_bits_def flt.case of_int_1)
qed


section \<open>A full stack\<close>

lemma dl_mem_comm: "m\<lparr>allocs := n, dentry_at := f\<rparr> = m\<lparr>dentry_at := f, allocs := n\<rparr>"
  by simp

lemma table_push:
  assumes i: "dq_inv (d, m)" and k: "wf_key k" "map_of (dq_entries d) k = None" and len: "length (dq_entries d) < 2 ^ 56"
  shows "\<exists>d' n. dqht_insert m d (Some k) (Some v) = Inr (0, d', m\<lparr>allocs := n\<rparr>) \<and> allocs m \<le> n
    \<and> dq_inv (d', m\<lparr>allocs := n\<rparr>) \<and> dq_entries d' = dq_entries d @ [(k, v)]"
proof -
  have "k \<notin> dq_keys d" using k(2) by (simp add: map_of_eq_None_iff)
  then obtain d' n where p: "dqht_insert m d (Some k) (Some v) = Inr (0, d', m\<lparr>allocs := n\<rparr>)" "dq_wf d'"
    "never_fails (m\<lparr>allocs := n\<rparr>)" "ht_owned (m\<lparr>allocs := n\<rparr>) (dq_ht d')"
    "ht_size (dq_ht d') \<le> max (ht_size (dq_ht d)) (4 * ht_count (dq_ht d) + 2)"
    "dq_entries d' = dq_entries d @ [(k, v)]" "allocs m \<le> n"
    using dqht_insert_new [OF i k(1), of v] by blast
  with dq_inv_grow [OF i len p(2-5)] show ?thesis by blast
qed

text \<open>The three tables of a cache and what they hold of a key.\<close>

definition tables_ok :: "'z dlirs_state \<Rightarrow> bool" where
  "tables_ok s \<longleftrightarrow> (case s of (c, m) \<Rightarrow>
     \<forall>d \<in> {lirs c, non_resident_hirs c, resident_hirs c}. dq_inv (d, m) \<and> length (dq_entries d) < 2 ^ 56)"

definition key_absent :: "'w DLIRS \<Rightarrow> bytes \<Rightarrow> bool" where
  "key_absent c k \<longleftrightarrow>
     (\<forall>d \<in> {lirs c, non_resident_hirs c, resident_hirs c}. map_of (dq_entries d) k = None)"

lemma size_to_int_small: "n < 2 ^ 31 \<Longrightarrow> size_to_int n = int n"
  by (simp add: size_to_int_def signed_of_nat signed_take_bit_int_eq_self)

lemma limit_stack_idle:
  assumes "hirs_count c + lirs_count c + non_resident c \<le> 2 * dl_cache_size c" and "dl_cache_size c < 2 ^ 29"
  shows "dlirs_limit_stack (c, m) = Inr (c, m)"
proof -
  have "hirs_count c < 2 ^ 31" "lirs_count c < 2 ^ 31" "non_resident c < 2 ^ 31" "dl_cache_size c < 2 ^ 31"
    using assms by simp_all
  then show ?thesis using assms(1) by (simp add: dlirs_limit_stack_def Let_def size_to_int_small)
qed

lemma dlirs_request_hir_run:
  assumes ok: "tables_ok (c, m)" and k: "wf_key k" "key_absent c k" and fresh: "\<forall>a \<ge> allocs m. dentry_at m a = None"
    and lim: "fl_to_size (lirs_limit c) = Inr l" "l \<le> lirs_count c \<or> hirs_count c \<noteq> 0"
    and room: "hirs_count c + lirs_count c < dl_cache_size c" "dl_cache_size c < 2 ^ 29"
      "Suc (hirs_count c + lirs_count c + non_resident c) \<le> 2 * dl_cache_size c"
  shows "\<exists>d1 d2 d3 n. dlirs_request (c, m) (Some k) v = Inr (0, None,
        c\<lparr>lirs := d1, non_resident_hirs := d2, resident_hirs := d3, hirs_count := Suc (hirs_count c)\<rparr>,
        m\<lparr>dentry_at := (dentry_at m)(allocs m \<mapsto>
          \<lparr>is_LIR = False, is_demoted = False, in_cache = True, d_length = of_nat (length k),
           reference_counter = 3, d_key = Some k, d_value = v\<rparr>), allocs := n\<rparr>)
    \<and> allocs m < n
    \<and> dq_inv (d1, m\<lparr>allocs := n\<rparr>) \<and> dq_inv (d2, m\<lparr>allocs := n\<rparr>) \<and> dq_inv (d3, m\<lparr>allocs := n\<rparr>)
    \<and> dq_entries d1 = dq_entries (lirs c) @ [(k, allocs m)]
    \<and> dq_entries d2 = dq_entries (non_resident_hirs c) @ [(k, allocs m)]
    \<and> dq_entries d3 = dq_entries (resident_hirs c) @ [(k, allocs m)]"
proof -
  let ?a = "allocs m"
  let ?e = "\<lambda>r. \<lparr>is_LIR = False, is_demoted = False, in_cache = True, d_length = of_nat (length k),
    reference_counter = r, d_key = Some k, d_value = v\<rparr>"
  let ?s = "\<lambda>r. (dentry_at m)(?a \<mapsto> ?e r)"
  let ?m = "\<lambda>n r. m\<lparr>dentry_at := ?s r, allocs := n\<rparr>"
  have t: "dq_inv (lirs c, m)" "dq_inv (non_resident_hirs c, m)" "dq_inv (resident_hirs c, m)"
    "length (dq_entries (lirs c)) < 2 ^ 56" "length (dq_entries (non_resident_hirs c)) < 2 ^ 56"
    "length (dq_entries (resident_hirs c)) < 2 ^ 56"
    using ok by (simp_all add: tables_ok_def)
  have ab: "map_of (dq_entries (lirs c)) k = None" "map_of (dq_entries (non_resident_hirs c)) k = None"
    "map_of (dq_entries (resident_hirs c)) k = None" using k(2) by (simp_all add: key_absent_def)
  have nf: "never_fails m" using t(1) by (simp add: dq_inv_def)
  have grow: "dq_inv (d, ?m n r)" if "dq_inv (d, m)" "?a \<le> n" for d n r
    using dq_inv_dentry [OF dq_inv_allocs [OF that], of "?s r"] unfolding dl_mem_comm .
  have create: "dlirs_entry_create m k v = Inr (Some ?a, ?m (?a + 2) 1)"
    using nf k(1) by (simp add: dlirs_entry_create_def dlirs_entry_create_full_def am_malloc_ok wf_key_size key_clone_wf dl_mem_comm)
  have copy: "dlirs_entry_reference_copy (?m n r) (Some ?a) = Inr (Some ?a, ?m n (Suc r))" if "r < 4" for n r
    using that by (simp add: dlirs_entry_reference_copy_def load_dentry_def modify_dentry_def)
  obtain d1 n1 where d1: "dqht_insert (?m (?a + 2) 3) (lirs c) (Some k) (Some ?a) = Inr (0, d1, ?m n1 3)"
    "?a + 2 \<le> n1" "dq_inv (d1, ?m n1 3)" "dq_entries d1 = dq_entries (lirs c) @ [(k, ?a)]"
    using table_push [OF grow [OF t(1)] k(1) ab(1) t(4), of "?a + 2" 3 ?a] by auto
  obtain d2 n2 where d2: "dqht_insert (?m n1 3) (non_resident_hirs c) (Some k) (Some ?a) = Inr (0, d2, ?m n2 3)"
    "n1 \<le> n2" "dq_inv (d2, ?m n2 3)" "dq_entries d2 = dq_entries (non_resident_hirs c) @ [(k, ?a)]"
    using table_push [OF grow [OF t(2)] k(1) ab(2) t(5), of n1 3 ?a] d1(2) by auto
  obtain d3 n3 where d3: "dqht_insert (?m n2 3) (resident_hirs c) (Some k) (Some ?a) = Inr (0, d3, ?m n3 3)"
    "n2 \<le> n3" "dq_inv (d3, ?m n3 3)" "dq_entries d3 = dq_entries (resident_hirs c) @ [(k, ?a)]"
    using table_push [OF grow [OF t(3)] k(1) ab(3) t(6), of n2 3 ?a] d1(2) d2(2) by auto
  let ?c = "c\<lparr>lirs := d1, non_resident_hirs := d2, resident_hirs := d3, hirs_count := Suc (hirs_count c)\<rparr>"
  have c12: "dlirs_entry_reference_copy (?m (?a + 2) 1) (Some ?a) = Inr (Some ?a, ?m (?a + 2) 2)"
    "dlirs_entry_reference_copy (?m (?a + 2) 2) (Some ?a) = Inr (Some ?a, ?m (?a + 2) 3)"
    using copy [of 1 "?a + 2"] copy [of 2 "?a + 2"] by (simp_all add: numeral_2_eq_2 numeral_3_eq_3)
  have print: "\<exists>x. dqht_print_table d2 = Inr x"
    using dq_wf_print [of d2] d2(3) by (auto simp: dq_inv_def)
  have "dlirs_limit_stack (?c, ?m n3 3) = Inr (?c, ?m n3 3)" using room by (intro limit_stack_idle) simp_all
  moreover have "evict_loop j None (c, m) = Inr (None, c, m)" for j using room(1,2) by simp
  moreover have "\<not> (lirs_count c < l \<and> hirs_count c = 0)" using lim(2) by auto
  moreover have "usize (hirs_count c + 1) = Suc (hirs_count c)" using room by simp
  ultimately have "dlirs_request (c, m) (Some k) v = Inr (0, None, ?c, ?m n3 3)"
    using lim(1) create c12 d1(1) d2(1) d3(1) print
    by (auto simp: dlirs_request_def Let_def simp del: evict_loop.simps)
  moreover have "dq_inv (d1, m\<lparr>allocs := n3\<rparr>)" "dq_inv (d2, m\<lparr>allocs := n3\<rparr>)" "dq_inv (d3, m\<lparr>allocs := n3\<rparr>)"
    using dq_inv_dentry [OF dq_inv_allocs [OF d1(3), of n3], of "dentry_at m"]
      dq_inv_dentry [OF dq_inv_allocs [OF d2(3), of n3], of "dentry_at m"]
      dq_inv_dentry [OF d3(3), of "dentry_at m"] d2(2) d3(2) by simp_all
  ultimately show ?thesis using d1(2,4) d2(2,4) d3(2,4) by (intro exI conjI) (assumption | simp)+
qed

text \<open>
  When the stack is full and the cache is not, a request for a key in no table creates one
  entry shared by the three tables, at the back of each, with three references and high
  recency; the other entries are untouched, the count of resident entries grows by one, the
  key can be looked up, and nothing is stored through \<open>evicted\<close>.
\<close>

theorem dlirs_request_admits_hir:
  assumes "tables_ok (c, m)" and "wf_key k" and "key_absent c k" and "\<forall>a \<ge> allocs m. dentry_at m a = None"
    and "fl_to_size (lirs_limit c) = Inr l" and "l \<le> lirs_count c \<or> hirs_count c \<noteq> 0"
    and "hirs_count c + lirs_count c < dl_cache_size c" and "dl_cache_size c < 2 ^ 29"
    and "Suc (hirs_count c + lirs_count c + non_resident c) \<le> 2 * dl_cache_size c"
  shows "\<exists>c' m' a e. dlirs_request (c, m) (Some k) (Some v) = Inr (0, None, c', m')
    \<and> (\<forall>tab \<in> {lirs, non_resident_hirs, resident_hirs}. dq_entries (tab c') = dq_entries (tab c) @ [(k, a)])
    \<and> dentry_at m a = None \<and> dentry_at m' = (dentry_at m)(a \<mapsto> e)
    \<and> d_key e = Some k \<and> d_value e = Some v \<and> reference_counter e = 3 \<and> \<not> is_LIR e \<and> in_cache e
    \<and> hirs_count c' = Suc (hirs_count c) \<and> lirs_count c' = lirs_count c
    \<and> dlirs_contains m' c' (Some k) = Inr True"
proof -
  obtain d1 d2 d3 n where r: "dlirs_request (c, m) (Some k) (Some v) = Inr (0, None,
        c\<lparr>lirs := d1, non_resident_hirs := d2, resident_hirs := d3, hirs_count := Suc (hirs_count c)\<rparr>,
        m\<lparr>dentry_at := (dentry_at m)(allocs m \<mapsto>
          \<lparr>is_LIR = False, is_demoted = False, in_cache = True, d_length = of_nat (length k),
           reference_counter = 3, d_key = Some k, d_value = Some v\<rparr>), allocs := n\<rparr>)"
    "dq_inv (d1, m\<lparr>allocs := n\<rparr>)" "dq_entries d1 = dq_entries (lirs c) @ [(k, allocs m)]"
    "dq_entries d2 = dq_entries (non_resident_hirs c) @ [(k, allocs m)]"
    "dq_entries d3 = dq_entries (resident_hirs c) @ [(k, allocs m)]"
    using dlirs_request_hir_run [OF assms, of "Some v"] by blast
  let ?c = "c\<lparr>lirs := d1, non_resident_hirs := d2, resident_hirs := d3, hirs_count := Suc (hirs_count c)\<rparr>"
  let ?e = "\<lparr>is_LIR = False, is_demoted = False, in_cache = True, d_length = of_nat (length k),
           reference_counter = 3, d_key = Some k, d_value = Some v\<rparr>"
  let ?m = "m\<lparr>dentry_at := (dentry_at m)(allocs m \<mapsto> ?e), allocs := n\<rparr>"
  have "dqht_get d1 (Some k) = Inr (Some (allocs m))"
    using dqht_get_ok [of d1 k] r(2,3) assms(2,3) by (simp add: dq_inv_def key_absent_def map_add_def)
  then have "dlirs_contains ?m ?c (Some k) = Inr True" by (simp add: dlirs_contains_def load_dentry_def)
  with r(1,3-5) assms(4) show ?thesis by (intro exI [of _ ?c] exI [of _ ?m] exI [of _ "allocs m"] exI [of _ ?e]) simp
qed

lemma dlirs_fresh_one:
  "\<exists>c m. dlirs_create dl_mem0 8 1 (Some dl_opts) = Inr (Some c, m) \<and> fill_inv 0 (c, m) \<and> dl_cache_size c = 1
    \<and> non_resident c = 0 \<and> tables_ok (c, m) \<and> fl_to_size (lirs_limit c) = Inr 0 \<and> dq_entries (lirs c) = []"
proof -
  obtain c m where c: "dlirs_create dl_mem0 8 1 (Some dl_opts) = Inr (Some c, m)" "fill_inv 0 (c, m)"
    "dl_cache_size c = 1" "non_resident c = 0" "dlirs_values (c, m) = []"
    using dlirs_create_fill [of dl_mem0 8 dl_opts 1 1] dl_ratio_limit [of 1]
    by (auto simp: never_fails_def dl_mem0_def dl_opts_def)
  note i = fill_invD [OF c(2)]
  have nil: "dq_entries (lirs c) = []" using c(5) by (simp add: dlirs_values_def)
  then have "tables_ok (c, m)" using i(1-5) by (simp add: tables_ok_def)
  moreover have "fl_to_size (lirs_limit c) = Inr 0" using fl_to_size_nat [of 0] i(8) by simp
  ultimately show ?thesis using c nil by blast
qed

theorem dlirs_request_admits_hir_witness:
  "\<exists>c m c' m' a. dlirs_create dl_mem0 8 1 (Some dl_opts) = Inr (Some c, m)
    \<and> dlirs_request (c, m) (Some key_i) (Some 5) = Inr (0, None, c', m') \<and> dq_entries (resident_hirs c') = [(key_i, a)]"
proof -
  obtain c m where c: "dlirs_create dl_mem0 8 1 (Some dl_opts) = Inr (Some c, m)" "fill_inv 0 (c, m)"
    "dl_cache_size c = 1" "non_resident c = 0" "tables_ok (c, m)" "fl_to_size (lirs_limit c) = Inr 0"
    "dq_entries (lirs c) = []" using dlirs_fresh_one by blast
  note i = fill_invD [OF c(2)]
  have "key_absent c key_i" using i(4,5) c(7) by (simp add: key_absent_def)
  moreover have "\<forall>a \<ge> allocs m. dentry_at m a = None" using i(11) by blast
  ultimately obtain c' m' a where "dlirs_request (c, m) (Some key_i) (Some 5) = Inr (0, None, c', m')"
    "dq_entries (resident_hirs c') = [(key_i, a)]"
    using dlirs_request_admits_hir [of c m key_i 0 5] c i(4-7) by force
  with c(1) show ?thesis by blast
qed

text \<open>
  C23: \<open>dlirs_resize\<close> keeps the limits whole, at least 1 each and adding up to the cache size,
  for caches of up to \<open>2 ^ 24\<close> entries and whatever the counters hold, also when both are 0
  and the quotient is not a number.  A hit on a non-resident entry raises the limit of the
  resident queue, a hit on a demoted one that of the stack, unless it is at its maximum.
\<close>

theorem dlirs_resize_limits:
  assumes "dlirs_limits c h l" and "dl_cache_size c \<le> 2 ^ 24"
  shows "\<exists>h' l'. dlirs_limits (dlirs_resize c hit) h' l'
    \<and> (hit \<longrightarrow> h < h' \<or> l' = 1) \<and> (\<not> hit \<longrightarrow> l < l' \<or> h' = 1)"
proof -
  let ?cs = "dl_cache_size c"
  have lim: "hirs_limit c = Fin (of_int h)" "lirs_limit c = Fin (of_int l)" "h + l = int ?cs" "1 \<le> h" "1 \<le> l"
    using assms(1) by (simp_all add: dlirs_limits_def)
  have cs24: "of_size 24 ?cs = Fin (of_int (int ?cs))" using assms(2) by (intro of_size_exact) auto
  have rest: "fl_sub 24 (of_size 24 ?cs) (Fin (of_int b)) = Fin (of_int (int ?cs - b))"
    if "1 \<le> b" "b \<le> int ?cs - 1" for b
    unfolding cs24 using that assms(2) by (intro fl_sub_exact) auto
  have cs1: "1 \<le> ?cs" and hl: "h \<le> int ?cs - 1" "l \<le> int ?cs - 1" using lim(3-5) by linarith+
  show ?thesis
  proof (cases hit)
    case True
    obtain h' where h': "to_float (fmin (fl_sub 53 (of_size 53 ?cs) (Fin 1))
        (fl_add 53 (Fin (of_int h)) (limit_step (demoted c) (non_resident c)))) = Fin (of_int h')"
      "1 \<le> h'" "h' \<le> int ?cs - 1" "h < h' \<or> h' = int ?cs - 1"
      using move_limit [OF cs1 assms(2) lim(4) hl(1) limit_step_pos, of "demoted c" "non_resident c"] by blast
    have "dlirs_limits (dlirs_resize c hit) h' (int ?cs - h')"
      using True h' rest [OF h'(2,3)] lim(1) by (simp add: dlirs_resize_def dlirs_limits_def Let_def)
    with True h'(4) show ?thesis by (intro exI [of _ h'] exI [of _ "int ?cs - h'"]) auto
  next
    case False
    obtain l' where l': "to_float (fmin (fl_sub 53 (of_size 53 ?cs) (Fin 1))
        (fl_add 53 (Fin (of_int l)) (limit_step (non_resident c) (demoted c)))) = Fin (of_int l')"
      "1 \<le> l'" "l' \<le> int ?cs - 1" "l < l' \<or> l' = int ?cs - 1"
      using move_limit [OF cs1 assms(2) lim(5) hl(2) limit_step_pos, of "non_resident c" "demoted c"] by blast
    have "dlirs_limits (dlirs_resize c hit) (int ?cs - l') l'"
      using False l' rest [OF l'(2,3)] lim(2) by (simp add: dlirs_resize_def dlirs_limits_def Let_def)
    with False l'(4) show ?thesis by (intro exI [of _ "int ?cs - l'"] exI [of _ l']) auto
  qed
qed

theorem dlirs_resize_limits_witness:
  "\<exists>c m h' l'. dlirs_create dl_mem0 8 4 (Some dl_opts) = Inr (Some c, m)
    \<and> dlirs_limits (dlirs_resize c True) h' l' \<and> (1 < h' \<or> l' = 1)"
proof -
  obtain c m where c: "dlirs_create dl_mem0 8 4 (Some dl_opts) = Inr (Some c, m)" "fill_inv 3 (c, m)"
    "dl_cache_size c = 4" "hirs_limit c = Fin (of_int 1)"
    using dlirs_create_fill [of dl_mem0 8 dl_opts 4 1] dl_ratio_limit [of 4]
    by (auto simp: never_fails_def dl_mem0_def dl_opts_def)
  then have "dlirs_limits c 1 3" using fill_invD(8) [OF c(2)] by (simp add: dlirs_limits_def)
  from dlirs_resize_limits [OF this, of True] c(1,3) show ?thesis by auto
qed

section \<open>A cache of one entry\<close>

lemma evict_lir_empty:
  assumes "dq_wf (lirs c)" and "dq_entries (lirs c) = []"
  shows "dlirs_evict_lir (c, m) = Inr (c, m)"
  using dqht_pop_front_nil [OF assms] dq_wf_print [OF assms(1)] by (auto simp: dlirs_evict_lir_def)

text \<open>With nothing on the stack the loop that makes room on it never ends.\<close>

lemma eject_lir_loop_hangs:
  assumes "dq_wf (lirs c)" and "dq_entries (lirs c) = []" and "fl_to_size (lirs_limit c) = Inr 0"
  shows "eject_lir_loop n (c, m) = Inl Hang"
  by (induction n) (simp_all add: assms evict_lir_empty [OF assms(1,2)])

lemma table_take:
  assumes "dq_inv (d, m)" and "dq_entries d = [(k, a)]"
  shows "\<exists>d'. dqht_remove m' d (Some k) True = Inr (0, Some (Some a), d', m') \<and> dq_wf d' \<and> dq_entries d' = []"
  using dqht_remove_present [of d k a m'] assms by (auto simp: dq_inv_def del_key_def)

lemma hir_in_lirs_hangs:
  assumes d: "dq_inv (d1, m)" "dq_inv (d2, m)" "dq_inv (d3, m)"
    "dq_entries d1 = [(k, a)]" "dq_entries d2 = [(k, a)]" "dq_entries d3 = [(k, a)]"
    and c: "lirs c = d1" "non_resident_hirs c = d2" "resident_hirs c = d3" "fl_to_size (lirs_limit c) = Inr 0"
    and e: "dentry_at m a = Some e" "d_key e = Some k" "wf_key k" "in_cache e" "reference_counter e = 3"
  shows "dlirs_hir_in_lirs (c, m) (Some k) ev = Inl Hang"
proof -
  let ?m = "\<lambda>r. m\<lparr>dentry_at := (dentry_at m)(a \<mapsto> e\<lparr>is_LIR := True, reference_counter := r\<rparr>)\<rparr>"
  have same: "e\<lparr>is_LIR := True\<rparr> = e\<lparr>is_LIR := True, reference_counter := 3\<rparr>" using e(5) by simp
  obtain d1' where t1: "dqht_remove m d1 (Some k) True = Inr (0, Some (Some a), d1', m)" "dq_wf d1'" "dq_entries d1' = []"
    using table_take [OF d(1,4)] by blast
  obtain d2' where t2: "dqht_remove (?m 3) d2 (Some k) True = Inr (0, Some (Some a), d2', ?m 3)"
    using table_take [OF d(2,5)] by blast
  obtain d3' where t3: "dqht_remove (?m 2) d3 (Some k) True = Inr (0, Some (Some a), d3', ?m 2)"
    using table_take [OF d(3,6)] by blast
  have drop: "dlirs_entry_destroy (?m r) (Some a) = Inr (?m (r - 1))" if "1 < r" "r < 4" for r
    using drop_reference_shared [of "?m r" a "e\<lparr>is_LIR := True, reference_counter := r\<rparr>"] e(2,3) that
    by (simp add: dlirs_entry_destroy_def dentry_ok_def)
  have dr: "dlirs_entry_destroy (?m 3) (Some a) = Inr (?m 2)" "dlirs_entry_destroy (?m 2) (Some a) = Inr (?m 1)"
    using drop [of 3] drop [of 2] by simp_all
  have leave: "leave_resident_hirs (c\<lparr>lirs := d1', non_resident_hirs := d2'\<rparr>, ?m 2) k a
      = Inr (0, c\<lparr>lirs := d1', non_resident_hirs := d2', resident_hirs := d3', hirs_count := usize_dec (hirs_count c)\<rparr>, ?m 1)"
    using t3 dr(2) c(3) by (simp add: leave_resident_hirs_def Let_def read_removed_def)
  have hang: "eject_lir_loop n (c\<lparr>lirs := d1', non_resident_hirs := d2', resident_hirs := d3',
      hirs_count := usize_dec (hirs_count c)\<rparr>, m') = Inl Hang" for n m'
    using t1(2,3) c(4) by (intro eject_lir_loop_hangs) simp_all
  have mod: "modify_dentry m a (\<lambda>e. e\<lparr>is_LIR := True\<rparr>) = Inr (?m 3)"
    using e(1) same by (simp add: modify_dentry_def load_dentry_def)
  show ?thesis
    using t1(1) t2 mod dr(1) leave hang e(1,4) c(1,2)
    by (simp add: dlirs_hir_in_lirs_def removed_or_null_def read_removed_def load_dentry_def Let_def
        del: eject_lir_loop.simps)
qed

text \<open>
  C24: a DLIRS cache of size 1 has no room on its stack, and the first hit never returns: after
  any key has been requested, \<open>dlirs_get\<close> of that key makes room on the empty stack for ever.
\<close>

theorem dlirs_size_one_hangs:
  assumes "never_fails m" and "\<forall>a. dentry_at m a = None" and "0 < n" and "n < 2 ^ 59"
    and "opt_comparator opts = None \<or> cmp_ok (opt_comparator opts)"
    and "initial_hirs_limit 1 (opt_hirs_ratio opts) = Fin (of_int 1)" and "wf_key k"
  shows "\<exists>c m1 s. dlirs_create m n 1 (Some opts) = Inr (Some c, m1)
    \<and> dlirs_request (c, m1) (Some k) v = Inr (0, None, s) \<and> dlirs_get s (Some k) = Inl Hang"
proof -
  obtain c m1 where c: "dlirs_create m n 1 (Some opts) = Inr (Some c, m1)" "fill_inv 0 (c, m1)"
    "dl_cache_size c = 1" "non_resident c = 0" "dlirs_values (c, m1) = []"
    using dlirs_create_fill [OF assms(1,3-6) _ _ _ assms(2)] by auto
  note i = fill_invD [OF c(2)]
  have nil: "dq_entries (lirs c) = []" using c(5) by (simp add: dlirs_values_def)
  have lim: "fl_to_size (lirs_limit c) = Inr 0" using fl_to_size_nat [of 0] i(8) by simp
  have "tables_ok (c, m1)" using i(1-5) nil by (simp add: tables_ok_def)
  moreover have "key_absent c k" using i(4,5) nil by (simp add: key_absent_def)
  ultimately obtain d1 d2 d3 j where r: "dlirs_request (c, m1) (Some k) v = Inr (0, None,
        c\<lparr>lirs := d1, non_resident_hirs := d2, resident_hirs := d3, hirs_count := Suc (hirs_count c)\<rparr>,
        m1\<lparr>dentry_at := (dentry_at m1)(allocs m1 \<mapsto>
          \<lparr>is_LIR = False, is_demoted = False, in_cache = True, d_length = of_nat (length k),
           reference_counter = 3, d_key = Some k, d_value = v\<rparr>), allocs := j\<rparr>)"
    "dq_inv (d1, m1\<lparr>allocs := j\<rparr>)" "dq_inv (d2, m1\<lparr>allocs := j\<rparr>)" "dq_inv (d3, m1\<lparr>allocs := j\<rparr>)"
    "dq_entries d1 = [(k, allocs m1)]" "dq_entries d2 = [(k, allocs m1)]" "dq_entries d3 = [(k, allocs m1)]"
    using dlirs_request_hir_run [of c m1 k 0 v] assms(7) i(4-7,11) nil lim c(3,4) by auto
  let ?c = "c\<lparr>lirs := d1, non_resident_hirs := d2, resident_hirs := d3, hirs_count := Suc (hirs_count c)\<rparr>"
  let ?e = "\<lparr>is_LIR = False, is_demoted = False, in_cache = True, d_length = of_nat (length k),
           reference_counter = 3, d_key = Some k, d_value = v\<rparr>"
  let ?m = "m1\<lparr>dentry_at := (dentry_at m1)(allocs m1 \<mapsto> ?e), allocs := j\<rparr>"
  have w: "dq_inv (d, ?m)" if "dq_inv (d, m1\<lparr>allocs := j\<rparr>)" for d
    using dq_inv_dentry [OF that, of "(dentry_at m1)(allocs m1 \<mapsto> ?e)"] unfolding dl_mem_comm .
  have "dlirs_hir_in_lirs (?c, ?m) (Some k) None = Inl Hang"
    using w [OF r(2)] w [OF r(3)] w [OF r(4)] r(5-7) lim assms(7)
    by (intro hir_in_lirs_hangs [of d1 _ d2 d3 _ "allocs m1" _ ?e]) simp_all
  moreover have "dqht_get d1 (Some k) = Inr (Some (allocs m1))"
    using dqht_get_ok [of d1 k] r(2,5) assms(7) by (simp add: dq_inv_def)
  ultimately have "dlirs_get (?c, ?m) (Some k) = Inl Hang"
    by (simp add: dlirs_get_def load_dentry_def del: eject_lir_loop.simps)
  with c(1) r(1) show ?thesis by blast
qed

theorem dlirs_size_one_hangs_witness:
  "\<exists>c m1 s. dlirs_create dl_mem0 8 1 (Some dl_opts) = Inr (Some c, m1)
    \<and> dlirs_request (c, m1) (Some key_a) (Some 7) = Inr (0, None, s) \<and> dlirs_get s (Some key_a) = Inl Hang"
  using dl_ratio_limit [of 1] by (intro dlirs_size_one_hangs) (simp_all add: never_fails_def dl_mem0_def dl_opts_def)

end
