(* ===== verification/Driver.thy ===== *)
theory Driver
  imports Cache_Front DLIRS_Phases
begin

text \<open>
  The client of the caches, \<open>main.c\<close>: its comparison of search keys, the test data, and the
  queries a thread sends to a cache behind the front end.  What is printed is left out; the
  calls whose results are printed are not.
\<close>

section \<open>Comparison of keys\<close>

definition AND_OP :: byte where
  "AND_OP = 94"

definition OR_OP :: byte where
  "OR_OP = 124"

definition IS_AND :: "byte \<Rightarrow> bool" where
  "IS_AND op \<longleftrightarrow> op = AND_OP"

definition IS_OR :: "byte \<Rightarrow> bool" where
  "IS_OR op \<longleftrightarrow> op = OR_OP"

definition IS_SINGLE :: "byte \<Rightarrow> bool" where
  "IS_SINGLE op \<longleftrightarrow> op = SINGLE_OP"

text \<open>\<open>strcmp\<close> on the characters before the NUL, as far as the C standard fixes it: the sign.\<close>

fun strcmp :: "bytes \<Rightarrow> bytes \<Rightarrow> int" where
  "strcmp [] [] = 0"
| "strcmp [] (y # ys) = - 1"
| "strcmp (x # xs) [] = 1"
| "strcmp (x # xs) (y # ys) = (if x < y then - 1 else if y < x then 1 else strcmp xs ys)"

text \<open>\<open>strcmp(p, q) == 0\<close> on two terms, and \<open>&&\<close> and \<open>||\<close>, which skip their second operand.\<close>

definition same_term :: "bytes res \<Rightarrow> bytes res \<Rightarrow> bool res" where
  "same_term p q = rbind p (\<lambda>x. rbind q (\<lambda>y. Inr (strcmp x y = 0)))"

definition c_and :: "bool res \<Rightarrow> bool res \<Rightarrow> bool res" where
  "c_and a b = rbind a (\<lambda>x. if x then b else Inr False)"

definition c_or :: "bool res \<Rightarrow> bool res \<Rightarrow> bool res" where
  "c_or a b = rbind a (\<lambda>x. if x then Inr True else b)"

text \<open>The last parameter is the \<open>Result\<close> that \<open>key2Value\<close> points to.\<close>

definition key_compare :: "int \<Rightarrow> bytes option \<Rightarrow> bytes option \<Rightarrow> Result option \<Rightarrow> int res" where
  "key_compare partialCacheMatches key1 key2 key2Result =
     (case (key1, key2) of
        (None, None) \<Rightarrow> Inr 0
      | (None, Some _) \<Rightarrow> Inr (- 1)
      | (Some _, None) \<Rightarrow> Inr 1
      | (Some k1, Some k2) \<Rightarrow>
          let t11 = term1_string k1; t12 = term2_string k1; t21 = term1_string k2; t22 = term2_string k2;
              found1 = rbind (deref key2Result) (\<lambda>r. Inr (term1Found r));
              found2 = rbind (deref key2Result) (\<lambda>r. Inr (term2Found r));
              zero_if = (\<lambda>b. rbind b (\<lambda>x. Inr (if x then 0 else 1)));
              both = c_or (c_and (same_term t11 t21) (same_term t12 t22)) (c_and (same_term t11 t22) (same_term t12 t21))
          in
          rbind (key_get_op k1) (\<lambda>key1Op. rbind (key_get_op k2) (\<lambda>key2Op.
            if IS_AND key1Op then (if IS_AND key2Op then zero_if both else Inr 1)
            else if IS_OR key1Op then
              (if IS_AND key2Op \<and> partialCacheMatches = 2 then
                 zero_if (c_or (c_or (c_or (same_term t11 t21) (same_term t11 t22)) (same_term t12 t21)) (same_term t12 t22))
               else if IS_OR key2Op then
                 (if partialCacheMatches = 2 then
                    zero_if (c_or (c_and (c_or (same_term t11 t21) (same_term t12 t21)) found1)
                                  (c_and (c_or (same_term t11 t22) (same_term t12 t22)) found2))
                  else zero_if both)
               else if IS_SINGLE key2Op \<and> partialCacheMatches = 2 then
                 zero_if (c_or (same_term t11 t21) (same_term t12 t21))
               else Inr 1)
            else if IS_SINGLE key1Op then
              (if IS_AND key2Op \<and> partialCacheMatches = 2 then
                 zero_if (c_or (same_term t11 t21) (same_term t11 t22))
               else if IS_OR key2Op \<and> 1 \<le> partialCacheMatches then
                 zero_if (c_or (c_and (same_term t11 t21) found1) (c_and (same_term t11 t22) found2))
               else if IS_SINGLE key2Op then rbind t11 (\<lambda>x. rbind t21 (\<lambda>y. Inr (strcmp x y)))
               else Inr 1)
            else Inr 1)))"

definition default_key_compare :: "'v comparator" where
  "default_key_compare key1 key2 ignored = rbind (key_cmp key1 key2) (\<lambda>r. Inr (sint (ucast r :: 32 word)))"

lemma default_key_compare_eq: "default_key_compare = default_comparator"
  by (simp add: default_key_compare_def default_comparator_def fun_eq_iff)

section \<open>Test data\<close>

definition ENTRY_COUNT :: nat where
  "ENTRY_COUNT = 100"

definition c_string :: "string \<Rightarrow> bytes" where
  "c_string s = map of_char s"

definition to_store_terms :: "(string \<times> string) list" where
  "to_store_terms =
    [(''test'', ''other''), (''more'', ''something''), (''bested'', ''test''), (''caused'', ''cheese''), (''vert'', ''based''),
     (''mother'', ''lurch''), (''tube'', ''deafen''), (''loud'', ''clamp''), (''boast'', ''cordial''), (''nuke'', ''plate'')]"

primrec create_keys :: "(string \<times> string) list \<Rightarrow> 'z mem_scheme \<Rightarrow> (bytes list \<times> 'z mem_scheme) res" where
  "create_keys [] m = Inr ([], m)"
| "create_keys (t # ts) m =
     rbind (key_create m AND_OP (c_string (fst t)) (Some (c_string (snd t)))) (\<lambda>(k, m1).
     rbind (create_keys ts m1) (\<lambda>(ks, m2). Inr (k # ks, m2)))"

definition test_postings :: "(nat \<Rightarrow> nat) \<Rightarrow> PostIt list" where
  "test_postings rnd = map (\<lambda>i. \<lparr>dn = of_nat i, wc = of_nat (rnd i mod 300)\<rparr>) [0..<ENTRY_COUNT]"

definition test_value :: "addr \<Rightarrow> Result" where
  "test_value postings = \<lparr>term1Found = True, term2Found = True, offset2 = 0, match_count = 10, ordering = None, results = Some postings\<rparr>"

text \<open>\<open>values i\<close> and \<open>postings\<close> are the addresses of the two static arrays, \<open>rnd\<close> is \<open>rand\<close>.\<close>

definition createTestData ::
  "(nat \<Rightarrow> nat) \<Rightarrow> (nat \<Rightarrow> addr) \<Rightarrow> addr \<Rightarrow> 'z res_mem_scheme \<Rightarrow> (bytes list \<times> 'z res_mem_scheme) res" where
  "createTestData rnd values postings m =
     rbind (create_keys to_store_terms m) (\<lambda>(to_store, m1).
       Inr (to_store, m1\<lparr>posts_at := (posts_at m1)(postings \<mapsto> test_postings rnd),
         result_at := (\<lambda>a. if a \<in> values ` {..<ENTRY_COUNT} then Some (test_value postings) else result_at m1 a)\<rparr>))"

section \<open>Queries\<close>

definition DLIRS_CACHE_BACKING_HANDLERS ::
  "('z dl_mem_scheme DLIRS, 'z dl_mem_scheme, DLIRSOptions option) CacheBackingHandlers" where
  "DLIRS_CACHE_BACKING_HANDLERS =
     \<lparr>createHandler = dlirs_create,
      destroyHandler = (\<lambda>m c. dlirs_destroy (c, m)),
      requestHandler = (\<lambda>m c k v. dlirs_request (c, m) k v),
      getHandler = (\<lambda>m c k. dlirs_get (c, m) k),
      containsHandler = dlirs_contains,
      isFullHandler = (\<lambda>c. Inr (dlirs_is_full c))\<rparr>"

text \<open>
  \<open>destroy_evicted\<close> is \<open>DESTROY_EVICTED_ENTRY\<close>; what \<open>evicted\<close> points to depends on the cache.  An
  output parameter nothing is stored through keeps the \<open>NULL\<close> it was initialised with.
\<close>

definition destroy_evicted :: "int \<Rightarrow> 'z dl_mem_scheme \<Rightarrow> addr option \<Rightarrow> 'z dl_mem_scheme res" where
  "destroy_evicted cacheType m evicted =
     (if evicted = None then Inr m
      else if cacheType = 0 then dlirs_entry_destroy m evicted
      else result_destroy m evicted)"

definition stored_pointer :: "addr option option \<Rightarrow> addr option" where
  "stored_pointer evicted = (case evicted of None \<Rightarrow> None | Some p \<Rightarrow> p)"

type_synonym ('b, 'z, 'o) driver_state = "('b, 'z dl_mem_scheme, 'o) Cache \<times> 'z dl_mem_scheme"

text \<open>
  The body of the first and of the last loop of \<open>queryProcessor\<close>: look the key up, and on a miss
  request a copy of the value.  A refused request ends the program.  The trace message at the
  end calls \<open>cache_is_full\<close>.
\<close>

definition query_entry ::
  "int \<Rightarrow> bytes \<Rightarrow> addr \<Rightarrow> ('b, 'z, 'o) driver_state \<Rightarrow> ('b, 'z, 'o) driver_state res" where
  "query_entry cacheType key value s =
     (case s of (cache, m) \<Rightarrow>
        rbind (cache_get m cache (Some key)) (\<lambda>(found, ev, c1, m1).
        rbind (destroy_evicted cacheType m1 (stored_pointer ev)) (\<lambda>m2.
        if found \<noteq> None then Inr (c1, m2)
        else
          rbind (result_copy m2 value) (\<lambda>(copy, m3).
          rbind (cache_request m3 c1 (Some key) copy) (\<lambda>(requestResult, ev2, c2, m4).
          rbind (key_sprint (Some key)) (\<lambda>_.
          rbind (destroy_evicted cacheType m4 (stored_pointer ev2)) (\<lambda>m5.
          if requestResult = - 1 then Inl Exit1
          else rbind (cache_is_full c2) (\<lambda>(_, c3). Inr (c3, m5)))))))))"

text \<open>The body of the loop in between.\<close>

definition lookup_entry :: "int \<Rightarrow> bytes \<Rightarrow> ('b, 'z, 'o) driver_state \<Rightarrow> ('b, 'z, 'o) driver_state res" where
  "lookup_entry cacheType key s =
     (case s of (cache, m) \<Rightarrow>
        rbind (cache_get m cache (Some key)) (\<lambda>(match, ev, c1, m1).
        rbind (destroy_evicted cacheType m1 (stored_pointer ev)) (\<lambda>m2.
        rbind (key_sprint (Some key)) (\<lambda>_. Inr (c1, m2)))))"

primrec for_each :: "('x \<Rightarrow> 's \<Rightarrow> 's res) \<Rightarrow> 'x list \<Rightarrow> 's \<Rightarrow> 's res" where
  "for_each f [] s = Inr s"
| "for_each f (x # xs) s = rbind (f x s) (for_each f xs)"

text \<open>\<open>to_store\<close> and \<open>values\<close> are the arrays of the test data; one thread runs this.\<close>

definition queryProcessor ::
  "int \<Rightarrow> bytes list \<Rightarrow> (nat \<Rightarrow> addr) \<Rightarrow> ('b, 'z, 'o) driver_state \<Rightarrow> ('b, 'z, 'o) driver_state res" where
  "queryProcessor cacheType to_store values s =
     (let query = (\<lambda>i s. rbind (elem to_store (i mod 10)) (\<lambda>key. query_entry cacheType key (values i) s)) in
      rbind (for_each (\<lambda>i. for_each (\<lambda>j. query i) [1..<i + 1]) [0..<ENTRY_COUNT] s) (\<lambda>s1.
      rbind (for_each (\<lambda>i s. rbind (elem to_store (i mod 10)) (\<lambda>key. lookup_entry cacheType key s)) [0..<10] s1) (\<lambda>s2.
        for_each query [0..<ENTRY_COUNT] s2)))"

text \<open>The cache \<open>main\<close> creates; \<open>0.01f\<close> is \<open>10737418 / 2 ^ 30\<close>.  \<open>cache_create\<close> does not use the heap size.\<close>

definition main_cache :: "'z dl_mem_scheme \<Rightarrow> lock \<Rightarrow>
    (('z dl_mem_scheme DLIRS, 'z dl_mem_scheme, DLIRSOptions option) Cache option \<times> 'z dl_mem_scheme) res" where
  "main_cache m l = cache_create m l 10 4 DLIRS_CACHE_BACKING_HANDLERS
     (Some \<lparr>opt_comparator = Some default_key_compare, opt_hirs_ratio = Fin (10737418 / 2 ^ 30)\<rparr>)"

section \<open>What the comparison means\<close>

text \<open>A search for both terms, for one of two, or for a single term, and its key.\<close>

datatype search = Both bytes bytes | Either bytes bytes | Term bytes

fun search_key :: "search \<Rightarrow> bytes" where
  "search_key (Both s t) = key_layout AND_OP s (Some t)"
| "search_key (Either s t) = key_layout OR_OP s (Some t)"
| "search_key (Term s) = key_layout SINGLE_OP s None"

fun search_ok :: "search \<Rightarrow> bool" where
  "search_ok (Both s t) \<longleftrightarrow> wf_parts AND_OP s (Some t)"
| "search_ok (Either s t) \<longleftrightarrow> wf_parts OR_OP s (Some t)"
| "search_ok (Term s) \<longleftrightarrow> wf_parts SINGLE_OP s None"

text \<open>
  Whether the cached result of the second search answers the first; \<open>p\<close> is
  \<open>partialCacheMatches\<close>, \<open>f1\<close> and \<open>f2\<close> say which term of the second search was found.
\<close>

fun answers :: "int \<Rightarrow> search \<Rightarrow> search \<Rightarrow> bool \<Rightarrow> bool \<Rightarrow> bool" where
  "answers p (Both s t) (Both u v) f1 f2 \<longleftrightarrow> {s, t} = {u, v}"
| "answers p (Either s t) (Both u v) f1 f2 \<longleftrightarrow> p = 2 \<and> {s, t} \<inter> {u, v} \<noteq> {}"
| "answers p (Either s t) (Either u v) f1 f2 \<longleftrightarrow> (if p = 2 then u \<in> {s, t} \<and> f1 \<or> v \<in> {s, t} \<and> f2 else {s, t} = {u, v})"
| "answers p (Either s t) (Term u) f1 f2 \<longleftrightarrow> p = 2 \<and> u \<in> {s, t}"
| "answers p (Term s) (Both u v) f1 f2 \<longleftrightarrow> p = 2 \<and> s \<in> {u, v}"
| "answers p (Term s) (Either u v) f1 f2 \<longleftrightarrow> 1 \<le> p \<and> (s = u \<and> f1 \<or> s = v \<and> f2)"
| "answers p (Term s) (Term u) f1 f2 \<longleftrightarrow> s = u"
| "answers p _ _ f1 f2 \<longleftrightarrow> False"

lemma strcmp_eq [simp]: "strcmp x y = 0 \<longleftrightarrow> x = y"
  by (induction x y rule: strcmp.induct) auto

lemma same_term_Inr [simp]: "same_term (Inr x) (Inr y) = Inr (x = y)"
  by (simp add: same_term_def)

lemma c_and_Inr [simp]: "c_and (Inr x) (Inr y) = Inr (x \<and> y)"
  by (simp add: c_and_def)

lemma c_or_Inr [simp]: "c_or (Inr x) (Inr y) = Inr (x \<or> y)"
  by (simp add: c_or_def)

lemma ops_distinct [simp]: "AND_OP \<noteq> SINGLE_OP" "OR_OP \<noteq> SINGLE_OP" "AND_OP \<noteq> OR_OP"
  "SINGLE_OP \<noteq> AND_OP" "SINGLE_OP \<noteq> OR_OP" "OR_OP \<noteq> AND_OP"
  by (simp_all add: AND_OP_def OR_OP_def SINGLE_OP_def)

lemma search_terms:
  "search_ok (Both s t) \<Longrightarrow> term1_string (search_key (Both s t)) = Inr s \<and> term2_string (search_key (Both s t)) = Inr t"
  "search_ok (Either s t) \<Longrightarrow> term1_string (search_key (Either s t)) = Inr s \<and> term2_string (search_key (Either s t)) = Inr t"
  "search_ok (Term s) \<Longrightarrow> term1_string (search_key (Term s)) = Inr s"
  using term2_string_layout [of AND_OP s t] term2_string_layout [of OR_OP s t] by (simp_all add: term1_string_layout)

lemma search_op:
  "key_get_op (search_key (Both s t)) = Inr AND_OP" "key_get_op (search_key (Either s t)) = Inr OR_OP"
  "key_get_op (search_key (Term s)) = Inr SINGLE_OP"
  by simp_all

lemmas compare_eval = key_compare_def Let_def IS_AND_def IS_OR_def IS_SINGLE_def search_op search_terms doubleton_eq_iff

lemma key_compare_both:
  assumes "search_ok (Both s t)" and "search_ok q"
  shows "\<exists>c. key_compare p (Some (search_key (Both s t))) (Some (search_key q)) (Some r) = Inr c
    \<and> (c = 0 \<longleftrightarrow> answers p (Both s t) q (term1Found r) (term2Found r))"
  using assms by (cases q) (simp_all add: compare_eval del: search_key.simps search_ok.simps)

lemma key_compare_either:
  assumes "search_ok (Either s t)" and "search_ok q"
  shows "\<exists>c. key_compare p (Some (search_key (Either s t))) (Some (search_key q)) (Some r) = Inr c
    \<and> (c = 0 \<longleftrightarrow> answers p (Either s t) q (term1Found r) (term2Found r))"
  using assms by (cases q) (auto simp add: compare_eval simp del: search_key.simps search_ok.simps)

lemma key_compare_term:
  assumes "search_ok (Term s)" and "search_ok q"
  shows "\<exists>c. key_compare p (Some (search_key (Term s))) (Some (search_key q)) (Some r) = Inr c
    \<and> (c = 0 \<longleftrightarrow> answers p (Term s) q (term1Found r) (term2Found r))"
  using assms by (cases q) (auto simp add: compare_eval simp del: search_key.simps search_ok.simps)

text \<open>
  C10: \<open>key_compare\<close> decides, without leaving a buffer, whether a cached result answers a search:
  conjunctions only answer each other, whatever the order of their terms, and the level of
  partial matching admits the results of weaker or stronger searches.
\<close>

theorem key_compare_answers:
  assumes "search_ok q1" and "search_ok q2"
  shows "\<exists>c. key_compare p (Some (search_key q1)) (Some (search_key q2)) (Some r) = Inr c
    \<and> (c = 0 \<longleftrightarrow> answers p q1 q2 (term1Found r) (term2Found r))"
proof (cases q1)
  case (Both s t)
  then show ?thesis using key_compare_both [of s t q2] assms by simp
next
  case (Either s t)
  then show ?thesis using key_compare_either [of s t q2] assms by simp
next
  case (Term s)
  then show ?thesis using key_compare_term [of s q2] assms by simp
qed

theorem key_compare_answers_witness:
  "\<exists>c. key_compare 1 (Some (search_key (Term [97]))) (Some (search_key (Either [98] [97]))) (Some (test_value 7)) = Inr c \<and> c = 0"
proof -
  have "search_ok (Term [97])" "search_ok (Either [98] [97])" by simp_all
  from key_compare_answers [OF this, of 1 "test_value 7"] show ?thesis by (simp add: test_value_def)
qed

text \<open>
  As a comparator of a hash table the function would not do: keys it takes to be equal have
  different hashes, it is not symmetric, and with full partial matching not even reflexive.
\<close>

lemma key_compare_not_hash_compatible:
  "key_compare 0 (Some (search_key (Both [97] [98]))) (Some (search_key (Both [98] [97]))) None = Inr 0
    \<and> fnv1a_hash (search_key (Both [97] [98])) \<noteq> fnv1a_hash (search_key (Both [98] [97]))"
  by code_simp

lemma key_compare_not_reflexive:
  "key_compare 2 (Some (search_key (Either [97] [98]))) (Some (search_key (Either [97] [98])))
     (Some \<lparr>term1Found = False, term2Found = False, offset2 = 0, match_count = 0, ordering = None, results = None\<rparr>) = Inr 1
   \<and> key_compare 2 (Some (search_key (Term [97]))) (Some (search_key (Both [97] [98]))) None = Inr 0
   \<and> key_compare 2 (Some (search_key (Both [97] [98]))) (Some (search_key (Term [97]))) None = Inr 1"
  by code_simp

end
