(* ===== verification/Driver_Runs.thy ===== *)
theory Driver_Runs
  imports Driver
begin

text \<open>
  The queries of \<open>main.c\<close> on the LRU cache, from the creation of the test data on: what the cache
  holds afterwards, and that the memory holds nothing else.  The first two sections say what
  the operations of the cache and of \<open>result.c\<close> do to the memory.
\<close>

section \<open>Frames of the LRU operations\<close>

text \<open>The LRU cache only counts allocations in the memory of the results.\<close>

lemma dqht_insert_frame:
  assumes "dq_inv (d, m)" and "wf_key k" and "k \<notin> dq_keys d" and "dqht_insert m d (Some k) (Some v) = Inr (r, d', m')"
  shows "\<exists>n \<ge> allocs m. m' = m\<lparr>allocs := n\<rparr>"
  using dqht_insert_new [OF assms(1-3), of v] assms(4) by auto

lemma lru_get_frame:
  assumes inv: "lru_inv (c, m)" and k: "wf_key k" and g: "lru_get m c (Some k) = Inr (v, c', m')"
  shows "\<exists>n \<ge> allocs m. m' = m\<lparr>allocs := n\<rparr>"
proof (cases "map_of (lru_entries c) k")
  case None
  then have "m' = m" using lru_get_miss [OF inv k] g by simp
  then show ?thesis by (intro exI [of _ "allocs m"]) simp
next
  case (Some w)
  note i = lru_invD [OF inv]
  have mp: "map_of (dq_entries (lru_dqht c)) k = Some w" using Some by (simp add: lru_entries_def)
  obtain d where d: "dqht_remove m (lru_dqht c) (Some k) True = Inr (0, Some (Some w), d, m)" "dq_wf d"
    "dq_entries d = del_key k (dq_entries (lru_dqht c))" "ht_size (dq_ht d) = ht_size (dq_ht (lru_dqht c))"
    "dom (dq_store d) \<subseteq> dom (dq_store (lru_dqht c))"
    using dqht_remove_present [OF i(4,6) mp, of m] by blast
  have di: "dq_inv (d, m)" by (rule dq_inv_shrink [OF i(1) d(2,4,5)])
  have nk: "k \<notin> dq_keys d" unfolding d(3) by (auto simp: del_key_def)
  obtain r d2 where ins: "dqht_insert m d (Some k) (Some w) = Inr (r, d2, m')"
    using g d(1) by (auto simp: lru_get_def rbind_def Let_def split: sum.splits)
  show ?thesis by (rule dqht_insert_frame [OF di k nk ins])
qed

lemma lru_request_frame:
  assumes inv: "lru_inv (c, m)" and k: "wf_key k" "map_of (lru_entries c) k = None" and cap: "0 < lru_cache_size c"
    and g: "lru_request m c (Some k) (Some v) = Inr (r, ev, c', m')"
  shows "\<exists>n \<ge> allocs m. m' = m\<lparr>allocs := n\<rparr>"
proof -
  note i = lru_invD [OF inv]
  have nk: "k \<notin> dq_keys (lru_dqht c)" using k(2) by (simp add: lru_entries_def map_of_eq_None_iff)
  show ?thesis
  proof (cases "lru_cache_size c \<le> ht_count (dq_ht (lru_dqht c))")
    case False
    then obtain r2 d2 where ins: "dqht_insert m (lru_dqht c) (Some k) (Some v) = Inr (r2, d2, m')"
      using g by (auto simp: lru_request_def rbind_def Let_def split: sum.splits)
    show ?thesis by (rule dqht_insert_frame [OF i(1) k(1) nk ins])
  next
    case True
    then obtain x xs where x: "lru_entries c = x # xs" using i(5) cap by (cases "lru_entries c") auto
    then obtain s1 where s1: "dq_pop (lru_dqht c, m) = Inr (Some (snd x), s1)" "dq_inv s1" "dq_entries (fst s1) = xs"
      using dq.pop_cons [OF i(1), of "fst x" "snd x" xs] by (auto simp: lru_entries_def)
    obtain d where d: "s1 = (d, m)" "dqht_pop_front (lru_dqht c) = Inr (Some (snd x), d)"
      using s1(1) by (cases s1) (simp add: dq_pop_eq)
    have nd: "k \<notin> dq_keys d" using nk s1(3) x d(1) by (auto simp: lru_entries_def)
    have dinv: "dq_inv (d, m)" using s1(2) d(1) by simp
    obtain r2 d2 where ins: "dqht_insert m d (Some k) (Some v) = Inr (r2, d2, m')"
      using g True d(2) by (auto simp: lru_request_def rbind_def Let_def split: sum.splits)
    show ?thesis by (rule dqht_insert_frame [OF dinv k(1) nd ins])
  qed
qed

lemma lru_create_frame:
  assumes "lru_create m n cap opts = Inr (r, m')"
  shows "\<exists>k \<ge> allocs m. m' = m\<lparr>allocs := k\<rparr>"
proof -
  have "allocs m \<le> allocs m' \<and> m' = m\<lparr>allocs := allocs m'\<rparr>"
    using assms by (auto simp: lru_create_def dqht_create_def ht_create_def am_malloc_def am_calloc_def Let_def
      split: option.splits if_splits prod.splits)
  then show ?thesis by blast
qed

lemma lru_inv_memory:
  assumes "lru_inv (c, m)" and "allocs m \<le> allocs m'" and "alloc_fails m' = alloc_fails m"
  shows "lru_inv (c, m')"
  using assms by (auto simp: lru_inv_def dq_inv_def ht_owned_def never_fails_def)

section \<open>Copies in memory\<close>

text \<open>
  All requested values are equal: one struct \<open>r\<close> with the postings \<open>ps\<close>.  The memory is the
  one before the run and, for every cached value \<open>v\<close>, a copy of the struct at \<open>v\<close> with its
  postings behind it, and nothing else.
\<close>

definition holds :: "'z dl_mem_scheme \<Rightarrow> Result \<Rightarrow> PostIt list \<Rightarrow> 'z dl_mem_scheme \<Rightarrow> (bytes \<times> addr) list \<Rightarrow> bool" where
  "holds m0 r ps m es \<longleftrightarrow> never_fails m \<and> distinct (map snd es)
     \<and> (\<forall>a. a \<notin> snd ` set es \<longrightarrow> result_at m a = result_at m0 a)
     \<and> (\<forall>b. b \<notin> Suc ` snd ` set es \<longrightarrow> posts_at m b = posts_at m0 b)
     \<and> (\<forall>v \<in> snd ` set es. result_at m0 v = None \<and> posts_at m0 (Suc v) = None \<and> Suc v < allocs m
          \<and> result_at m v = Some (copied r (match_count r) (Suc v)) \<and> posts_at m (Suc v) = Some (take (match_count r) ps))
     \<and> (\<forall>a \<ge> allocs m. result_at m0 a = None \<and> posts_at m0 a = None)"

lemma holds_facts:
  assumes "holds m0 r ps m es"
  shows "never_fails m" "distinct (map snd es)" "\<forall>a. a \<notin> snd ` set es \<longrightarrow> result_at m a = result_at m0 a"
    "\<forall>b. b \<notin> Suc ` snd ` set es \<longrightarrow> posts_at m b = posts_at m0 b"
    "\<forall>v \<in> snd ` set es. result_at m0 v = None \<and> posts_at m0 (Suc v) = None \<and> Suc v < allocs m
          \<and> result_at m v = Some (copied r (match_count r) (Suc v)) \<and> posts_at m (Suc v) = Some (take (match_count r) ps)"
    "\<forall>a \<ge> allocs m. result_at m0 a = None \<and> posts_at m0 a = None"
  using assms unfolding holds_def by - (elim conjE, assumption)+

lemmas holdsD = holds_facts(1,2) holds_facts(3-6) [rule_format]

lemma holdsI:
  assumes "never_fails m" and "distinct (map snd es)" and "\<And>a. a \<notin> snd ` set es \<Longrightarrow> result_at m a = result_at m0 a"
    and "\<And>b. b \<notin> Suc ` snd ` set es \<Longrightarrow> posts_at m b = posts_at m0 b"
    and "\<And>v. v \<in> snd ` set es \<Longrightarrow> result_at m0 v = None \<and> posts_at m0 (Suc v) = None \<and> Suc v < allocs m
          \<and> result_at m v = Some (copied r (match_count r) (Suc v)) \<and> posts_at m (Suc v) = Some (take (match_count r) ps)"
    and "\<And>a. allocs m \<le> a \<Longrightarrow> result_at m0 a = None \<and> posts_at m0 a = None"
  shows "holds m0 r ps m es"
  unfolding holds_def using assms(1,2) assms(3-6) [rule_format] by (intro conjI allI ballI impI; simp)

text \<open>Counting allocations, and reordering the entries, change nothing.\<close>

lemma holds_allocs:
  assumes h: "holds m0 r ps m es" and n: "allocs m \<le> n"
  shows "holds m0 r ps (m\<lparr>allocs := n\<rparr>) es"
proof -
  note d = holdsD [OF h]
  show ?thesis
  proof (rule holdsI)
    show "result_at m0 v = None \<and> posts_at m0 (Suc v) = None \<and> Suc v < allocs (m\<lparr>allocs := n\<rparr>)
      \<and> result_at (m\<lparr>allocs := n\<rparr>) v = Some (copied r (match_count r) (Suc v))
      \<and> posts_at (m\<lparr>allocs := n\<rparr>) (Suc v) = Some (take (match_count r) ps)" if "v \<in> snd ` set es" for v
      using d(5) [OF that] n by simp
  qed (use d(1-4,6) n in \<open>simp_all add: never_fails_def\<close>)
qed

lemma holds_perm:
  assumes "holds m0 r ps m es" and "set es' = set es" and "distinct (map snd es')"
  shows "holds m0 r ps m es'"
  using assms unfolding holds_def by simp

lemma holds_copy:
  assumes h: "holds m0 r ps m es" and a: "result_ok m0 a r ps"
  shows "\<exists>m'. result_copy m a = Inr (Some (allocs m), m') \<and> holds m0 r ps m' (es @ [(k, allocs m)])
    \<and> allocs m \<le> allocs m' \<and> alloc_fails m' = alloc_fails m"
proof -
  note d = holdsD [OF h]
  obtain b where b: "result_at m0 a = Some r" "results r = Some b" "posts_at m0 b = Some ps" "match_count r \<le> length ps"
    "match_count r * 16 < 2 ^ 64" using a by (auto simp: result_ok_def)
  have na: "a \<notin> snd ` set es" using d(5) b(1) by force
  have nb: "b \<notin> Suc ` snd ` set es" using d(5) b(3) by force
  have ok: "result_ok m a r ps" using d(3) [OF na] d(4) [OF nb] b by (simp add: result_ok_def)
  have cc: "copy_count r (2 ^ 64 - 1) = match_count r" using b(5) by (simp add: copy_count_def)
  let ?v = "allocs m"
  let ?m = "m\<lparr>allocs := Suc (Suc ?v), result_at := (result_at m)(?v \<mapsto> copied r (match_count r) (Suc ?v)),
      posts_at := (posts_at m)(Suc ?v \<mapsto> take (match_count r) ps)\<rparr>"
  have r: "result_copy m a = Inr (Some ?v, ?m)"
    using result_copy_sized_ok [OF d(1) ok, of "2 ^ 64 - 1"] unfolding result_copy_def cc .
  have v: "?v \<notin> snd ` set es" "Suc ?v \<notin> Suc ` snd ` set es" using d(5) by force+
  have old: "u \<noteq> ?v" if "u \<in> snd ` set es" for u using v that by blast
  have "never_fails ?m" using d(1) by (simp add: never_fails_def)
  moreover have "distinct (map snd (es @ [(k, ?v)]))" using d(2) v(1) by simp
  moreover have "result_at ?m x = result_at m0 x" if "x \<notin> snd ` set (es @ [(k, ?v)])" for x using d(3) [of x] that by simp
  moreover have "posts_at ?m x = posts_at m0 x" if "x \<notin> Suc ` snd ` set (es @ [(k, ?v)])" for x using d(4) [of x] that by auto
  moreover have "result_at m0 u = None \<and> posts_at m0 (Suc u) = None \<and> Suc u < allocs ?m
          \<and> result_at ?m u = Some (copied r (match_count r) (Suc u)) \<and> posts_at ?m (Suc u) = Some (take (match_count r) ps)"
    if "u \<in> snd ` set (es @ [(k, ?v)])" for u
  proof (cases "u = ?v")
    case True
    then show ?thesis using d(6) [of ?v] d(6) [of "Suc ?v"] by simp
  next
    case False
    then have "u \<in> snd ` set es" using that by auto
    from d(5) [OF this] False show ?thesis by simp
  qed
  moreover have "result_at m0 x = None \<and> posts_at m0 x = None" if "allocs ?m \<le> x" for x using d(6) [of x] that by simp
  ultimately have "holds m0 r ps ?m (es @ [(k, ?v)])" by (rule holdsI)
  with r show ?thesis by (intro exI [of _ ?m]) simp
qed

lemma holds_destroy:
  assumes h: "holds m0 r ps m ((k, v) # es)"
  shows "\<exists>m'. result_destroy m (Some v) = Inr m' \<and> holds m0 r ps m' es \<and> allocs m' = allocs m \<and> alloc_fails m' = alloc_fails m"
proof -
  note d = holdsD [OF h]
  have v: "result_at m0 v = None" "posts_at m0 (Suc v) = None" "result_at m v = Some (copied r (match_count r) (Suc v))"
    "posts_at m (Suc v) = Some (take (match_count r) ps)" using d(5) [of v] by simp_all
  let ?m = "m\<lparr>posts_at := (posts_at m)(Suc v := None), result_at := (result_at m)(v := None)\<rparr>"
  have r: "result_destroy m (Some v) = Inr ?m"
    using v by (simp add: result_destroy_def load_result_def copied_def free_posts_def free_result_def)
  have nv: "v \<notin> snd ` set es" using d(2) by simp
  have "never_fails ?m" using d(1) by (simp add: never_fails_def)
  moreover have "distinct (map snd es)" using d(2) by simp
  moreover have "result_at ?m x = result_at m0 x" if "x \<notin> snd ` set es" for x using d(3) [of x] that v(1) by simp
  moreover have "posts_at ?m x = posts_at m0 x" if "x \<notin> Suc ` snd ` set es" for x using d(4) [of x] that v(2) by auto
  moreover have "result_at m0 u = None \<and> posts_at m0 (Suc u) = None \<and> Suc u < allocs ?m
          \<and> result_at ?m u = Some (copied r (match_count r) (Suc u)) \<and> posts_at ?m (Suc u) = Some (take (match_count r) ps)"
    if u: "u \<in> snd ` set es" for u
  proof -
    have "u \<noteq> v" using u nv by blast
    then show ?thesis using d(5) [of u] u by simp
  qed
  moreover have "result_at m0 x = None \<and> posts_at m0 x = None" if "allocs ?m \<le> x" for x using d(6) [of x] that by simp
  ultimately have "holds m0 r ps ?m es" by (rule holdsI)
  with r show ?thesis by (intro exI [of _ ?m]) simp
qed

section \<open>One query\<close>

type_synonym 'z lru_driver_state =
  "('z dl_mem_scheme LRUCache, 'z, addr comparator option option) driver_state"

lemma lru_cache_get:
  assumes "handlers c = LRU_CACHE_BACKING_HANDLERS junk" and "lock_good (rwlock c)"
    and "lru_get m (backing c) (Some k) = Inr (v, b, m')"
  shows "\<exists>l. cache_get m c (Some k) = Inr (v, None, c\<lparr>rwlock := l, backing := b\<rparr>, m') \<and> lock_good l \<and> lk_mode l = Unlocked"
  using assms by (intro exI [of _ "(rwlock c)\<lparr>lk_calls := Suc (Suc (lk_calls (rwlock c))), lk_mode := Unlocked\<rparr>"])
    (simp add: cache_get_def lock_defs pthread_call_def lock_good_def Let_def LRU_CACHE_BACKING_HANDLERS_def)

lemma lru_cache_request:
  assumes "handlers c = LRU_CACHE_BACKING_HANDLERS junk" and "lock_good (rwlock c)"
    and "lru_request m (backing c) (Some k) v = Inr (r, ev, b, m')"
  shows "\<exists>l. cache_request m c (Some k) v = Inr (r, ev, c\<lparr>rwlock := l, backing := b\<rparr>, m') \<and> lock_good l \<and> lk_mode l = Unlocked"
  using assms by (intro exI [of _ "(rwlock c)\<lparr>lk_calls := Suc (Suc (lk_calls (rwlock c))), lk_mode := Unlocked\<rparr>"])
    (simp add: cache_request_def lock_defs pthread_call_def lock_good_def Let_def LRU_CACHE_BACKING_HANDLERS_def)

lemma lru_cache_is_full:
  assumes "handlers c = LRU_CACHE_BACKING_HANDLERS junk" and "lock_good (rwlock c)"
  shows "\<exists>l. cache_is_full c = Inr (lru_is_full (backing c), c\<lparr>rwlock := l\<rparr>) \<and> lock_good l \<and> lk_mode l = Unlocked"
  using assms by (intro exI [of _ "(rwlock c)\<lparr>lk_calls := Suc (Suc (lk_calls (rwlock c))), lk_mode := Unlocked\<rparr>"])
    (simp add: cache_is_full_def lock_defs pthread_call_def lock_good_def Let_def LRU_CACHE_BACKING_HANDLERS_def)

text \<open>The states between two queries, and the effect of a query on the keys, oldest first.\<close>

definition lru_driver :: "int \<Rightarrow> nat \<Rightarrow> 'z dl_mem_scheme \<Rightarrow> Result \<Rightarrow> PostIt list \<Rightarrow> 'z lru_driver_state \<Rightarrow> bool" where
  "lru_driver junk cap m0 r ps s \<longleftrightarrow> handlers (fst s) = LRU_CACHE_BACKING_HANDLERS junk \<and> lock_good (rwlock (fst s))
     \<and> lk_mode (rwlock (fst s)) = Unlocked \<and> lru_inv (backing (fst s), snd s) \<and> lru_cache_size (backing (fst s)) = cap
     \<and> holds m0 r ps (snd s) (lru_entries (backing (fst s)))"

definition cached_keys :: "'z lru_driver_state \<Rightarrow> bytes list" where
  "cached_keys s = map fst (lru_entries (backing (fst s)))"

definition recent :: "nat \<Rightarrow> 'a list \<Rightarrow> 'a list" where
  "recent cap xs = drop (length xs - cap) xs"

definition touch :: "nat \<Rightarrow> 'a \<Rightarrow> 'a list \<Rightarrow> 'a list" where
  "touch cap k ks = recent cap (removeAll k ks @ [k])"

lemma map_fst_del_key: "map fst (del_key k es) = removeAll k (map fst es)"
  by (induction es) (auto simp: del_key_def)

lemma lru_entries_distinct: "lru_inv (c, m) \<Longrightarrow> distinct (map fst (lru_entries c))"
  using dq_entries_distinct [OF lru_invD(4)] unfolding lru_entries_def by blast

lemma lru_driver_get:
  assumes h: "lru_driver junk cap m0 r ps (c, m)" and k: "wf_key k"
  shows "\<exists>c' m'. cache_get m c (Some k) = Inr (lru_cached (backing c) k, None, c', m') \<and> lru_driver junk cap m0 r ps (c', m')
    \<and> (lru_cached (backing c) k = None \<longrightarrow> cached_keys (c', m') = cached_keys (c, m))
    \<and> (lru_cached (backing c) k \<noteq> None \<longrightarrow> cached_keys (c', m') = removeAll k (cached_keys (c, m)) @ [k])"
proof -
  note d = h [unfolded lru_driver_def fst_conv snd_conv]
  have inv: "lru_inv (backing c, m)" using d by blast
  show ?thesis
  proof (cases "map_of (lru_entries (backing c)) k")
    case None
    from lru_get_miss [OF inv k None] lru_cache_get [of c junk m k] d obtain l where
      "cache_get m c (Some k) = Inr (None, None, c\<lparr>rwlock := l, backing := backing c\<rparr>, m)" "lock_good l" "lk_mode l = Unlocked" by blast
    then show ?thesis using d None by (auto simp: lru_driver_def cached_keys_def lru_cached_def)
  next
    case (Some v)
    obtain b m' where g: "lru_get m (backing c) (Some k) = Inr (Some v, b, m')" "lru_inv (b, m')"
      "lru_cache_size b = lru_cache_size (backing c)" "lru_entries b = del_key k (lru_entries (backing c)) @ [(k, v)]"
      using lru_get_hit [OF inv k Some] by blast
    obtain l where l: "cache_get m c (Some k) = Inr (Some v, None, c\<lparr>rwlock := l, backing := b\<rparr>, m')" "lock_good l" "lk_mode l = Unlocked"
      using lru_cache_get [OF _ _ g(1)] d by blast
    obtain n where n: "allocs m \<le> n" "m' = m\<lparr>allocs := n\<rparr>" using lru_get_frame [OF inv k g(1)] by blast
    have hs: "holds m0 r ps m (lru_entries (backing c))" using d by blast
    have mem: "(k, v) \<in> set (lru_entries (backing c))" using Some by (rule map_of_SomeD)
    have dk: "distinct (map fst (lru_entries (backing c)))" by (rule lru_entries_distinct [OF inv])
    have st: "set (lru_entries b) = set (lru_entries (backing c))"
      using mem unfolding g(4) by (auto simp: del_key_def dest: eq_key_imp_eq_value [OF dk])
    have "distinct (map snd (lru_entries b))"
    proof -
      have "distinct (map snd (del_key k (lru_entries (backing c))))"
        using holdsD(2) [OF hs] unfolding del_key_def by (rule distinct_map_filter)
      moreover have "v \<notin> snd ` set (del_key k (lru_entries (backing c)))"
      proof
        assume "v \<in> snd ` set (del_key k (lru_entries (backing c)))"
        then obtain k' where "(k', v) \<in> set (lru_entries (backing c))" "k' \<noteq> k" by (auto simp: del_key_def)
        moreover have "inj_on snd (set (lru_entries (backing c)))" using holdsD(2) [OF hs] by (simp add: distinct_map)
        ultimately show False using inj_onD [of snd _ "(k', v)" "(k, v)"] mem by simp
      qed
      ultimately show ?thesis by (simp add: g(4))
    qed
    from holds_perm [OF holds_allocs [OF hs n(1)] st this] have "holds m0 r ps m' (lru_entries b)" unfolding n(2) .
    then have "lru_driver junk cap m0 r ps (c\<lparr>rwlock := l, backing := b\<rparr>, m')"
      using d g(2,3) l(2,3) by (simp add: lru_driver_def)
    moreover have "cached_keys (c\<lparr>rwlock := l, backing := b\<rparr>, m') = removeAll k (cached_keys (c, m)) @ [k]"
      using g(4) by (simp add: cached_keys_def map_fst_del_key)
    ultimately show ?thesis using l(1) Some by (simp add: lru_cached_def)
  qed
qed

lemma lru_driver_request:
  assumes h: "lru_driver junk cap m0 r ps (c, m)" and k: "wf_key k" "lru_cached (backing c) k = None" and cap: "0 < cap"
    and a: "result_ok m0 a r ps"
  shows "\<exists>copy m3 code ev c2 m4 m5. result_copy m a = Inr (copy, m3) \<and> cache_request m3 c (Some k) copy = Inr (code, Some ev, c2, m4)
    \<and> code \<noteq> - 1 \<and> result_destroy m4 ev = Inr m5 \<and> lru_driver junk cap m0 r ps (c2, m5)
    \<and> cached_keys (c2, m5) = recent cap (cached_keys (c, m) @ [k])"
proof -
  note d = h [unfolded lru_driver_def fst_conv snd_conv]
  have inv: "lru_inv (backing c, m)" and hs: "holds m0 r ps m (lru_entries (backing c))" and size: "lru_cache_size (backing c) = cap"
    using d by blast+
  have nk: "map_of (lru_entries (backing c)) k = None" using k(2) by (simp add: lru_cached_def)
  let ?v = "allocs m" and ?es = "lru_entries (backing c)"
  obtain m3 where m3: "result_copy m a = Inr (Some ?v, m3)" "holds m0 r ps m3 (?es @ [(k, ?v)])" "allocs m \<le> allocs m3"
    "alloc_fails m3 = alloc_fails m" using holds_copy [OF hs a, of k] by blast
  have inv3: "lru_inv (backing c, m3)" by (rule lru_inv_memory [OF inv m3(3,4)])
  have pos: "0 < lru_cache_size (backing c)" using size cap by simp
  obtain b m4 where req: "lru_request m3 (backing c) (Some k) (Some ?v) = Inr (if lru_is_full (backing c) then 1 else 0,
      Some (if lru_is_full (backing c) then Some (snd (hd ?es)) else None), b, m4)"
    "lru_inv (b, m4)" "lru_cache_size b = lru_cache_size (backing c)"
    "lru_entries b = (if lru_is_full (backing c) then tl ?es else ?es) @ [(k, ?v)]"
    using lru_request_new [OF inv3 k(1) nk pos, of ?v] by blast
  obtain n where n: "allocs m3 \<le> n" "m4 = m3\<lparr>allocs := n\<rparr>" using lru_request_frame [OF inv3 k(1) nk pos req(1)] by blast
  obtain l where l: "cache_request m3 c (Some k) (Some ?v) = Inr (if lru_is_full (backing c) then 1 else 0,
      Some (if lru_is_full (backing c) then Some (snd (hd ?es)) else None), c\<lparr>rwlock := l, backing := b\<rparr>, m4)"
    "lock_good l" "lk_mode l = Unlocked" using lru_cache_request [OF _ _ req(1)] d by blast
  have h4: "holds m0 r ps m4 (?es @ [(k, ?v)])" using holds_allocs [OF m3(2) n(1)] n(2) by simp
  have full: "lru_is_full (backing c) \<longleftrightarrow> length ?es = cap"
    using lru_invD(2,5) [OF inv] size by (auto simp: lru_is_full_def)
  have len: "length ?es \<le> cap" using lru_invD(2) [OF inv] size by simp
  obtain m5 where m5: "result_destroy m4 (if lru_is_full (backing c) then Some (snd (hd ?es)) else None) = Inr m5"
    "holds m0 r ps m5 (lru_entries b)" "allocs m5 = allocs m4" "alloc_fails m5 = alloc_fails m4"
  proof (cases "lru_is_full (backing c)")
    case True
    then obtain x xs where x: "?es = x # xs" using full cap by (cases ?es) auto
    then have "holds m0 r ps m4 ((fst x, snd x) # xs @ [(k, ?v)])" using h4 by simp
    from holds_destroy [OF this] that True x req(4) show ?thesis by auto
  next
    case False
    then have "result_destroy m4 (if lru_is_full (backing c) then Some (snd (hd ?es)) else None) = Inr m4" by (simp add: result_destroy_def)
    moreover have "holds m0 r ps m4 (lru_entries b)" using h4 False req(4) by simp
    ultimately show ?thesis using that by blast
  qed
  have "lru_driver junk cap m0 r ps (c\<lparr>rwlock := l, backing := b\<rparr>, m5)"
    using d l(2,3) req(3) size m5(2) lru_inv_memory [OF req(2) _ m5(4)] m5(3) by (simp add: lru_driver_def)
  moreover have "cached_keys (c\<lparr>rwlock := l, backing := b\<rparr>, m5) = recent cap (cached_keys (c, m) @ [k])"
  proof (cases "length ?es = cap")
    case True
    then have "?es \<noteq> []" using cap by auto
    then show ?thesis using True req(4) full by (cases ?es) (simp_all add: cached_keys_def recent_def)
  next
    case False
    then show ?thesis using req(4) full len by (simp add: cached_keys_def recent_def)
  qed
  moreover have "(if lru_is_full (backing c) then 1 else 0 :: int) \<noteq> - 1" by simp
  ultimately show ?thesis using m3(1) l(1) m5(1) by blast
qed

lemma destroy_evicted_None [simp]: "destroy_evicted cacheType m None = Inr m"
  by (simp add: destroy_evicted_def)

lemma query_entry_run:
  assumes h: "lru_driver junk cap m0 r ps s" and k: "wf_key k" and cap: "0 < cap" and a: "result_ok m0 a r ps" and t: "cacheType \<noteq> 0"
  shows "\<exists>s'. query_entry cacheType k a s = Inr s' \<and> lru_driver junk cap m0 r ps s' \<and> cached_keys s' = touch cap k (cached_keys s)"
proof -
  obtain c m where s: "s = (c, m)" by fastforce
  obtain c1 m1 where g: "cache_get m c (Some k) = Inr (lru_cached (backing c) k, None, c1, m1)" "lru_driver junk cap m0 r ps (c1, m1)"
    "lru_cached (backing c) k = None \<longrightarrow> cached_keys (c1, m1) = cached_keys (c, m)"
    "lru_cached (backing c) k \<noteq> None \<longrightarrow> cached_keys (c1, m1) = removeAll k (cached_keys (c, m)) @ [k]"
    using lru_driver_get [OF h [unfolded s] k] by (elim exE conjE) (rule that)
  have len: "length (cached_keys s) \<le> cap" using h lru_invD(2) s by (fastforce simp: lru_driver_def cached_keys_def)
  have mem: "lru_cached (backing c) k = None \<longleftrightarrow> k \<notin> set (cached_keys s)"
    by (simp add: lru_cached_def cached_keys_def s map_of_eq_None_iff)
  show ?thesis
  proof (cases "lru_cached (backing c) k")
    case (Some v)
    then have "length (removeAll k (cached_keys s)) < length (cached_keys s)"
      using mem by (auto intro: length_removeAll_less)
    then have "touch cap k (cached_keys s) = removeAll k (cached_keys s) @ [k]" using len by (simp add: touch_def recent_def)
    then show ?thesis using g Some s by (simp add: query_entry_def stored_pointer_def destroy_evicted_def)
  next
    case None
    have "set (cached_keys (c1, m1)) = set (cached_keys s)" using g(3) None s by simp
    then have lc1: "lru_cached (backing c1) k = None"
      using None mem by (simp add: lru_cached_def cached_keys_def map_of_eq_None_iff)
    obtain copy m3 code ev c2 m4 m5 where q: "result_copy m1 a = Inr (copy, m3)" "cache_request m3 c1 (Some k) copy = Inr (code, Some ev, c2, m4)"
      "code \<noteq> - 1" "result_destroy m4 ev = Inr m5" "lru_driver junk cap m0 r ps (c2, m5)"
      "cached_keys (c2, m5) = recent cap (cached_keys (c1, m1) @ [k])"
      using lru_driver_request [OF g(2) k lc1 cap a] by blast
    obtain str where str: "key_sprint (Some k) = Inr str" using wf_key_sprint [OF k] by blast
    have "destroy_evicted cacheType m4 ev = Inr m5"
      using q(4) t by (cases ev) (simp_all add: destroy_evicted_def result_destroy_def)
    moreover obtain l where l: "cache_is_full c2 = Inr (lru_is_full (backing c2), c2\<lparr>rwlock := l\<rparr>)" "lock_good l" "lk_mode l = Unlocked"
      using lru_cache_is_full [of c2 junk] q(5) unfolding lru_driver_def fst_conv by blast
    ultimately have "query_entry cacheType k a s = Inr (c2\<lparr>rwlock := l\<rparr>, m5)"
      using g(1) None q(1-3) str by (simp add: query_entry_def s stored_pointer_def)
    moreover have "lru_driver junk cap m0 r ps (c2\<lparr>rwlock := l\<rparr>, m5)" using q(5) l(2,3) by (simp add: lru_driver_def)
    moreover have "cached_keys (c2\<lparr>rwlock := l\<rparr>, m5) = touch cap k (cached_keys s)"
      using q(6) g(3) None mem s by (simp add: cached_keys_def touch_def)
    ultimately show ?thesis by blast
  qed
qed

lemma lookup_entry_run:
  assumes h: "lru_driver junk cap m0 r ps s" and k: "wf_key k"
  shows "\<exists>s'. lookup_entry cacheType k s = Inr s' \<and> lru_driver junk cap m0 r ps s' \<and> set (cached_keys s') \<subseteq> set (cached_keys s)"
proof -
  obtain c m where s: "s = (c, m)" by fastforce
  obtain c1 m1 where g: "cache_get m c (Some k) = Inr (lru_cached (backing c) k, None, c1, m1)" "lru_driver junk cap m0 r ps (c1, m1)"
    "lru_cached (backing c) k = None \<longrightarrow> cached_keys (c1, m1) = cached_keys (c, m)"
    "lru_cached (backing c) k \<noteq> None \<longrightarrow> cached_keys (c1, m1) = removeAll k (cached_keys (c, m)) @ [k]"
    using lru_driver_get [OF h [unfolded s] k] by (elim exE conjE) (rule that)
  obtain str where str: "key_sprint (Some k) = Inr str" using wf_key_sprint [OF k] by blast
  have mem: "lru_cached (backing c) k = None \<longleftrightarrow> k \<notin> set (cached_keys s)"
    by (simp add: lru_cached_def cached_keys_def s map_of_eq_None_iff)
  have "set (cached_keys (c1, m1)) \<subseteq> set (cached_keys s)"
  proof (cases "lru_cached (backing c) k = None")
    case True
    then show ?thesis using g(3) s by simp
  next
    case False
    then show ?thesis using g(4) s mem by auto
  qed
  moreover have "lookup_entry cacheType k s = Inr (c1, m1)"
    using g(1) str by (simp add: lookup_entry_def s stored_pointer_def destroy_evicted_def)
  ultimately show ?thesis using g(2) by blast
qed

section \<open>All queries of a thread\<close>

text \<open>A loop keeps an invariant, and acts on an abstraction of the state as the fold of its steps.\<close>

lemma for_each_run:
  assumes "\<And>x s. x \<in> set xs \<Longrightarrow> I s \<Longrightarrow> \<exists>s'. f x s = Inr s' \<and> I s' \<and> g s' = h x (g s)" and "I s"
  shows "\<exists>s'. for_each f xs s = Inr s' \<and> I s' \<and> g s' = fold h xs (g s)"
  using assms
proof (induction xs arbitrary: s)
  case (Cons x xs)
  obtain s1 where s1: "f x s = Inr s1" "I s1" "g s1 = h x (g s)" using Cons.prems(1) [of x s] Cons.prems(2) by auto
  have step: "\<exists>s'. f y t = Inr s' \<and> I s' \<and> g s' = h y (g t)" if "y \<in> set xs" "I t" for y t
    by (rule Cons.prems(1)) (use that in simp_all)
  from Cons.IH [OF step s1(2)] s1 show ?case by auto
qed simp

text \<open>What a sequence of queries leaves: the last \<open>cap\<close> keys in the order of their last query.\<close>

lemma remdups_removeAll: "remdups (removeAll q xs @ q # ys) = remdups (xs @ q # ys)"
  by (induction xs) auto

lemma recent_tl: "cap < length xs \<Longrightarrow> recent cap (tl xs) = recent cap xs"
  by (cases xs) (auto simp: recent_def Suc_diff_le)

lemma remdups_recent:
  assumes "distinct xs" and "length xs = Suc cap"
  shows "recent cap (remdups (tl xs @ ys)) = recent cap (remdups (xs @ ys))"
proof (cases xs)
  case (Cons x zs)
  have "cap < length (remdups (xs @ ys))"
    using card_mono [of "set (xs @ ys)" "set xs"] distinct_card [OF assms(1)] assms(2) by (simp add: length_remdups_card_conv)
  then show ?thesis using Cons assms(1) recent_tl [of cap "remdups (xs @ ys)"] by auto
qed (use assms in simp)

lemma touch_run:
  assumes "distinct ks" and "length ks \<le> cap" and "0 < cap"
  shows "fold (touch cap) qs ks = recent cap (remdups (ks @ qs))"
  using assms
proof (induction qs arbitrary: ks)
  case Nil
  then show ?case by (simp add: recent_def distinct_remdups_id)
next
  case (Cons q qs)
  let ?xs = "removeAll q ks @ [q]"
  have d: "distinct ?xs" using Cons.prems(1) by (simp add: distinct_removeAll)
  have l: "length ?xs \<le> Suc cap" using Cons.prems(2) le_trans [OF length_filter_le] by (simp add: removeAll_filter_not_eq)
  have t: "touch cap q ks = (if length ?xs = Suc cap then tl ?xs else ?xs)"
  proof -
    have "touch cap q ks = drop (length ?xs - cap) ?xs" by (simp only: touch_def recent_def)
    moreover have "length ?xs - cap = (if length ?xs = Suc cap then Suc 0 else 0)" using l by auto
    ultimately show ?thesis by (simp only: drop_Suc drop_0 if_distrib [of "\<lambda>n. drop n ?xs"])
  qed
  have "distinct (touch cap q ks)" "length (touch cap q ks) \<le> cap" unfolding t using d l by (auto simp: distinct_tl)
  from Cons.IH [OF this Cons.prems(3)]
  have "fold (touch cap) (q # qs) ks = recent cap (remdups (touch cap q ks @ qs))" by simp
  also have "\<dots> = recent cap (remdups (?xs @ qs))" unfolding t using remdups_recent [OF d, of cap qs] by auto
  also have "\<dots> = recent cap (remdups (ks @ q # qs))" using remdups_removeAll [of q ks qs] by simp
  finally show ?case .
qed

lemma for_each_inv:
  assumes "\<And>x s. x \<in> set xs \<Longrightarrow> I s \<Longrightarrow> \<exists>s'. f x s = Inr s' \<and> I s'" and "I s"
  shows "\<exists>s'. for_each f xs s = Inr s' \<and> I s'"
  using for_each_run [of xs I f "\<lambda>_. ()" "\<lambda>_ _. ()" s] assms by simp

lemma remdups_absorb: "set xs \<subseteq> set ys \<Longrightarrow> remdups (xs @ ys) = remdups ys"
  by (induction xs) auto

lemma cycle_ends:
  assumes "length xs = 10"
  shows "\<exists>ys. map (\<lambda>i. xs ! (i mod 10)) [0..<ENTRY_COUNT] = ys @ xs \<and> set ys \<subseteq> set xs"
proof -
  have "[0..<ENTRY_COUNT] = [0..<90] @ [90..<100]" using upt_add_eq_append [of 0 90 10] by (simp add: ENTRY_COUNT_def)
  moreover have "map (\<lambda>i. xs ! (i mod 10)) [90..<100] = xs"
  proof -
    have "[90..<100] = map (\<lambda>i. i + 90) [0..<10 :: nat]" using map_add_upt [of 90 10] by simp
    moreover have "xs ! ((i + 90) mod 10) = xs ! i" if "i \<in> set [0..<10]" for i
    proof -
      have "(i + 90) mod 10 = i" using that by simp presburger
      then show ?thesis by (simp only:)
    qed
    ultimately have "map (\<lambda>i. xs ! (i mod 10)) [90..<100] = map ((!) xs) [0..<10]" by (simp only: map_map o_def cong: map_cong)
    then show ?thesis using map_nth [of xs] assms by simp
  qed
  moreover have "set (map (\<lambda>i. xs ! (i mod 10)) [0..<90]) \<subseteq> set xs" using assms by auto
  ultimately show ?thesis by (metis map_append)
qed

lemma queryProcessor_run:
  fixes s :: "'z lru_driver_state"
  assumes h: "lru_driver junk cap m0 r ps s" and ks: "set (cached_keys s) \<subseteq> set to_store"
    and st: "length to_store = 10" "distinct to_store" "\<forall>k \<in> set to_store. wf_key k"
    and a: "\<forall>i < ENTRY_COUNT. result_ok m0 (values i) r ps" and cap: "0 < cap" and t: "cacheType \<noteq> 0"
  shows "\<exists>s'. queryProcessor cacheType to_store values s = Inr s' \<and> lru_driver junk cap m0 r ps s' \<and> cached_keys s' = recent cap to_store"
proof -
  let ?I = "\<lambda>s :: 'z lru_driver_state. lru_driver junk cap m0 r ps s \<and> set (cached_keys s) \<subseteq> set to_store"
  let ?key = "\<lambda>i. to_store ! (i mod 10)"
  let ?query = "\<lambda>i s. rbind (elem to_store (i mod 10)) (\<lambda>key. query_entry cacheType key (values i) s)"
  have key: "elem to_store (i mod 10) = Inr (?key i)" "wf_key (?key i)" "?key i \<in> set to_store" for i
    using st(1,3) by (simp_all add: elem_ok)
  have query: "\<exists>s'. ?query i s = Inr s' \<and> ?I s' \<and> cached_keys s' = touch cap (?key i) (cached_keys s)"
    if i: "i < ENTRY_COUNT" and s: "?I s" for i s
  proof -
    have "result_ok m0 (values i) r ps" using a i by blast
    then obtain s' where s': "query_entry cacheType (?key i) (values i) s = Inr s'" "lru_driver junk cap m0 r ps s'"
      "cached_keys s' = touch cap (?key i) (cached_keys s)"
      using query_entry_run [OF conjunct1 [OF s] key(2) cap _ t] by blast
    have "set (cached_keys s') \<subseteq> set (removeAll (?key i) (cached_keys s) @ [?key i])"
      unfolding s'(3) touch_def recent_def by (rule set_drop_subset)
    then have "set (cached_keys s') \<subseteq> set to_store" using s key(3) [of i] by auto
    then show ?thesis using s' key(1) by simp
  qed
  have inner: "\<exists>s'. for_each (\<lambda>j. ?query i) [1..<i + 1] s = Inr s' \<and> ?I s'" if "i < ENTRY_COUNT" "?I s" for i s
    using for_each_inv [of "[1..<i + 1]" ?I "\<lambda>j. ?query i" s] query [OF that(1)] that(2) by blast
  obtain s1 where s1: "for_each (\<lambda>i. for_each (\<lambda>j. ?query i) [1..<i + 1]) [0..<ENTRY_COUNT] s = Inr s1" "?I s1"
    using for_each_inv [of "[0..<ENTRY_COUNT]" ?I "\<lambda>i. for_each (\<lambda>j. ?query i) [1..<i + 1]" s] inner h ks by auto
  have lookup: "\<exists>s'. rbind (elem to_store (i mod 10)) (\<lambda>key. lookup_entry cacheType key s) = Inr s' \<and> ?I s'" if "?I s" for i s
    using lookup_entry_run [OF conjunct1 [OF that] key(2), of cacheType i] that key(1) by fastforce
  obtain s2 where s2: "for_each (\<lambda>i s. rbind (elem to_store (i mod 10)) (\<lambda>key. lookup_entry cacheType key s)) [0..<10] s1 = Inr s2" "?I s2"
    using for_each_inv [of "[0..<10]" ?I "\<lambda>i s. rbind (elem to_store (i mod 10)) (\<lambda>key. lookup_entry cacheType key s)" s1] lookup s1(2) by blast
  obtain s3 where s3: "for_each ?query [0..<ENTRY_COUNT] s2 = Inr s3" "?I s3"
    "cached_keys s3 = fold (\<lambda>i. touch cap (?key i)) [0..<ENTRY_COUNT] (cached_keys s2)"
    using for_each_run [of "[0..<ENTRY_COUNT]" ?I ?query cached_keys "\<lambda>i. touch cap (?key i)" s2] query s2(2) by auto
  have inv2: "lru_inv (backing (fst s2), snd s2)" "lru_cache_size (backing (fst s2)) = cap" using s2(2) by (simp_all add: lru_driver_def)
  have d: "distinct (cached_keys s2)" "length (cached_keys s2) \<le> cap"
    using lru_entries_distinct [OF inv2(1)] lru_invD(2) [OF inv2(1)] inv2(2) by (simp_all add: cached_keys_def)
  obtain ys where ys: "map ?key [0..<ENTRY_COUNT] = ys @ to_store" "set ys \<subseteq> set to_store" using cycle_ends [OF st(1)] by blast
  have "cached_keys s3 = fold (touch cap) (map ?key [0..<ENTRY_COUNT]) (cached_keys s2)" using s3(3) by (simp add: fold_map comp_def)
  also have "\<dots> = recent cap (remdups ((cached_keys s2 @ ys) @ to_store))" unfolding ys(1) touch_run [OF d cap] by simp
  also have "\<dots> = recent cap to_store" using s2(2) ys(2) st(2) remdups_absorb [of "cached_keys s2 @ ys" to_store] by (simp add: distinct_remdups_id)
  finally show ?thesis using s1(1) s2(1) s3(1,2) by (simp add: queryProcessor_def Let_def)
qed

section \<open>The test data\<close>

definition term_key :: "string \<times> string \<Rightarrow> bytes" where
  "term_key t = key_layout AND_OP (c_string (fst t)) (Some (c_string (snd t)))"

lemma create_keys_ok: "never_fails m \<Longrightarrow> create_keys ts m = Inr (map term_key ts, m\<lparr>allocs := allocs m + length ts\<rparr>)"
  by (induction ts arbitrary: m) (simp_all add: key_create_def am_malloc_ok term_key_def never_fails_def)

lemma terms_ok:
  "list_all (\<lambda>t. wf_parts AND_OP (c_string (fst t)) (Some (c_string (snd t)))) to_store_terms"
  "distinct (map (\<lambda>t. (c_string (fst t), c_string (snd t))) to_store_terms)" "length to_store_terms = 10"
  by code_simp+

lemma to_store_ok:
  "length (map term_key to_store_terms) = 10" "distinct (map term_key to_store_terms)" "\<forall>k \<in> set (map term_key to_store_terms). wf_key k"
proof -
  have w: "wf_parts AND_OP (c_string (fst t)) (Some (c_string (snd t)))" if "t \<in> set to_store_terms" for t
    using terms_ok(1) that by (simp add: list_all_iff)
  show "length (map term_key to_store_terms) = 10" by (simp add: terms_ok(3))
  show "\<forall>k \<in> set (map term_key to_store_terms). wf_key k" using wf_key_layout [OF w] by (auto simp: term_key_def)
  have "inj_on term_key (set to_store_terms)"
  proof (rule inj_onI)
    fix t u
    assume "t \<in> set to_store_terms" "u \<in> set to_store_terms" "term_key t = term_key u"
    then have "(c_string (fst t), c_string (snd t)) = (c_string (fst u), c_string (snd u))"
      using key_layout_inj [OF w w, of t u] by (simp add: term_key_def)
    moreover have "inj_on (\<lambda>t. (c_string (fst t), c_string (snd t))) (set to_store_terms)" using terms_ok(2) by (simp add: distinct_map)
    ultimately show "t = u" using \<open>t \<in> set to_store_terms\<close> \<open>u \<in> set to_store_terms\<close> by (auto dest: inj_onD)
  qed
  then show "distinct (map term_key to_store_terms)" using terms_ok(2) by (simp add: distinct_map)
qed

lemma createTestData_ok:
  fixes m :: "'z res_mem_scheme"
  assumes "never_fails m"
  shows "\<exists>m1. createTestData rnd values postings m = Inr (map term_key to_store_terms, m1) \<and> never_fails m1 \<and> allocs m1 = allocs m + 10
    \<and> posts_at m1 = (posts_at m)(postings \<mapsto> test_postings rnd)
    \<and> result_at m1 = (\<lambda>a. if a \<in> values ` {..<ENTRY_COUNT} then Some (test_value postings) else result_at m a)"
  using create_keys_ok [OF assms, of to_store_terms] assms terms_ok(3)
  by (simp add: createTestData_def never_fails_def fun_eq_iff)

lemma lru_front_create:
  fixes m :: "'z dl_mem_scheme"
  assumes "never_fails m" and "0 < n" and "n < 2 ^ 59" and "cap \<le> 2 ^ 56" and "lock_good l"
  shows "\<exists>c k. cache_create m l n cap (LRU_CACHE_BACKING_HANDLERS junk) None = Inr (Some c, m\<lparr>allocs := k\<rparr>) \<and> allocs m \<le> k
    \<and> handlers c = LRU_CACHE_BACKING_HANDLERS junk \<and> lock_good (rwlock c) \<and> lk_mode (rwlock c) = Unlocked
    \<and> lru_inv (backing c, m\<lparr>allocs := k\<rparr>) \<and> lru_cache_size (backing c) = cap \<and> lru_entries (backing c) = []"
proof -
  let ?m = "m\<lparr>allocs := Suc (allocs m)\<rparr>"
  have nf: "never_fails ?m" using assms(1) by (simp add: never_fails_def)
  obtain b m' where b: "lru_create ?m n cap None = Inr (Some b, m')" "lru_inv (b, m')" "lru_cache_size b = cap" "lru_entries b = []"
    using lru_create_ok [OF nf assms(2-4), of None] by auto
  obtain k where k: "Suc (allocs m) \<le> k" "m' = m\<lparr>allocs := k\<rparr>" using lru_create_frame [OF b(1)] by auto
  obtain l1 where l1: "htfh_rwlock_init l = (0, l1)" "lock_good l1" "lk_mode l1 = Unlocked"
    using assms(5) by (simp add: htfh_rwlock_init_def attr_call_def pthread_call_def lock_good_def EINVAL_def)
  have "cache_create m l n cap (LRU_CACHE_BACKING_HANDLERS junk) None =
      Inr (Some \<lparr>rwlock = l1, backing = b, handlers = LRU_CACHE_BACKING_HANDLERS junk\<rparr>, m\<lparr>allocs := k\<rparr>)"
    using assms(1) b(1) l1(1) k(2) by (simp add: cache_create_def am_malloc_ok LRU_CACHE_BACKING_HANDLERS_def)
  with b k l1 show ?thesis by auto
qed

lemma holds_doms:
  assumes "holds m0 r ps m es"
  shows "dom (result_at m) = dom (result_at m0) \<union> snd ` set es" "dom (posts_at m) = dom (posts_at m0) \<union> Suc ` snd ` set es"
proof -
  note d = holdsD [OF assms]
  have "a \<in> dom (result_at m) \<longleftrightarrow> a \<in> dom (result_at m0) \<union> snd ` set es" for a
    using d(3,5) [of a] by (cases "a \<in> snd ` set es") (auto simp: domIff)
  then show "dom (result_at m) = dom (result_at m0) \<union> snd ` set es" by blast
  have "a \<in> dom (posts_at m) \<longleftrightarrow> a \<in> dom (posts_at m0) \<union> Suc ` snd ` set es" for a
  proof (cases "a \<in> Suc ` snd ` set es")
    case True
    then obtain v where "a = Suc v" "v \<in> snd ` set es" by blast
    then show ?thesis using d(5) [of v] True by auto
  next
    case False
    then show ?thesis using d(4) [OF False] by (auto simp: domIff)
  qed
  then show "dom (posts_at m) = dom (posts_at m0) \<union> Suc ` snd ` set es" by blast
qed



section \<open>Two threads that miss the same key\<close>

text \<open>An operation that runs while all other threads are outside.\<close>

lemma run_alone:
  assumes r: "sys_reach hs x \<lparr>sy_lock = RW_Free, sy_state = y, sy_thread = (\<lambda>_. Outside), sy_log = l\<rparr>"
    and w: "needs_write c" and b: "cache_body hs c y = Inr (ret, z)"
  shows "sys_reach hs x \<lparr>sy_lock = RW_Free, sy_state = z, sy_thread = (\<lambda>_. Outside), sy_log = l @ [(c, ret)]\<rparr>"
proof -
  let ?s = "\<lparr>sy_lock = RW_Free, sy_state = y, sy_thread = (\<lambda>_. Outside), sy_log = l\<rparr>"
  have "sys_reach hs x (?s\<lparr>sy_lock := RW_Write, sy_thread := (sy_thread ?s)(0 := Inside c (sy_state ?s))\<rparr>)" (is "sys_reach hs x ?s1")
    by (rule sys_next [OF r], rule enter_write) (simp_all add: w)
  then have "sys_reach hs x (?s1\<lparr>sy_state := z, sy_thread := (sy_thread ?s1)(0 := Leaving c), sy_log := sy_log ?s1 @ [(c, ret)]\<rparr>)"
    (is "sys_reach hs x ?s2")
    by (rule sys_next, intro finish_write [where x = y]) (simp_all add: w b)
  then have "sys_reach hs x (?s2\<lparr>sy_lock := RW_Free, sy_thread := (sy_thread ?s2)(0 := Outside)\<rparr>)"
    by (rule sys_next, intro leave_write [where c = c]) (simp_all add: w)
  then show ?thesis by (simp add: fun_upd_idem)
qed

text \<open>A critical section that does not return stops every other thread.\<close>

lemma stuck_inside:
  assumes "cache_body hs c y = Inl e"
  shows "\<not> sys_step hs \<lparr>sy_lock = RW_Write, sy_state = y, sy_thread = (\<lambda>_. Outside)(t := Inside c y), sy_log = l\<rparr> s'"
  using assms by (auto elim!: sys_step.cases split: if_splits)

text \<open>Three live results at 5, 6 and 7.\<close>

definition race_mem :: res_mem where
  "race_mem = \<lparr>allocs = 10, alloc_fails = (\<lambda>_. False), result_at = (\<lambda>a. if a \<in> {5, 6, 7} then Some (test_value 0) else None),
     posts_at = Map.empty, order_at = Map.empty\<rparr>"

lemma lru_reinsert_hangs:
  "rbind (lru_create race_mem 8 4 None) (\<lambda>(c, m). rbind (deref c) (\<lambda>c.
   rbind (lru_request m c (Some key_a) (Some 5)) (\<lambda>(_, _, c, m).
   rbind (lru_request m c (Some key_i) (Some 6)) (\<lambda>(_, _, c, m).
     cache_body (LRU_CACHE_BACKING_HANDLERS 0) (CRequest key_a 7) (c, m))))) = Inl Hang"
  by (simp add: lru_create_def lru_request_def LRU_CACHE_BACKING_HANDLERS_def ht_create_def am_malloc_def am_calloc_def race_mem_def
      destroy_entry_def free_result_def dq_eval)


end
