(* ===== verification/Heap_Memory.thy ===== *)
theory Heap_Memory
  imports Locks
begin

text \<open>
  The memory both allocators of \<open>allocator/\<close> manage: a mapped region as bytes, the mutex and the
  error code.  Block headers are read and written through their addresses, as 8-byte
  little-endian fields, so that a header overlaps the memory of its neighbour exactly as in
  the program.  The handles of the two allocators extend this record.
\<close>

section \<open>Bytes\<close>

fun read_bytes :: "(nat \<Rightarrow> nat) \<Rightarrow> addr \<Rightarrow> nat \<Rightarrow> nat" where
  "read_bytes f p 0 = 0"
| "read_bytes f p (Suc n) = f p mod 256 + 256 * read_bytes f (Suc p) n"

fun write_bytes :: "(nat \<Rightarrow> nat) \<Rightarrow> addr \<Rightarrow> nat \<Rightarrow> nat \<Rightarrow> nat \<Rightarrow> nat" where
  "write_bytes f p 0 v = f"
| "write_bytes f p (Suc n) v = write_bytes (f(p := v mod 256)) (Suc p) n (v div 256)"

section \<open>State\<close>

record heap_state =
  alloc_errno :: AllocatorErrno
  mutex :: lock
  heap_size :: nat
  heap :: addr
  bytes_at :: "nat \<Rightarrow> nat"

abbreviation (input) NULL :: addr where
  "NULL \<equiv> 0"

text \<open>What \<open>mmap\<close> returns on failure.\<close>

abbreviation (input) MAP_FAILED :: addr where
  "MAP_FAILED \<equiv> 2 ^ 64 - 1"

definition set_alloc_errno :: "AllocatorErrno \<Rightarrow> 'a heap_state_scheme \<Rightarrow> 'a heap_state_scheme" where
  "set_alloc_errno e a = a\<lparr>alloc_errno := e\<rparr>"

definition mapped :: "'a heap_state_scheme \<Rightarrow> addr \<Rightarrow> bool" where
  "mapped a p \<longleftrightarrow> heap a \<noteq> MAP_FAILED \<and> heap a \<le> p \<and> p + 8 \<le> heap a + heap_size a"

definition load64 :: "'a heap_state_scheme \<Rightarrow> addr \<Rightarrow> nat res" where
  "load64 a p = (if mapped a p then Inr (read_bytes (bytes_at a) p 8) else Inl OutOfBounds)"

definition store64 :: "'a heap_state_scheme \<Rightarrow> addr \<Rightarrow> nat \<Rightarrow> 'a heap_state_scheme res" where
  "store64 a p v =
     (if mapped a p then Inr (a\<lparr>bytes_at := write_bytes (bytes_at a) p 8 v\<rparr>) else Inl OutOfBounds)"

text \<open>The mutex wrappers also set the error code of the allocator.\<close>

definition alloc_lock :: "'a heap_state_scheme \<Rightarrow> int \<times> 'a heap_state_scheme" where
  "alloc_lock a =
     (case htfh_lock_lock_handled (mutex a) of (r, l) \<Rightarrow>
        (r, a\<lparr>mutex := l, alloc_errno := if r = 0 then alloc_errno a else lk_errno l\<rparr>))"

definition alloc_unlock :: "'a heap_state_scheme \<Rightarrow> int \<times> 'a heap_state_scheme" where
  "alloc_unlock a =
     (case htfh_lock_unlock_handled (mutex a) of (r, l) \<Rightarrow>
        (r, a\<lparr>mutex := l, alloc_errno := if r = 0 then alloc_errno a else lk_errno l\<rparr>))"

text \<open>Unlocks and returns what the C code returns then.\<close>

definition unlock_return :: "'a heap_state_scheme \<Rightarrow> 'r \<Rightarrow> 'r \<Rightarrow> ('r \<times> 'a heap_state_scheme) res" where
  "unlock_return a ok failed = (case alloc_unlock a of (r, a1) \<Rightarrow> Inr (if r = 0 then ok else failed, a1))"

text \<open>\<open>memset\<close> and \<open>memcpy\<close> on the heap; both stay inside it.\<close>

definition in_heap :: "'a heap_state_scheme \<Rightarrow> addr \<Rightarrow> nat \<Rightarrow> bool" where
  "in_heap a p n \<longleftrightarrow> n = 0 \<or> (heap a \<noteq> MAP_FAILED \<and> heap a \<le> p \<and> p + n \<le> heap a + heap_size a)"

definition heap_memset :: "'a heap_state_scheme \<Rightarrow> addr \<Rightarrow> nat \<Rightarrow> nat \<Rightarrow> 'a heap_state_scheme res" where
  "heap_memset a p v n =
     (if in_heap a p n
      then Inr (a\<lparr>bytes_at := (\<lambda>x. if p \<le> x \<and> x < p + n then v mod 256 else bytes_at a x)\<rparr>)
      else Inl OutOfBounds)"

definition heap_memcpy :: "'a heap_state_scheme \<Rightarrow> addr \<Rightarrow> addr \<Rightarrow> nat \<Rightarrow> 'a heap_state_scheme res" where
  "heap_memcpy a dst src n =
     (if in_heap a dst n \<and> in_heap a src n
      then Inr (a\<lparr>bytes_at := (\<lambda>x. if dst \<le> x \<and> x < dst + n then bytes_at a (src + (x - dst)) else bytes_at a x)\<rparr>)
      else Inl OutOfBounds)"

section \<open>Laws of memory\<close>

lemma read_bytes_less: "read_bytes f p n < 256 ^ n"
proof (induction n arbitrary: p)
  case (Suc n)
  have "f p mod 256 < 256" by simp
  moreover have "Suc (read_bytes f (Suc p) n) \<le> 256 ^ n" using Suc [of "Suc p"] by simp
  ultimately show ?case by simp
qed simp

lemma write_bytes_other: "x < p \<or> p + n \<le> x \<Longrightarrow> write_bytes f p n v x = f x"
  by (induction f p n v rule: write_bytes.induct) auto

lemma read_bytes_cong: "(\<And>x. p \<le> x \<Longrightarrow> x < p + n \<Longrightarrow> f x = g x) \<Longrightarrow> read_bytes f p n = read_bytes g p n"
  by (induction n arbitrary: p) auto

lemma read_write_same: "read_bytes (write_bytes f p n v) p n = v mod 256 ^ n"
proof (induction n arbitrary: f p v)
  case (Suc n)
  have "write_bytes (f(p := v mod 256)) (Suc p) n (v div 256) p = v mod 256" by (simp add: write_bytes_other)
  then show ?case using Suc by (simp add: mod_mult2_eq)
qed simp

lemma read_write_disjoint:
  "p + n \<le> q \<or> q + m \<le> p \<Longrightarrow> read_bytes (write_bytes f p n v) q m = read_bytes f q m"
  by (rule read_bytes_cong) (auto simp: write_bytes_other)

text \<open>The 8-byte word at an address, and stores that leave it alone.\<close>

definition word_at :: "'a heap_state_scheme \<Rightarrow> addr \<Rightarrow> nat" where
  "word_at a p = read_bytes (bytes_at a) p 8"

definition put_word :: "addr \<Rightarrow> nat \<Rightarrow> 'a heap_state_scheme \<Rightarrow> 'a heap_state_scheme" where
  "put_word p v a = a\<lparr>bytes_at := write_bytes (bytes_at a) p 8 v\<rparr>"

definition apart :: "addr \<Rightarrow> addr \<Rightarrow> bool" where
  "apart p q \<longleftrightarrow> p + 8 \<le> q \<or> q + 8 \<le> p"

named_theorems put_simps \<open>reading back after stores\<close>

lemma word_at_less [simp]: "word_at a p < 2 ^ 64"
  using read_bytes_less [of "bytes_at a" p 8] by (simp add: word_at_def)

lemma word_at_put [simp, put_simps]: "v < 2 ^ 64 \<Longrightarrow> word_at (put_word p v a) p = v"
  by (simp add: word_at_def put_word_def read_write_same)

lemma word_at_put_apart [simp, put_simps]: "apart p q \<Longrightarrow> word_at (put_word p v a) q = word_at a q"
  by (auto simp: word_at_def put_word_def apart_def intro!: read_write_disjoint)

lemma put_word_base [simp]:
  "alloc_errno (put_word p v a) = alloc_errno a" "mutex (put_word p v a) = mutex a"
  "heap_size (put_word p v a) = heap_size a" "heap (put_word p v a) = heap a" "mapped (put_word p v a) = mapped a"
  "heap_state.more (put_word p v a) = heap_state.more a"
  by (simp_all add: put_word_def mapped_def fun_eq_iff)

lemma write_bytes_upd: "y < p \<or> p + n \<le> y \<Longrightarrow> write_bytes (f(y := c)) p n v = (write_bytes f p n v)(y := c)"
proof (induction n arbitrary: f p v)
  case (Suc n)
  then have "f(y := c, p := v mod 256) = f(p := v mod 256, y := c)" by (intro fun_upd_twist) auto
  moreover have "write_bytes (f(p := v mod 256, y := c)) (Suc p) n (v div 256) = (write_bytes (f(p := v mod 256)) (Suc p) n (v div 256))(y := c)"
    using Suc.prems by (intro Suc.IH) auto
  ultimately show ?case by (simp only: write_bytes.simps)
qed simp

lemma write_bytes_commute: "p + n \<le> q \<or> q + m \<le> p \<Longrightarrow>
    write_bytes (write_bytes f p n v) q m w = write_bytes (write_bytes f q m w) p n v"
proof (induction m arbitrary: f q w)
  case (Suc m)
  then have "(write_bytes f p n v)(q := w mod 256) = write_bytes (f(q := w mod 256)) p n v" by (subst write_bytes_upd) auto
  moreover have "write_bytes (write_bytes (f(q := w mod 256)) p n v) (Suc q) m (w div 256)
      = write_bytes (write_bytes (f(q := w mod 256)) (Suc q) m (w div 256)) p n v" using Suc.prems by (intro Suc.IH) auto
  ultimately show ?case by (simp only: write_bytes.simps)
qed simp

lemma put_word_commute: "apart p q \<Longrightarrow> put_word p v (put_word q w a) = put_word q w (put_word p v a)"
  unfolding put_word_def apart_def by (simp add: write_bytes_commute [of q 8 p 8 "bytes_at a" w v] disj_commute)

lemma word_at_base [simp]: "word_at (a\<lparr>alloc_errno := e\<rparr>) = word_at a" "word_at (a\<lparr>mutex := l\<rparr>) = word_at a"
  by (simp_all add: word_at_def fun_eq_iff)

lemma mapped_base [simp]: "mapped (a\<lparr>alloc_errno := e\<rparr>) = mapped a" "mapped (a\<lparr>mutex := l\<rparr>) = mapped a"
  by (simp_all add: mapped_def fun_eq_iff)

lemma load64_ok [simp]: "mapped a p \<Longrightarrow> load64 a p = Inr (word_at a p)"
  by (simp add: load64_def word_at_def)

lemma store64_ok [simp]: "mapped a p \<Longrightarrow> store64 a p v = Inr (put_word p v a)"
  by (simp add: store64_def put_word_def)

lemma alloc_lock_good:
  "lock_good (mutex a) \<Longrightarrow> alloc_lock a = (0, a\<lparr>mutex := (mutex a)\<lparr>lk_calls := Suc (lk_calls (mutex a)),
     lk_mode := relock (lk_mode (mutex a))\<rparr>\<rparr>)"
  by (simp add: alloc_lock_def htfh_lock_lock_handled_def pthread_call_good EINVAL_def)

lemma alloc_unlock_good:
  "lock_good (mutex a) \<Longrightarrow> alloc_unlock a = (0, a\<lparr>mutex := (mutex a)\<lparr>lk_calls := Suc (lk_calls (mutex a)),
     lk_mode := release (lk_mode (mutex a))\<rparr>\<rparr>)"
  by (simp add: alloc_unlock_def htfh_lock_unlock_handled_def pthread_call_good)

text \<open>The mutex inside and after an operation.\<close>

definition held :: "'a heap_state_scheme \<Rightarrow> 'a heap_state_scheme" where
  "held a = a\<lparr>mutex := (mutex a)\<lparr>lk_calls := Suc (lk_calls (mutex a)), lk_mode := relock (lk_mode (mutex a))\<rparr>\<rparr>"

definition cycled :: "lock \<Rightarrow> lock" where
  "cycled l = l\<lparr>lk_calls := Suc (Suc (lk_calls l)), lk_mode := release (relock (lk_mode l))\<rparr>"

lemma held_base [simp]:
  "heap (held a) = heap a" "bytes_at (held a) = bytes_at a" "heap_size (held a) = heap_size a"
  by (simp_all add: held_def)

lemma held_memory: "word_at (held a) = word_at a" "mapped (held a) = mapped a"
  by (simp_all add: held_def)

lemma lock_held: "lock_good (mutex a) \<Longrightarrow> alloc_lock a = (0, held a)"
  by (simp add: alloc_lock_good held_def)

lemma unlock_held:
  assumes "lock_good (mutex a)" and "mutex a' = mutex (held a)"
  shows "alloc_unlock a' = (0, a'\<lparr>mutex := cycled (mutex a)\<rparr>)" "unlock_return a' x y = Inr (x, a'\<lparr>mutex := cycled (mutex a)\<rparr>)"
    "lock_good (cycled (mutex a))"
proof -
  have "lock_good (mutex a')" using assms by (simp add: held_def lock_good_def)
  then show u: "alloc_unlock a' = (0, a'\<lparr>mutex := cycled (mutex a)\<rparr>)"
    using assms(2) by (simp add: alloc_unlock_good held_def cycled_def)
  then show "unlock_return a' x y = Inr (x, a'\<lparr>mutex := cycled (mutex a)\<rparr>)" by (simp add: unlock_return_def)
  show "lock_good (cycled (mutex a))" using assms(1) by (simp add: cycled_def lock_good_def)
qed

end
