(* ===== verification/HTFH_Memory.thy ===== *)
theory HTFH_Memory
  imports Heap_Memory
begin

text \<open>
  The state of the HTFH allocator of \<open>allocator/htfh\<close>.  The controller lies at the start of the
  heap; its structures that are only reached by index, the bitmaps and the array of free
  lists, are fields of the record.
\<close>

section \<open>Constants\<close>

text \<open>
  \<open>constants.h\<close> is always included before \<open>htfh_utils.h\<close> defines \<open>ARCH_64_BIT\<close>, so also a
  64-bit build has the 32-bit values.
\<close>

abbreviation (input) SL_INDEX_COUNT_LOG2 :: nat where
  "SL_INDEX_COUNT_LOG2 \<equiv> 5"

abbreviation (input) ALIGN_SIZE_LOG2 :: nat where
  "ALIGN_SIZE_LOG2 \<equiv> 2"

definition ALIGN_SIZE :: nat where
  "ALIGN_SIZE = 2 ^ ALIGN_SIZE_LOG2"

abbreviation (input) FL_INDEX_MAX :: nat where
  "FL_INDEX_MAX \<equiv> 30"

definition SL_INDEX_COUNT :: nat where
  "SL_INDEX_COUNT = 2 ^ SL_INDEX_COUNT_LOG2"

definition FL_INDEX_SHIFT :: nat where
  "FL_INDEX_SHIFT = SL_INDEX_COUNT_LOG2 + ALIGN_SIZE_LOG2"

definition FL_INDEX_COUNT :: nat where
  "FL_INDEX_COUNT = FL_INDEX_MAX - FL_INDEX_SHIFT + 1"

definition SMALL_BLOCK_SIZE :: nat where
  "SMALL_BLOCK_SIZE = 2 ^ FL_INDEX_SHIFT"

lemmas htfh_consts = ALIGN_SIZE_def SL_INDEX_COUNT_def FL_INDEX_SHIFT_def FL_INDEX_COUNT_def SMALL_BLOCK_SIZE_def

section \<open>State\<close>

record Allocator = heap_state +
  controller :: addr
  fl_bitmap :: "32 word"
  sl_bitmap :: "32 word list"
  blocks :: "addr list list"

text \<open>Indices of the control arrays are \<open>int\<close>; a shift is defined below the width only.\<close>

definition elem_i :: "'a list \<Rightarrow> int \<Rightarrow> 'a res" where
  "elem_i xs i = (if i < 0 then Inl OutOfBounds else elem xs (nat i))"

definition shl32 :: "32 word \<Rightarrow> int \<Rightarrow> 32 word res" where
  "shl32 w n = (if 0 \<le> n \<and> n < 32 then Inr (push_bit (nat n) w) else Inl BadShift)"

section \<open>Laws\<close>

lemma put_word_fields [simp]:
  "controller (put_word p v a) = controller a" "fl_bitmap (put_word p v a) = fl_bitmap a"
  "sl_bitmap (put_word p v a) = sl_bitmap a" "blocks (put_word p v a) = blocks a"
  by (simp_all add: put_word_def)

lemma word_at_upd [simp]:
  "word_at (a\<lparr>fl_bitmap := w\<rparr>) = word_at a" "word_at (a\<lparr>sl_bitmap := ws\<rparr>) = word_at a"
  "word_at (a\<lparr>blocks := bs\<rparr>) = word_at a"
  by (simp_all add: word_at_def fun_eq_iff)

lemma mapped_upd [simp]:
  "mapped (a\<lparr>fl_bitmap := w\<rparr>) = mapped a" "mapped (a\<lparr>sl_bitmap := ws\<rparr>) = mapped a"
  "mapped (a\<lparr>blocks := bs\<rparr>) = mapped a"
  by (simp_all add: mapped_def fun_eq_iff)

lemma elem_i_ok [simp]: "0 \<le> i \<Longrightarrow> nat i < length xs \<Longrightarrow> elem_i xs i = Inr (xs ! nat i)"
  by (simp add: elem_i_def)

end
