(* ===== verification/HTFH_Utils.thy ===== *)
theory HTFH_Utils
  imports HTFH_Memory
begin

text \<open>
  The arithmetic of \<open>allocator/htfh/htfh_utils.c\<close> and \<open>htfh_utils.h\<close>: finding bits, rounding
  to alignments, and the two-level classes of block sizes.
\<close>

section \<open>Definitions\<close>

text \<open>The compiler builtins: leading zeros, and one plus the position of the lowest set bit.\<close>

definition builtin_clz :: "32 word \<Rightarrow> nat" where
  "builtin_clz w = 32 - bit_length (unat w)"

fun trailing_zeros :: "nat \<Rightarrow> nat" where
  "trailing_zeros n = (if n = 0 \<or> odd n then 0 else Suc (trailing_zeros (n div 2)))"

declare trailing_zeros.simps [simp del]

definition builtin_ffs :: "32 word \<Rightarrow> int" where
  "builtin_ffs w = (if w = 0 then 0 else 1 + int (trailing_zeros (unat w)))"

definition htfh_ffs :: "32 word \<Rightarrow> int" where
  "htfh_ffs w = builtin_ffs w - 1"

definition htfh_fls :: "32 word \<Rightarrow> int" where
  "htfh_fls w = (if w \<noteq> 0 then 32 - int (builtin_clz w) else 0) - 1"

text \<open>The fallback for compilers without the builtins.\<close>

definition htfh_fls_generic :: "32 word \<Rightarrow> int" where
  "htfh_fls_generic w0 =
     (let bit0 = 32 :: int;
          bit1 = (if w0 = 0 then bit0 - 1 else bit0);
          (w2, bit2) = (if w0 AND 0xffff0000 = 0 then (push_bit 16 w0, bit1 - 16) else (w0, bit1));
          (w3, bit3) = (if w2 AND 0xff000000 = 0 then (push_bit 8 w2, bit2 - 8) else (w2, bit2));
          (w4, bit4) = (if w3 AND 0xf0000000 = 0 then (push_bit 4 w3, bit3 - 4) else (w3, bit3));
          (w5, bit5) = (if w4 AND 0xc0000000 = 0 then (push_bit 2 w4, bit4 - 2) else (w4, bit4));
          (w6, bit6) = (if w5 AND 0x80000000 = 0 then (push_bit 1 w5, bit5 - 1) else (w5, bit5))
      in bit6)"

definition htfh_ffs_generic :: "32 word \<Rightarrow> int" where
  "htfh_ffs_generic w = htfh_fls_generic (w AND (NOT w + 1)) - 1"

text \<open>On a \<open>size_t\<close>; both halves are passed as 32-bit words.\<close>

definition htfh_fls_sizet :: "nat \<Rightarrow> int" where
  "htfh_fls_sizet sz =
     (let high = of_nat (sz div 2 ^ 32) :: 32 word in
      if high \<noteq> 0 then 32 + htfh_fls high else htfh_fls (of_nat sz))"

definition align_up :: "Allocator \<Rightarrow> nat \<Rightarrow> nat \<Rightarrow> nat \<times> Allocator" where
  "align_up a x align =
     (if align AND usize_dec align \<noteq> 0 then (0, set_alloc_errno ALIGN_POWER_OF_TWO a)
      else (usize (x + usize_dec align) AND usize_not (usize_dec align), a))"

definition align_down :: "Allocator \<Rightarrow> nat \<Rightarrow> nat \<Rightarrow> nat \<times> Allocator" where
  "align_down a x align =
     (if align AND usize_dec align \<noteq> 0 then (0, set_alloc_errno ALIGN_POWER_OF_TWO a)
      else (x - (x AND usize_dec align), a))"

definition align_ptr :: "Allocator \<Rightarrow> addr \<Rightarrow> nat \<Rightarrow> addr \<times> Allocator" where
  "align_ptr a ptr align =
     (let aligned = usize (ptr + usize_dec align) AND usize_not (usize_dec align) in
      if align AND usize_dec align \<noteq> 0 then (NULL, set_alloc_errno ALIGN_POWER_OF_TWO a)
      else (aligned, a))"

definition mapping_insert :: "nat \<Rightarrow> int \<times> int" where
  "mapping_insert sz =
     (if sz < SMALL_BLOCK_SIZE then (0, int sz div int (SMALL_BLOCK_SIZE div SL_INDEX_COUNT))
      else
        let fl = htfh_fls_sizet sz;
            sl = int (drop_bit (nat (fl - int SL_INDEX_COUNT_LOG2)) sz) XOR 2 ^ SL_INDEX_COUNT_LOG2
        in (fl - (int FL_INDEX_SHIFT - 1), sl))"

text \<open>\<open>1 << n\<close> on \<open>int\<close>.\<close>

definition int_shl1 :: "int \<Rightarrow> nat res" where
  "int_shl1 n = (if 0 \<le> n \<and> n < 31 then Inr (2 ^ nat n) else Inl BadShift)"

definition mapping_search :: "nat \<Rightarrow> (int \<times> int) res" where
  "mapping_search sz =
     (if SMALL_BLOCK_SIZE \<le> sz then
        rbind (int_shl1 (htfh_fls_sizet sz - int SL_INDEX_COUNT_LOG2)) (\<lambda>s.
          Inr (mapping_insert (usize (sz + (s - 1)))))
      else Inr (mapping_insert sz))"

section \<open>Bits\<close>

lemma bit_length_eqI: "2 ^ k \<le> n \<Longrightarrow> n < 2 ^ Suc k \<Longrightarrow> bit_length n = Suc k"
proof -
  assume n: "2 ^ k \<le> n" "n < 2 ^ Suc k"
  then have pos: "0 < n" using gr0I by fastforce
  note b = bit_length_bounds [OF pos]
  have "(2 :: nat) ^ (bit_length n - 1) < 2 ^ Suc k" "(2 :: nat) ^ k < 2 ^ bit_length n" using b n by linarith+
  then have "bit_length n - 1 < Suc k" "k < bit_length n"
    by (metis one_less_numeral_iff power_strict_increasing_iff semiring_norm(76))+
  with b show ?thesis by linarith
qed

lemma bit_length_0 [simp]: "bit_length 0 = 0"
  by (simp add: bit_length.simps)

lemma bit_length_le: "n < 2 ^ k \<Longrightarrow> bit_length n \<le> k"
proof (cases "n = 0")
  case False
  assume "n < 2 ^ k"
  then have "2 ^ (bit_length n - 1) < (2 :: nat) ^ k" using bit_length_bounds [of n] False by linarith
  then have "bit_length n - 1 < k" by simp
  then show ?thesis by linarith
qed simp

lemma bit_length_shift: "n div 2 ^ k \<noteq> 0 \<Longrightarrow> bit_length n = k + bit_length (n div 2 ^ k)"
proof -
  assume nz: "n div 2 ^ k \<noteq> 0"
  define q where "q = n div 2 ^ k"
  have q: "2 ^ (bit_length q - 1) \<le> q" "q < 2 ^ bit_length q" "0 < bit_length q"
    using bit_length_bounds [of q] nz by (simp_all add: q_def)
  have n: "2 ^ k * q \<le> n" "n < 2 ^ k * Suc q" by (simp_all add: q_def dividend_less_times_div)
  have "2 ^ k * 2 ^ (bit_length q - 1) \<le> 2 ^ k * q" "2 ^ k * Suc q \<le> 2 ^ k * 2 ^ bit_length q"
    using q by (intro mult_le_mono2; simp)+
  with n have "2 ^ k * 2 ^ (bit_length q - 1) \<le> n" "n < 2 ^ k * 2 ^ bit_length q" by linarith+
  then have "2 ^ (k + bit_length q - 1) \<le> n" "n < 2 ^ Suc (k + bit_length q - 1)"
    using q(3) by (simp_all add: power_add [symmetric])
  then have "bit_length n = Suc (k + bit_length q - 1)" by (rule bit_length_eqI)
  with q(3) show ?thesis by (simp add: q_def)
qed

lemma htfh_fls_eq: "htfh_fls w = int (bit_length (unat w)) - 1"
proof -
  have "unat w < 2 ^ 32" using unsigned_less [of w] by simp
  then have "bit_length (unat w) \<le> 32" by (rule bit_length_le)
  then show ?thesis by (auto simp: htfh_fls_def builtin_clz_def of_nat_diff)
qed

lemma unat_word32: "n < 2 ^ 32 \<Longrightarrow> unat (of_nat n :: 32 word) = n"
  by (simp add: unsigned_of_nat take_bit_nat_eq_self)

lemma htfh_fls_sizet_eq: "sz < 2 ^ 64 \<Longrightarrow> htfh_fls_sizet sz = int (bit_length sz) - 1"
proof -
  assume "sz < 2 ^ 64"
  then have h: "sz div 2 ^ 32 < 2 ^ 32" by simp
  show ?thesis
  proof (cases "sz div 2 ^ 32 = 0")
    case True
    then have "sz < 2 ^ 32" by (simp add: div_eq_0_iff)
    with True show ?thesis by (simp add: htfh_fls_sizet_def htfh_fls_eq unat_word32)
  next
    case False
    then have "(of_nat (sz div 2 ^ 32) :: 32 word) \<noteq> 0"
      using unat_word32 [OF h] by (metis unsigned_0)
    with False show ?thesis
      using bit_length_shift [OF False] unat_word32 [OF h] by (simp add: htfh_fls_sizet_def htfh_fls_eq)
  qed
qed

text \<open>One step of the fallback: testing the high bits and shifting them in.\<close>

lemma high_mask_0: "k \<le> 32 \<Longrightarrow> (w :: 32 word) AND push_bit k (mask (32 - k)) = 0 \<longleftrightarrow> unat w < 2 ^ k"
proof -
  assume k: "k \<le> 32"
  have "w AND push_bit k (mask (32 - k)) = push_bit k (drop_bit k w)"
    using k by (intro bit_word_eqI) (auto simp: bit_simps)
  moreover have "push_bit k (drop_bit k w) = 0 \<longleftrightarrow> drop_bit k w = 0"
  proof
    assume "push_bit k (drop_bit k w) = 0"
    then have "drop_bit k (push_bit k (drop_bit k w)) = 0" by simp
    moreover have "drop_bit k (push_bit k (drop_bit k w)) = drop_bit k w"
      by (intro bit_word_eqI) (auto simp: bit_simps dest: bit_imp_le_length)
    ultimately show "drop_bit k w = 0" by simp
  qed simp
  moreover have "drop_bit k w = 0 \<longleftrightarrow> drop_bit k (unat w) = 0"
    using k by (metis unat_drop_bit_eq unsigned_0 unat_eq_zero)
  ultimately show ?thesis by (simp add: drop_bit_nat_def div_eq_0_iff)
qed

lemma push_high:
  assumes "unat (w :: 32 word) < 2 ^ k" and "k \<le> 32" and "j = 32 - k"
  shows "unat (push_bit j w) = 2 ^ j * unat w"
proof -
  have "2 ^ j * unat w < 2 ^ j * 2 ^ k" using assms(1) by simp
  then have "2 ^ j * unat w < 2 ^ 32" using assms(2,3) by (simp add: power_add [symmetric])
  then show ?thesis
    by (simp add: unsigned_push_bit_eq push_bit_nat_def take_bit_nat_eq_self mult.commute)
qed

text \<open>After testing and shifting by \<open>j\<close> the word reaches into its upper \<open>j\<close> bits.\<close>

definition fls_step :: "nat \<Rightarrow> 32 word \<times> int \<Rightarrow> 32 word \<times> int" where
  "fls_step j p = (case p of (w, b) \<Rightarrow>
     if w AND push_bit (32 - j) (mask j) = 0 then (push_bit j w, b - int j) else (w, b))"

lemma fls_step_inv:
  assumes "w \<noteq> 0 \<longrightarrow> 2 ^ (32 - i) \<le> unat w" and "i = 2 * j" and "0 < j" and "j \<le> 16"
    and "fls_step j (w, b) = (w', b')"
  shows "(w' \<noteq> 0 \<longrightarrow> 2 ^ (32 - j) \<le> unat w') \<and> (w' = 0 \<longleftrightarrow> w = 0)
    \<and> (w \<noteq> 0 \<longrightarrow> int (bit_length (unat w')) + b' = int (bit_length (unat w)) + b)
    \<and> (w = 0 \<longrightarrow> b' = b - int j)"
proof (cases "unat w < 2 ^ (32 - j)")
  case True
  have m: "push_bit (32 - j) (mask (32 - (32 - j))) = push_bit (32 - j) (mask j :: 32 word)" using assms(4) by simp
  have "w AND push_bit (32 - j) (mask j) = 0"
    using high_mask_0 [of "32 - j" w] True unfolding m by simp
  then have w': "w' = push_bit j w" "b' = b - int j" using assms(5) by (auto simp: fls_step_def)
  have u: "unat w' = 2 ^ j * unat w" using push_high [OF True, of j] assms(4) w'(1) by simp
  then have z: "w' = 0 \<longleftrightarrow> w = 0" by (metis mult_eq_0_iff power_not_zero unat_eq_zero zero_neq_numeral)
  show ?thesis
  proof (cases "w = 0")
    case False
    then have "2 ^ j * 2 ^ (32 - i) \<le> unat w'" using assms(1) u by simp
    moreover have "j + (32 - i) = 32 - j" using assms(2-4) by simp
    ultimately have "2 ^ (32 - j) \<le> unat w'" by (metis power_add)
    moreover have "bit_length (unat w') = j + bit_length (unat w)"
    proof -
      have "unat w' div 2 ^ j = unat w" using u by simp
      then show ?thesis using bit_length_shift [of "unat w'" j] False by (simp add: unat_eq_zero)
    qed
    ultimately show ?thesis using z w'(2) False by simp
  qed (use z w' in auto)
next
  case False
  have m: "push_bit (32 - j) (mask (32 - (32 - j))) = push_bit (32 - j) (mask j :: 32 word)" using assms(4) by simp
  have "w AND push_bit (32 - j) (mask j) \<noteq> 0"
    using high_mask_0 [of "32 - j" w] False unfolding m by simp
  moreover have "w \<noteq> 0" using False by auto
  ultimately show ?thesis using assms(5) False by (auto simp: fls_step_def)
qed

lemma fls_step_masks:
  "fls_step 16 (w, b) = (if w AND 0xffff0000 = 0 then (push_bit 16 w, b - 16) else (w, b))"
  "fls_step 8 (w, b) = (if w AND 0xff000000 = 0 then (push_bit 8 w, b - 8) else (w, b))"
  "fls_step 4 (w, b) = (if w AND 0xf0000000 = 0 then (push_bit 4 w, b - 4) else (w, b))"
  "fls_step 2 (w, b) = (if w AND 0xc0000000 = 0 then (push_bit 2 w, b - 2) else (w, b))"
  "fls_step 1 (w, b) = (if w AND 0x80000000 = 0 then (push_bit 1 w, b - 1) else (w, b))"
proof -
  have "push_bit 16 (mask 16) = (0xffff0000 :: 32 word)" "push_bit 24 (mask 8) = (0xff000000 :: 32 word)"
    "push_bit 28 (mask 4) = (0xf0000000 :: 32 word)" "push_bit 30 (mask 2) = (0xc0000000 :: 32 word)"
    "push_bit 31 (mask 1) = (0x80000000 :: 32 word)" by (simp_all add: mask_eq_exp_minus_1)
  then show "fls_step 16 (w, b) = (if w AND 0xffff0000 = 0 then (push_bit 16 w, b - 16) else (w, b))"
    "fls_step 8 (w, b) = (if w AND 0xff000000 = 0 then (push_bit 8 w, b - 8) else (w, b))"
    "fls_step 4 (w, b) = (if w AND 0xf0000000 = 0 then (push_bit 4 w, b - 4) else (w, b))"
    "fls_step 2 (w, b) = (if w AND 0xc0000000 = 0 then (push_bit 2 w, b - 2) else (w, b))"
    "fls_step 1 (w, b) = (if w AND 0x80000000 = 0 then (push_bit 1 w, b - 1) else (w, b))"
    unfolding fls_step_def by simp_all
qed

lemma fls_generic_steps:
  assumes "fls_step 16 (w, if w = 0 then 31 else 32) = (w1, b1)" and "fls_step 8 (w1, b1) = (w2, b2)"
    and "fls_step 4 (w2, b2) = (w3, b3)" and "fls_step 2 (w3, b3) = (w4, b4)" and "fls_step 1 (w4, b4) = (w5, b5)"
  shows "htfh_fls_generic w = b5"
proof -
  have b: "(if w = 0 then 32 - 1 else 32) = (if w = 0 then 31 else 32 :: int)" by simp
  show ?thesis
    using assms unfolding htfh_fls_generic_def fls_step_masks Let_def b by (simp only: prod.case)
qed

lemma htfh_fls_generic_eq: "htfh_fls_generic w = int (bit_length (unat w))"
proof -
  obtain w1 b1 where s1: "fls_step 16 (w, if w = 0 then 31 else 32) = (w1, b1)" by fastforce
  obtain w2 b2 where s2: "fls_step 8 (w1, b1) = (w2, b2)" by fastforce
  obtain w3 b3 where s3: "fls_step 4 (w2, b2) = (w3, b3)" by fastforce
  obtain w4 b4 where s4: "fls_step 2 (w3, b3) = (w4, b4)" by fastforce
  obtain w5 b5 where s5: "fls_step 1 (w4, b4) = (w5, b5)" by fastforce
  have "w \<noteq> 0 \<longrightarrow> 2 ^ (32 - 32) \<le> unat w" by (simp add: unat_gt_0 Suc_le_eq)
  note i1 = fls_step_inv [OF this _ _ _ s1]
  then have "w1 \<noteq> 0 \<longrightarrow> 2 ^ (32 - 16) \<le> unat w1" by simp
  note i2 = fls_step_inv [OF this _ _ _ s2]
  then have "w2 \<noteq> 0 \<longrightarrow> 2 ^ (32 - 8) \<le> unat w2" by simp
  note i3 = fls_step_inv [OF this _ _ _ s3]
  then have "w3 \<noteq> 0 \<longrightarrow> 2 ^ (32 - 4) \<le> unat w3" by simp
  note i4 = fls_step_inv [OF this _ _ _ s4]
  then have "w4 \<noteq> 0 \<longrightarrow> 2 ^ (32 - 2) \<le> unat w4" by simp
  note i5 = fls_step_inv [OF this _ _ _ s5]
  have g: "htfh_fls_generic w = b5" using s1 s2 s3 s4 s5 by (rule fls_generic_steps)
  show ?thesis
  proof (cases "w = 0")
    case True
    then show ?thesis using g i1 i2 i3 i4 i5 by simp
  next
    case False
    then have nz: "w1 \<noteq> 0" "w2 \<noteq> 0" "w3 \<noteq> 0" "w4 \<noteq> 0" "w5 \<noteq> 0" using i1 i2 i3 i4 i5 by auto
    have "unat w5 < 2 ^ 32" using unsigned_less [of w5] by simp
    moreover have "2 ^ 31 \<le> unat w5" using i5 nz(5) by simp
    ultimately have "bit_length (unat w5) = Suc 31" by (intro bit_length_eqI) simp_all
    with False nz g i1 i2 i3 i4 i5 show ?thesis by simp
  qed
qed

lemma trailing_zeros_split: "0 < n \<Longrightarrow> \<exists>q. n = 2 ^ trailing_zeros n * (2 * q + 1)"
proof (induction n rule: trailing_zeros.induct)
  case (1 n)
  show ?case
  proof (cases "odd n")
    case True
    then obtain q where "n = 2 * q + 1" by (elim oddE)
    moreover have "trailing_zeros n = 0" using True by (simp add: trailing_zeros.simps)
    ultimately show ?thesis by auto
  next
    case False
    then obtain q where "n div 2 = 2 ^ trailing_zeros (n div 2) * (2 * q + 1)" using 1 by fastforce
    moreover have "trailing_zeros n = Suc (trailing_zeros (n div 2))"
      using False 1(2) by (subst trailing_zeros.simps) simp
    ultimately show ?thesis using False by (intro exI [of _ q]) (metis dvd_mult_div_cancel mult.assoc power_Suc)
  qed
qed

lemma bit_split_nat: "bit (2 ^ t * (2 * q + 1) :: nat) i \<longleftrightarrow> i = t \<or> (t < i \<and> bit q (i - t - 1))"
proof -
  have "2 ^ t * (2 * q + 1) = push_bit t (2 * q + 1)" by (simp add: push_bit_eq_mult mult.commute)
  moreover have "bit (2 * q + 1) j \<longleftrightarrow> j = 0 \<or> (0 < j \<and> bit q (j - 1))" for j by (cases j) (auto simp: bit_Suc bit_0)
  ultimately show ?thesis by (auto simp: bit_push_bit_iff)
qed

lemma trailing_zeros_bit: "0 < n \<Longrightarrow> bit n (trailing_zeros n)"
  using trailing_zeros_split [of n] bit_split_nat by metis

lemma trailing_zeros_least: "bit n i \<Longrightarrow> trailing_zeros n \<le> i"
proof -
  assume i: "bit n i"
  then have "0 < n" by (cases n) auto
  then obtain q where "n = 2 ^ trailing_zeros n * (2 * q + 1)" using trailing_zeros_split by blast
  then show ?thesis using i bit_split_nat [of "trailing_zeros n" q i] by auto
qed

text \<open>\<open>htfh_ffs\<close> is the lowest set bit.\<close>

lemma htfh_ffs_bit:
  assumes "w \<noteq> 0"
  shows "0 \<le> htfh_ffs w" "htfh_ffs w < 32" "bit w (nat (htfh_ffs w))" "bit w i \<Longrightarrow> nat (htfh_ffs w) \<le> i"
proof -
  have pos: "0 < unat w" using assms by (simp add: unat_gt_0)
  have f: "htfh_ffs w = int (trailing_zeros (unat w))" using assms by (simp add: htfh_ffs_def builtin_ffs_def)
  have b: "bit w j \<longleftrightarrow> bit (unat w) j" for j by (simp add: bit_unsigned_iff)
  show "0 \<le> htfh_ffs w" and bw: "bit w (nat (htfh_ffs w))" using trailing_zeros_bit [OF pos] by (simp_all add: f b)
  show "htfh_ffs w < 32" using bit_imp_le_length [OF bw] by (simp add: f)
  show "bit w i \<Longrightarrow> nat (htfh_ffs w) \<le> i" using trailing_zeros_least [of "unat w" i] by (simp add: f b)
qed

lemma low_bit_word:
  assumes "w \<noteq> (0 :: 32 word)"
  shows "w AND (NOT w + 1) = push_bit (nat (htfh_ffs w)) (1 :: 32 word)"
proof (intro bit_word_eqI)
  fix i :: nat
  assume i: "i < LENGTH(32)"
  let ?t = "trailing_zeros (unat w)"
  have pos: "0 < unat w" using assms by (simp add: unat_gt_0)
  obtain q where q: "unat w = 2 ^ ?t * (2 * q + 1)" using trailing_zeros_split [OF pos] by blast
  have t: "nat (htfh_ffs w) = ?t" using assms by (simp add: htfh_ffs_def builtin_ffs_def)
  have m: "unat (w - 1) = unat w - 1" using assms by (rule unat_minus_one)
  have "unat w - 1 = 2 ^ ?t * (2 * q) + (2 ^ ?t - 1)" by (subst q) (simp add: algebra_simps)
  also have "\<dots> = push_bit ?t (2 * q) OR mask ?t"
  proof -
    have "push_bit ?t (2 * q) AND mask ?t = 0" by (rule bit_eqI) (auto simp: bit_simps)
    then have "push_bit ?t (2 * q) OR mask ?t = push_bit ?t (2 * q) + mask ?t"
      by (simp add: disjunctive_add_eq_or)
    then show ?thesis by (simp add: push_bit_eq_mult mask_eq_exp_minus_1 mult.commute)
  qed
  finally have v: "unat (w - 1) = push_bit ?t (2 * q) OR mask ?t" unfolding m .
  have bu: "bit (x :: 32 word) j \<longleftrightarrow> bit (unat x) j" for x j
    by (simp add: bit_unsigned_iff)
  have dq: "bit (2 * q) n \<longleftrightarrow> 0 < n \<and> bit q (n - 1)" for n by (cases n) (simp_all add: bit_Suc bit_0)
  have bm: "bit (w - 1) i \<longleftrightarrow> (?t < i \<and> bit q (i - ?t - 1)) \<or> i < ?t"
    unfolding bu [of "w - 1"] v by (auto simp: bit_or_iff bit_push_bit_iff bit_mask_iff dq)
  have bw: "bit w i \<longleftrightarrow> i = ?t \<or> (?t < i \<and> bit q (i - ?t - 1))"
    unfolding bu [of w] by (subst q) (rule bit_split_nat)
  have "NOT w + 1 = NOT (w - 1)" by (simp add: not_eq_complement)
  then have "bit (w AND (NOT w + 1)) i \<longleftrightarrow> bit w i \<and> \<not> bit (w - 1) i" using i by (simp add: bit_simps)
  also have "\<dots> \<longleftrightarrow> i = ?t" using bm bw by auto
  finally show "bit (w AND (NOT w + 1)) i = bit (push_bit (nat (htfh_ffs w)) (1 :: 32 word)) i"
    using i unfolding t by (auto simp: bit_exp_iff)
qed

section \<open>Alignment\<close>

lemma usize_dec_pow: "k < 64 \<Longrightarrow> usize_dec (2 ^ k) = 2 ^ k - 1"
  using power_strict_increasing [of k 64 "2 :: nat"] by (intro usize_dec_pos) simp_all

lemma pow2_and_pred: "(2 :: nat) ^ k AND (2 ^ k - 1) = 0"
  unfolding mask_eq_exp_minus_1 [symmetric] by (rule bit_eqI) (auto simp: bit_simps)

text \<open>\<open>align_up\<close> and \<open>align_ptr\<close> are the same function on powers of two.\<close>

lemma align_up_eq:
  assumes "k < 64" and "x + 2 ^ k \<le> 2 ^ 64"
  shows "align_up a x (2 ^ k) = ((x + 2 ^ k - 1) div 2 ^ k * 2 ^ k, a)"
    and "align_ptr a x (2 ^ k) = ((x + 2 ^ k - 1) div 2 ^ k * 2 ^ k, a)"
proof -
  have "x + (2 ^ k - 1) < 2 ^ 64" using assms(2) by (simp add: Suc_le_eq [symmetric])
  then have "usize (x + (2 ^ k - 1)) AND usize_not (2 ^ k - 1) = (x + 2 ^ k - 1) div 2 ^ k * 2 ^ k"
    using and_usize_not_mask [of "x + (2 ^ k - 1)" k] assms(1) by simp
  then show "align_up a x (2 ^ k) = ((x + 2 ^ k - 1) div 2 ^ k * 2 ^ k, a)"
    "align_ptr a x (2 ^ k) = ((x + 2 ^ k - 1) div 2 ^ k * 2 ^ k, a)"
    using assms(1) by (simp_all only: align_up_def align_ptr_def Let_def usize_dec_pow pow2_and_pred) simp_all
qed

lemma align_down_eq: "k < 64 \<Longrightarrow> align_down a x (2 ^ k) = (x div 2 ^ k * 2 ^ k, a)"
proof -
  assume k: "k < 64"
  have "x AND (2 ^ k - 1) = x mod 2 ^ k"
    unfolding mask_eq_exp_minus_1 [symmetric] take_bit_eq_mask [symmetric] by (rule take_bit_nat_def)
  moreover have "x - x mod 2 ^ k = x div 2 ^ k * 2 ^ k" by (simp add: minus_mod_eq_div_mult)
  ultimately show ?thesis using k by (simp only: align_down_def usize_dec_pow pow2_and_pred) simp
qed

lemma not_pow2_and_pred: "n \<noteq> 0 \<Longrightarrow> n < 2 ^ 64 \<Longrightarrow> n AND usize_dec n = 0 \<Longrightarrow> \<exists>k. n = 2 ^ k"
proof -
  assume n: "n \<noteq> 0" "n < 2 ^ 64" "n AND usize_dec n = 0"
  obtain q where q: "n = 2 ^ trailing_zeros n * (2 * q + 1)" using trailing_zeros_split [of n] n(1) by auto
  let ?t = "trailing_zeros n"
  have "n - 1 = 2 ^ ?t * (2 * q) + (2 ^ ?t - 1)" by (subst q) (simp add: algebra_simps)
  moreover have "(2 ^ ?t * (2 * q) + (2 ^ ?t - 1)) div 2 ^ ?t = 2 * q" by (subst div_mult_self4) simp_all
  ultimately have d: "(n - 1) div 2 ^ ?t = 2 * q" by (simp only:)
  have "n div 2 ^ ?t = 2 * q + 1" by (subst (1) q) simp
  moreover have "drop_bit ?t (n AND (n - 1)) = drop_bit ?t n AND drop_bit ?t (n - 1)" by simp
  ultimately have "(2 * q + 1) AND (2 * q) = 0" using n d usize_dec_pos [of n] by (simp add: drop_bit_nat_def)
  moreover have "(2 * q + 1) AND (2 * q) = 2 * q"
  proof (rule bit_eqI)
    fix i
    show "bit ((2 * q + 1) AND (2 * q)) i = bit (2 * q) i"
      unfolding bit_and_iff by (cases i) (simp_all add: bit_Suc bit_0)
  qed
  ultimately have "q = 0" by simp
  with q show ?thesis by (intro exI [of _ ?t]) simp
qed

section \<open>Size classes\<close>

text \<open>
  The pair of indices as one number, the class, and the least size in a class.  Sizes below
  128 are in steps of 4, larger ones in 32 steps between two powers of two.
\<close>

definition size_class :: "nat \<Rightarrow> nat" where
  "size_class sz =
     (if sz < 128 then sz div 4 else let t = bit_length sz - 6 in 32 * (t - 1) + (sz div 2 ^ t - 32))"

definition class_base :: "nat \<Rightarrow> nat" where
  "class_base c = (if c < 32 then 4 * c else (32 + c mod 32) * 2 ^ (c div 32 + 1))"

definition class_index :: "nat \<Rightarrow> int \<times> int" where
  "class_index c = (int (c div 32), int (c mod 32))"

lemma large_bit_length: "128 \<le> sz \<Longrightarrow> 8 \<le> bit_length sz"
proof (rule ccontr)
  assume "128 \<le> sz" "\<not> 8 \<le> bit_length sz"
  moreover have "sz < 2 ^ bit_length sz" using bit_length_bounds [of sz] \<open>128 \<le> sz\<close> by simp
  moreover have "(2 :: nat) ^ bit_length sz \<le> 2 ^ 7" using calculation(2) by (intro power_increasing) simp_all
  ultimately show False by simp
qed

text \<open>With \<open>t = fls - 5\<close> the size is between \<open>32 * 2 ^ t\<close> and \<open>64 * 2 ^ t\<close>.\<close>

lemma large_quotient:
  assumes "128 \<le> sz"
  shows "32 \<le> sz div 2 ^ (bit_length sz - 6)" "sz div 2 ^ (bit_length sz - 6) < 64"
proof -
  let ?t = "bit_length sz - 6"
  have b: "2 ^ (bit_length sz - 1) \<le> sz" "sz < 2 ^ bit_length sz" using bit_length_bounds [of sz] assms by simp_all
  have "bit_length sz - 1 = 5 + ?t" "bit_length sz = 6 + ?t" using large_bit_length [OF assms] by simp_all
  then have "2 ^ 5 * 2 ^ ?t \<le> sz" "sz < 2 ^ 6 * 2 ^ ?t" using b by (metis power_add)+
  then have "2 ^ 5 \<le> sz div 2 ^ ?t" "sz div 2 ^ ?t < 2 ^ 6" by (simp_all add: less_eq_div_iff_mult_less_eq div_less_iff_less_mult)
  then show "32 \<le> sz div 2 ^ ?t" "sz div 2 ^ ?t < 64" by simp_all
qed

lemma xor_32: "32 \<le> n \<Longrightarrow> n < 64 \<Longrightarrow> int n XOR 32 = int n - 32"
proof -
  have "list_all (\<lambda>n. int n XOR 32 = int n - 32) [32..<64]" by code_simp
  moreover assume "32 \<le> n" "n < 64"
  then have "n \<in> set [32..<64]" by (simp only: set_upt atLeastLessThan_iff)
  ultimately show ?thesis unfolding list_all_iff by blast
qed

lemma size_class_large:
  assumes "128 \<le> sz"
  shows "size_class sz div 32 = bit_length sz - 7"
    "size_class sz mod 32 = sz div 2 ^ (bit_length sz - 6) - 32" "32 \<le> size_class sz"
proof -
  let ?q = "sz div 2 ^ (bit_length sz - 6) - 32"
  have c: "size_class sz = 32 * (bit_length sz - 7) + ?q"
    using assms by (simp add: size_class_def Let_def)
  have q: "?q < 32" using large_quotient [OF assms] by linarith
  show d: "size_class sz div 32 = bit_length sz - 7" and "size_class sz mod 32 = ?q"
    unfolding c using q by simp_all
  have "1 \<le> size_class sz div 32" using large_bit_length [OF assms] unfolding d by simp
  then show "32 \<le> size_class sz" by linarith
qed

lemma mapping_insert_class:
  assumes "sz < 2 ^ 64"
  shows "mapping_insert sz = class_index (size_class sz)"
proof (cases "sz < 128")
  case True
  then show ?thesis
    by (simp add: mapping_insert_def size_class_def class_index_def htfh_consts zdiv_int)
next
  case False
  then have large: "128 \<le> sz" by simp
  let ?t = "bit_length sz - 6"
  have q: "32 \<le> sz div 2 ^ ?t" "sz div 2 ^ ?t < 64" by (rule large_quotient [OF large])+
  have l: "8 \<le> bit_length sz" by (rule large_bit_length [OF large])
  have t: "nat (int (bit_length sz) - 1 - 5) = ?t" by simp
  have s: "int (sz div 2 ^ ?t) XOR 32 = int (sz div 2 ^ ?t - 32)" using xor_32 [OF q] q by simp
  have f: "htfh_fls_sizet sz = int (bit_length sz) - 1" by (rule htfh_fls_sizet_eq [OF assms])
  show ?thesis
    unfolding class_index_def size_class_large [OF large]
    using False l s t f by (simp add: mapping_insert_def htfh_consts Let_def drop_bit_nat_def of_nat_diff)
qed

lemma class_base_large:
  assumes "128 \<le> sz"
  shows "class_base (size_class sz) = sz div 2 ^ (bit_length sz - 6) * 2 ^ (bit_length sz - 6)"
proof -
  have "bit_length sz - 7 + 1 = bit_length sz - 6" using large_bit_length [OF assms] by simp
  moreover have "32 + (sz div 2 ^ (bit_length sz - 6) - 32) = sz div 2 ^ (bit_length sz - 6)"
    using large_quotient [OF assms] by simp
  ultimately show ?thesis
    using size_class_large [OF assms] by (simp only: class_base_def) simp
qed

lemma class_base_le: "class_base (size_class sz) \<le> sz"
proof (cases "sz < 128")
  case True
  then have "sz div 4 < 32" by (simp add: div_less_iff_less_mult)
  with True show ?thesis by (simp add: size_class_def class_base_def)
next
  case False
  then show ?thesis by (simp add: class_base_large div_times_less_eq_dividend)
qed

lemma bit_length_mono: "m \<le> n \<Longrightarrow> bit_length m \<le> bit_length n"
proof (cases "n = 0")
  case False
  assume "m \<le> n"
  then have "m < 2 ^ bit_length n" using bit_length_bounds [of n] False by linarith
  then show ?thesis by (rule bit_length_le)
qed simp

lemma size_class_mono: "m \<le> n \<Longrightarrow> size_class m \<le> size_class n"
proof -
  assume mn: "m \<le> n"
  show ?thesis
  proof (cases "n < 128")
    case True
    with mn show ?thesis by (simp add: size_class_def div_le_mono)
  next
    case n: False
    then have n': "128 \<le> n" by simp
    show ?thesis
    proof (cases "m < 128")
      case True
      then have "size_class m < 32" by (simp add: size_class_def div_less_iff_less_mult)
      with size_class_large(3) [OF n'] show ?thesis by simp
    next
      case False
      then have m': "128 \<le> m" by simp
      have bl: "bit_length m \<le> bit_length n" using mn by (rule bit_length_mono)
      show ?thesis
      proof (cases "bit_length m = bit_length n")
        case True
        have "m div 2 ^ (bit_length n - 6) \<le> n div 2 ^ (bit_length n - 6)" using mn by (rule div_le_mono)
        then have "size_class m mod 32 \<le> size_class n mod 32"
          using True size_class_large(2) [OF m'] size_class_large(2) [OF n'] by (simp add: diff_le_mono)
        moreover have "size_class m div 32 = size_class n div 32"
          using True size_class_large(1) [OF m'] size_class_large(1) [OF n'] by simp
        ultimately show ?thesis by (metis add_le_mono div_mult_mod_eq order_refl)
      next
        case False
        then have "size_class m div 32 < size_class n div 32"
          using bl size_class_large(1) [OF m'] size_class_large(1) [OF n'] large_bit_length [OF m'] by simp
        then show ?thesis by (metis div_le_mono leD linorder_le_cases)
      qed
    qed
  qed
qed

text \<open>\<open>class_base c\<close> is in class \<open>c\<close>, and hence the least size there.\<close>

lemma size_class_base: "size_class (class_base c) = c"
proof (cases "c < 32")
  case True
  then show ?thesis by (simp add: class_base_def size_class_def)
next
  case False
  let ?t = "c div 32 + 1" and ?q = "32 + c mod 32"
  let ?s = "?q * 2 ^ ?t"
  have t: "2 \<le> ?t" using False by (simp add: Suc_le_eq div_greater_zero_iff)
  have q: "32 \<le> ?q" "?q < 64" by simp_all
  have "(32 :: nat) * 2 ^ 2 \<le> 32 * 2 ^ ?t" using t by (intro mult_le_mono2 power_increasing) simp_all
  also have "\<dots> \<le> ?s" using q by (intro mult_le_mono1)
  finally have large: "128 \<le> ?s" by simp
  have "2 ^ (5 + ?t) \<le> ?s" unfolding power_add using q by (intro mult_le_mono1) simp
  moreover have "?s < 2 ^ Suc (5 + ?t)"
  proof -
    have "?s < 64 * 2 ^ ?t" using q by (intro mult_strict_right_mono) simp_all
    then show ?thesis by (simp add: power_add)
  qed
  ultimately have bl: "bit_length ?s = Suc (5 + ?t)" by (rule bit_length_eqI)
  have b: "class_base c = ?s" using False by (simp add: class_base_def)
  have "?s div 2 ^ ?t = ?q" by simp
  then have "size_class ?s mod 32 = c mod 32" using size_class_large(2) [OF large] unfolding bl by simp
  moreover have "size_class ?s div 32 = c div 32" using size_class_large(1) [OF large] unfolding bl by simp
  ultimately have "size_class ?s = c" by (metis div_mult_mod_eq)
  with b show ?thesis by simp
qed

lemma class_base_iff: "c \<le> size_class sz \<longleftrightarrow> class_base c \<le> sz"
proof
  assume "class_base c \<le> sz"
  then show "c \<le> size_class sz" using size_class_mono size_class_base by metis
next
  assume c: "c \<le> size_class sz"
  show "class_base c \<le> sz"
  proof (rule ccontr)
    assume "\<not> class_base c \<le> sz"
    then have "size_class sz \<le> c" using size_class_mono [of sz "class_base c"] size_class_base by simp
    then have "size_class sz = c" using c by simp
    then show False using class_base_le [of sz] \<open>\<not> class_base c \<le> sz\<close> by simp
  qed
qed

lemma class_base_mono: "class_base c \<le> class_base c' \<Longrightarrow> c \<le> c'"
  using size_class_mono size_class_base by metis

lemma class_base_dvd: "c \<noteq> 0 \<Longrightarrow> 4 dvd class_base c"
  by (auto simp: class_base_def div_greater_zero_iff not_less Suc_le_eq
      intro!: dvd_mult dvd_trans [OF _ le_imp_power_dvd [of 2 "c div 32 + 1" 2]])

lemma class_base_768: "class_base 768 = 2 ^ 30"
  by (simp add: class_base_def)

lemma size_class_bound: "size_class sz < 768 \<longleftrightarrow> sz < 2 ^ 30"
  using class_base_iff [of 768 sz] class_base_768 by linarith

text \<open>The least class all of whose sizes are large enough.\<close>

lemma mapping_search_class:
  assumes "4 dvd sz" and "sz < 2 ^ 31"
  shows "\<exists>c. mapping_search sz = Inr (class_index c) \<and> sz \<le> class_base c
    \<and> (\<forall>c'. sz \<le> class_base c' \<longrightarrow> c \<le> c')"
proof (cases "sz < 128")
  case True
  then have "sz div 4 < 32" by (simp add: div_less_iff_less_mult)
  with True assms(1) have b: "class_base (size_class sz) = sz" by (simp add: class_base_def size_class_def)
  have "mapping_search sz = Inr (class_index (size_class sz))"
    using True mapping_insert_class [of sz] by (simp add: mapping_search_def htfh_consts)
  moreover have "size_class sz \<le> c'" if "sz \<le> class_base c'" for c'
    using that size_class_mono size_class_base by metis
  ultimately show ?thesis using b by (intro exI [of _ "size_class sz"]) simp
next
  case False
  then have large: "128 \<le> sz" by simp
  let ?t = "bit_length sz - 6"
  let ?r = "sz + (2 ^ ?t - 1)"
  let ?c = "size_class ?r"
  have l: "8 \<le> bit_length sz" "bit_length sz \<le> 31"
    using large_bit_length [OF large] bit_length_le [OF assms(2)] by simp_all
  have "(2 :: nat) ^ ?t \<le> 2 ^ 25" using l by (intro power_increasing) simp_all
  then have r64: "?r < 2 ^ 64" using assms(2) by simp
  have "htfh_fls_sizet sz = int (bit_length sz) - 1" using assms(2) by (intro htfh_fls_sizet_eq) simp
  then have "int_shl1 (htfh_fls_sizet sz - 5) = Inr (2 ^ ?t)" using l by (simp add: int_shl1_def nat_diff_distrib)
  then have run: "mapping_search sz = Inr (class_index ?c)"
    using False r64 mapping_insert_class [OF r64] by (simp add: mapping_search_def htfh_consts)
  have rl: "128 \<le> ?r" using large by (rule trans_le_add1)
  have up: "sz \<le> ?r div 2 ^ ?t * 2 ^ ?t"
  proof -
    have "0 < (2 :: nat) ^ ?t" by simp
    moreover from this have "?r < 2 ^ ?t * (?r div 2 ^ ?t) + 2 ^ ?t"
      using dividend_less_times_div [of "2 ^ ?t" ?r] by simp
    ultimately show ?thesis unfolding mult.commute [of "2 ^ ?t"] by linarith
  qed
  let ?t' = "bit_length ?r - 6"
  have bl: "bit_length sz \<le> bit_length ?r" by (rule bit_length_mono) (rule le_add1)
  have ge: "sz \<le> class_base ?c"
  proof (cases "bit_length ?r = bit_length sz")
    case True
    show ?thesis unfolding class_base_large [OF rl] True by (rule up)
  next
    case False
    have "2 ^ bit_length sz \<le> (2 :: nat) ^ (5 + ?t')" using bl False l by (intro power_increasing) simp_all
    also have "\<dots> \<le> class_base ?c"
      unfolding class_base_large [OF rl] power_add using large_quotient(1) [OF rl] by (intro mult_le_mono1) simp
    finally show ?thesis using bit_length_bounds [of sz] large by simp
  qed
  have least: "?c \<le> c'" if c': "sz \<le> class_base c'" for c'
  proof (rule class_base_mono)
    have sc: "size_class sz \<le> c'" using c' size_class_mono size_class_base by metis
    then have "bit_length sz - 7 \<le> c' div 32" using size_class_large(1) [OF large] div_le_mono by metis
    moreover have "\<not> c' < 32" using sc size_class_large(3) [OF large] by simp
    moreover have "(2 :: nat) ^ ?t dvd 2 ^ (c' div 32 + 1)"
      using calculation(1) by (intro le_imp_power_dvd) simp
    ultimately have dv: "2 ^ ?t dvd class_base c'" unfolding class_base_def by (simp del: power_Suc)
    have "class_base ?c \<le> ?r div 2 ^ ?t * 2 ^ ?t"
    proof -
      have "2 ^ ?t dvd class_base ?c"
        unfolding class_base_large [OF rl] using bl by (intro dvd_mult le_imp_power_dvd) simp
      then obtain j where "class_base ?c = 2 ^ ?t * j" by (elim dvdE)
      moreover have "class_base ?c \<le> ?r" by (rule class_base_le)
      ultimately show ?thesis by (simp add: mult.commute less_eq_div_iff_mult_less_eq)
    qed
    also have "\<dots> \<le> class_base c'"
    proof -
      obtain j where j: "class_base c' = 2 ^ ?t * j" using dv by (elim dvdE)
      have "0 < (2 :: nat) ^ ?t" by simp
      then have "?r < 2 ^ ?t * Suc j" using c' unfolding j mult_Suc_right by linarith
      then have "?r div 2 ^ ?t < Suc j" by (simp add: div_less_iff_less_mult mult.commute)
      then show ?thesis unfolding j by (simp add: mult.commute)
    qed
    finally show "class_base ?c \<le> class_base c'" .
  qed
  show ?thesis using run ge least by blast
qed

lemma class_index_le:
  "class_index c = (fl, sl) \<Longrightarrow> class_index c' = (fl', sl') \<Longrightarrow> c \<le> c' \<longleftrightarrow> fl < fl' \<or> fl = fl' \<and> sl \<le> sl'"
proof -
  assume "class_index c = (fl, sl)" "class_index c' = (fl', sl')"
  then have e: "fl = int (c div 32)" "sl = int (c mod 32)" "fl' = int (c' div 32)" "sl' = int (c' mod 32)"
    by (auto simp: class_index_def)
  have d: "c = 32 * (c div 32) + c mod 32" "c' = 32 * (c' div 32) + c' mod 32" "c mod 32 < 32" "c' mod 32 < 32"
    by simp_all
  have "c \<le> c' \<longleftrightarrow> c div 32 < c' div 32 \<or> c div 32 = c' div 32 \<and> c mod 32 \<le> c' mod 32"
    using d by (cases "c div 32" "c' div 32" rule: linorder_cases) linarith+
  with e show ?thesis by simp
qed

lemma class_index_inj: "class_index c = class_index c' \<longleftrightarrow> c = c'"
  by (auto simp: class_index_def) (metis div_mult_mod_eq)

section \<open>Properties\<close>

text \<open>
  The bit searches agree with their fallbacks on every word, and \<open>htfh_fls_sizet\<close> is the
  binary logarithm of every positive \<open>size_t\<close>.
\<close>

theorem htfh_fls_equiv:
  "htfh_fls w = htfh_fls_generic w - 1 \<and> (w \<noteq> 0 \<longrightarrow> htfh_ffs w = htfh_ffs_generic w)
   \<and> (0 < n \<and> n < 2 ^ 64 \<longrightarrow> 0 \<le> htfh_fls_sizet n \<and> 2 ^ nat (htfh_fls_sizet n) \<le> n
        \<and> n < 2 ^ Suc (nat (htfh_fls_sizet n)))"
proof (intro conjI impI)
  show "htfh_fls w = htfh_fls_generic w - 1" by (simp add: htfh_fls_eq htfh_fls_generic_eq)
next
  assume w: "w \<noteq> 0"
  let ?i = "nat (htfh_ffs w)"
  have i: "?i < 32" using htfh_ffs_bit(1,2) [OF w] by simp
  have "unat (push_bit ?i 1 :: 32 word) = 2 ^ ?i" 
    using push_high [of 1 "32 - ?i" ?i] i one_less_power [of "2 :: nat" "32 - ?i"] by simp
  then have "bit_length (unat (push_bit ?i 1 :: 32 word)) = Suc ?i" by (simp add: bit_length_eqI)
  then show "htfh_ffs w = htfh_ffs_generic w"
    using htfh_ffs_bit(1) [OF w] low_bit_word [OF w] by (simp add: htfh_ffs_generic_def htfh_fls_generic_eq)
next
  assume n: "0 < n \<and> n < 2 ^ 64"
  then have f: "htfh_fls_sizet n = int (bit_length n) - 1" using htfh_fls_sizet_eq by simp
  have b: "2 ^ (bit_length n - 1) \<le> n" "n < 2 ^ bit_length n" "0 < bit_length n"
    using bit_length_bounds [of n] n by simp_all
  then show "0 \<le> htfh_fls_sizet n" "2 ^ nat (htfh_fls_sizet n) \<le> n" "n < 2 ^ Suc (nat (htfh_fls_sizet n))"
    using f by (simp_all add: nat_diff_distrib del: power_Suc)
qed

theorem htfh_fls_equiv_witness:
  "htfh_ffs 12 = htfh_ffs_generic 12 \<and> 2 ^ nat (htfh_fls_sizet 4096) \<le> (4096 :: nat)"
  using htfh_fls_equiv [of 12 4096] by simp

text \<open>
  C40: the size classes fit: whatever block lies in the class \<open>mapping_search\<close> returns for a
  request, or in a later one, is large enough, and no earlier class has that property.
\<close>

theorem mapping_search_good_fit:
  assumes "4 dvd sz" and "sz < 2 ^ 31"
  shows "\<exists>fl sl. mapping_search sz = Inr (fl, sl)
    \<and> (\<forall>s < 2 ^ 64. \<forall>fl' sl'. mapping_insert s = (fl', sl') \<longrightarrow> (fl, sl) = (fl', sl') \<or> fl < fl' \<or> fl = fl' \<and> sl < sl' \<longrightarrow> sz \<le> s)
    \<and> (\<forall>fl' sl'. fl' < fl \<or> fl' = fl \<and> sl' < sl \<longrightarrow> 0 \<le> fl' \<longrightarrow> 0 \<le> sl' \<longrightarrow> sl' < 32 \<longrightarrow>
         (\<exists>s < sz. mapping_insert s = (fl', sl')))"
proof -
  obtain c where c: "mapping_search sz = Inr (class_index c)" "sz \<le> class_base c"
    "\<And>c'. sz \<le> class_base c' \<Longrightarrow> c \<le> c'" using mapping_search_class [OF assms] by blast
  obtain fl sl where i: "class_index c = (fl, sl)" by fastforce
  have large: "sz \<le> s" if "s < 2 ^ 64" "mapping_insert s = (fl', sl')" "(fl, sl) = (fl', sl') \<or> fl < fl' \<or> fl = fl' \<and> sl < sl'"
    for s fl' sl'
  proof -
    have "class_index (size_class s) = (fl', sl')" using mapping_insert_class [OF that(1)] that(2) by simp
    then have "c \<le> size_class s" using class_index_le [OF i] that(3) by auto
    then show ?thesis using class_base_iff c(2) by (meson le_trans)
  qed
  have small: "\<exists>s < sz. mapping_insert s = (fl', sl')"
    if "fl' < fl \<or> fl' = fl \<and> sl' < sl" "0 \<le> fl'" "0 \<le> sl'" "sl' < 32" for fl' sl'
  proof -
    let ?c' = "nat fl' * 32 + nat sl'"
    have i': "class_index ?c' = (fl', sl')" using that(2-4) by (simp add: class_index_def)
    have "\<not> c \<le> ?c'" using class_index_le [OF i i'] that(1) by auto
    then have "class_base ?c' < sz" using c(3) [of ?c'] by (meson not_le)
    moreover from this have "mapping_insert (class_base ?c') = (fl', sl')"
      using mapping_insert_class [of "class_base ?c'"] i' assms(2) by (simp add: size_class_base)
    ultimately show ?thesis by blast
  qed
  show ?thesis using c(1) i large small by auto
qed

theorem mapping_search_good_fit_witness:
  "\<exists>fl sl. mapping_search 1000 = Inr (fl, sl)"
  using mapping_search_good_fit [of 1000] by auto

text \<open>
  The classes of all sizes below \<open>2 ^ 30\<close> are inside the control arrays, but the class of
  \<open>block_size_max\<close> itself, a pool size that \<open>htfh_add_pool\<close> accepts, is one row past them.
\<close>

theorem mapping_insert_bounds:
  assumes "sz < 2 ^ 30"
  shows "(\<exists>fl sl. mapping_insert sz = (fl, sl) \<and> 0 \<le> fl \<and> fl < int FL_INDEX_COUNT \<and> 0 \<le> sl \<and> sl < int SL_INDEX_COUNT)
    \<and> mapping_insert (2 ^ 30) = (int FL_INDEX_COUNT, 0)"
proof
  have c: "mapping_insert sz = class_index (size_class sz)" "size_class sz < 768"
    using assms mapping_insert_class [of sz] size_class_bound by simp_all
  then have "size_class sz div 32 < 24" by (simp add: div_less_iff_less_mult)
  then show "\<exists>fl sl. mapping_insert sz = (fl, sl) \<and> 0 \<le> fl \<and> fl < int FL_INDEX_COUNT \<and> 0 \<le> sl \<and> sl < int SL_INDEX_COUNT"
    using c(1) by (simp add: class_index_def htfh_consts)
  show "mapping_insert (2 ^ 30) = (int FL_INDEX_COUNT, 0)"
    using mapping_insert_class [of "2 ^ 30"] size_class_base [of 768]
    by (simp add: class_base_768 class_index_def htfh_consts)
qed

theorem mapping_insert_bounds_witness:
  "\<exists>fl sl. mapping_insert 4096 = (fl, sl) \<and> fl < int FL_INDEX_COUNT \<and> sl < int SL_INDEX_COUNT"
  using mapping_insert_bounds [of 4096] by auto

text \<open>
  \<open>align_up\<close> returns the least multiple of a power of two that is not below its argument,
  \<open>align_ptr\<close> the same, \<open>align_down\<close> the greatest not above it, and any other alignment except 0
  sets the error code and returns 0.
\<close>

theorem align_spec:
  assumes "k < 64" and "x + 2 ^ k \<le> 2 ^ 64"
  shows "\<exists>y. align_up a x (2 ^ k) = (y, a) \<and> align_ptr a x (2 ^ k) = (y, a) \<and> 2 ^ k dvd y \<and> x \<le> y
      \<and> (\<forall>z. 2 ^ k dvd z \<longrightarrow> x \<le> z \<longrightarrow> y \<le> z)
    \<and> (\<exists>z. align_down a x (2 ^ k) = (z, a) \<and> 2 ^ k dvd z \<and> z \<le> x \<and> x < z + 2 ^ k)
    \<and> (\<forall>al. al \<noteq> 0 \<longrightarrow> al < 2 ^ 64 \<longrightarrow> (\<nexists>j. al = 2 ^ j) \<longrightarrow> align_up a x al = (0, a\<lparr>alloc_errno := ALIGN_POWER_OF_TWO\<rparr>))"
proof -
  let ?y = "(x + 2 ^ k - 1) div 2 ^ k * 2 ^ k"
  have p: "(0 :: nat) < 2 ^ k" by simp
  have "x + 2 ^ k - 1 < Suc ((x + 2 ^ k - 1) div 2 ^ k) * 2 ^ k"
    using dividend_less_times_div [OF p, of "x + 2 ^ k - 1"] by (simp add: mult.commute)
  then have ge: "x \<le> ?y" by simp
  have least: "?y \<le> z" if z: "2 ^ k dvd z" "x \<le> z" for z
  proof -
    obtain j where j: "z = 2 ^ k * j" using z(1) by (elim dvdE)
    have "x + 2 ^ k - 1 < Suc j * 2 ^ k" using z(2) p unfolding j mult_Suc mult.commute [of _ j] by linarith
    then have "(x + 2 ^ k - 1) div 2 ^ k < Suc j" by (simp add: div_less_iff_less_mult)
    then show ?thesis unfolding j by (simp add: mult.commute)
  qed
  have bad: "align_up a x al = (0, a\<lparr>alloc_errno := ALIGN_POWER_OF_TWO\<rparr>)"
    if "al \<noteq> 0" "al < 2 ^ 64" "\<nexists>j. al = 2 ^ j" for al
    using not_pow2_and_pred [OF that(1,2)] that(3) by (auto simp: align_up_def set_alloc_errno_def)
  have down: "x < x div 2 ^ k * 2 ^ k + 2 ^ k"
    using dividend_less_times_div [OF p, of x] by (simp add: mult.commute)
  show ?thesis
    using align_up_eq [OF assms] align_down_eq [OF assms(1), of a x] ge least bad down
    by (intro exI [of _ ?y] conjI exI [of _ "x div 2 ^ k * 2 ^ k"]) (simp_all add: div_times_less_eq_dividend)
qed

theorem align_spec_witness:
  "\<forall>a. \<exists>y. align_up a 13 (2 ^ 2) = (y, a) \<and> 4 dvd y \<and> 13 \<le> y"
proof
  fix a
  show "\<exists>y. align_up a 13 (2 ^ 2) = (y, a) \<and> 4 dvd y \<and> 13 \<le> y" using align_spec [of 2 13 a] by auto
qed

end
