(* ===== verification/HTFH_Block.thy ===== *)
theory HTFH_Block
  imports HTFH_Utils
begin

text \<open>
  Block headers, \<open>allocator/htfh/block.c\<close>.  A block is its address; its fields are 8-byte
  words at the offsets of \<open>struct BlockHeader\<close>.  The two low bits of the size field say
  whether the block, and the block before it, are free.
\<close>

section \<open>Fields\<close>

definition prev_phys_block :: "addr \<Rightarrow> addr" where
  "prev_phys_block b = b"

definition size_field :: "addr \<Rightarrow> addr" where
  "size_field b = usize (b + 8)"

definition next_free :: "addr \<Rightarrow> addr" where
  "next_free b = usize (b + 16)"

definition prev_free :: "addr \<Rightarrow> addr" where
  "prev_free b = usize (b + 24)"

definition sizeof_BlockHeader :: nat where
  "sizeof_BlockHeader = 32"

definition block_header_free_bit :: nat where
  "block_header_free_bit = 1"

definition block_header_prev_free_bit :: nat where
  "block_header_prev_free_bit = 2"

definition block_header_overhead :: nat where
  "block_header_overhead = 8"

definition block_start_offset :: nat where
  "block_start_offset = 8 + 8"

definition block_size_min :: nat where
  "block_size_min = sizeof_BlockHeader - 8"

definition block_size_max :: nat where
  "block_size_max = 2 ^ FL_INDEX_MAX"

lemmas block_consts = sizeof_BlockHeader_def block_header_free_bit_def block_header_prev_free_bit_def
  block_header_overhead_def block_start_offset_def block_size_min_def block_size_max_def

section \<open>Operations\<close>

definition block_size :: "Allocator \<Rightarrow> addr \<Rightarrow> nat res" where
  "block_size a b =
     rbind (load64 a (size_field b)) (\<lambda>w.
       Inr (w AND usize_not (block_header_free_bit OR block_header_prev_free_bit)))"

definition block_set_size :: "Allocator \<Rightarrow> addr \<Rightarrow> nat \<Rightarrow> Allocator res" where
  "block_set_size a b sz =
     rbind (load64 a (size_field b)) (\<lambda>old.
       store64 a (size_field b) (sz OR (old AND (block_header_free_bit OR block_header_prev_free_bit))))"

definition block_is_last :: "Allocator \<Rightarrow> addr \<Rightarrow> bool res" where
  "block_is_last a b = rbind (block_size a b) (\<lambda>s. Inr (s = 0))"

definition block_is_free :: "Allocator \<Rightarrow> addr \<Rightarrow> bool res" where
  "block_is_free a b = rbind (load64 a (size_field b)) (\<lambda>w. Inr (w AND block_header_free_bit \<noteq> 0))"

definition block_set_free :: "Allocator \<Rightarrow> addr \<Rightarrow> Allocator res" where
  "block_set_free a b =
     rbind (load64 a (size_field b)) (\<lambda>w. store64 a (size_field b) (w OR block_header_free_bit))"

definition block_set_used :: "Allocator \<Rightarrow> addr \<Rightarrow> Allocator res" where
  "block_set_used a b =
     rbind (load64 a (size_field b)) (\<lambda>w. store64 a (size_field b) (w AND usize_not block_header_free_bit))"

definition block_is_prev_free :: "Allocator \<Rightarrow> addr \<Rightarrow> bool res" where
  "block_is_prev_free a b =
     rbind (load64 a (size_field b)) (\<lambda>w. Inr (w AND block_header_prev_free_bit \<noteq> 0))"

definition block_set_prev_free :: "Allocator \<Rightarrow> addr \<Rightarrow> Allocator res" where
  "block_set_prev_free a b =
     rbind (load64 a (size_field b)) (\<lambda>w. store64 a (size_field b) (w OR block_header_prev_free_bit))"

definition block_set_prev_used :: "Allocator \<Rightarrow> addr \<Rightarrow> Allocator res" where
  "block_set_prev_used a b =
     rbind (load64 a (size_field b)) (\<lambda>w.
       store64 a (size_field b) (w AND usize_not block_header_prev_free_bit))"

definition block_from_ptr :: "addr \<Rightarrow> addr" where
  "block_from_ptr ptr = usize_sub ptr block_start_offset"

definition block_to_ptr :: "addr \<Rightarrow> addr" where
  "block_to_ptr b = usize (b + block_start_offset)"

definition offset_to_block :: "addr \<Rightarrow> nat \<Rightarrow> addr" where
  "offset_to_block ptr sz = usize (ptr + sz)"

definition block_prev :: "Allocator \<Rightarrow> addr \<Rightarrow> (addr \<times> Allocator) res" where
  "block_prev a b =
     rbind (block_is_prev_free a b) (\<lambda>pf.
       if \<not> pf then Inr (NULL, set_alloc_errno PREV_BLOCK_NOT_FREE a)
       else rbind (load64 a (prev_phys_block b)) (\<lambda>p. Inr (p, a)))"

definition block_next :: "Allocator \<Rightarrow> addr \<Rightarrow> (addr \<times> Allocator) res" where
  "block_next a b =
     rbind (block_size a b) (\<lambda>s.
       let nxt = offset_to_block (block_to_ptr b) (usize_sub s block_header_overhead) in
       rbind (block_is_last a b) (\<lambda>last.
         if last then Inr (NULL, set_alloc_errno BLOCK_IS_LAST a) else Inr (nxt, a)))"

definition block_link_next :: "Allocator \<Rightarrow> addr \<Rightarrow> (addr \<times> Allocator) res" where
  "block_link_next a b =
     rbind (block_next a b) (\<lambda>(nxt, a1).
       if nxt = NULL then Inr (NULL, a1)
       else rbind (store64 a1 (prev_phys_block nxt) b) (\<lambda>a2. Inr (nxt, a2)))"

definition block_mark_as_free :: "Allocator \<Rightarrow> addr \<Rightarrow> (int \<times> Allocator) res" where
  "block_mark_as_free a b =
     rbind (block_link_next a b) (\<lambda>(nxt, a1).
       if nxt = NULL then Inr (- 1, a1)
       else rbind (block_set_prev_free a1 nxt) (\<lambda>a2. rbind (block_set_free a2 b) (\<lambda>a3. Inr (0, a3))))"

definition block_mark_as_used :: "Allocator \<Rightarrow> addr \<Rightarrow> (int \<times> Allocator) res" where
  "block_mark_as_used a b =
     rbind (block_next a b) (\<lambda>(nxt, a1).
       if nxt = NULL then Inr (- 1, a1)
       else rbind (block_set_prev_used a1 nxt) (\<lambda>a2. rbind (block_set_used a2 b) (\<lambda>a3. Inr (0, a3))))"

definition block_can_split :: "Allocator \<Rightarrow> addr \<Rightarrow> nat \<Rightarrow> bool res" where
  "block_can_split a b sz = rbind (block_size a b) (\<lambda>s. Inr (usize (sizeof_BlockHeader + sz) \<le> s))"

definition block_split :: "Allocator \<Rightarrow> addr \<Rightarrow> nat \<Rightarrow> (addr \<times> Allocator) res" where
  "block_split a b sz =
     (let remaining = offset_to_block (block_to_ptr b) (usize_sub sz block_header_overhead) in
      rbind (block_size a b) (\<lambda>bs.
      let remain_size = usize_sub bs (usize (sz + block_header_overhead)) in
      case align_ptr a (block_to_ptr remaining) ALIGN_SIZE of (aligned, a1) \<Rightarrow>
        if block_to_ptr remaining \<noteq> aligned then Inr (NULL, set_alloc_errno BLOCK_NOT_ALIGNED a1)
        else if bs \<noteq> usize (remain_size + sz + block_header_overhead)
          then Inr (NULL, set_alloc_errno BLOCK_SIZE_MISMATCH a1)
        else
          rbind (block_set_size a1 remaining remain_size) (\<lambda>a2.
          rbind (block_size a2 remaining) (\<lambda>rs.
          if rs < block_size_min then Inr (NULL, set_alloc_errno INVALID_BLOCK_SPLIT_SIZE a2)
          else
            rbind (block_set_size a2 b sz) (\<lambda>a3.
            rbind (block_mark_as_free a3 remaining) (\<lambda>(_, a4). Inr (remaining, a4)))))))"

definition block_absorb :: "Allocator \<Rightarrow> addr \<Rightarrow> addr \<Rightarrow> (addr \<times> Allocator) res" where
  "block_absorb a prv b =
     rbind (block_is_last a prv) (\<lambda>last.
       if last then Inr (NULL, set_alloc_errno BLOCK_IS_LAST a)
       else
         rbind (load64 a (size_field prv)) (\<lambda>w.
         rbind (block_size a b) (\<lambda>bs.
         rbind (store64 a (size_field prv) (usize (w + bs + block_header_overhead))) (\<lambda>a1.
         rbind (block_link_next a1 prv) (\<lambda>(_, a2). Inr (prv, a2))))))"

end
