(* ===== verification/HTFH_Controller.thy ===== *)
theory HTFH_Controller
  imports HTFH_Block
begin

text \<open>
  The controller, \<open>allocator/htfh/controller.c\<close>: the segregated free lists and the two levels
  of bitmaps over them, and splitting and merging of blocks.  \<open>block_null\<close>, the block that
  stands for the empty list, is the first field of the controller, so its address is the
  controller's.
\<close>

section \<open>Free lists\<close>

definition blocks_at :: "Allocator \<Rightarrow> int \<Rightarrow> int \<Rightarrow> addr res" where
  "blocks_at a fl sl = rbind (elem_i (blocks a) fl) (\<lambda>row. elem_i row sl)"

definition set_blocks :: "Allocator \<Rightarrow> int \<Rightarrow> int \<Rightarrow> addr \<Rightarrow> Allocator" where
  "set_blocks a fl sl b = a\<lparr>blocks := (blocks a)[nat fl := (blocks a ! nat fl)[nat sl := b]]\<rparr>"

definition largest_bit_class :: "int \<Rightarrow> 32 word res" where
  "largest_bit_class index = shl32 (- 1) index"

text \<open>The result is the block with the indices stored back through \<open>fli\<close> and \<open>sli\<close>.\<close>

definition search_second_level ::
  "Allocator \<Rightarrow> int \<Rightarrow> int \<Rightarrow> 32 word \<Rightarrow> (addr \<times> int \<times> int \<times> Allocator) res" where
  "search_second_level a fli sli sl_map =
     (if sl_map = 0 then Inr (NULL, fli, sli, set_alloc_errno SECOND_LEVEL_BITMAP_NULL a)
      else
        let sli' = htfh_ffs sl_map
        in rbind (blocks_at a fli sli') (\<lambda>b. Inr (b, fli, sli', a)))"

definition controller_search_suitable_block ::
  "Allocator \<Rightarrow> int \<Rightarrow> int \<Rightarrow> (addr \<times> int \<times> int \<times> Allocator) res" where
  "controller_search_suitable_block a fli sli =
     rbind (elem_i (sl_bitmap a) fli) (\<lambda>w.
     rbind (largest_bit_class sli) (\<lambda>ms.
     let sl_map = w AND ms in
     if sl_map \<noteq> 0 then search_second_level a fli sli sl_map
     else
       rbind (largest_bit_class (fli + 1)) (\<lambda>mf.
       let fl_map = fl_bitmap a AND mf in
       if fl_map = 0 then Inr (NULL, fli, sli, set_alloc_errno HEAP_FULL a)
       else
         let fli' = htfh_ffs fl_map in
         rbind (elem_i (sl_bitmap a) fli') (\<lambda>w'. search_second_level a fli' sli w'))))"

definition controller_remove_free_block :: "Allocator \<Rightarrow> addr \<Rightarrow> int \<Rightarrow> int \<Rightarrow> (int \<times> Allocator) res" where
  "controller_remove_free_block a b fl sl =
     rbind (load64 a (prev_free b)) (\<lambda>prv.
     rbind (load64 a (next_free b)) (\<lambda>nxt.
     if prv = NULL then Inr (- 1, set_alloc_errno PREV_BLOCK_NULL a)
     else if nxt = NULL then Inr (- 1, set_alloc_errno NEXT_BLOCK_NULL a)
     else
       rbind (store64 a (prev_free nxt) prv) (\<lambda>a1.
       rbind (store64 a1 (next_free prv) nxt) (\<lambda>a2.
       rbind (blocks_at a2 fl sl) (\<lambda>hd.
       if hd \<noteq> b then Inr (0, a2)
       else
         let a3 = set_blocks a2 fl sl nxt in
         if nxt \<noteq> controller a then Inr (0, a3)
         else
           rbind (elem_i (sl_bitmap a3) fl) (\<lambda>w.
           rbind (shl32 1 sl) (\<lambda>bs.
           let w' = w AND NOT bs; a4 = a3\<lparr>sl_bitmap := (sl_bitmap a3)[nat fl := w']\<rparr> in
           if w' \<noteq> 0 then Inr (0, a4)
           else rbind (shl32 1 fl) (\<lambda>bf. Inr (0, a4\<lparr>fl_bitmap := fl_bitmap a4 AND NOT bf\<rparr>))))))))) "

definition controller_insert_free_block :: "Allocator \<Rightarrow> addr \<Rightarrow> int \<Rightarrow> int \<Rightarrow> (int \<times> Allocator) res" where
  "controller_insert_free_block a b fl sl =
     rbind (blocks_at a fl sl) (\<lambda>current.
     if current = NULL then Inr (- 1, set_alloc_errno BLOCK_IS_NULL a)
     else if b = NULL then Inr (- 1, set_alloc_errno BLOCK_IS_NULL a)
     else
       rbind (store64 a (next_free b) current) (\<lambda>a1.
       rbind (store64 a1 (prev_free b) (controller a)) (\<lambda>a2.
       rbind (store64 a2 (prev_free current) b) (\<lambda>a3.
       case align_ptr a3 (block_to_ptr b) ALIGN_SIZE of (aligned, a4) \<Rightarrow>
         if block_to_ptr b \<noteq> aligned then Inr (- 1, set_alloc_errno BLOCK_NOT_ALIGNED a4)
         else
           let a5 = set_blocks a4 fl sl b in
           rbind (shl32 1 fl) (\<lambda>bf.
           let a6 = a5\<lparr>fl_bitmap := fl_bitmap a5 OR bf\<rparr> in
           rbind (elem_i (sl_bitmap a6) fl) (\<lambda>w.
           rbind (shl32 1 sl) (\<lambda>bs.
             Inr (0, a6\<lparr>sl_bitmap := (sl_bitmap a6)[nat fl := w OR bs]\<rparr>))))))))"

definition controller_block_remove :: "Allocator \<Rightarrow> addr \<Rightarrow> (int \<times> Allocator) res" where
  "controller_block_remove a b =
     rbind (block_size a b) (\<lambda>s. case mapping_insert s of (fl, sl) \<Rightarrow> controller_remove_free_block a b fl sl)"

definition controller_block_insert :: "Allocator \<Rightarrow> addr \<Rightarrow> (int \<times> Allocator) res" where
  "controller_block_insert a b =
     rbind (block_size a b) (\<lambda>s. case mapping_insert s of (fl, sl) \<Rightarrow> controller_insert_free_block a b fl sl)"

section \<open>Merging and splitting\<close>

definition controller_block_merge_prev :: "Allocator \<Rightarrow> addr \<Rightarrow> (addr \<times> Allocator) res" where
  "controller_block_merge_prev a b =
     rbind (block_is_prev_free a b) (\<lambda>pf.
     if \<not> pf then Inr (b, a)
     else
       rbind (block_prev a b) (\<lambda>(prv, a1).
       if prv = NULL then Inr (NULL, set_alloc_errno PREV_BLOCK_NULL a1)
       else
         rbind (block_is_free a1 prv) (\<lambda>f.
         if \<not> f then Inr (NULL, set_alloc_errno BLOCK_NOT_FREE a1)
         else
           rbind (controller_block_remove a1 prv) (\<lambda>(r, a2).
           if r \<noteq> 0 then Inr (NULL, a2) else block_absorb a2 prv b))))"

definition controller_block_merge_next :: "Allocator \<Rightarrow> addr \<Rightarrow> (addr \<times> Allocator) res" where
  "controller_block_merge_next a b =
     rbind (block_next a b) (\<lambda>(nxt, a1).
     if nxt = NULL then Inr (NULL, a1)
     else
       rbind (block_is_free a1 nxt) (\<lambda>f.
       if \<not> f then Inr (b, a1)
       else
         rbind (block_is_last a1 b) (\<lambda>last.
         if last then Inr (NULL, set_alloc_errno BLOCK_IS_LAST a1)
         else
           rbind (controller_block_remove a1 nxt) (\<lambda>(r, a2).
           if r \<noteq> 0 then Inr (NULL, a2) else block_absorb a2 b nxt))))"

definition controller_block_trim_free :: "Allocator \<Rightarrow> addr \<Rightarrow> nat \<Rightarrow> (int \<times> Allocator) res" where
  "controller_block_trim_free a b sz =
     rbind (block_is_free a b) (\<lambda>f.
     if \<not> f then Inr (- 1, set_alloc_errno BLOCK_NOT_FREE a)
     else
       rbind (block_can_split a b sz) (\<lambda>can.
       if \<not> can then Inr (0, a)
       else
         rbind (block_split a b sz) (\<lambda>(remaining, a1).
         if remaining = NULL then Inr (- 1, a1)
         else
           rbind (block_link_next a1 b) (\<lambda>(_, a2).
           rbind (block_set_prev_free a2 remaining) (\<lambda>a3. controller_block_insert a3 remaining)))))"

definition controller_block_trim_used :: "Allocator \<Rightarrow> addr \<Rightarrow> nat \<Rightarrow> (int \<times> Allocator) res" where
  "controller_block_trim_used a b sz =
     rbind (block_is_free a b) (\<lambda>f.
     if \<not> f then Inr (- 1, set_alloc_errno BLOCK_NOT_FREE a)
     else
       rbind (block_can_split a b sz) (\<lambda>can.
       if \<not> can then Inr (0, a)
       else
         rbind (block_split a b sz) (\<lambda>(remaining, a1).
         if remaining = NULL then Inr (- 1, a1)
         else
           rbind (block_set_prev_used a1 remaining) (\<lambda>a2.
           rbind (controller_block_merge_next a2 remaining) (\<lambda>(merged, a3).
           if merged = NULL then Inr (- 1, a3) else controller_block_insert a3 merged)))))"

definition controller_block_trim_free_leading :: "Allocator \<Rightarrow> addr \<Rightarrow> nat \<Rightarrow> (addr \<times> Allocator) res" where
  "controller_block_trim_free_leading a b sz =
     (if controller a = NULL then Inr (NULL, set_alloc_errno NULL_CONTROLLER_INSTANCE a)
      else if b = NULL then Inr (NULL, set_alloc_errno BLOCK_IS_NULL a)
      else
        rbind (block_can_split a b sz) (\<lambda>can.
        if \<not> can then Inr (b, a)
        else
          rbind (block_split a b (usize_sub sz block_header_overhead)) (\<lambda>(remaining, a1).
          rbind (block_set_prev_free a1 remaining) (\<lambda>a2.
          rbind (block_link_next a2 b) (\<lambda>(_, a3).
          rbind (controller_block_insert a3 b) (\<lambda>(r, a4).
            Inr (if r \<noteq> 0 then NULL else remaining, a4)))))))"

definition controller_block_find_free :: "Allocator \<Rightarrow> nat \<Rightarrow> (addr \<times> Allocator) res" where
  "controller_block_find_free a sz =
     (if controller a = NULL then Inr (NULL, set_alloc_errno NULL_CONTROLLER_INSTANCE a)
      else if sz = 0 then Inr (NULL, a)
      else
        rbind (mapping_search sz) (\<lambda>(fl, sl).
        if int FL_INDEX_COUNT \<le> fl then Inr (NULL, a)
        else
          rbind (controller_search_suitable_block a fl sl) (\<lambda>(b, fl', sl', a1).
          if b = NULL then Inr (NULL, a1)
          else
            rbind (block_size a1 b) (\<lambda>bs.
            if bs < sz then Inr (NULL, set_alloc_errno BLOCK_SIZE_MISMATCH a1)
            else
              rbind (controller_remove_free_block a1 b fl' sl') (\<lambda>(r, a2).
                Inr (if r = 0 then b else NULL, a2))))))"

definition controller_block_mark_used :: "Allocator \<Rightarrow> addr \<Rightarrow> nat \<Rightarrow> (addr \<times> Allocator) res" where
  "controller_block_mark_used a b sz =
     (if controller a = NULL then Inr (NULL, set_alloc_errno NULL_CONTROLLER_INSTANCE a)
      else if b = NULL then Inr (NULL, set_alloc_errno BLOCK_IS_NULL a)
      else if sz = 0 then Inr (NULL, set_alloc_errno NON_ZERO_BLOCK_SIZE a)
      else
        rbind (controller_block_trim_free a b sz) (\<lambda>(r, a1).
        if r \<noteq> 0 then Inr (NULL, a1)
        else
          rbind (block_mark_as_used a1 b) (\<lambda>(r2, a2).
            Inr (if r2 = 0 then block_to_ptr b else NULL, a2))))"

definition controller_new :: "Allocator \<Rightarrow> (int \<times> Allocator) res" where
  "controller_new a =
     (if controller a = NULL then Inr (- 1, set_alloc_errno NULL_CONTROLLER_INSTANCE a)
      else
        rbind (store64 a (next_free (controller a)) (controller a)) (\<lambda>a1.
        rbind (store64 a1 (prev_free (controller a)) (controller a)) (\<lambda>a2.
          Inr (0, a2\<lparr>fl_bitmap := 0, sl_bitmap := replicate FL_INDEX_COUNT 0,
            blocks := replicate FL_INDEX_COUNT (replicate SL_INDEX_COUNT (controller a))\<rparr>))))"

end
