(* ===== verification/HTFH.thy ===== *)
theory HTFH
  imports HTFH_Controller
begin

text \<open>
  The allocator, \<open>allocator/htfh/htfh.c\<close>.  The handle and its controller are in one record
  and not \<open>NULL\<close> unless \<open>controller\<close> is 0.  \<open>mmap\<close> and \<open>munmap\<close> are parameters: fresh mapped
  memory is zero.  Formatting of error messages is left out.
\<close>

section \<open>Sizes\<close>

text \<open>\<open>sizeof(Controller)\<close>: the null block, the bitmaps padded to 8 bytes, the free lists.\<close>

definition htfh_size :: nat where
  "htfh_size = sizeof_BlockHeader + (4 + 4 * FL_INDEX_COUNT + 4) + 8 * FL_INDEX_COUNT * SL_INDEX_COUNT"

definition htfh_align_size :: nat where
  "htfh_align_size = ALIGN_SIZE"

definition htfh_block_size_min :: nat where
  "htfh_block_size_min = block_size_min"

definition htfh_block_size_max :: nat where
  "htfh_block_size_max = block_size_max"

definition htfh_pool_overhead :: nat where
  "htfh_pool_overhead = 2 * block_header_overhead"

definition htfh_alloc_overhead :: nat where
  "htfh_alloc_overhead = block_header_overhead"

definition adjust_request_size :: "Allocator \<Rightarrow> nat \<Rightarrow> nat \<Rightarrow> nat \<times> Allocator" where
  "adjust_request_size a sz align =
     (if sz = 0 then (0, a)
      else (case align_up a sz align of (aligned, a1) \<Rightarrow>
        if aligned < block_size_max then (max aligned block_size_min, a1) else (0, a1)))"

section \<open>Pools\<close>

definition htfh_add_pool :: "Allocator \<Rightarrow> addr \<Rightarrow> nat \<Rightarrow> (addr \<times> Allocator) res" where
  "htfh_add_pool a0 mem bytes =
     (case alloc_lock a0 of (r, a) \<Rightarrow>
      if r = - 1 then Inr (NULL, a)
      else (case align_down a (usize_sub bytes htfh_pool_overhead) ALIGN_SIZE of (pool_bytes, a1) \<Rightarrow>
        if mem mod ALIGN_SIZE \<noteq> 0 then unlock_return (set_alloc_errno POOL_MISALIGNED a1) NULL NULL
        else if pool_bytes < block_size_min \<or> block_size_max < pool_bytes
          then unlock_return (set_alloc_errno INVALID_POOL_SIZE a1) NULL NULL
        else
          let b = usize_sub mem block_header_overhead in
          rbind (block_set_size a1 b pool_bytes) (\<lambda>a2.
          rbind (block_set_free a2 b) (\<lambda>a3.
          rbind (block_set_prev_used a3 b) (\<lambda>a4.
          rbind (controller_block_insert a4 b) (\<lambda>(r2, a5).
          if r2 \<noteq> 0 then unlock_return a5 NULL NULL
          else
            rbind (block_link_next a5 b) (\<lambda>(nxt, a6).
            rbind (block_set_size a6 nxt 0) (\<lambda>a7.
            rbind (block_set_used a7 nxt) (\<lambda>a8.
            rbind (block_set_prev_free a8 nxt) (\<lambda>a9.
              unlock_return a9 mem NULL))))))))))"

text \<open>
  \<open>htfh_create\<close>: \<open>got\<close> says whether the handle could be allocated, \<open>l\<close> is the mutex before its
  initialisation and \<open>region\<close> what \<open>mmap\<close> returns.
\<close>

definition htfh_create ::
  "bool \<Rightarrow> lock \<Rightarrow> addr \<Rightarrow> AllocatorErrno \<Rightarrow> nat \<Rightarrow> (Allocator option \<times> AllocatorErrno) res" where
  "htfh_create got l region e bytes =
     (if bytes mod ALIGN_SIZE \<noteq> 0 then Inr (None, HEAP_MISALIGNED)
      else if \<not> got then Inr (None, NULL_ALLOCATOR_INSTANCE)
      else (case htfh_lock_init l of (r, l1) \<Rightarrow>
        if r \<noteq> 0 then Inr (None, MUTEX_LOCK_INIT)
        else
          let a0 = \<lparr>alloc_errno = e, mutex = l1, heap_size = bytes, heap = region,
                    bytes_at = (\<lambda>_. 0), controller = region, fl_bitmap = 0, sl_bitmap = replicate FL_INDEX_COUNT 0,
                    blocks = replicate FL_INDEX_COUNT (replicate SL_INDEX_COUNT 0)\<rparr> in
          (case alloc_lock a0 of (r2, a1) \<Rightarrow>
            if r2 \<noteq> 0 then Inr (None, alloc_errno a1)
            else if heap a1 = NULL
              then rbind (unlock_return (set_alloc_errno HEAP_MMAP_FAILED a1) () ()) (\<lambda>(_, a2). Inr (None, alloc_errno a2))
            else
              rbind (controller_new a1) (\<lambda>(r3, a2).
              if r3 \<noteq> 0 then rbind (unlock_return a2 () ()) (\<lambda>(_, a3). Inr (None, alloc_errno a3))
              else
                rbind (htfh_add_pool a2 (usize (heap a2 + htfh_size)) (usize_sub bytes htfh_size)) (\<lambda>(_, a3).
                case alloc_unlock a3 of (r4, a4) \<Rightarrow>
                  Inr (if r4 = 0 then Some a4 else None, alloc_errno a4))))))"

text \<open>\<open>munmap_ret\<close> is the result of \<open>munmap\<close>; the handle is gone when the result is 0.\<close>

definition htfh_destroy :: "int \<Rightarrow> Allocator \<Rightarrow> (int \<times> Allocator) res" where
  "htfh_destroy munmap_ret a0 =
     (if controller a0 = NULL then Inr (- 1, set_alloc_errno NULL_ALLOCATOR_INSTANCE a0)
      else (case alloc_lock a0 of (r, a) \<Rightarrow>
        if r \<noteq> 0 then Inr (- 1, a)
        else if munmap_ret \<noteq> 0 then unlock_return (set_alloc_errno HEAP_UNMAP_FAILED a) (- 1) (- 1)
        else unlock_return a 0 (- 1)))"

section \<open>Allocation\<close>

definition htfh_malloc :: "Allocator \<Rightarrow> nat \<Rightarrow> (addr \<times> Allocator) res" where
  "htfh_malloc a0 sz =
     (if controller a0 = NULL then Inr (NULL, set_alloc_errno NULL_ALLOCATOR_INSTANCE a0)
      else (case alloc_lock a0 of (r, a) \<Rightarrow>
        if r = - 1 then Inr (NULL, a)
        else (case adjust_request_size a sz ALIGN_SIZE of (adjust, a1) \<Rightarrow>
          rbind (controller_block_find_free a1 adjust) (\<lambda>(b, a2).
          if b = NULL then unlock_return a2 NULL NULL
          else rbind (controller_block_mark_used a2 b adjust) (\<lambda>(ptr, a3). unlock_return a3 ptr NULL)))))"

definition htfh_free :: "Allocator \<Rightarrow> addr \<Rightarrow> (int \<times> Allocator) res" where
  "htfh_free a0 ptr =
     (if controller a0 = NULL then Inr (- 1, set_alloc_errno NULL_ALLOCATOR_INSTANCE a0)
      else (case alloc_lock a0 of (r, a) \<Rightarrow>
        if r = - 1 then Inr (- 1, a)
        else if ptr = NULL then Inr (alloc_unlock a)
        else
          let b = block_from_ptr ptr in
          if b = NULL then unlock_return (set_alloc_errno BLOCK_IS_NULL a) (- 1) (- 1)
          else
            rbind (block_is_free a b) (\<lambda>f.
            if f then unlock_return (set_alloc_errno BLOCK_ALREADY_FREED a) (- 1) (- 1)
            else
              rbind (block_mark_as_free a b) (\<lambda>(_, a1).
              rbind (controller_block_merge_prev a1 b) (\<lambda>(b1, a2).
              if b1 = NULL then unlock_return a2 (- 1) (- 1)
              else
                rbind (controller_block_merge_next a2 b1) (\<lambda>(b2, a3).
                if b2 = NULL then unlock_return a3 (- 1) (- 1)
                else
                  rbind (controller_block_insert a3 b2) (\<lambda>(r2, a4).
                  if r2 \<noteq> 0 then unlock_return a4 (- 1) (- 1) else Inr (alloc_unlock a4))))))))"

definition htfh_calloc :: "Allocator \<Rightarrow> nat \<Rightarrow> nat \<Rightarrow> (addr \<times> Allocator) res" where
  "htfh_calloc a count bytes =
     rbind (htfh_malloc a (usize (count * bytes))) (\<lambda>(ptr, a1).
       if ptr \<noteq> NULL then rbind (heap_memset a1 ptr 0 (usize (count * bytes))) (\<lambda>a2. Inr (ptr, a2))
       else Inr (ptr, a1))"

text \<open>The gap \<open>htfh_memalign\<close> leaves in front of the aligned address.\<close>

definition alignment_gap :: "Allocator \<Rightarrow> addr \<Rightarrow> nat \<Rightarrow> nat \<times> Allocator" where
  "alignment_gap a ptr align =
     (case align_ptr a ptr align of (aligned, a1) \<Rightarrow>
        let gap = usize_sub aligned ptr in
        if gap \<noteq> 0 \<and> gap < sizeof_BlockHeader then
          let offset = max (usize_sub sizeof_BlockHeader gap) align in
          (case align_ptr a1 (usize (aligned + offset)) align of (aligned2, a2) \<Rightarrow>
             (usize_sub aligned2 ptr, a2))
        else (gap, a1))"

definition htfh_memalign :: "Allocator \<Rightarrow> nat \<Rightarrow> nat \<Rightarrow> (addr \<times> Allocator) res" where
  "htfh_memalign a0 align sz =
     (if controller a0 = NULL then Inr (NULL, set_alloc_errno NULL_ALLOCATOR_INSTANCE a0)
      else (case alloc_lock a0 of (r, a) \<Rightarrow>
        if r = - 1 then Inr (NULL, a)
        else (case adjust_request_size a sz ALIGN_SIZE of (adjust, a1) \<Rightarrow>
         (case adjust_request_size a1 (usize (adjust + align + sizeof_BlockHeader)) align of (size_with_gap, a2) \<Rightarrow>
          let aligned_size = (if adjust \<noteq> 0 \<and> ALIGN_SIZE < align then size_with_gap else adjust) in
          rbind (controller_block_find_free a2 aligned_size) (\<lambda>(b, a3).
          if sizeof_BlockHeader \<noteq> block_size_min + block_header_overhead
            then unlock_return (set_alloc_errno BLOCK_SIZE_MISMATCH a3) NULL NULL
          else
            let finish = (\<lambda>b a. rbind (controller_block_mark_used a b adjust) (\<lambda>(ptr, a5).
                  if ptr \<noteq> NULL then unlock_return a5 ptr NULL else Inr (NULL, a5)))
            in
            if b = NULL then finish b a3
            else (case alignment_gap a3 (block_to_ptr b) align of (gap, a4) \<Rightarrow>
              if gap = 0 then finish b a4
              else if gap < sizeof_BlockHeader
                then unlock_return (set_alloc_errno GAP_TOO_SMALL a4) NULL NULL
              else
                rbind (controller_block_trim_free_leading a4 b gap) (\<lambda>(b2, a5).
                if b2 = NULL then unlock_return a5 NULL NULL else finish b2 a5)))))))"

text \<open>The part of \<open>htfh_realloc\<close> after the edge cases.\<close>

definition realloc_block :: "Allocator \<Rightarrow> addr \<Rightarrow> nat \<Rightarrow> (addr \<times> Allocator) res" where
  "realloc_block a ptr sz =
     (let b = block_from_ptr ptr in
      rbind (block_next a b) (\<lambda>(nxt, a1).
      rbind (block_size a1 b) (\<lambda>cursize.
      rbind (block_size a1 nxt) (\<lambda>ns.
      let combined = usize (cursize + ns + block_header_overhead) in
      case adjust_request_size a1 sz ALIGN_SIZE of (adjust, a2) \<Rightarrow>
      rbind (block_is_free a2 b) (\<lambda>f.
      if f then unlock_return (set_alloc_errno BLOCK_ALREADY_FREED a2) NULL NULL
      else
        let trim = (\<lambda>a. rbind (controller_block_trim_used a b adjust) (\<lambda>(r, a').
              if r \<noteq> 0 then unlock_return a' NULL NULL else unlock_return a' ptr NULL))
        in
        rbind (block_is_free a2 nxt) (\<lambda>nf.
        if cursize < adjust \<and> (\<not> nf \<or> combined < adjust) then
          rbind (htfh_malloc a2 sz) (\<lambda>(p, a3).
          if p \<noteq> NULL then
            rbind (heap_memcpy a3 p ptr (min cursize sz)) (\<lambda>a4.
            rbind (htfh_free a4 ptr) (\<lambda>(r, a5).
              if r \<noteq> 0 then unlock_return a5 NULL NULL else unlock_return a5 p NULL))
          else unlock_return a3 p NULL)
        else if cursize < adjust then
          rbind (controller_block_merge_next a2 b) (\<lambda>(merged, a3).
          if merged \<noteq> NULL then unlock_return a3 NULL NULL
          else rbind (block_mark_as_used a3 b) (\<lambda>(_, a4). trim a4))
        else trim a2))))))"

definition htfh_realloc :: "Allocator \<Rightarrow> addr \<Rightarrow> nat \<Rightarrow> (addr \<times> Allocator) res" where
  "htfh_realloc a0 ptr sz =
     (if controller a0 = NULL then Inr (NULL, set_alloc_errno NULL_ALLOCATOR_INSTANCE a0)
      else (case alloc_lock a0 of (r, a) \<Rightarrow>
        if r = - 1 then Inr (NULL, a)
        else if ptr \<noteq> NULL \<and> sz = 0 then
          rbind (htfh_free a ptr) (\<lambda>(r2, a1).
            if r2 \<noteq> 0 then unlock_return a1 NULL NULL else realloc_block a1 ptr sz)
        else if ptr = NULL then rbind (htfh_malloc a sz) (\<lambda>(p, a1). unlock_return a1 p NULL)
        else realloc_block a ptr sz))"

section \<open>Allocation macros\<close>

text \<open>The macros of \<open>alloc_manager.h\<close> with \<open>ALLOCATOR_TYPE\<close> 1.\<close>

definition am_malloc_htfh :: "Allocator \<Rightarrow> nat \<Rightarrow> (addr \<times> Allocator) res" where
  "am_malloc_htfh allocator sz = htfh_malloc allocator sz"

definition am_calloc_htfh :: "Allocator \<Rightarrow> nat \<Rightarrow> nat \<Rightarrow> (addr \<times> Allocator) res" where
  "am_calloc_htfh allocator count sz = htfh_calloc allocator count sz"

definition am_memalign_htfh :: "Allocator \<Rightarrow> nat \<Rightarrow> nat \<Rightarrow> (addr \<times> Allocator) res" where
  "am_memalign_htfh allocator align sz = htfh_memalign allocator align sz"

definition am_realloc_htfh :: "Allocator \<Rightarrow> addr \<Rightarrow> nat \<Rightarrow> (addr \<times> Allocator) res" where
  "am_realloc_htfh allocator ptr sz = htfh_realloc allocator ptr sz"

definition am_free_htfh :: "Allocator \<Rightarrow> addr \<Rightarrow> (int \<times> Allocator) res" where
  "am_free_htfh allocator ptr = htfh_free allocator ptr"

end
