(* ===== verification/Heap_Chain.thy ===== *)
theory Heap_Chain
  imports Heap_Memory
begin

text \<open>
  A heap as a chain of blocks that follow each other without gaps, for any distance \<open>k\<close>
  between the end of one block's memory and that of the next block's header.  Both allocators
  hand out the memory 16 bytes behind a header.
\<close>

section \<open>Chains of blocks\<close>

text \<open>A block is its size and whether it is free; \<open>p\<close> is the address of the first.\<close>

fun block_places :: "nat \<Rightarrow> addr \<Rightarrow> (nat \<times> bool) list \<Rightarrow> (addr \<times> nat \<times> bool) list" where
  "block_places k p [] = []"
| "block_places k p ((s, f) # bs) = (p, s, f) # block_places k (p + s + k) bs"

fun block_end :: "nat \<Rightarrow> addr \<Rightarrow> (nat \<times> bool) list \<Rightarrow> addr" where
  "block_end k p [] = p"
| "block_end k p ((s, f) # bs) = block_end k (p + s + k) bs"

fun free_of :: "bool \<Rightarrow> (nat \<times> bool) list \<Rightarrow> bool" where
  "free_of pf [] = pf"
| "free_of pf ((s, f) # bs) = free_of f bs"

text \<open>Neighbouring free blocks are always merged.\<close>

fun no_adj :: "bool \<Rightarrow> (nat \<times> bool) list \<Rightarrow> bool" where
  "no_adj pf [] \<longleftrightarrow> True"
| "no_adj pf ((s, f) # bs) \<longleftrightarrow> \<not> (pf \<and> f) \<and> no_adj f bs"

definition payload :: "addr \<Rightarrow> nat \<Rightarrow> nat set" where
  "payload b s = {b + 16..<b + s + 16}"

section \<open>Laws of chains\<close>

lemma places_append: "block_places k p (us @ vs) = block_places k p us @ block_places k (block_end k p us) vs"
  by (induction k p us rule: block_places.induct) simp_all

lemma end_of_append [simp]: "block_end k p (us @ vs) = block_end k (block_end k p us) vs"
  by (induction k p us rule: block_end.induct) simp_all

lemma free_of_append [simp]: "free_of pf (us @ vs) = free_of (free_of pf us) vs"
  by (induction pf us rule: free_of.induct) simp_all

lemma no_adj_append: "no_adj pf (us @ vs) \<longleftrightarrow> no_adj pf us \<and> no_adj (free_of pf us) vs"
  by (induction pf us rule: no_adj.induct) auto

lemma end_of_le: "p \<le> block_end k p bs"
  by (induction k p bs rule: block_end.induct) auto

lemma places_bounds: "(x, s, f) \<in> set (block_places k p bs) \<Longrightarrow> p \<le> x \<and> x + s + k \<le> block_end k p bs"
proof (induction k p bs rule: block_places.induct)
  case (2 k p s0 f0 bs)
  then show ?case using end_of_le [of "p + s0 + k" k bs] by fastforce
qed simp

lemma places_split: "(x, s, f) \<in> set (block_places k p bs) \<Longrightarrow> \<exists>us vs. bs = us @ (s, f) # vs \<and> x = block_end k p us"
proof (induction k p bs rule: block_places.induct)
  case (2 k p s0 f0 bs)
  show ?case
  proof (cases "(x, s, f) = (p, s0, f0)")
    case True
    then show ?thesis by (intro exI [of _ "[]"] exI [of _ bs]) simp
  next
    case False
    then obtain us vs where "bs = us @ (s, f) # vs" "x = block_end k (p + s0 + k) us" using 2 by auto
    then show ?thesis by (intro exI [of _ "(s0, f0) # us"] exI [of _ vs]) simp
  qed
qed simp

text \<open>Two blocks of a chain do not overlap.\<close>

lemma places_ordered:
  assumes "(x, s, f) \<in> set (block_places k p bs)" and "(y, t, g) \<in> set (block_places k p bs)" and "x \<noteq> y"
  shows "x + s + k \<le> y \<or> y + t + k \<le> x"
proof -
  obtain us vs where bs: "bs = us @ (s, f) # vs" "x = block_end k p us" using places_split [OF assms(1)] by blast
  have "(y, t, g) \<in> set (block_places k p us) \<or> (y, t, g) \<in> set (block_places k (x + s + k) vs)"
    using assms(2,3) unfolding bs(1) places_append by (auto simp: bs(2) [symmetric])
  then show ?thesis using places_bounds [of y t g k] bs(2) by auto
qed

lemma block_places_same:
  assumes "0 < k" and "(x, s, f) \<in> set (block_places k p bs)" and "(x, t, g) \<in> set (block_places k p bs)"
  shows "s = t \<and> f = g"
  using assms
proof (induction k p bs rule: block_places.induct)
  case (2 k p s0 f0 bs)
  then show ?case using places_bounds [of x _ _ k "p + s0 + k" bs] by fastforce
qed simp

lemma places_middle:
  assumes "block_end k (block_end k p us) ms = block_end k (block_end k p us) ks"
  shows "set (block_places k p (us @ ks @ ws)) = set (block_places k p us) \<union> set (block_places k (block_end k p us) ks) \<union> set (block_places k (block_end k (block_end k p us) ks) ws)"
    "set (block_places k p (us @ ms @ ws)) = set (block_places k p us) \<union> set (block_places k (block_end k p us) ms) \<union> set (block_places k (block_end k (block_end k p us) ks) ws)"
  using assms by (auto simp: places_append)

lemma outer_place:
  assumes "(x, s, f) \<in> set (block_places k p us) \<union> set (block_places k e ws)"
  shows "x + s + k \<le> block_end k p us \<or> e \<le> x"
  using assms places_bounds by blast

section \<open>Used blocks\<close>

definition block_used :: "nat \<Rightarrow> addr \<Rightarrow> (nat \<times> bool) list \<Rightarrow> (addr \<times> nat) set" where
  "block_used k p bs = {(x, s). (x, s, False) \<in> set (block_places k p bs)}"

definition block_bytes :: "nat \<Rightarrow> addr \<Rightarrow> (nat \<times> bool) list \<Rightarrow> nat set" where
  "block_bytes k p bs = {y. \<exists>x s. (x, s, False) \<in> set (block_places k p bs) \<and> y \<in> payload x s}"

lemma used_set_simps [simp]:
  "block_used k p [] = {}" "block_used k p ((s, True) # bs) = block_used k (p + s + k) bs"
  "block_used k p ((s, False) # bs) = insert (p, s) (block_used k (p + s + k) bs)"
  "block_used k p (us @ vs) = block_used k p us \<union> block_used k (block_end k p us) vs"
  by (auto simp: block_used_def places_append)

lemma used_bytes_set: "block_bytes k p bs = (\<Union>(x, s) \<in> block_used k p bs. payload x s)"
  by (auto simp: block_bytes_def block_used_def)

section \<open>Free lists\<close>

text \<open>A doubly linked list as the addresses of its blocks: \<open>n\<close> ends it in either direction.\<close>

definition first_of :: "addr \<Rightarrow> addr list \<Rightarrow> addr" where
  "first_of n xs = (case xs of [] \<Rightarrow> n | x # _ \<Rightarrow> x)"

definition last_of :: "addr \<Rightarrow> addr list \<Rightarrow> addr" where
  "last_of n xs = (if xs = [] then n else last xs)"

lemma first_of_simps [simp]: "first_of n [] = n" "first_of n (x # xs) = x"
  by (simp_all add: first_of_def)

lemma first_of_in: "first_of n xs \<in> insert n (set xs)"
  by (cases xs) simp_all

lemma last_of_simps [simp]: "last_of n [] = n" "last_of n (xs @ [x]) = x" "last_of n (x # xs) = last_of x xs"
  by (simp_all add: last_of_def)

lemma last_of_in: "last_of n xs \<in> insert n (set xs)"
  by (simp add: last_of_def)

lemma first_of_append: "first_of n (xs @ ys) = first_of (first_of n ys) xs"
  by (cases xs) simp_all

end
