(* ===== verification/HTFH_Heap.thy ===== *)
theory HTFH_Heap
  imports HTFH Heap_Chain
begin

text \<open>
  The heap of the HTFH allocator as a structure: what the flag bits in a size field mean,
  which bytes an operation may write, the free lists with their bitmaps, and the chain of
  blocks that fills the pool.
\<close>

section \<open>Header words\<close>

text \<open>The size field of a block of size \<open>s\<close>: whether the block before is free, and the block itself.\<close>

definition hdr :: "nat \<Rightarrow> bool \<Rightarrow> bool \<Rightarrow> nat" where
  "hdr s pf f = s + (if pf then 2 else 0) + (if f then 1 else 0)"

lemma flag_bits: "block_header_free_bit OR block_header_prev_free_bit = 3"
  by (simp add: block_consts)

lemma low_bits_eqs:
  "of_bool (odd n) + 2 * (n div 2 + of_bool (even (n div 2))) = 4 * (n div 4) + 2 + n mod (2 :: nat)"
  "of_bool (odd n) + 2 * (2 * (n div 2 div 2)) = 4 * (n div 4) + n mod (2 :: nat)"
proof -
  have q: "n div 2 div 2 = n div 4" by (simp add: div_mult2_eq [symmetric])
  have o: "of_bool (odd n) = n mod 2" by (simp add: mod_2_eq_odd)
  have d: "n div 2 = 2 * (n div 4) + (n div 2) mod 2" using div_mult_mod_eq [of "n div 2" 2] unfolding q by simp
  have e: "n div 2 + of_bool (even (n div 2)) = 2 * (n div 4) + 1"
    by (cases "even (n div 2)") (use d in \<open>simp_all add: mod_2_eq_odd\<close>)
  show "of_bool (odd n) + 2 * (n div 2 + of_bool (even (n div 2))) = 4 * (n div 4) + 2 + n mod 2"
    unfolding o e by simp
  show "of_bool (odd n) + 2 * (2 * (n div 2 div 2)) = 4 * (n div 4) + n mod 2" unfolding o q by simp
qed

lemma and_3_nat: "(n :: nat) AND 3 = n mod 4"
proof -
  have m: "(3 :: nat) = mask 2" by (simp add: mask_eq_exp_minus_1)
  show ?thesis unfolding m take_bit_eq_mask [symmetric] by (simp add: take_bit_nat_def)
qed

lemma and_not_3_nat: "n < 2 ^ 64 \<Longrightarrow> n AND usize_not 3 = n div 4 * 4"
  using and_usize_not_mask [of n 2] by simp

lemma and_not_1_nat: "n < 2 ^ 64 \<Longrightarrow> n AND usize_not block_header_free_bit = n div 2 * 2"
  using and_usize_not_mask [of n 1] by (simp add: block_consts)

lemma or_1_nat: "(n :: nat) OR block_header_free_bit = (if odd n then n else n + 1)"
  unfolding block_consts or_one_eq by simp

lemma and_1_nat: "(n :: nat) AND block_header_free_bit \<noteq> 0 \<longleftrightarrow> odd n"
  unfolding block_consts and_one_eq by (simp add: odd_iff_mod_2_eq_one)

lemma or_2_nat: "(n :: nat) OR block_header_prev_free_bit = 4 * (n div 4) + 2 + n mod 2"
proof -
  have "n OR 2 = of_bool (odd n) + 2 * ((n div 2) OR 1)" by (subst or_rec) simp
  also have "(n div 2) OR 1 = n div 2 + of_bool (even (n div 2))" by (rule or_one_eq)
  also have "of_bool (odd n) + 2 * (n div 2 + of_bool (even (n div 2))) = 4 * (n div 4) + 2 + n mod 2"
    by (rule low_bits_eqs)
  finally show ?thesis by (simp add: block_consts)
qed

lemma and_2_nat: "(n :: nat) AND block_header_prev_free_bit \<noteq> 0 \<longleftrightarrow> odd (n div 2)"
proof -
  have "n AND 2 = 2 * ((n div 2) AND 1)" by (subst and_rec) simp
  then show ?thesis unfolding block_consts and_one_eq by (simp add: odd_iff_mod_2_eq_one)
qed

lemma and_not_2_nat: "n < 2 ^ 64 \<Longrightarrow> n AND usize_not block_header_prev_free_bit = 4 * (n div 4) + n mod 2"
proof -
  assume n: "n < 2 ^ 64"
  have "n AND (2 ^ 64 - 3) = of_bool (odd n) + 2 * ((n div 2) AND (2 ^ 63 - 2))" by (subst and_rec) simp
  also have "(n div 2) AND (2 ^ 63 - 2) = 2 * ((n div 2 div 2) AND (2 ^ 62 - 1))" by (subst and_rec) simp
  also have "(n div 2 div 2) AND (2 ^ 62 - 1) = n div 2 div 2"
    unfolding mask_eq_exp_minus_1 [symmetric] take_bit_eq_mask [symmetric]
    using n by (intro take_bit_nat_eq_self) simp
  also have "of_bool (odd n) + 2 * (2 * (n div 2 div 2)) = 4 * (n div 4) + n mod 2"
    by (rule low_bits_eqs)
  finally show ?thesis by (simp add: usize_not_def block_consts)
qed

lemma or_disjoint_4: "4 dvd s \<Longrightarrow> r < 4 \<Longrightarrow> (s :: nat) OR r = s + r"
  using or_disjoint [of 2 s r] by simp

lemma hdr_parts:
  assumes "4 dvd s"
  shows "hdr s pf f div 4 = s div 4" "hdr s pf f div 4 * 4 = s" "hdr s pf f mod 4 = (if pf then 2 else 0) + (if f then 1 else 0)"
    "odd (hdr s pf f) = f" "odd (hdr s pf f div 2) = pf"
    "hdr s pf f mod 2 = (if f then 1 else 0)" "hdr s pf f div 2 * 2 = hdr s pf False"
proof -
  obtain k where "s = 4 * k" using assms by (elim dvdE)
  then show "hdr s pf f div 4 = s div 4" "hdr s pf f div 4 * 4 = s"
    "hdr s pf f mod 4 = (if pf then 2 else 0) + (if f then 1 else 0)"
    "odd (hdr s pf f) = f" "odd (hdr s pf f div 2) = pf"
    "hdr s pf f mod 2 = (if f then 1 else 0)" "hdr s pf f div 2 * 2 = hdr s pf False"
    by (cases pf; cases f; simp add: hdr_def; presburger)+
qed

lemma hdr_any: "w = hdr (w div 4 * 4) (odd (w div 2)) (odd w)"
  unfolding hdr_def by presburger

lemma hdr_less: "4 dvd s \<Longrightarrow> s < 2 ^ 64 \<Longrightarrow> hdr s pf f < 2 ^ 64"
proof -
  assume "4 dvd s" "s < 2 ^ 64"
  then obtain k where k: "s = 4 * k" "k < 2 ^ 62" by (auto elim!: dvdE)
  then have "s + 4 \<le> 2 ^ 64" by simp
  then show ?thesis by (simp add: hdr_def)
qed

text \<open>Block \<open>b\<close> has that header.\<close>

definition hdr_at :: "Allocator \<Rightarrow> addr \<Rightarrow> nat \<Rightarrow> bool \<Rightarrow> bool \<Rightarrow> bool" where
  "hdr_at a b s pf f \<longleftrightarrow> mapped a (b + 8) \<and> b + 8 < 2 ^ 64 \<and> 4 dvd s \<and> word_at a (b + 8) = hdr s pf f"

lemma hdr_atD:
  assumes "hdr_at a b s pf f"
  shows "mapped a (b + 8)" "size_field b = b + 8" "word_at a (b + 8) = hdr s pf f" "4 dvd s" "hdr s pf f < 2 ^ 64" "s < 2 ^ 64"
proof -
  show "mapped a (b + 8)" "size_field b = b + 8" "word_at a (b + 8) = hdr s pf f" "4 dvd s"
    using assms by (simp_all add: hdr_at_def size_field_def)
  then show "hdr s pf f < 2 ^ 64" using word_at_less [of a "b + 8"] by simp
  then show "s < 2 ^ 64" by (simp add: hdr_def split: if_splits)
qed

named_theorems hdr_simps \<open>block operations on known headers\<close>

lemma hdr_reads [hdr_simps]:
  assumes "hdr_at a b s pf f"
  shows "block_size a b = Inr s" "block_is_free a b = Inr f" "block_is_prev_free a b = Inr pf"
    "block_is_last a b = Inr (s = 0)" "block_can_split a b n = Inr (usize (32 + n) \<le> s)"
proof -
  note d = hdr_atD [OF assms] and p = hdr_parts [OF hdr_atD(4) [OF assms]]
  show sz: "block_size a b = Inr s"
    unfolding block_size_def flag_bits d(2) load64_ok [OF d(1)] d(3) rbind_Inr and_not_3_nat [OF d(5)] p(2) ..
  show "block_is_free a b = Inr f"
    unfolding block_is_free_def d(2) load64_ok [OF d(1)] d(3) rbind_Inr and_1_nat p(4) ..
  show "block_is_prev_free a b = Inr pf"
    unfolding block_is_prev_free_def d(2) load64_ok [OF d(1)] d(3) rbind_Inr and_2_nat p(5) ..
  show "block_is_last a b = Inr (s = 0)" by (simp add: block_is_last_def sz)
  show "block_can_split a b n = Inr (usize (32 + n) \<le> s)" by (simp add: block_can_split_def sz block_consts)
qed

lemma hdr_writes [hdr_simps]:
  assumes "hdr_at a b s pf f"
  shows "block_set_free a b = Inr (put_word (b + 8) (hdr s pf True) a)"
    "block_set_used a b = Inr (put_word (b + 8) (hdr s pf False) a)"
    "block_set_prev_free a b = Inr (put_word (b + 8) (hdr s True f) a)"
    "block_set_prev_used a b = Inr (put_word (b + 8) (hdr s False f) a)"
    "4 dvd t \<Longrightarrow> block_set_size a b t = Inr (put_word (b + 8) (hdr t pf f) a)"
proof -
  note d = hdr_atD [OF assms] and p = hdr_parts [OF hdr_atD(4) [OF assms]]
  have q: "4 * (s div 4) = s" using d(4) by simp
  have o: "(if odd (hdr s pf f) then hdr s pf f else hdr s pf f + 1) = hdr s pf True"
    unfolding p(4) by (simp add: hdr_def)
  have o2: "4 * (s div 4) + 2 + (if f then 1 else 0) = hdr s True f" unfolding q by (simp add: hdr_def)
  have a2: "4 * (s div 4) + (if f then 1 else 0) = hdr s False f" unfolding q by (simp add: hdr_def)
  show "block_set_free a b = Inr (put_word (b + 8) (hdr s pf True) a)"
    unfolding block_set_free_def d(2) load64_ok [OF d(1)] d(3) rbind_Inr store64_ok [OF d(1)] or_1_nat o ..
  show "block_set_used a b = Inr (put_word (b + 8) (hdr s pf False) a)"
    unfolding block_set_used_def d(2) load64_ok [OF d(1)] d(3) rbind_Inr store64_ok [OF d(1)] and_not_1_nat [OF d(5)] p(7) ..
  show "block_set_prev_free a b = Inr (put_word (b + 8) (hdr s True f) a)"
    unfolding block_set_prev_free_def d(2) load64_ok [OF d(1)] d(3) rbind_Inr store64_ok [OF d(1)] or_2_nat p(1,6) o2 ..
  show "block_set_prev_used a b = Inr (put_word (b + 8) (hdr s False f) a)"
    unfolding block_set_prev_used_def d(2) load64_ok [OF d(1)] d(3) rbind_Inr store64_ok [OF d(1)]
      and_not_2_nat [OF d(5)] p(1,6) a2 ..
  assume t: "4 dvd t"
  have "hdr s pf f mod 4 < 4" by simp
  then have "t OR (hdr s pf f mod 4) = t + hdr s pf f mod 4" by (rule or_disjoint_4 [OF t])
  also have "\<dots> = hdr t pf f" unfolding p(3) by (simp add: hdr_def)
  finally show "block_set_size a b t = Inr (put_word (b + 8) (hdr t pf f) a)"
    by (simp only: block_set_size_def d(2) load64_ok [OF d(1)] d(3) rbind_Inr store64_ok [OF d(1)] flag_bits and_3_nat)
qed

section \<open>Frames\<close>

text \<open>\<open>a'\<close> differs from \<open>a\<close> in the bytes of \<open>W\<close>, the error code and the control arrays only.\<close>

definition keeps :: "nat set \<Rightarrow> Allocator \<Rightarrow> Allocator \<Rightarrow> bool" where
  "keeps W a a' \<longleftrightarrow> (\<forall>x. x \<notin> W \<longrightarrow> bytes_at a' x = bytes_at a x) \<and> mutex a' = mutex a
     \<and> controller a' = controller a \<and> heap a' = heap a \<and> heap_size a' = heap_size a"

lemma keeps_refl [simp]: "keeps W a a"
  by (simp add: keeps_def)

lemma keeps_trans: "keeps V a a1 \<Longrightarrow> keeps W a1 a2 \<Longrightarrow> V \<subseteq> X \<Longrightarrow> W \<subseteq> X \<Longrightarrow> keeps X a a2"
  unfolding keeps_def by (metis subset_iff)

lemma keeps_mono: "keeps V a a1 \<Longrightarrow> V \<subseteq> X \<Longrightarrow> keeps X a a1"
  unfolding keeps_def by blast

lemma keeps_put: "keeps {p..<p + 8} a (put_word p v a)"
  by (auto simp: keeps_def put_word_def write_bytes_other)

lemma keeps_put_trans: "keeps W a a1 \<Longrightarrow> {p..<p + 8} \<subseteq> W \<Longrightarrow> keeps W a (put_word p v a1)"
  using keeps_trans [OF _ keeps_put] by blast

lemma keeps_upd [simp]:
  "keeps W a (a'\<lparr>alloc_errno := e\<rparr>) = keeps W a a'" "keeps W a (a'\<lparr>fl_bitmap := w\<rparr>) = keeps W a a'"
  "keeps W a (a'\<lparr>sl_bitmap := ws\<rparr>) = keeps W a a'" "keeps W a (a'\<lparr>blocks := bs\<rparr>) = keeps W a a'"
  by (simp_all add: keeps_def)

lemma keeps_word: "keeps W a a' \<Longrightarrow> {p..<p + 8} \<inter> W = {} \<Longrightarrow> word_at a' p = word_at a p"
  unfolding word_at_def keeps_def by (rule read_bytes_cong) (auto simp: disjoint_iff)

lemma keeps_mapped: "keeps W a a' \<Longrightarrow> mapped a' = mapped a"
  by (simp add: keeps_def mapped_def fun_eq_iff)

lemma keepsD:
  assumes "keeps W a a'"
  shows "mutex a' = mutex a" "controller a' = controller a" "heap a' = heap a" "heap_size a' = heap_size a"
    "x \<notin> W \<Longrightarrow> bytes_at a' x = bytes_at a x"
  using assms by (simp_all add: keeps_def)

text \<open>The parts of the header of the block at an address.\<close>

definition phys_bytes :: "addr \<Rightarrow> nat set" where
  "phys_bytes b = {b..<b + 8}"

definition size_bytes :: "addr \<Rightarrow> nat set" where
  "size_bytes b = {b + 8..<b + 16}"

definition link_bytes :: "addr \<Rightarrow> nat set" where
  "link_bytes b = {b + 16..<b + 32}"

lemmas field_bytes = phys_bytes_def size_bytes_def link_bytes_def

text \<open>Addresses that are pairwise at least a header apart.\<close>

definition spaced :: "addr set \<Rightarrow> bool" where
  "spaced S \<longleftrightarrow> (\<forall>x \<in> S. \<forall>y \<in> S. x \<noteq> y \<longrightarrow> x + 32 \<le> y \<or> y + 32 \<le> x)"

lemma spacedD: "spaced S \<Longrightarrow> x \<in> S \<Longrightarrow> y \<in> S \<Longrightarrow> x \<noteq> y \<Longrightarrow> x + 32 \<le> y \<or> y + 32 \<le> x"
  by (simp add: spaced_def)

lemma spaced_subset: "spaced S \<Longrightarrow> T \<subseteq> S \<Longrightarrow> spaced T"
  by (auto simp: spaced_def)

lemma fields_disjoint:
  assumes "spaced S" and "x \<in> S" and "y \<in> S" and "x \<noteq> y"
  shows "link_bytes x \<inter> link_bytes y = {}" "link_bytes x \<inter> size_bytes y = {}" "link_bytes x \<inter> phys_bytes y = {}"
    "size_bytes x \<inter> size_bytes y = {}" "size_bytes x \<inter> phys_bytes y = {}" "phys_bytes x \<inter> phys_bytes y = {}"
    "size_bytes x \<inter> link_bytes y = {}" "phys_bytes x \<inter> size_bytes y = {}" "phys_bytes x \<inter> link_bytes y = {}"
  using spacedD [OF assms] by (auto simp: field_bytes)

lemma fields_same [simp]:
  "link_bytes x \<inter> size_bytes x = {}" "link_bytes x \<inter> phys_bytes x = {}" "size_bytes x \<inter> phys_bytes x = {}"
  "size_bytes x \<inter> link_bytes x = {}" "phys_bytes x \<inter> size_bytes x = {}" "phys_bytes x \<inter> link_bytes x = {}"
  by (auto simp: field_bytes)

lemma hdr_at_keeps: "hdr_at a b s pf f \<Longrightarrow> keeps W a a' \<Longrightarrow> size_bytes b \<inter> W = {} \<Longrightarrow> hdr_at a' b s pf f"
proof -
  assume h: "hdr_at a b s pf f" "keeps W a a'" "size_bytes b \<inter> W = {}"
  have "size_bytes b = {b + 8..<b + 8 + 8}" by (auto simp: size_bytes_def)
  then have "word_at a' (b + 8) = word_at a (b + 8)" using keeps_word [OF h(2), of "b + 8"] h(3) by metis
  then show ?thesis using h(1) keeps_mapped [OF h(2)] by (simp add: hdr_at_def)
qed

lemma hdr_at_put: "mapped a (b + 8) \<Longrightarrow> b + 8 < 2 ^ 64 \<Longrightarrow> 4 dvd s \<Longrightarrow> s < 2 ^ 64 \<Longrightarrow>
    hdr_at (put_word (b + 8) (hdr s pf f) a) b s pf f"
  using hdr_less [of s pf f] by (simp add: hdr_at_def)

section \<open>Free lists\<close>

text \<open>
  The list of a class as the addresses of its blocks; the null block ends it in both directions.
\<close>

fun linked_list :: "Allocator \<Rightarrow> addr \<Rightarrow> addr list \<Rightarrow> addr \<Rightarrow> bool" where
  "linked_list a prv [] nxt \<longleftrightarrow> True"
| "linked_list a prv (x # xs) nxt \<longleftrightarrow>
     word_at a (x + 24) = prv \<and> word_at a (x + 16) = first_of nxt xs \<and> linked_list a x xs nxt"

text \<open>
  The control structures agree with the lists \<open>L c\<close> of all classes; \<open>S\<close> are the addresses at
  which blocks may be.
\<close>

definition heads_ok :: "Allocator \<Rightarrow> (nat \<Rightarrow> addr list) \<Rightarrow> bool" where
  "heads_ok a L \<longleftrightarrow> length (blocks a) = 24 \<and> (\<forall>row \<in> set (blocks a). length row = 32) \<and> length (sl_bitmap a) = 24
     \<and> (\<forall>c < 768. blocks a ! (c div 32) ! (c mod 32) = first_of (controller a) (L c))
     \<and> (\<forall>c < 768. bit (sl_bitmap a ! (c div 32)) (c mod 32) \<longleftrightarrow> L c \<noteq> [])
     \<and> (\<forall>i. bit (fl_bitmap a) i \<longleftrightarrow> i < 24 \<and> sl_bitmap a ! i \<noteq> 0)"

definition lists_ok :: "addr set \<Rightarrow> Allocator \<Rightarrow> (nat \<Rightarrow> addr list) \<Rightarrow> bool" where
  "lists_ok S a L \<longleftrightarrow> heads_ok a L \<and> controller a \<notin> S \<and> spaced (insert (controller a) S)
     \<and> (\<forall>b \<in> insert (controller a) S. b \<noteq> NULL \<and> b + 32 < 2 ^ 64 \<and> mapped a (b + 8))
     \<and> (\<forall>b \<in> insert (controller a) (\<Union>c < 768. set (L c)). mapped a (b + 16) \<and> mapped a (b + 24))
     \<and> (\<forall>c < 768. linked_list a (controller a) (L c) (controller a) \<and> distinct (L c) \<and> set (L c) \<subseteq> S)
     \<and> (\<forall>c < 768. \<forall>c' < 768. c \<noteq> c' \<longrightarrow> set (L c) \<inter> set (L c') = {})"

lemma linked_list_append:
  "linked_list a p (xs @ ys) n \<longleftrightarrow> linked_list a p xs (first_of n ys) \<and> linked_list a (last_of p xs) ys n"
proof (induction xs arbitrary: p)
  case (Cons x xs)
  have "first_of n (xs @ ys) = first_of (first_of n ys) xs" by (cases xs) simp_all
  with Cons show ?case by simp
qed simp

lemma linked_list_cong:
  "(\<And>x. x \<in> set xs \<Longrightarrow> word_at a' (x + 16) = word_at a (x + 16) \<and> word_at a' (x + 24) = word_at a (x + 24)) \<Longrightarrow>
    linked_list a' p xs n = linked_list a p xs n"
  by (induction xs arbitrary: p) auto

lemma linked_list_new_end:
  assumes "linked_list a p xs n" and "distinct xs"
    and "\<And>x. x \<in> set xs \<Longrightarrow> word_at a' (x + 24) = word_at a (x + 24)"
    and "\<And>x. x \<in> set xs \<Longrightarrow> word_at a' (x + 16) = (if x = last_of n' xs then n' else word_at a (x + 16))"
  shows "linked_list a' p xs n'"
  using assms
proof (induction xs arbitrary: p)
  case (Cons x xs)
  show ?case
  proof (cases xs)
    case Nil
    with Cons.prems(1) Cons.prems(3,4) [of x] show ?thesis by (simp add: last_of_def)
  next
    case (Cons y ys)
    have "last_of n' (x # xs) = last_of n' xs" using Cons by (simp add: last_of_def)
    moreover have "x \<noteq> last_of n' xs" using Cons Cons.prems(2) by (auto simp: last_of_def)
    ultimately show ?thesis
      using Cons.IH [of x] Cons.prems Cons by simp
  qed
qed simp

lemma linked_list_new_start:
  assumes "linked_list a p xs n" and "distinct xs"
    and "\<And>x. x \<in> set xs \<Longrightarrow> word_at a' (x + 16) = word_at a (x + 16)"
    and "\<And>x. x \<in> set xs \<Longrightarrow> word_at a' (x + 24) = (if x = first_of p' xs then p' else word_at a (x + 24))"
  shows "linked_list a' p' xs n"
proof (cases xs)
  case (Cons x ys)
  have "linked_list a' x ys n = linked_list a x ys n" using assms(2-4) Cons by (intro linked_list_cong) auto
  with assms(1) assms(3,4) [of x] Cons show ?thesis by simp
qed simp

text \<open>Single bits of the bitmaps.\<close>

lemma bit_clear32: "i < 32 \<Longrightarrow> bit (w AND NOT (2 ^ j) :: 32 word) i \<longleftrightarrow> bit w i \<and> i \<noteq> j"
  by (auto simp: bit_simps)

lemma bit_set32: "j < 32 \<Longrightarrow> bit (w OR 2 ^ j :: 32 word) i \<longleftrightarrow> bit w i \<or> i = j"
  by (auto simp: bit_simps)

lemma word32_eq_0: "(w :: 32 word) = 0 \<longleftrightarrow> (\<forall>i < 32. \<not> bit w i)"
  by (auto intro: bit_word_eqI)

lemma class_eq_iff: "c = c' \<longleftrightarrow> c div 32 = c' div 32 \<and> c mod 32 = c' mod (32 :: nat)"
  by (metis div_mult_mod_eq)

lemma class_bounds: "c < 768 \<Longrightarrow> c div 32 < 24 \<and> c mod 32 < (32 :: nat)"
  by (simp add: div_less_iff_less_mult)

lemma sl_bitmap_zero:
  assumes "heads_ok a L" and "i < 24"
  shows "sl_bitmap a ! i = 0 \<longleftrightarrow> (\<forall>j < 32. L (32 * i + j) = [])"
proof -
  have "bit (sl_bitmap a ! i) j \<longleftrightarrow> L (32 * i + j) \<noteq> []" if "j < 32" for j
  proof -
    have "32 * i + j < 768" "(32 * i + j) div 32 = i" "(32 * i + j) mod 32 = j" using assms(2) that by simp_all
    then show ?thesis using assms(1) unfolding heads_ok_def by metis
  qed
  then show ?thesis by (simp add: word32_eq_0)
qed

lemma heads_okD:
  assumes "heads_ok a L"
  shows "length (blocks a) = 24" "i < 24 \<Longrightarrow> length (blocks a ! i) = 32" "length (sl_bitmap a) = 24"
    "c < 768 \<Longrightarrow> blocks a ! (c div 32) ! (c mod 32) = first_of (controller a) (L c)"
    "c < 768 \<Longrightarrow> bit (sl_bitmap a ! (c div 32)) (c mod 32) \<longleftrightarrow> L c \<noteq> []"
    "bit (fl_bitmap a) i \<longleftrightarrow> i < 24 \<and> sl_bitmap a ! i \<noteq> 0"
  using assms by (auto simp: heads_ok_def)

lemma heads_blocks_at:
  assumes "heads_ok a L" and "c < 768" and "class_index c = (fl, sl)"
  shows "blocks_at a fl sl = Inr (first_of (controller a) (L c))"
proof -
  have "fl = int (c div 32)" "sl = int (c mod 32)" using assms(3) by (simp_all add: class_index_def)
  then show ?thesis
    using class_bounds [OF assms(2)] heads_okD(1,4) [OF assms(1)] heads_okD(2) [OF assms(1), of "c div 32"] assms(2)
    by (simp add: blocks_at_def)
qed

lemma blocks_set_blocks:
  assumes "heads_ok a L" and "c < 768" and "class_index c = (fl, sl)" and "c' < 768"
  shows "blocks (set_blocks a fl sl v) ! (c' div 32) ! (c' mod 32)
    = (if c' = c then v else blocks a ! (c' div 32) ! (c' mod 32))"
proof -
  have i: "nat fl = c div 32" "nat sl = c mod 32" using assms(3) by (auto simp: class_index_def)
  have len: "c div 32 < length (blocks a)" "c mod 32 < length (blocks a ! (c div 32))"
    using class_bounds [OF assms(2)] heads_okD(1) [OF assms(1)] heads_okD(2) [OF assms(1), of "c div 32"] by simp_all
  show ?thesis
    using len class_eq_iff [of c' c] by (auto simp: set_blocks_def i nth_list_update)
qed

lemma set_blocks_fields [simp]:
  "controller (set_blocks a fl sl v) = controller a" "sl_bitmap (set_blocks a fl sl v) = sl_bitmap a"
  "fl_bitmap (set_blocks a fl sl v) = fl_bitmap a" "keeps W x (set_blocks a fl sl v) = keeps W x a"
  "word_at (set_blocks a fl sl v) = word_at a" "mapped (set_blocks a fl sl v) = mapped a"
  by (simp_all add: set_blocks_def)

lemma set_blocks_lengths:
  assumes "heads_ok a L" and "c < 768" and "class_index c = (fl, sl)"
  shows "length (blocks (set_blocks a fl sl v)) = 24" "\<forall>row \<in> set (blocks (set_blocks a fl sl v)). length row = 32"
proof -
  have i: "nat fl = c div 32" using assms(3) by (auto simp: class_index_def)
  show "length (blocks (set_blocks a fl sl v)) = 24" using heads_okD(1) [OF assms(1)] by (simp add: set_blocks_def)
  have "length (blocks a ! (c div 32)) = 32"
    using class_bounds [OF assms(2)] heads_okD(2) [OF assms(1), of "c div 32"] by simp
  moreover have "\<forall>row \<in> set (blocks a). length row = 32" using assms(1) by (simp add: heads_ok_def)
  ultimately show "\<forall>row \<in> set (blocks (set_blocks a fl sl v)). length row = 32"
    by (auto simp: set_blocks_def i dest: set_update_subset_insert [THEN subsetD])
qed

text \<open>How the heads and bitmaps follow a list: the head replaced, the list emptied, a block put in front.\<close>

lemma heads_same:
  assumes "heads_ok a L" and "L c \<noteq> []" and "zs \<noteq> []" and "first_of n zs = first_of n (L c)"
  shows "heads_ok a (L(c := zs))"
proof -
  have "first_of (controller a) zs = first_of (controller a) (L c)" using assms(2-4) by (cases zs; cases "L c") simp_all
  then show ?thesis using assms(1-3) by (auto simp: heads_ok_def)
qed

lemma heads_new_head:
  assumes "heads_ok a L" and "c < 768" and "class_index c = (fl, sl)" and "L c \<noteq> []" and "zs \<noteq> []"
  shows "heads_ok (set_blocks a fl sl (first_of (controller a) zs)) (L(c := zs))"
  using assms(4,5) heads_okD(3-6) [OF assms(1)] set_blocks_lengths [OF assms(1-3)] blocks_set_blocks [OF assms(1-3)]
  by (simp add: heads_ok_def)

definition clear_class :: "Allocator \<Rightarrow> nat \<Rightarrow> Allocator" where
  "clear_class a c =
     (let w = sl_bitmap a ! (c div 32) AND NOT (push_bit (c mod 32) 1);
          a1 = a\<lparr>sl_bitmap := (sl_bitmap a)[c div 32 := w]\<rparr>
      in if w \<noteq> 0 then a1 else a1\<lparr>fl_bitmap := fl_bitmap a1 AND NOT (push_bit (c div 32) 1)\<rparr>)"

definition mark_class :: "Allocator \<Rightarrow> nat \<Rightarrow> Allocator" where
  "mark_class a c =
     a\<lparr>fl_bitmap := fl_bitmap a OR push_bit (c div 32) 1,
       sl_bitmap := (sl_bitmap a)[c div 32 := sl_bitmap a ! (c div 32) OR push_bit (c mod 32) 1]\<rparr>"

lemma clear_class_fields [simp]:
  "controller (clear_class a c) = controller a" "blocks (clear_class a c) = blocks a"
  "keeps W x (clear_class a c) = keeps W x a" "word_at (clear_class a c) = word_at a" "mapped (clear_class a c) = mapped a"
  by (simp_all add: clear_class_def Let_def)

lemma mark_class_fields [simp]:
  "controller (mark_class a c) = controller a" "blocks (mark_class a c) = blocks a"
  "keeps W x (mark_class a c) = keeps W x a" "word_at (mark_class a c) = word_at a" "mapped (mark_class a c) = mapped a"
  by (simp_all add: mark_class_def)

lemma clear_class_sl: "sl_bitmap (clear_class a c)
    = (sl_bitmap a)[c div 32 := sl_bitmap a ! (c div 32) AND NOT (push_bit (c mod 32) 1)]"
  by (simp add: clear_class_def Let_def)

lemma clear_class_fl: "i < 32 \<Longrightarrow> bit (fl_bitmap (clear_class a c)) i \<longleftrightarrow>
    bit (fl_bitmap a) i \<and> (i = c div 32 \<longrightarrow> sl_bitmap a ! (c div 32) AND NOT (push_bit (c mod 32) 1) \<noteq> 0)"
  by (auto simp: clear_class_def Let_def bit_clear32)

lemma heads_emptied:
  assumes "heads_ok a L" and c: "c < 768" and "class_index c = (fl, sl)"
  shows "heads_ok (clear_class (set_blocks a fl sl (controller a)) c) (L(c := []))"
proof -
  let ?a = "clear_class (set_blocks a fl sl (controller a)) c"
  note h = heads_okD [OF assms(1)] and b = class_bounds [OF c]
  have heads: "blocks ?a ! (c' div 32) ! (c' mod 32) = first_of (controller ?a) ((L(c := [])) c')" if "c' < 768" for c'
    using blocks_set_blocks [OF assms that, of "controller a"] h(4) [OF that] by simp
  have sl: "bit (sl_bitmap ?a ! (c' div 32)) (c' mod 32) \<longleftrightarrow> (L(c := [])) c' \<noteq> []" if "c' < 768" for c'
  proof (cases "c' div 32 = c div 32")
    case True
    have "bit (sl_bitmap ?a ! (c' div 32)) (c' mod 32) \<longleftrightarrow> bit (sl_bitmap a ! (c' div 32)) (c' mod 32) \<and> c' mod 32 \<noteq> c mod 32"
      using b h(3) by (simp add: clear_class_sl True bit_clear32)
    then show ?thesis using h(5) [OF that] class_eq_iff [of c' c] True by auto
  next
    case False
    then have "c' \<noteq> c" by auto
    with False show ?thesis using h(5) [OF that] by (simp add: clear_class_sl)
  qed
  have fl: "bit (fl_bitmap ?a) i \<longleftrightarrow> i < 24 \<and> sl_bitmap ?a ! i \<noteq> 0" for i
  proof (cases "i < 32")
    case True
    then show ?thesis using h(3) h(6) [of i] b by (auto simp: clear_class_fl clear_class_sl nth_list_update)
  qed (use bit_imp_le_length in \<open>fastforce\<close>)
  show ?thesis
    unfolding heads_ok_def using heads sl fl set_blocks_lengths [OF assms, of "controller a"] h(3)
    by (simp add: clear_class_sl)
qed

lemma heads_inserted:
  assumes "heads_ok a L" and c: "c < 768" and "class_index c = (fl, sl)"
  shows "heads_ok (mark_class (set_blocks a fl sl b) c) (L(c := b # xs))"
proof -
  let ?a = "mark_class (set_blocks a fl sl b) c"
  note h = heads_okD [OF assms(1)] and bd = class_bounds [OF c]
  have slm: "sl_bitmap ?a = (sl_bitmap a)[c div 32 := sl_bitmap a ! (c div 32) OR push_bit (c mod 32) 1]"
    by (simp add: mark_class_def)
  have heads: "blocks ?a ! (c' div 32) ! (c' mod 32) = first_of (controller ?a) ((L(c := b # xs)) c')" if "c' < 768" for c'
    using blocks_set_blocks [OF assms that, of b] h(4) [OF that] by simp
  have sl: "bit (sl_bitmap ?a ! (c' div 32)) (c' mod 32) \<longleftrightarrow> (L(c := b # xs)) c' \<noteq> []" if "c' < 768" for c'
  proof (cases "c' div 32 = c div 32")
    case True
    have "bit (sl_bitmap ?a ! (c' div 32)) (c' mod 32) \<longleftrightarrow> bit (sl_bitmap a ! (c' div 32)) (c' mod 32) \<or> c' mod 32 = c mod 32"
      using bd h(3) by (simp add: slm True bit_set32)
    then show ?thesis using h(5) [OF that] class_eq_iff [of c' c] True by auto
  next
    case False
    then have "c' \<noteq> c" by auto
    with False show ?thesis using h(5) [OF that] by (simp add: slm)
  qed
  have nz: "sl_bitmap a ! (c div 32) OR push_bit (c mod 32) 1 \<noteq> 0"
    using bit_set32 [of "c mod 32" "sl_bitmap a ! (c div 32)" "c mod 32"] by auto
  have "bit (fl_bitmap ?a) i \<longleftrightarrow> bit (fl_bitmap a) i \<or> i = c div 32" for i
    using bd by (simp add: mark_class_def bit_set32)
  then have fl: "bit (fl_bitmap ?a) i \<longleftrightarrow> i < 24 \<and> sl_bitmap ?a ! i \<noteq> 0" for i
    using h(3) h(6) [of i] bd nz by (auto simp: slm nth_list_update)
  show ?thesis
    unfolding heads_ok_def using heads sl fl set_blocks_lengths [OF assms, of b] h(3) by (simp add: slm)
qed

lemma heads_keeps:
  "heads_ok a L \<Longrightarrow> controller a' = controller a \<Longrightarrow> blocks a' = blocks a \<Longrightarrow> sl_bitmap a' = sl_bitmap a \<Longrightarrow>
    fl_bitmap a' = fl_bitmap a \<Longrightarrow> heads_ok a' L"
  by (simp add: heads_ok_def)

lemma lists_okD:
  assumes "lists_ok S a L"
  shows "heads_ok a L" "controller a \<notin> S" "spaced (insert (controller a) S)"
    "b \<in> insert (controller a) S \<Longrightarrow> b \<noteq> NULL \<and> b + 32 < 2 ^ 64 \<and> mapped a (b + 8)"
    "mapped a (controller a + 16)" "mapped a (controller a + 24)"
    "c < 768 \<Longrightarrow> b \<in> set (L c) \<Longrightarrow> mapped a (b + 16) \<and> mapped a (b + 24) \<and> b \<in> S"
    "c < 768 \<Longrightarrow> linked_list a (controller a) (L c) (controller a)" "c < 768 \<Longrightarrow> distinct (L c)"
    "c < 768 \<Longrightarrow> set (L c) \<subseteq> S"
    "c < 768 \<Longrightarrow> c' < 768 \<Longrightarrow> c \<noteq> c' \<Longrightarrow> set (L c) \<inter> set (L c') = {}"
proof -
  note d = assms [unfolded lists_ok_def]
  show "heads_ok a L" "controller a \<notin> S" "spaced (insert (controller a) S)" using d by blast+
  show "b \<in> insert (controller a) S \<Longrightarrow> b \<noteq> NULL \<and> b + 32 < 2 ^ 64 \<and> mapped a (b + 8)" using d by blast
  show "mapped a (controller a + 16)" "mapped a (controller a + 24)" using d by blast+
  show "c < 768 \<Longrightarrow> b \<in> set (L c) \<Longrightarrow> mapped a (b + 16) \<and> mapped a (b + 24) \<and> b \<in> S" using d by blast
  show "c < 768 \<Longrightarrow> linked_list a (controller a) (L c) (controller a)" "c < 768 \<Longrightarrow> distinct (L c)"
    "c < 768 \<Longrightarrow> set (L c) \<subseteq> S" using d by blast+
  show "c < 768 \<Longrightarrow> c' < 768 \<Longrightarrow> c \<noteq> c' \<Longrightarrow> set (L c) \<inter> set (L c') = {}" using d by blast
qed

lemma spaced_apart:
  "spaced S \<Longrightarrow> x \<in> S \<Longrightarrow> y \<in> S \<Longrightarrow> x \<noteq> y \<Longrightarrow> apart (x + 16) (y + 16)"
  "spaced S \<Longrightarrow> x \<in> S \<Longrightarrow> y \<in> S \<Longrightarrow> x \<noteq> y \<Longrightarrow> apart (x + 24) (y + 24)"
  "spaced S \<Longrightarrow> x \<in> S \<Longrightarrow> y \<in> S \<Longrightarrow> apart (x + 16) (y + 24)"
  "spaced S \<Longrightarrow> x \<in> S \<Longrightarrow> y \<in> S \<Longrightarrow> apart (x + 24) (y + 16)"
  by (cases "x = y"; fastforce simp: apart_def dest: spacedD)+

lemma link_keeps: "b \<in> B \<Longrightarrow> keeps (\<Union>b \<in> B. link_bytes b) a (put_word (b + 16) v a)"
  "b \<in> B \<Longrightarrow> keeps (\<Union>b \<in> B. link_bytes b) a (put_word (b + 24) v a)"
  by (rule keeps_mono [OF keeps_put]; force simp: link_bytes_def)+

text \<open>A write to link fields keeps the lists it does not touch.\<close>

lemma lists_update:
  assumes l: "lists_ok S a L" and c: "c < 768" and k: "keeps (\<Union>b \<in> insert (controller a) B. link_bytes b) a a'"
    and B: "B \<subseteq> S" "\<And>c'. c' < 768 \<Longrightarrow> c' \<noteq> c \<Longrightarrow> B \<inter> set (L c') = {}"
    and h: "heads_ok a' (L(c := zs))"
    and z: "linked_list a' (controller a) zs (controller a)" "distinct zs" "set zs \<subseteq> B"
      "\<forall>b \<in> B. mapped a (b + 16) \<and> mapped a (b + 24)"
  shows "lists_ok S a' (L(c := zs))"
proof -
  note i = lists_okD [OF l] and kd = keepsD [OF k]
  have m: "mapped a' = mapped a" by (rule keeps_mapped [OF k])
  have other: "linked_list a' (controller a) (L c') (controller a)" if c': "c' < 768" "c' \<noteq> c" for c'
  proof -
    have "word_at a' (x + 16) = word_at a (x + 16) \<and> word_at a' (x + 24) = word_at a (x + 24)" if x: "x \<in> set (L c')" for x
    proof -
      have "x \<in> insert (controller a) S" using x i(10) [OF c'(1)] by blast
      moreover have "x \<notin> insert (controller a) B" using x i(2) i(10) [OF c'(1)] B(2) [OF c'] by blast
      ultimately have d: "link_bytes x \<inter> link_bytes b = {}" if "b \<in> insert (controller a) B" for b
        using fields_disjoint(1) [OF i(3), of x b] that B(1) by blast
      have "{x + 16..<x + 16 + 8} \<subseteq> link_bytes x" "{x + 24..<x + 24 + 8} \<subseteq> link_bytes x"
        by (auto simp: link_bytes_def)
      then have "{x + 16..<x + 16 + 8} \<inter> (\<Union>b \<in> insert (controller a) B. link_bytes b) = {}"
        "{x + 24..<x + 24 + 8} \<inter> (\<Union>b \<in> insert (controller a) B. link_bytes b) = {}"
        using d by blast+
      then show ?thesis using keeps_word [OF k] by blast
    qed
    then have "linked_list a' (controller a) (L c') (controller a) = linked_list a (controller a) (L c') (controller a)"
      by (intro linked_list_cong)
    then show ?thesis using i(8) [OF c'(1)] by simp
  qed
  have part: "linked_list a' (controller a) ((L(c := zs)) c') (controller a) \<and> distinct ((L(c := zs)) c')
      \<and> set ((L(c := zs)) c') \<subseteq> S" if "c' < 768" for c'
    using other [OF that] z B(1) i(9,10) [OF that] by (cases "c' = c") auto
  have disj: "set ((L(c := zs)) c1) \<inter> set ((L(c := zs)) c2) = {}" if "c1 < 768" "c2 < 768" "c1 \<noteq> c2" for c1 c2
    using B(2) [OF that(1)] B(2) [OF that(2)] i(11) [OF that] z(3) that(3) by (cases "c1 = c"; cases "c2 = c") auto
  have maps: "mapped a (b + 16) \<and> mapped a (b + 24)"
    if b: "b \<in> insert (controller a) (\<Union>c' < 768. set ((L(c := zs)) c'))" for b
  proof -
    have "b = controller a \<or> b \<in> set zs \<or> (\<exists>c' < 768. b \<in> set (L c'))" using b by (auto split: if_splits)
    then show ?thesis using i(5,6) i(7) z(3,4) by blast
  qed
  show ?thesis
    unfolding lists_ok_def kd m
  proof (intro conjI ballI allI impI)
    show "heads_ok a' (L(c := zs))" by (rule h)
    show "controller a \<notin> S" "spaced (insert (controller a) S)" using i(2,3) by simp_all
    show "b \<noteq> NULL" "b + 32 < 2 ^ 64" "mapped a (b + 8)" if "b \<in> insert (controller a) S" for b
      using i(4) [OF that] by simp_all
    show "mapped a (b + 16)" "mapped a (b + 24)"
      if "b \<in> insert (controller a) (\<Union>c' < 768. set ((L(c := zs)) c'))" for b using maps [OF that] by simp_all
    show "linked_list a' (controller a) ((L(c := zs)) c') (controller a)" "distinct ((L(c := zs)) c')"
      "set ((L(c := zs)) c') \<subseteq> S" if "c' < 768" for c' using part [OF that] by simp_all
    show "set ((L(c := zs)) c1) \<inter> set ((L(c := zs)) c2) = {}" if "c1 < 768" "c2 < 768" "c1 \<noteq> c2" for c1 c2
      by (rule disj [OF that])
  qed
qed

lemma controller_remove_ok:
  assumes l: "lists_ok S a L" and c: "c < 768" "class_index c = (fl, sl)" and b: "b \<in> set (L c)"
  shows "\<exists>a'. controller_remove_free_block a b fl sl = Inr (0, a') \<and> lists_ok S a' (L(c := remove1 b (L c)))
    \<and> keeps (\<Union>x \<in> insert (controller a) (set (L c)). link_bytes x) a a'"
proof -
  note i = lists_okD [OF l]
  let ?n = "controller a" and ?B = "set (L c)"
  obtain xs ys where L: "L c = xs @ b # ys" using b by (meson split_list)
  have dist: "distinct (xs @ b # ys)" using i(9) [OF c(1)] L by simp
  have rm: "remove1 b (L c) = xs @ ys" using dist by (simp add: L remove1_append)
  let ?prv = "last_of ?n xs" and ?nxt = "first_of ?n ys"
  have ll: "linked_list a ?n xs b" "word_at a (b + 24) = ?prv" "word_at a (b + 16) = ?nxt" "linked_list a b ys ?n"
    using i(8) [OF c(1)] unfolding L linked_list_append by simp_all
  have pin: "?prv \<in> insert ?n ?B" "?nxt \<in> insert ?n ?B" using last_of_in [of ?n xs] first_of_in [of ?n ys] L by auto
  have BS: "?B \<subseteq> S" by (rule i(10) [OF c(1)])
  have nz: "?prv \<noteq> NULL" "?nxt \<noteq> NULL" using pin i(4) BS by blast+
  have small: "x + 32 < 2 ^ 64" if "x \<in> insert ?n ?B" for x using that i(4) BS by blast
  have fields: "prev_free x = x + 24" "next_free x = x + 16" if "x \<in> insert ?n ?B" for x
    using small [OF that] by (simp_all add: prev_free_def next_free_def)
  have mp: "mapped a (x + 16)" "mapped a (x + 24)" if "x \<in> insert ?n ?B" for x
    using that i(5,6) i(7) [OF c(1)] by blast+
  let ?a1 = "put_word (?nxt + 24) ?prv a"
  let ?a2 = "put_word (?prv + 16) ?nxt ?a1"
  have k2: "keeps (\<Union>x \<in> insert ?n ?B. link_bytes x) a ?a2"
    using keeps_trans [OF link_keeps(2) [OF pin(2)] link_keeps(1) [OF pin(1)]] by blast
  have sp: "spaced (insert ?n ?B)" using spaced_subset [OF i(3)] BS by blast
  have lt: "?prv < 2 ^ 64" "?nxt < 2 ^ 64" using small [OF pin(1)] small [OF pin(2)] by simp_all
  have w16: "word_at ?a2 (x + 16) = (if x = ?prv then ?nxt else word_at a (x + 16))" if x: "x \<in> insert ?n ?B" for x
    using spaced_apart(1) [OF sp pin(1) x] spaced_apart(4) [OF sp pin(2) x] lt by auto
  have w24: "word_at ?a2 (x + 24) = (if x = ?nxt then ?prv else word_at a (x + 24))" if x: "x \<in> insert ?n ?B" for x
    using spaced_apart(3) [OF sp pin(1) x] spaced_apart(2) [OF sp pin(2) x] lt by auto
  have nB: "?n \<notin> ?B" using i(2) BS by blast
  have list: "linked_list ?a2 ?n (xs @ ys) ?n"
    unfolding linked_list_append
  proof
    show "linked_list ?a2 ?n xs ?nxt"
    proof (rule linked_list_new_end [OF ll(1)])
      fix x assume x: "x \<in> set xs"
      then have x': "x \<in> insert ?n ?B" "x \<noteq> ?n" using L nB by auto
      have "x \<noteq> ?nxt" using x first_of_in [of ?n ys] dist x'(2) by auto
      then show "word_at ?a2 (x + 24) = word_at a (x + 24)" using w24 [OF x'(1)] by simp
      have "last_of ?n xs = last_of ?nxt xs" using x by (auto simp: last_of_def)
      then show "word_at ?a2 (x + 16) = (if x = last_of ?nxt xs then ?nxt else word_at a (x + 16))"
        using w16 [OF x'(1)] by simp
    qed (use dist in simp)
    show "linked_list ?a2 ?prv ys ?n"
    proof (rule linked_list_new_start [OF ll(4)])
      fix x assume x: "x \<in> set ys"
      then have x': "x \<in> insert ?n ?B" "x \<noteq> ?n" using L nB by auto
      have "x \<noteq> ?prv" using x last_of_in [of ?n xs] dist x'(2) by auto
      then show "word_at ?a2 (x + 16) = word_at a (x + 16)" using w16 [OF x'(1)] by simp
      have "first_of ?n ys = first_of ?prv ys" using x by (cases ys) auto
      then show "word_at ?a2 (x + 24) = (if x = first_of ?prv ys then ?prv else word_at a (x + 24))"
        using w24 [OF x'(1)] by simp
    qed (use dist in simp)
  qed
  have h2: "heads_ok ?a2 L" by (rule heads_keeps [OF i(1)]) simp_all
  have head: "blocks_at ?a2 fl sl = Inr (first_of ?n (L c))" using heads_blocks_at [OF h2 c] by simp
  have pre: "controller_remove_free_block a b fl sl =
      (if first_of ?n (L c) \<noteq> b then Inr (0, ?a2)
       else let a3 = set_blocks ?a2 fl sl ?nxt in
         if ?nxt \<noteq> ?n then Inr (0, a3)
         else rbind (elem_i (sl_bitmap a3) fl) (\<lambda>w. rbind (shl32 1 sl) (\<lambda>bs.
           let w' = w AND NOT bs; a4 = a3\<lparr>sl_bitmap := (sl_bitmap a3)[nat fl := w']\<rparr> in
           if w' \<noteq> 0 then Inr (0, a4)
           else rbind (shl32 1 fl) (\<lambda>bf. Inr (0, a4\<lparr>fl_bitmap := fl_bitmap a4 AND NOT bf\<rparr>)))))"
    using b fields [OF pin(1)] fields [OF pin(2)] fields [of b] mp [of b] mp(2) [OF pin(2)] mp(1) [OF pin(1)] nz ll(2,3) head
    by (simp add: controller_remove_free_block_def)
  have upd: "lists_ok S a' (L(c := xs @ ys))" if "heads_ok a' (L(c := xs @ ys))" "word_at a' = word_at ?a2"
      "keeps (\<Union>x \<in> insert ?n ?B. link_bytes x) a a'" for a'
  proof (rule lists_update [OF l c(1) that(3) BS _ that(1)])
    have "linked_list a' ?n (xs @ ys) ?n = linked_list ?a2 ?n (xs @ ys) ?n"
      using that(2) by (intro linked_list_cong) simp
    then show "linked_list a' ?n (xs @ ys) ?n" using list by simp
    show "?B \<inter> set (L c') = {}" if "c' < 768" "c' \<noteq> c" for c' using i(11) [OF c(1) that(1)] that(2) by blast
  qed (use dist L mp in auto)
  show ?thesis
  proof (cases xs)
    case (Cons x zs)
    then have "first_of ?n (L c) \<noteq> b" using L dist by auto
    moreover have "heads_ok ?a2 (L(c := xs @ ys))" using heads_same [OF h2, of c "xs @ ys"] Cons L by simp
    ultimately show ?thesis using pre upd [OF _ refl k2] k2 rm by auto
  next
    case Nil
    then have hd: "first_of ?n (L c) = b" using L by simp
    let ?a3 = "set_blocks ?a2 fl sl ?nxt"
    show ?thesis
    proof (cases ys)
      case (Cons y zs)
      then have "?nxt \<noteq> ?n" using nB L by auto
      moreover have "heads_ok ?a3 (L(c := xs @ ys))"
        using heads_new_head [OF h2 c, of ys] L Nil Cons by simp
      ultimately show ?thesis using pre hd upd [of ?a3] k2 rm by (simp add: Let_def)
    next
      case ys: Nil
      let ?a4 = "clear_class (set_blocks ?a2 fl sl ?n) c"
      have h4: "heads_ok ?a4 (L(c := []))" using heads_emptied [OF h2 c] by simp
      have fs: "fl = int (c div 32)" "sl = int (c mod 32)" using c(2) by (simp_all add: class_index_def)
      have shl: "shl32 1 sl = Inr (2 ^ (c mod 32))" "shl32 1 fl = Inr (2 ^ (c div 32))"
        using class_bounds [OF c(1)] by (simp_all add: shl32_def fs)
      have "c div 32 < length (sl_bitmap a)" using class_bounds [OF c(1)] heads_okD(3) [OF i(1)] by simp
      then have el: "elem_i (sl_bitmap a) fl = Inr (sl_bitmap a ! (c div 32))" by (simp add: fs)
      have run: "controller_remove_free_block a b fl sl = Inr (0, ?a4)"
        unfolding pre using hd ys el shl
        by (simp add: Let_def clear_class_def fs)
      have k4: "keeps (\<Union>x \<in> insert ?n ?B. link_bytes x) a ?a4" using k2 by simp
      have "lists_ok S ?a4 (L(c := xs @ ys))" using upd [OF _ _ k4] h4 Nil ys by simp
      then show ?thesis using run k4 rm by auto
    qed
  qed
qed

lemma align_ptr_aligned:
  assumes "4 dvd p" and "p + 4 \<le> 2 ^ 64"
  shows "align_ptr a p ALIGN_SIZE = (p, a)"
proof -
  obtain k where k: "p = 4 * k" using assms(1) by (elim dvdE)
  have "(p + 2 ^ 2 - 1) div 2 ^ 2 * 2 ^ 2 = p" unfolding k by (simp add: div_mult_self_is_m)
  then show ?thesis using align_up_eq [of 2 p a] assms(2) by (simp add: ALIGN_SIZE_def)
qed

lemma controller_insert_ok:
  assumes l: "lists_ok S a L" and c: "c < 768" "class_index c = (fl, sl)"
    and b: "b \<in> S" "\<And>c'. c' < 768 \<Longrightarrow> b \<notin> set (L c')" "4 dvd b" "mapped a (b + 16)" "mapped a (b + 24)"
  shows "\<exists>a'. controller_insert_free_block a b fl sl = Inr (0, a') \<and> lists_ok S a' (L(c := b # L c))
    \<and> keeps (\<Union>x \<in> insert (controller a) (insert b (set (L c))). link_bytes x) a a'"
proof -
  note i = lists_okD [OF l]
  let ?n = "controller a" and ?B = "insert b (set (L c))" and ?cur = "first_of (controller a) (L c)"
  have BS: "?B \<subseteq> S" using i(10) [OF c(1)] b(1) by blast
  have nB: "?n \<notin> ?B" using i(2) BS by blast
  have cin: "?cur \<in> insert ?n (set (L c))" by (rule first_of_in)
  then have cin': "?cur \<in> insert ?n ?B" by blast
  have bin: "b \<in> insert ?n ?B" by simp
  have nz: "?cur \<noteq> NULL" "b \<noteq> NULL" using cin' b(1) i(4) BS by blast+
  have small: "x + 32 < 2 ^ 64" if "x \<in> insert ?n ?B" for x using that i(4) BS by blast
  have bs: "b + 32 < 2 ^ 64" using small [of b] by simp
  have fields: "prev_free x = x + 24" "next_free x = x + 16" if "x \<in> insert ?n ?B" for x
    using small [OF that] by (simp_all add: prev_free_def next_free_def)
  have mp: "mapped a (x + 16)" "mapped a (x + 24)" if "x \<in> insert ?n ?B" for x
    using that i(5,6) i(7) [OF c(1)] b(4,5) by blast+
  have sp: "spaced (insert ?n ?B)" by (rule spaced_subset [OF i(3) insert_mono [OF BS]])
  let ?a1 = "put_word (b + 16) ?cur a"
  let ?a2 = "put_word (b + 24) ?n ?a1"
  let ?a3 = "put_word (?cur + 24) b ?a2"
  have k3: "keeps (\<Union>x \<in> insert ?n ?B. link_bytes x) a ?a3"
    by (rule keeps_trans [OF keeps_trans [OF link_keeps(1) [OF bin] link_keeps(2) [OF bin] subset_refl subset_refl]
          link_keeps(2) [OF cin'] subset_refl subset_refl])
  have bcur: "b \<noteq> ?cur" using cin b(2) [OF c(1)] nB by (metis insert_iff)
  have lt: "?cur < 2 ^ 64" "?n < 2 ^ 64" "b < 2 ^ 64" using small [OF cin'] small [of ?n] bs by simp_all
  have w16: "word_at ?a3 (x + 16) = (if x = b then ?cur else word_at a (x + 16))" if x: "x \<in> insert ?n ?B" for x
    using spaced_apart(1) [OF sp bin x] spaced_apart(4) [OF sp bin x] spaced_apart(4) [OF sp cin' x] lt by auto
  have w24: "word_at ?a3 (x + 24) = (if x = ?cur then b else if x = b then ?n else word_at a (x + 24))"
    if x: "x \<in> insert ?n ?B" for x
    using spaced_apart(2) [OF sp bin x] spaced_apart(3) [OF sp bin x] spaced_apart(2) [OF sp cin' x] lt by auto
  have list: "linked_list ?a3 ?n (b # L c) ?n"
  proof -
    have "linked_list ?a3 b (L c) ?n"
    proof (rule linked_list_new_start [OF i(8,9) [OF c(1)]])
      fix x assume x: "x \<in> set (L c)"
      then have x': "x \<in> insert ?n ?B" "x \<noteq> b" using b(2) [OF c(1)] by auto
      then show "word_at ?a3 (x + 16) = word_at a (x + 16)" using w16 [OF x'(1)] by simp
      have "?cur = first_of b (L c)" using x by (cases "L c") auto
      then show "word_at ?a3 (x + 24) = (if x = first_of b (L c) then b else word_at a (x + 24))"
        using w24 [OF x'(1)] x'(2) by simp
    qed
    then show ?thesis using w16 [OF bin] w24 [OF bin] bcur by simp
  qed
  have h3: "heads_ok ?a3 L" by (rule heads_keeps [OF i(1)]) simp_all
  have head: "blocks_at a fl sl = Inr ?cur" using heads_blocks_at [OF i(1) c] .
  have ptr: "block_to_ptr b = b + 16" using bs by (simp add: block_to_ptr_def block_consts)
  have al: "align_ptr ?a3 (b + 16) ALIGN_SIZE = (b + 16, ?a3)" using b(3) bs by (intro align_ptr_aligned) simp_all
  have fs: "fl = int (c div 32)" "sl = int (c mod 32)" using c(2) by (simp_all add: class_index_def)
  have shl: "shl32 1 sl = Inr (push_bit (c mod 32) 1)" "shl32 1 fl = Inr (push_bit (c div 32) 1)"
    using class_bounds [OF c(1)] by (simp_all add: shl32_def fs)
  have "c div 32 < length (sl_bitmap a)" using class_bounds [OF c(1)] heads_okD(3) [OF i(1)] by simp
  then have el: "elem_i (sl_bitmap a) fl = Inr (sl_bitmap a ! (c div 32))" by (simp add: fs)
  let ?a4 = "mark_class (set_blocks ?a3 fl sl b) c"
  have run: "controller_insert_free_block a b fl sl = Inr (0, ?a4)"
    unfolding controller_insert_free_block_def head rbind_Inr
    using nz fields [OF bin] fields [OF cin'] mp [OF bin] mp(2) [OF cin'] al el
    by (simp add: ptr shl Let_def mark_class_def) (simp add: fs)
  have k4: "keeps (\<Union>x \<in> insert ?n ?B. link_bytes x) a ?a4" using k3 by simp
  have "lists_ok S ?a4 (L(c := b # L c))"
  proof (rule lists_update [OF l c(1) k4 BS])
    show "heads_ok ?a4 (L(c := b # L c))" by (rule heads_inserted [OF h3 c])
    have "linked_list ?a4 ?n (b # L c) ?n = linked_list ?a3 ?n (b # L c) ?n" by (rule linked_list_cong) simp
    then show "linked_list ?a4 ?n (b # L c) ?n" using list by simp
    show "?B \<inter> set (L c') = {}" if "c' < 768" "c' \<noteq> c" for c'
      using i(11) [OF c(1) that(1)] that(2) b(2) [OF that(1)] by blast
    show "distinct (b # L c)" using i(9) [OF c(1)] b(2) [OF c(1)] by simp
    show "set (b # L c) \<subseteq> ?B" by simp
    show "\<forall>x \<in> ?B. mapped a (x + 16) \<and> mapped a (x + 24)" using mp by blast
  qed
  then show ?thesis using run k4 by blast
qed

lemma bit_from32: "n < 32 \<Longrightarrow> bit (w AND push_bit n (- 1) :: 32 word) j \<longleftrightarrow> bit w j \<and> n \<le> j"
  by (auto simp: bit_simps dest: bit_imp_le_length)

lemma heads_bit: "heads_ok a L \<Longrightarrow> i < 24 \<Longrightarrow> j < 32 \<Longrightarrow> bit (sl_bitmap a ! i) j \<longleftrightarrow> L (32 * i + j) \<noteq> []"
proof -
  assume h: "heads_ok a L" "i < 24" "j < 32"
  then have "32 * i + j < 768" "(32 * i + j) div 32 = i" "(32 * i + j) mod 32 = j" by simp_all
  then show ?thesis using heads_okD(5) [OF h(1)] by metis
qed

lemma search_second_level_ok:
  assumes h: "heads_ok a L" and i: "i < 24" and w: "w \<noteq> 0" "\<And>j. bit w j \<longleftrightarrow> bit (sl_bitmap a ! i) j \<and> n \<le> j"
  shows "\<exists>j < 32. search_second_level a (int i) sl w = Inr (hd (L (32 * i + j)), int i, int j, a)
    \<and> n \<le> j \<and> L (32 * i + j) \<noteq> [] \<and> (\<forall>j'. n \<le> j' \<longrightarrow> j' < j \<longrightarrow> L (32 * i + j') = [])"
proof -
  let ?j = "nat (htfh_ffs w)"
  note f = htfh_ffs_bit [OF w(1)]
  have j: "?j < 32" using f(1,2) by simp
  have ne: "n \<le> ?j" "L (32 * i + ?j) \<noteq> []" using f(3) w(2) heads_bit [OF h i j] by blast+
  have "L (32 * i + j') = []" if "n \<le> j'" "j' < ?j" for j'
  proof (rule ccontr)
    assume "L (32 * i + j') \<noteq> []"
    then have "bit w j'" using w(2) heads_bit [OF h i] that j by (meson less_trans)
    then show False using f(4) that(2) by (meson not_le)
  qed
  moreover have "blocks_at a (int i) (htfh_ffs w) = Inr (hd (L (32 * i + ?j)))"
  proof -
    have "class_index (32 * i + ?j) = (int i, htfh_ffs w)" "32 * i + ?j < 768" using j i f(1) by (simp_all add: class_index_def)
    from heads_blocks_at [OF h this(2,1)] show ?thesis using ne(2) by (cases "L (32 * i + ?j)") simp_all
  qed
  ultimately show ?thesis using j ne w(1) f(1) by (intro exI [of _ ?j]) (simp add: search_second_level_def Let_def)
qed

text \<open>The head of the first list that is not empty from a class on.\<close>

lemma controller_search_ok:
  assumes h: "heads_ok a L" and c: "c < 768" "class_index c = (fl, sl)"
  shows "(\<forall>c' < 768. c \<le> c' \<longrightarrow> L c' = []) \<and>
      controller_search_suitable_block a fl sl = Inr (NULL, fl, sl, set_alloc_errno HEAP_FULL a)
    \<or> (\<exists>c' < 768. \<exists>fl' sl'. c \<le> c' \<and> L c' \<noteq> [] \<and> (\<forall>c'' < c'. c \<le> c'' \<longrightarrow> L c'' = []) \<and> class_index c' = (fl', sl')
        \<and> controller_search_suitable_block a fl sl = Inr (hd (L c'), fl', sl', a))"
proof -
  let ?i = "c div 32" and ?n = "c mod 32"
  note d = heads_okD [OF h] and b = class_bounds [OF c(1)]
  have i: "?i < 24" "?n < 32" using b by simp_all
  have fs: "fl = int ?i" "sl = int ?n" using c(2) by (simp_all add: class_index_def)
  have cs: "c = 32 * ?i + ?n" by simp
  let ?w = "sl_bitmap a ! ?i AND push_bit ?n (- 1)"
  have el: "elem_i (sl_bitmap a) (int k) = Inr (sl_bitmap a ! k)" if "k < 24" for k using that d(3) by simp
  have ms: "largest_bit_class sl = Inr (push_bit ?n (- 1))" "largest_bit_class (fl + 1) = Inr (push_bit (Suc ?i) (- 1))"
    using i by (simp_all add: largest_bit_class_def shl32_def fs nat_add_distrib)
  have wb: "bit ?w j \<longleftrightarrow> bit (sl_bitmap a ! ?i) j \<and> ?n \<le> j" for j using i(2) by (rule bit_from32)
  show ?thesis
  proof (cases "?w = 0")
    case False
    from search_second_level_ok [OF h i(1) False wb, of sl]
    obtain j where j: "j < 32" "search_second_level a (int ?i) sl ?w = Inr (hd (L (32 * ?i + j)), int ?i, int j, a)"
      "?n \<le> j" "L (32 * ?i + j) \<noteq> []" "\<And>j'. ?n \<le> j' \<Longrightarrow> j' < j \<Longrightarrow> L (32 * ?i + j') = []" by blast
    let ?c = "32 * ?i + j"
    have run: "controller_search_suitable_block a fl sl = Inr (hd (L ?c), int ?i, int j, a)"
      unfolding controller_search_suitable_block_def ms fs(1) el [OF i(1)] rbind_Inr Let_def
      using False j(2) by simp
    have "L c'' = []" if "c \<le> c''" "c'' < ?c" for c''
    proof -
      have "c'' = 32 * ?i + (c'' - 32 * ?i)" "?n \<le> c'' - 32 * ?i" "c'' - 32 * ?i < j" using that cs by linarith+
      then show ?thesis using j(5) by metis
    qed
    moreover have "class_index ?c = (int ?i, int j)" "?c < 768" using i(1) j(1) by (simp_all add: class_index_def)
    moreover have "c \<le> ?c" using j(3) cs by linarith
    ultimately show ?thesis using run j(4) by blast
  next
    case True
    have row: "L c' = []" if "c \<le> c'" "c' div 32 = ?i" for c'
    proof -
      have "?n \<le> c' mod 32" using that cs div_mult_mod_eq [of c' 32] by linarith
      then have "\<not> bit (sl_bitmap a ! ?i) (c' mod 32)" using wb [of "c' mod 32"] True by simp
      then have "L (32 * ?i + c' mod 32) = []" using heads_bit [OF h i(1), of "c' mod 32"] by simp
      then show ?thesis using that(2) by (metis mult_div_mod_eq)
    qed
    let ?v = "fl_bitmap a AND push_bit (Suc ?i) (- 1)"
    have vb: "bit ?v k \<longleftrightarrow> k < 24 \<and> sl_bitmap a ! k \<noteq> 0 \<and> Suc ?i \<le> k" for k
      using bit_from32 [of "Suc ?i" "fl_bitmap a" k] i(1) d(6) [of k] by auto
    show ?thesis
    proof (cases "?v = 0")
      case v: True
      have "L c' = []" if "c' < 768" "c \<le> c'" for c'
      proof (cases "c' div 32 = ?i")
        case False
        then have "Suc ?i \<le> c' div 32" using div_le_mono [OF that(2), of 32] by linarith
        moreover have "c' div 32 < 24" "c' mod 32 < 32" using class_bounds [OF that(1)] by simp_all
        ultimately have "sl_bitmap a ! (c' div 32) = 0" using vb [of "c' div 32"] v by simp
        then have "\<not> bit (sl_bitmap a ! (c' div 32)) (c' mod 32)" by simp
        then show ?thesis using d(5) [OF that(1)] by simp
      qed (use row that in blast)
      moreover have "controller_search_suitable_block a fl sl = Inr (NULL, fl, sl, set_alloc_errno HEAP_FULL a)"
        unfolding controller_search_suitable_block_def ms el [OF i(1), folded fs(1)] rbind_Inr Let_def True v by simp
      ultimately show ?thesis by blast
    next
      case False
      let ?k = "nat (htfh_ffs ?v)"
      note f = htfh_ffs_bit [OF False]
      have k: "?k < 24" "sl_bitmap a ! ?k \<noteq> 0" "Suc ?i \<le> ?k" using f(3) vb [of ?k] by blast+
      have ik: "int ?k = htfh_ffs ?v" using f(1) by simp
      have "\<And>j. bit (sl_bitmap a ! ?k) j \<longleftrightarrow> bit (sl_bitmap a ! ?k) j \<and> 0 \<le> j" by simp
      from search_second_level_ok [OF h k(1,2) this, of sl]
      obtain j where j: "j < 32" "search_second_level a (int ?k) sl (sl_bitmap a ! ?k) = Inr (hd (L (32 * ?k + j)), int ?k, int j, a)"
        "L (32 * ?k + j) \<noteq> []" "\<And>j'. j' < j \<Longrightarrow> L (32 * ?k + j') = []" by blast
      let ?c = "32 * ?k + j"
      have run: "controller_search_suitable_block a fl sl = Inr (hd (L ?c), int ?k, int j, a)"
        unfolding controller_search_suitable_block_def ms el [OF i(1), folded fs(1)] rbind_Inr Let_def True
        using False j(2) el [OF k(1)] ik by simp
      have "L c'' = []" if c'': "c \<le> c''" "c'' < ?c" for c''
      proof (cases "c'' div 32 = ?i")
        case False
        have e: "c'' = 32 * (c'' div 32) + c'' mod 32" "c'' mod 32 < 32" by simp_all
        have le: "Suc ?i \<le> c'' div 32" using div_le_mono [OF c''(1), of 32] False by linarith
        have "c'' div 32 \<le> ?k" using c''(2) j(1) e by linarith
        then consider "c'' div 32 < ?k" | "c'' div 32 = ?k" "c'' mod 32 < j" using c''(2) e by linarith
        then show ?thesis
        proof cases
          case 1
          then have "\<not> bit ?v (c'' div 32)" using f(4) [of "c'' div 32"] by linarith
          moreover have "c'' div 32 < 24" "c'' < 768" using 1 k(1) e by linarith+
          ultimately have "sl_bitmap a ! (c'' div 32) = 0" using vb [of "c'' div 32"] le by blast
          then have "\<not> bit (sl_bitmap a ! (c'' div 32)) (c'' mod 32)" by simp
          then show ?thesis using d(5) [OF \<open>c'' < 768\<close>] by simp
        next
          case 2
          then show ?thesis using j(4) e(1) by metis
        qed
      qed (use row c'' in blast)
      moreover have "class_index ?c = (int ?k, int j)" "?c < 768" using k(1) j(1) by (simp_all add: class_index_def)
      moreover have "c \<le> ?c" using k(3) i(2) cs by linarith
      ultimately show ?thesis using run j(3) by blast
    qed
  qed
qed

end
