(* ===== verification/HTFH_Chain.thy ===== *)
theory HTFH_Chain
  imports HTFH_Heap
begin

text \<open>
  The pool of the HTFH allocator: blocks that follow each other without gaps and end with a
  header of size 0.  The invariant \<open>heap_st\<close> ties this chain to the free lists, and every
  operation on blocks is shown to keep it and to leave the memory of used blocks alone.
\<close>

section \<open>Headers of the chain\<close>

text \<open>The header of the next block is 8 bytes behind the memory of a block, less its first field.\<close>

abbreviation places :: "addr \<Rightarrow> (nat \<times> bool) list \<Rightarrow> (addr \<times> nat \<times> bool) list" where
  "places \<equiv> block_places 8"

abbreviation end_of :: "addr \<Rightarrow> (nat \<times> bool) list \<Rightarrow> addr" where
  "end_of \<equiv> block_end 8"

abbreviation used_set :: "addr \<Rightarrow> (nat \<times> bool) list \<Rightarrow> (addr \<times> nat) set" where
  "used_set \<equiv> block_used 8"

abbreviation used_bytes :: "addr \<Rightarrow> (nat \<times> bool) list \<Rightarrow> nat set" where
  "used_bytes \<equiv> block_bytes 8"

lemma places_same:
  assumes "(x, s, f) \<in> set (places p bs)" and "(x, t, g) \<in> set (places p bs)"
  shows "s = t \<and> f = g"
  by (rule block_places_same [OF _ assms]) simp

fun prv_of :: "addr \<Rightarrow> addr \<Rightarrow> (nat \<times> bool) list \<Rightarrow> addr" where
  "prv_of q p [] = q"
| "prv_of q p ((s, f) # bs) = prv_of p (p + s + 8) bs"

text \<open>
  The headers in memory are those of the blocks; \<open>prev_phys_block\<close> is valid after a free
  block only.
\<close>

fun seg :: "Allocator \<Rightarrow> addr \<Rightarrow> bool \<Rightarrow> addr \<Rightarrow> (nat \<times> bool) list \<Rightarrow> bool" where
  "seg a q pf p [] \<longleftrightarrow> True"
| "seg a q pf p ((s, f) # bs) \<longleftrightarrow>
     hdr_at a p s pf f \<and> (pf \<longrightarrow> word_at a p = q) \<and> seg a p f (p + s + 8) bs"

text \<open>The bytes a chain rests on.\<close>

fun meta :: "bool \<Rightarrow> addr \<Rightarrow> (nat \<times> bool) list \<Rightarrow> nat set" where
  "meta pf p [] = {}"
| "meta pf p ((s, f) # bs) = size_bytes p \<union> (if pf then phys_bytes p else {}) \<union> meta f (p + s + 8) bs"

text \<open>What belongs to a block: its size field and the bytes behind it.\<close>

definition extent :: "addr \<Rightarrow> nat \<Rightarrow> nat set" where
  "extent b s = {b + 8..<b + s + 16}"

definition sized :: "(nat \<times> bool) list \<Rightarrow> bool" where
  "sized bs \<longleftrightarrow> (\<forall>(s, f) \<in> set bs. 24 \<le> s \<and> s < 2 ^ 30 \<and> 4 dvd s)"

lemma sized_simps [simp]:
  "sized []" "sized ((s, f) # bs) \<longleftrightarrow> 24 \<le> s \<and> s < 2 ^ 30 \<and> 4 dvd s \<and> sized bs" "sized (us @ vs) \<longleftrightarrow> sized us \<and> sized vs"
  by (auto simp: sized_def)

lemma prv_of_append [simp]: "prv_of q p (us @ vs) = prv_of (prv_of q p us) (end_of p us) vs"
  by (induction q p us rule: prv_of.induct) simp_all

lemma seg_append:
  "seg a q pf p (us @ vs) \<longleftrightarrow> seg a q pf p us \<and> seg a (prv_of q p us) (free_of pf us) (end_of p us) vs"
  by (induction a q pf p us rule: seg.induct) auto

lemma end_of_dvd: "4 dvd p \<Longrightarrow> sized bs \<Longrightarrow> 4 dvd end_of p bs"
  by (induction "8 :: nat" p bs rule: block_end.induct) auto

lemma places_sized: "(x, s, f) \<in> set (places p bs) \<Longrightarrow> sized bs \<Longrightarrow> 24 \<le> s \<and> s < 2 ^ 30 \<and> 4 dvd s"
  by (induction "8 :: nat" p bs rule: block_places.induct) auto

lemma places_dvd: "(x, s, f) \<in> set (places p bs) \<Longrightarrow> sized bs \<Longrightarrow> 4 dvd p \<Longrightarrow> 4 dvd x"
  by (induction "8 :: nat" p bs rule: block_places.induct) auto

lemma meta_bounds: "x \<in> meta pf p bs \<Longrightarrow> p \<le> x \<and> (\<not> pf \<longrightarrow> p + 8 \<le> x) \<and> (sized bs \<longrightarrow> x < end_of p bs)"
proof (induction pf p bs rule: meta.induct)
  case (2 pf p s f bs)
  then show ?case using end_of_le [of "p + s + 8" 8 bs] by (auto simp: field_bytes split: if_splits)
qed simp

lemma seg_keeps: "seg a q pf p bs \<Longrightarrow> keeps W a a' \<Longrightarrow> meta pf p bs \<inter> W = {} \<Longrightarrow> seg a' q pf p bs"
proof (induction a q pf p bs rule: seg.induct)
  case (2 a q pf p s f bs)
  have "word_at a' p = word_at a p" if pf
    using 2(3,4) that by (intro keeps_word [OF 2(3)]) (auto simp: phys_bytes_def)
  moreover have "hdr_at a' p s pf f" using 2(2-4) by (intro hdr_at_keeps [OF _ 2(3)]) auto
  ultimately show ?case using 2 by auto
qed simp

lemma seg_hdr: "seg a q pf p bs \<Longrightarrow> (x, s, f) \<in> set (places p bs) \<Longrightarrow> \<exists>g. hdr_at a x s g f"
  by (induction a q pf p bs rule: seg.induct) auto

section \<open>Block operations\<close>

text \<open>The control arrays are the same.\<close>

definition same_ctrl :: "Allocator \<Rightarrow> Allocator \<Rightarrow> bool" where
  "same_ctrl a a' \<longleftrightarrow> blocks a' = blocks a \<and> sl_bitmap a' = sl_bitmap a \<and> fl_bitmap a' = fl_bitmap a"

lemma same_ctrl_simps [simp]: "same_ctrl a a" "same_ctrl a (put_word p v a') = same_ctrl a a'"
  by (simp_all add: same_ctrl_def)

lemma same_ctrl_trans: "same_ctrl a a1 \<Longrightarrow> same_ctrl a1 a2 \<Longrightarrow> same_ctrl a a2"
  by (simp add: same_ctrl_def)

lemma hdr_at_put_apart: "hdr_at a b s pf f \<Longrightarrow> apart p (b + 8) \<Longrightarrow> hdr_at (put_word p v a) b s pf f"
  by (simp add: hdr_at_def)

lemma hdr_at_set:
  assumes "hdr_at a b s pf f" and "4 dvd t" and "t < 2 ^ 64"
  shows "hdr_at (put_word (b + 8) (hdr t qf g) a) b t qf g"
  using assms hdr_at_put [of a b t qf g] by (simp add: hdr_at_def)

lemma hdr_at_change: "hdr_at a b s pf f \<Longrightarrow> hdr_at (put_word (b + 8) (hdr s qf g) a) b s qf g"
  using hdr_at_set [of a b s pf f s] hdr_atD [of a b s pf f] by blast

lemma hdr_at_garbage:
  assumes "mapped a (b + 8)" and "b + 8 < 2 ^ 64"
  shows "\<exists>s pf f. hdr_at a b s pf f"
  using assms hdr_any [of "word_at a (b + 8)"] unfolding hdr_at_def by (metis dvd_triv_right)

lemma ptr_arith:
  assumes "b + s + 16 < 2 ^ 64" and "8 \<le> s"
  shows "offset_to_block (block_to_ptr b) (usize_sub s block_header_overhead) = b + s + 8" "block_to_ptr b = b + 16"
proof -
  show p: "block_to_ptr b = b + 16" using assms by (simp add: block_to_ptr_def block_consts)
  have "usize_sub s block_header_overhead = s - 8" using assms by (simp add: block_consts usize_sub_le)
  moreover have "b + 16 + (s - 8) = b + s + 8" using assms(2) by linarith
  ultimately show "offset_to_block (block_to_ptr b) (usize_sub s block_header_overhead) = b + s + 8"
    unfolding p offset_to_block_def using assms(1) by simp
qed

lemma block_next_ok:
  assumes "hdr_at a b s pf f" and "8 \<le> s" and "b + s + 16 < 2 ^ 64"
  shows "block_next a b = Inr (b + s + 8, a)"
  unfolding block_next_def hdr_reads [OF assms(1)] rbind_Inr ptr_arith(1) [OF assms(3,2)] using assms(2) by simp

lemma block_link_next_ok:
  assumes "hdr_at a b s pf f" and "8 \<le> s" and "b + s + 16 < 2 ^ 64" and "mapped a (b + s + 8)"
  shows "block_link_next a b = Inr (b + s + 8, put_word (b + s + 8) b a)"
  using assms(4) by (simp add: block_link_next_def block_next_ok [OF assms(1-3)] prev_phys_block_def)

lemma block_mark_as_used_ok:
  assumes h: "hdr_at a b s pf f" "hdr_at a (b + s + 8) t pg g" and s: "8 \<le> s" "b + s + 16 < 2 ^ 64"
  shows "\<exists>a'. block_mark_as_used a b = Inr (0, a') \<and> hdr_at a' b s pf False \<and> hdr_at a' (b + s + 8) t False g
    \<and> keeps (size_bytes b \<union> size_bytes (b + s + 8)) a a' \<and> same_ctrl a a'"
proof -
  let ?n = "b + s + 8"
  let ?a1 = "put_word (?n + 8) (hdr t False g) a"
  let ?a2 = "put_word (b + 8) (hdr s pf False) ?a1"
  have nz: "?n \<noteq> NULL" by simp
  have n: "hdr_at ?a1 ?n t False g" by (rule hdr_at_change [OF h(2)])
  have b: "hdr_at ?a1 b s pf f" by (rule hdr_at_put_apart [OF h(1)]) (use s in \<open>simp add: apart_def\<close>)
  have "block_mark_as_used a b = Inr (0, ?a2)"
    by (simp only: block_mark_as_used_def block_next_ok [OF h(1) s] rbind_Inr prod.case nz if_False
        hdr_writes(4) [OF h(2)] hdr_writes(2) [OF b])
  moreover have "hdr_at ?a2 ?n t False g" by (rule hdr_at_put_apart [OF n]) (use s in \<open>simp add: apart_def\<close>)
  moreover have "keeps (size_bytes b \<union> size_bytes ?n) a ?a2"
    by (intro keeps_put_trans keeps_refl) (auto simp: size_bytes_def)
  ultimately show ?thesis using hdr_at_change [OF b, of pf False] by auto
qed

lemma block_mark_as_free_ok:
  assumes h: "hdr_at a b s pf f" "hdr_at a (b + s + 8) t pg g" and s: "8 \<le> s" "b + s + 16 < 2 ^ 64" "mapped a (b + s + 8)"
  shows "\<exists>a'. block_mark_as_free a b = Inr (0, a') \<and> hdr_at a' b s pf True \<and> hdr_at a' (b + s + 8) t True g
    \<and> word_at a' (b + s + 8) = b
    \<and> keeps (size_bytes b \<union> phys_bytes (b + s + 8) \<union> size_bytes (b + s + 8)) a a' \<and> same_ctrl a a'"
proof -
  let ?n = "b + s + 8"
  let ?a0 = "put_word ?n b a"
  let ?a1 = "put_word (?n + 8) (hdr t True g) ?a0"
  let ?a2 = "put_word (b + 8) (hdr s pf True) ?a1"
  have nz: "?n \<noteq> NULL" by simp
  have n0: "hdr_at ?a0 ?n t pg g" by (rule hdr_at_put_apart [OF h(2)]) (simp add: apart_def)
  have b0: "hdr_at ?a0 b s pf f" by (rule hdr_at_put_apart [OF h(1)]) (use s in \<open>simp add: apart_def\<close>)
  have n: "hdr_at ?a1 ?n t True g" by (rule hdr_at_change [OF n0])
  have b: "hdr_at ?a1 b s pf f" by (rule hdr_at_put_apart [OF b0]) (use s in \<open>simp add: apart_def\<close>)
  have "block_mark_as_free a b = Inr (0, ?a2)"
    by (simp only: block_mark_as_free_def block_link_next_ok [OF h(1) s] rbind_Inr prod.case nz if_False
        hdr_writes(3) [OF n0] hdr_writes(1) [OF b])
  moreover have "hdr_at ?a2 ?n t True g" by (rule hdr_at_put_apart [OF n]) (use s in \<open>simp add: apart_def\<close>)
  moreover have "word_at ?a2 ?n = b" using s by (simp add: apart_def)
  moreover have "keeps (size_bytes b \<union> phys_bytes ?n \<union> size_bytes ?n) a ?a2"
    by (intro keeps_put_trans keeps_refl) (auto simp: field_bytes)
  ultimately show ?thesis using hdr_at_change [OF b, of pf True] by auto
qed

lemma block_absorb_ok:
  assumes h: "hdr_at a b s pf f" "hdr_at a (b + s + 8) t pg g" and s: "8 \<le> s" "b + s + t + 24 < 2 ^ 64" "8 \<le> t"
    and m: "mapped a (b + s + t + 16)"
  shows "\<exists>a'. block_absorb a b (b + s + 8) = Inr (b, a') \<and> hdr_at a' b (s + t + 8) pf f
    \<and> word_at a' (b + s + t + 16) = b
    \<and> keeps (size_bytes b \<union> phys_bytes (b + s + t + 16)) a a' \<and> same_ctrl a a'"
proof -
  let ?a1 = "put_word (b + 8) (hdr (s + t + 8) pf f) a"
  let ?a2 = "put_word (b + s + t + 16) b ?a1"
  note d = hdr_atD [OF h(1)]
  have dv: "4 dvd s + t + 8" using d(4) hdr_atD(4) [OF h(2)] by simp
  have sum: "usize (hdr s pf f + t + block_header_overhead) = hdr (s + t + 8) pf f"
    using hdr_less [OF dv, of pf f] s by (simp add: hdr_def block_consts)
  have b1: "hdr_at ?a1 b (s + t + 8) pf f" by (rule hdr_at_set [OF h(1) dv]) (use s in simp)
  have m1: "mapped ?a1 (b + (s + t + 8) + 8)" using m by (simp add: add.assoc add.commute add.left_commute)
  have ln: "block_link_next ?a1 b = Inr (b + (s + t + 8) + 8, put_word (b + (s + t + 8) + 8) b ?a1)"
    using s by (intro block_link_next_ok [OF b1 _ _ m1]) simp_all
  have e: "b + (s + t + 8) + 8 = b + s + t + 16" by simp
  have "s \<noteq> 0" using s by simp
  have "block_absorb a b (b + s + 8) = Inr (b, ?a2)"
    unfolding block_absorb_def hdr_reads [OF h(1)] hdr_reads [OF h(2)] rbind_Inr d(2) load64_ok [OF d(1)] d(3)
      store64_ok [OF d(1)] sum ln e using \<open>s \<noteq> 0\<close> by simp
  moreover have "hdr_at ?a2 b (s + t + 8) pf f"
    by (rule hdr_at_put_apart [OF b1]) (use s in \<open>simp add: apart_def\<close>)
  moreover have "word_at ?a2 (b + s + t + 16) = b" using s by simp
  moreover have "keeps (size_bytes b \<union> phys_bytes (b + s + t + 16)) a ?a2"
    by (intro keeps_put_trans keeps_refl) (auto simp: field_bytes)
  ultimately show ?thesis by auto
qed

lemma block_split_ok:
  assumes h: "hdr_at a b s pf f" "hdr_at a (b + s + 8) t pg g" and n: "4 dvd n" "24 \<le> n" "n + 32 \<le> s"
    and b: "4 dvd b" "b + s + 32 < 2 ^ 64" and mp: "\<And>x. b + 8 \<le> x \<Longrightarrow> x \<le> b + s + 8 \<Longrightarrow> mapped a x"
  shows "\<exists>a' pr. block_split a b n = Inr (b + n + 8, a') \<and> hdr_at a' b n pf f \<and> hdr_at a' (b + n + 8) (s - n - 8) pr True
    \<and> hdr_at a' (b + s + 8) t True g \<and> word_at a' (b + s + 8) = b + n + 8
    \<and> keeps (size_bytes b \<union> size_bytes (b + n + 8) \<union> phys_bytes (b + s + 8) \<union> size_bytes (b + s + 8)) a a' \<and> same_ctrl a a'"
proof -
  let ?r = "b + n + 8" and ?m = "s - n - 8" and ?x = "b + s + 8"
  have ds: "4 dvd s" by (rule hdr_atD(4) [OF h(1)])
  have m: "4 dvd ?m" "24 \<le> ?m" "?m < 2 ^ 64" using ds n b by auto
  have rm: "?r + ?m + 8 = ?x" using n by linarith
  have mr: "mapped a (?r + 8)" "?r + 8 < 2 ^ 64" using mp [of "?r + 8"] n b by simp_all
  obtain s0 pr fr where r: "hdr_at a ?r s0 pr fr" using hdr_at_garbage [OF mr] by blast
  let ?a1 = "put_word (?r + 8) (hdr ?m pr fr) a"
  let ?a2 = "put_word (b + 8) (hdr n pf f) ?a1"
  have r1: "hdr_at ?a1 ?r ?m pr fr" by (rule hdr_at_set [OF r m(1,3)])
  have b1: "hdr_at ?a1 b s pf f" by (rule hdr_at_put_apart [OF h(1)]) (use n in \<open>simp add: apart_def\<close>)
  have x1: "hdr_at ?a1 ?x t pg g" by (rule hdr_at_put_apart [OF h(2)]) (use n in \<open>simp add: apart_def\<close>)
  have b2: "hdr_at ?a2 b n pf f" by (rule hdr_at_set [OF b1 n(1)]) (use n b in simp)
  have r2: "hdr_at ?a2 ?r ?m pr fr" by (rule hdr_at_put_apart [OF r1]) (use n in \<open>simp add: apart_def\<close>)
  have x2: "hdr_at ?a2 (?r + ?m + 8) t pg g"
    unfolding rm by (rule hdr_at_put_apart [OF x1]) (use n in \<open>simp add: apart_def\<close>)
  have mx: "mapped ?a2 (?r + ?m + 8)" unfolding rm using mp [of ?x] by simp
  obtain a3 where a3: "block_mark_as_free ?a2 ?r = Inr (0, a3)" "hdr_at a3 ?r ?m pr True" "hdr_at a3 ?x t True g"
    "word_at a3 ?x = ?r" "keeps (size_bytes ?r \<union> phys_bytes ?x \<union> size_bytes ?x) ?a2 a3" "same_ctrl ?a2 a3"
    using block_mark_as_free_ok [OF r2 x2 _ _ mx] m(2) b unfolding rm by auto
  have off: "offset_to_block (block_to_ptr b) (usize_sub n block_header_overhead) = ?r" using n b by (intro ptr_arith(1)) simp_all
  have rp: "block_to_ptr ?r = ?r + 16" using n b by (simp add: block_to_ptr_def block_consts)
  have rem: "usize_sub s (usize (n + block_header_overhead)) = ?m" using n b by (simp add: block_consts usize_sub_le)
  have al: "align_ptr a (?r + 16) ALIGN_SIZE = (?r + 16, a)" using n b by (intro align_ptr_aligned) simp_all
  have sum: "usize (?m + n + block_header_overhead) = s" using n b by (simp add: block_consts)
  have min: "\<not> ?m < block_size_min" using m(2) by (simp add: block_consts)
  have run: "block_split a b n = Inr (?r, a3)"
    by (simp only: block_split_def Let_def off hdr_reads(1) [OF h(1)] rbind_Inr rem rp al prod.case simp_thms if_False sum
        hdr_writes(5) [OF r m(1)] hdr_reads(1) [OF r1] min hdr_writes(5) [OF b1 n(1)] a3(1))
  have "size_bytes b \<inter> (size_bytes ?r \<union> phys_bytes ?x \<union> size_bytes ?x) = {}" using n by (auto simp: field_bytes)
  then have "hdr_at a3 b n pf f" by (rule hdr_at_keeps [OF b2 a3(5)])
  moreover have "keeps (size_bytes b \<union> size_bytes ?r \<union> phys_bytes ?x \<union> size_bytes ?x) a a3"
  proof (rule keeps_trans [OF _ a3(5)])
    show "keeps (size_bytes b \<union> size_bytes ?r) a ?a2" by (intro keeps_put_trans keeps_refl) (auto simp: field_bytes)
  qed auto
  ultimately show ?thesis using run a3 same_ctrl_trans [OF _ a3(6)] by auto
qed

text \<open>Cutting a free block in two, up to the insertion of the second part.\<close>

lemma trim_free_prefix:
  assumes h: "hdr_at a b s pf True" "hdr_at a (b + s + 8) t pg g" and n: "4 dvd n" "24 \<le> n" "n + 32 \<le> s"
    and b: "4 dvd b" "b + s + 32 < 2 ^ 64" and mp: "\<And>x. b + 8 \<le> x \<Longrightarrow> x \<le> b + s + 8 \<Longrightarrow> mapped a x"
  shows "\<exists>a'. controller_block_trim_free a b n = controller_block_insert a' (b + n + 8)
    \<and> (n + 40 \<le> s \<longrightarrow> controller a \<noteq> NULL \<longrightarrow> b \<noteq> NULL \<longrightarrow> controller_block_trim_free_leading a b (n + 8)
        = rbind (controller_block_insert a' b) (\<lambda>(r, a4). Inr (if r \<noteq> 0 then NULL else b + n + 8, a4)))
    \<and> hdr_at a' b n pf True
    \<and> hdr_at a' (b + n + 8) (s - n - 8) True True \<and> word_at a' (b + n + 8) = b
    \<and> hdr_at a' (b + s + 8) t True g \<and> word_at a' (b + s + 8) = b + n + 8
    \<and> keeps (extent b s \<union> size_bytes (b + s + 8)) a a' \<and> same_ctrl a a'"
proof -
  let ?r = "b + n + 8" and ?m = "s - n - 8" and ?x = "b + s + 8"
  obtain a1 pr where a1: "block_split a b n = Inr (?r, a1)" "hdr_at a1 b n pf True" "hdr_at a1 ?r ?m pr True"
    "hdr_at a1 ?x t True g" "word_at a1 ?x = ?r"
    "keeps (size_bytes b \<union> size_bytes ?r \<union> phys_bytes ?x \<union> size_bytes ?x) a a1" "same_ctrl a a1"
    using block_split_ok [OF h n b mp] by blast
  let ?a2 = "put_word ?r b a1"
  let ?a3 = "put_word (?r + 8) (hdr ?m True True) ?a2"
  have mr: "mapped a1 ?r" using mp [of ?r] n keeps_mapped [OF a1(6)] by simp
  have ln: "block_link_next a1 b = Inr (?r, ?a2)" using n b mr by (intro block_link_next_ok [OF a1(2)]) simp_all
  have r2: "hdr_at ?a2 ?r ?m pr True" by (rule hdr_at_put_apart [OF a1(3)]) (simp add: apart_def)
  have nz: "?r \<noteq> NULL" by simp
  have can: "usize (32 + n) \<le> s" using n b by simp
  have run: "controller_block_trim_free a b n = controller_block_insert ?a3 ?r"
    by (simp only: controller_block_trim_free_def hdr_reads(2,5) [OF h(1)] rbind_Inr simp_thms if_False can a1(1) prod.case
        nz ln hdr_writes(3) [OF r2])
  have ap: "apart (?r + 8) (b + 8)" "apart ?r (b + 8)" "apart (?r + 8) (?x + 8)" "apart ?r (?x + 8)" "apart (?r + 8) ?x"
    "apart ?r ?x" "apart (?r + 8) ?r"
    using n by (simp_all add: apart_def)
  have lead: "controller_block_trim_free_leading a b (n + 8)
      = rbind (controller_block_insert ?a3 b) (\<lambda>(r, a4). Inr (if r \<noteq> 0 then NULL else ?r, a4))"
    if "n + 40 \<le> s" "controller a \<noteq> NULL" "b \<noteq> NULL"
  proof -
    let ?a4 = "put_word (?r + 8) (hdr ?m True True) a1"
    have u: "usize_sub (n + 8) block_header_overhead = n" using n b by (simp add: usize_sub_le block_consts)
    have can2: "usize (32 + (n + 8)) \<le> s" using that(1) b by simp
    have "hdr_at ?a4 b n pf True" "mapped ?a4 ?r" using a1(2) ap(1) mr by (auto intro: hdr_at_put_apart)
    then have "block_link_next ?a4 b = Inr (?r, put_word ?r b ?a4)" using n b by (intro block_link_next_ok) simp_all
    moreover have "put_word ?r b ?a4 = ?a3" by (rule put_word_commute) (simp add: apart_def)
    ultimately have ln2: "block_link_next ?a4 b = Inr (?r, ?a3)" by simp
    show ?thesis
      by (simp only: controller_block_trim_free_leading_def that(2,3) hdr_reads(5) [OF h(1)] rbind_Inr simp_thms if_False can2 u a1(1)
          prod.case hdr_writes(3) [OF a1(3)] ln2)
  qed
  have "hdr_at ?a3 b n pf True" "hdr_at ?a3 ?x t True g"
    using a1(2,4) ap by (intro hdr_at_put_apart; simp)+
  moreover have "hdr_at ?a3 ?r ?m True True" by (rule hdr_at_change [OF r2])
  moreover have "word_at ?a3 ?r = b" "word_at ?a3 ?x = ?r" using ap a1(5) b by simp_all
  moreover have "keeps (extent b s \<union> size_bytes ?x) a ?a3"
  proof (intro keeps_put_trans)
    show "keeps (extent b s \<union> size_bytes ?x) a a1" using n by (intro keeps_mono [OF a1(6)]) (auto simp: extent_def field_bytes)
  qed (use n in \<open>auto simp: extent_def\<close>)
  moreover have "same_ctrl a ?a3" using a1(7) by simp
  ultimately show ?thesis using run lead by (intro exI [of _ ?a3] conjI impI)
qed

section \<open>The invariant of the heap\<close>

text \<open>
  The controller is at the start of the heap and the pool behind it.  \<open>D\<close> are blocks that are
  marked free but in no list, which happens inside an operation.
\<close>

definition pool_start :: "Allocator \<Rightarrow> addr" where
  "pool_start a = heap a + 6272"

definition region_ok :: "Allocator \<Rightarrow> (nat \<times> bool) list \<Rightarrow> bool" where
  "region_ok a bs \<longleftrightarrow> controller a = heap a \<and> heap a \<noteq> NULL \<and> 4 dvd heap a \<and> heap a + heap_size a + 64 < 2 ^ 64
     \<and> sized bs \<and> end_of (pool_start a) bs + 16 = heap a + heap_size a \<and> end_of (pool_start a) bs < pool_start a + 2 ^ 30"

definition listed :: "addr \<Rightarrow> (nat \<times> bool) list \<Rightarrow> addr set \<Rightarrow> (nat \<Rightarrow> addr list) \<Rightarrow> bool" where
  "listed p bs D L \<longleftrightarrow> (\<forall>c < 768. set (L c) = {x. \<exists>s. (x, s, True) \<in> set (places p bs) \<and> size_class s = c \<and> x \<notin> D})"

definition heap_st :: "Allocator \<Rightarrow> (nat \<times> bool) list \<Rightarrow> (nat \<Rightarrow> addr list) \<Rightarrow> addr set \<Rightarrow> bool" where
  "heap_st a bs L D \<longleftrightarrow> region_ok a bs \<and> seg a NULL False (pool_start a) (bs @ [(0, False)]) \<and> heads_ok a L
     \<and> (\<forall>c < 768. linked_list a (controller a) (L c) (controller a) \<and> distinct (L c)) \<and> listed (pool_start a) bs D L"

lemma heap_stD:
  assumes "heap_st a bs L D"
  shows "region_ok a bs" "seg a NULL False (pool_start a) (bs @ [(0, False)])" "heads_ok a L"
    "c < 768 \<Longrightarrow> linked_list a (controller a) (L c) (controller a)" "c < 768 \<Longrightarrow> distinct (L c)"
    "listed (pool_start a) bs D L"
  using assms by (simp_all add: heap_st_def)

lemma region_okD:
  assumes "region_ok a bs"
  shows "controller a = heap a" "heap a \<noteq> NULL" "4 dvd heap a" "heap a + heap_size a + 64 < 2 ^ 64" "sized bs"
    "end_of (pool_start a) bs + 16 \<le> heap a + heap_size a" "4 dvd pool_start a" "pool_start a = heap a + 6272"
    "heap a \<le> x \<Longrightarrow> x \<le> end_of (pool_start a) bs + 8 \<Longrightarrow> mapped a x" "end_of (pool_start a) bs < pool_start a + 2 ^ 30"
    "end_of (pool_start a) bs + 16 = heap a + heap_size a"
  using assms by (simp_all add: region_ok_def mapped_def pool_start_def)

lemma region_keeps: "keeps W a a' \<Longrightarrow> region_ok a' bs = region_ok a bs" "keeps W a a' \<Longrightarrow> pool_start a' = pool_start a"
  by (simp_all add: keeps_def region_ok_def pool_start_def)

lemma listedD:
  assumes "listed p bs D L" and "c < 768" and "x \<in> set (L c)"
  shows "\<exists>s. (x, s, True) \<in> set (places p bs) \<and> size_class s = c" "x \<notin> D"
  using assms unfolding listed_def by auto

text \<open>Facts about one block.\<close>

lemma place_facts:
  assumes r: "region_ok a bs" and x: "(x, s, f) \<in> set (places (pool_start a) bs)"
  shows "heap a + 6272 \<le> x" "x + s + 8 \<le> end_of (pool_start a) bs" "24 \<le> s" "s < 2 ^ 30" "4 dvd s" "4 dvd x"
    "x + s + 88 < 2 ^ 64" "heap a \<le> y \<Longrightarrow> y \<le> x + s + 16 \<Longrightarrow> mapped a y"
proof -
  note d = region_okD [OF r] and b = places_bounds [OF x] and z = places_sized [OF x region_okD(5) [OF r]]
  show "heap a + 6272 \<le> x" "x + s + 8 \<le> end_of (pool_start a) bs" "24 \<le> s" "s < 2 ^ 30" "4 dvd s"
    using b z d(8) by simp_all
  show "4 dvd x" by (rule places_dvd [OF x d(5,7)])
  show "x + s + 88 < 2 ^ 64" "heap a \<le> y \<Longrightarrow> y \<le> x + s + 16 \<Longrightarrow> mapped a y"
    using b d(4,6) d(9) [of y] by simp_all
qed

lemma heap_lists:
  assumes h: "heap_st a bs L D"
  shows "lists_ok (fst ` set (places (pool_start a) bs)) a L"
proof -
  let ?P = "set (places (pool_start a) bs)"
  let ?S = "fst ` ?P"
  note d = heap_stD [OF h]
  note r = region_okD [OF d(1)]
  have pos: "mapped a (heap a + k)" if "k \<le> 6272" for k
    using that r(8) end_of_le [of "pool_start a" 8 bs] by (intro r(9)) linarith+
  have S: "heap a + 6272 \<le> x \<and> x + 32 < 2 ^ 64 \<and> mapped a (x + 8) \<and> mapped a (x + 16) \<and> mapped a (x + 24)" if "x \<in> ?S" for x
  proof -
    obtain s f where x: "(x, s, f) \<in> ?P" using \<open>x \<in> ?S\<close> by auto
    note p = place_facts [OF d(1) x]
    show ?thesis using p(1,3,7) p(8) [of "x + 8"] p(8) [of "x + 16"] p(8) [of "x + 24"] by auto
  qed
  have sp: "spaced (insert (heap a) ?S)"
    unfolding spaced_def
  proof (intro ballI impI)
    fix x y assume xy: "x \<in> insert (heap a) ?S" "y \<in> insert (heap a) ?S" "x \<noteq> y"
    then consider "x = heap a" "y \<in> ?S" | "y = heap a" "x \<in> ?S" | "x \<in> ?S" "y \<in> ?S" by blast
    then show "x + 32 \<le> y \<or> y + 32 \<le> x"
    proof cases
      case 3
      then obtain s f t g where p: "(x, s, f) \<in> ?P" "(y, t, g) \<in> ?P" by auto
      show ?thesis using places_ordered [OF p xy(3)] place_facts(3) [OF d(1) p(1)] place_facts(3) [OF d(1) p(2)] by linarith
    qed (use S in force)+
  qed
  have LS: "set (L c) \<subseteq> ?S" if "c < 768" for c using listedD(1) [OF d(6) that] by force
  have disj: "set (L c) \<inter> set (L c') = {}" if "c < 768" "c' < 768" "c \<noteq> c'" for c c'
    using listedD(1) [OF d(6) that(1)] listedD(1) [OF d(6) that(2)] that(3) places_same by (metis disjoint_iff)
  show ?thesis
    unfolding lists_ok_def r(1)
  proof (intro conjI ballI allI impI)
    show "heads_ok a L" "spaced (insert (heap a) ?S)" by (rule d(3), rule sp)
    show "heap a \<notin> ?S" using S [of "heap a"] by auto
    fix x
    show "x \<noteq> NULL" "x + 32 < 2 ^ 64" "mapped a (x + 8)" if "x \<in> insert (heap a) ?S"
      using that S [of x] r(2,4) pos [of 8] by (cases "x = heap a"; simp)+
    show "mapped a (x + 16)" "mapped a (x + 24)" if "x \<in> insert (heap a) (\<Union>c < 768. set (L c))"
      using that S [of x] LS pos [of 16] pos [of 24] by auto
  qed (use d(4,5) LS disj r(1) in auto)
qed

text \<open>Replacing the blocks \<open>ks\<close> by blocks \<open>ms\<close> of the same extent.\<close>

lemma listed_replace:
  assumes l: "listed p (us @ ks @ ws) D L" and b: "b = end_of p us" "e = end_of b ks" "end_of b ms = e"
    and ks: "\<And>x s. (x, s, True) \<in> set (places b ks) \<Longrightarrow> x \<in> D"
    and ms: "\<And>x s. (x, s, True) \<in> set (places b ms) \<Longrightarrow> x \<in> D'"
    and D: "\<And>x. x < b \<or> e \<le> x \<Longrightarrow> x \<in> D' \<longleftrightarrow> x \<in> D"
  shows "listed p (us @ ms @ ws) D' L"
proof -
  have e: "end_of (end_of p us) ms = end_of (end_of p us) ks" using b by simp
  note pm = places_middle [OF e, of ws, folded b(1), folded b(2)]
  have D2: "x \<in> D' \<longleftrightarrow> x \<in> D" if "(x, s, True) \<in> set (places p us) \<union> set (places e ws)" for x s
    using outer_place [OF that, folded b(1)] by (intro D) auto
  have "(x, s, True) \<in> set (places p (us @ ks @ ws)) \<and> x \<notin> D \<longleftrightarrow> (x, s, True) \<in> set (places p us) \<union> set (places e ws) \<and> x \<notin> D" for x s
    unfolding pm(1) using ks by blast
  moreover have "(x, s, True) \<in> set (places p (us @ ms @ ws)) \<and> x \<notin> D' \<longleftrightarrow> (x, s, True) \<in> set (places p us) \<union> set (places e ws) \<and> x \<notin> D'" for x s
    unfolding pm(2) using ms by blast
  ultimately have eq: "(x, s, True) \<in> set (places p (us @ ks @ ws)) \<and> x \<notin> D \<longleftrightarrow> (x, s, True) \<in> set (places p (us @ ms @ ws)) \<and> x \<notin> D'" for x s
    using D2 by blast
  have "{x. \<exists>s. (x, s, True) \<in> set (places p (us @ ks @ ws)) \<and> size_class s = c \<and> x \<notin> D}
      = {x. \<exists>s. (x, s, True) \<in> set (places p (us @ ms @ ws)) \<and> size_class s = c \<and> x \<notin> D'}" for c
    using eq by blast
  then show ?thesis using l unfolding listed_def by simp
qed

lemma heap_split:
  assumes h: "heap_st a (us @ ks @ ws) L D" and b: "b = end_of (pool_start a) us" "e = end_of b ks"
    and n: "ws @ [(0, False)] = (t, g) # vs"
  shows "seg a NULL False (pool_start a) us" "seg a (prv_of NULL (pool_start a) us) (free_of False us) b ks"
    "hdr_at a e t (free_of (free_of False us) ks) g" "seg a e g (e + t + 8) vs" "vs \<noteq> [] \<Longrightarrow> 24 \<le> t"
    "free_of (free_of False us) ks \<Longrightarrow> word_at a e = prv_of (prv_of NULL (pool_start a) us) b ks"
    "e \<le> end_of (pool_start a) (us @ ks @ ws)"
proof -
  have "(us @ ks @ ws) @ [(0, False)] = us @ ks @ (t, g) # vs" using n by simp
  then have "seg a NULL False (pool_start a) (us @ ks @ (t, g) # vs)" using heap_stD(2) [OF h] by simp
  then show "seg a NULL False (pool_start a) us" "seg a (prv_of NULL (pool_start a) us) (free_of False us) b ks"
    "hdr_at a e t (free_of (free_of False us) ks) g" "seg a e g (e + t + 8) vs"
    "free_of (free_of False us) ks \<Longrightarrow> word_at a e = prv_of (prv_of NULL (pool_start a) us) b ks"
    unfolding seg_append b by simp_all
  show "24 \<le> t" if "vs \<noteq> []"
  proof -
    obtain ws' where "ws = (t, g) # ws'" using n \<open>vs \<noteq> []\<close> by (cases ws) auto
    then show ?thesis using region_okD(5) [OF heap_stD(1) [OF h]] by simp
  qed
  show "e \<le> end_of (pool_start a) (us @ ks @ ws)" using end_of_le [of e 8 ws] by (simp add: b)
qed

text \<open>The new chain: the parts outside are untouched.\<close>

lemma heap_replace:
  assumes h: "heap_st a (us @ ks @ ws) L D" and b: "b = end_of (pool_start a) us" "e = end_of b ks" "end_of b ms = e"
    and n: "ws @ [(0, False)] = (t, g) # vs"
    and k: "keeps W a a'" "same_ctrl a a'" "W \<subseteq> {b + 8..<e + 16}"
    and ks: "\<And>x s. (x, s, True) \<in> set (places b ks) \<Longrightarrow> x \<in> D"
    and ms: "sized ms" "seg a' (prv_of NULL (pool_start a) us) (free_of False us) b ms"
      "\<And>x s. (x, s, True) \<in> set (places b ms) \<Longrightarrow> x \<in> D'"
    and nx: "hdr_at a' e t (free_of (free_of False us) ms) g"
      "free_of (free_of False us) ms \<Longrightarrow> word_at a' e = prv_of (prv_of NULL (pool_start a) us) b ms"
    and D: "\<And>x. x < b \<or> e \<le> x \<Longrightarrow> x \<in> D' \<longleftrightarrow> x \<in> D"
  shows "heap_st a' (us @ ms @ ws) L D'"
proof -
  note d = heap_stD [OF h] and sp = heap_split [OF h b(1,2) n] and kp = region_keeps [OF k(1)]
  note r = region_okD [OF d(1)]
  have "region_ok a (us @ ms @ ws)"
    using d(1) ms(1) b by (simp add: region_ok_def)
  then have reg: "region_ok a' (us @ ms @ ws)" by (simp add: kp)
  have "meta False (pool_start a) us \<inter> W = {}" using meta_bounds [of _ False "pool_start a" us] r(5) k(3) b(1) by fastforce
  then have us: "seg a' NULL False (pool_start a) us" by (rule seg_keeps [OF sp(1) k(1)])
  have "meta g (e + t + 8) vs \<inter> W = {}"
  proof (cases "vs = []")
    case False
    then show ?thesis using meta_bounds [of _ g "e + t + 8" vs] sp(5) k(3) by fastforce
  qed simp
  then have vs: "seg a' e g (e + t + 8) vs" by (rule seg_keeps [OF sp(4) k(1)])
  have "seg a' NULL False (pool_start a) (us @ ms @ (t, g) # vs)"
    unfolding seg_append using us vs ms(2) nx b by simp
  then have chain: "seg a' NULL False (pool_start a') ((us @ ms @ ws) @ [(0, False)])" using n kp by simp
  have heads: "heads_ok a' L" using k(2) keepsD(2) [OF k(1)] by (intro heads_keeps [OF d(3)]) (simp_all add: same_ctrl_def)
  have lnk: "link_bytes x \<inter> W = {}" if x: "x \<in> set (L c)" "c < 768" for x c
  proof -
    obtain s where s: "(x, s, True) \<in> set (places (pool_start a) (us @ ks @ ws))" "x \<notin> D" using listedD [OF d(6) x(2,1)] by blast
    have "(x, s, True) \<in> set (places (pool_start a) us) \<union> set (places e ws)"
      using s ks places_middle(1) [OF refl, of 8 "pool_start a" us ks ws] unfolding b by blast
    then have "x + s + 8 \<le> b \<or> e \<le> x" using outer_place b(1) by metis
    moreover have "24 \<le> s" by (rule place_facts(3) [OF d(1) s(1)])
    ultimately show ?thesis using k(3) by (fastforce simp: link_bytes_def)
  qed
  have lists: "linked_list a' (controller a') (L c) (controller a') \<and> distinct (L c)" if c: "c < 768" for c
  proof -
    have "word_at a' (x + 16) = word_at a (x + 16) \<and> word_at a' (x + 24) = word_at a (x + 24)" if "x \<in> set (L c)" for x
      using lnk [OF that c] by (intro conjI keeps_word [OF k(1)]) (auto simp: link_bytes_def disjoint_iff)
    then have "linked_list a' (controller a) (L c) (controller a) = linked_list a (controller a) (L c) (controller a)"
      by (rule linked_list_cong)
    then show ?thesis using d(4,5) [OF c] keepsD(2) [OF k(1)] by simp
  qed
  have "listed (pool_start a') (us @ ms @ ws) D' L"
    unfolding kp(2) by (rule listed_replace [OF d(6) b(1,2,3) ks ms(3) D])
  then show ?thesis using reg chain heads lists by (simp add: heap_st_def)
qed

lemma used_outside:
  assumes "sized (us @ ws)" and "b = end_of p us" and "(\<And>x s. (x, s, False) \<notin> set (places b ks))"
  shows "{b + 8..<end_of b ks + 16} \<subseteq> - used_bytes p (us @ ks @ ws)"
proof
  fix y assume y: "y \<in> {b + 8..<end_of b ks + 16}"
  have "y \<notin> payload x s" if "(x, s, False) \<in> set (places p (us @ ks @ ws))" for x s
  proof -
    have "(x, s, False) \<in> set (places p us) \<union> set (places (end_of b ks) ws)"
      using that assms(2,3) by (auto simp: places_append)
    then have "x + s + 8 \<le> b \<or> end_of b ks \<le> x" using outer_place assms(2) by metis
    then show ?thesis using y by (auto simp: payload_def)
  qed
  then show "y \<in> - used_bytes p (us @ ks @ ws)" by (auto simp: block_bytes_def)
qed

section \<open>Free lists of the chain\<close>

definition free_starts :: "addr \<Rightarrow> (nat \<times> bool) list \<Rightarrow> addr set" where
  "free_starts p bs = {x. \<exists>s. (x, s, True) \<in> set (places p bs)}"

lemma links_outside:
  assumes r: "region_ok a bs" and x: "x \<in> insert (controller a) (free_starts (pool_start a) bs)"
  shows "meta False (pool_start a) (bs @ [(0, False)]) \<inter> link_bytes x = {}" "link_bytes x \<subseteq> - used_bytes (pool_start a) bs"
proof -
  note d = region_okD [OF r]
  let ?m = "meta False (pool_start a) (bs @ [(0, False)])"
  have "?m \<inter> link_bytes x = {} \<and> link_bytes x \<subseteq> - used_bytes (pool_start a) bs"
  proof (cases "x = controller a")
    case True
    have "pool_start a \<le> y" if "(y, s, f) \<in> set (places (pool_start a) bs)" for y s f using places_bounds [OF that] by simp
    then show ?thesis
      using meta_bounds [of _ False "pool_start a" "bs @ [(0, False)]"] True d(1,8)
      by (fastforce simp: link_bytes_def block_bytes_def payload_def)
  next
    case False
    then obtain s where s: "(x, s, True) \<in> set (places (pool_start a) bs)" using x by (auto simp: free_starts_def)
    obtain us vs where bs: "bs = us @ (s, True) # vs" "x = end_of (pool_start a) us" using places_split [OF s] by blast
    have sz: "24 \<le> s" "sized us" using d(5) by (simp_all add: bs)
    have "?m = meta False (pool_start a) us \<union> meta (free_of False us) x ((s, True) # vs @ [(0, False)])"
    proof -
      have "meta pf p (us @ ys) = meta pf p us \<union> meta (free_of pf us) (end_of p us) ys" for pf p ys
        by (induction pf p us rule: meta.induct) auto
      then show ?thesis by (simp add: bs(1) bs(2) [symmetric])
    qed
    moreover have "meta False (pool_start a) us \<inter> link_bytes x = {}"
      using meta_bounds [of _ False "pool_start a" us] sz(2) bs(2) by (fastforce simp: link_bytes_def)
    moreover have "meta (free_of False us) x ((s, True) # vs @ [(0, False)]) \<inter> link_bytes x = {}"
    proof -
      have "y < x + 16 \<or> x + s + 8 \<le> y" if "y \<in> meta (free_of False us) x ((s, True) # vs @ [(0, False)])" for y
        using that meta_bounds [of y True "x + s + 8" "vs @ [(0, False)]"] by (auto simp: field_bytes split: if_splits)
      then show ?thesis using sz(1) by (fastforce simp: link_bytes_def)
    qed
    moreover have "link_bytes x \<subseteq> {x + 8..<end_of x [(s, True)] + 16}" using sz(1) by (auto simp: link_bytes_def)
    moreover have "{x + 8..<end_of x [(s, True)] + 16} \<subseteq> - used_bytes (pool_start a) (us @ [(s, True)] @ vs)"
      using d(5) by (intro used_outside) (simp_all add: bs)
    ultimately show ?thesis by (auto simp: bs(1))
  qed
  then show "?m \<inter> link_bytes x = {}" "link_bytes x \<subseteq> - used_bytes (pool_start a) bs" by blast+
qed

lemma heap_relink:
  assumes h: "heap_st a bs L D" and k: "keeps (\<Union>x \<in> B. link_bytes x) a a'"
    and B: "B \<subseteq> insert (controller a) (free_starts (pool_start a) bs)"
    and l: "lists_ok S a' L'" "listed (pool_start a) bs D' L'"
  shows "heap_st a' bs L' D' \<and> keeps (- used_bytes (pool_start a) bs) a a'"
proof
  note d = heap_stD [OF h]
  have "meta False (pool_start a) (bs @ [(0, False)]) \<inter> (\<Union>x \<in> B. link_bytes x) = {}"
    using links_outside(1) [OF d(1)] B by blast
  then have "seg a' NULL False (pool_start a) (bs @ [(0, False)])" by (rule seg_keeps [OF d(2) k])
  then show "heap_st a' bs L' D'"
    using d(1) l(2) lists_okD(1,8,9) [OF l(1)] region_keeps [OF k] by (simp add: heap_st_def)
  have "(\<Union>x \<in> B. link_bytes x) \<subseteq> - used_bytes (pool_start a) bs" using links_outside(2) [OF d(1)] B by blast
  then show "keeps (- used_bytes (pool_start a) bs) a a'" by (rule keeps_mono [OF k])
qed

lemma listed_free: "listed p bs D L \<Longrightarrow> c < 768 \<Longrightarrow> set (L c) \<subseteq> free_starts p bs"
  by (auto simp: listed_def free_starts_def)

lemma heap_class:
  assumes "heap_st a bs L D" and "(b, s, f) \<in> set (places (pool_start a) bs)"
  shows "block_size a b = Inr s" "mapping_insert s = class_index (size_class s)" "size_class s < 768"
proof -
  have "s < 2 ^ 30" by (rule place_facts(4) [OF heap_stD(1) [OF assms(1)] assms(2)])
  then show "mapping_insert s = class_index (size_class s)" "size_class s < 768"
    using size_class_bound mapping_insert_class [of s] by simp_all
  have "(b, s, f) \<in> set (places (pool_start a) (bs @ [(0, False)]))" using assms(2) by (simp add: places_append)
  then show "block_size a b = Inr s" using seg_hdr [OF heap_stD(2) [OF assms(1)]] hdr_reads(1) by blast
qed

lemma heap_insert:
  assumes h: "heap_st a bs L D" and b: "(b, s, True) \<in> set (places (pool_start a) bs)" "b \<in> D"
  shows "\<exists>a'. controller_block_insert a b = Inr (0, a')
    \<and> heap_st a' bs (L(size_class s := b # L (size_class s))) (D - {b}) \<and> keeps (- used_bytes (pool_start a) bs) a a'"
proof -
  let ?c = "size_class s" and ?P = "set (places (pool_start a) bs)"
  note d = heap_stD [OF h] and c = heap_class [OF h b(1)]
  note pf = place_facts [OF d(1) b(1)]
  obtain fl sl where i: "class_index ?c = (fl, sl)" by fastforce
  have nl: "b \<notin> set (L c')" if "c' < 768" for c' using listedD(2) [OF d(6) that] b(2) by blast
  have "b \<in> fst ` ?P" using b(1) by force
  then have bS: "b \<in> fst ` ?P" .
  have "mapped a (b + 16)" "mapped a (b + 24)" using pf(1,3) by (intro pf(8); simp)+
  note * = controller_insert_ok [OF heap_lists [OF h] c(3) i bS nl pf(6) this]
  obtain a' where a': "controller_insert_free_block a b fl sl = Inr (0, a')"
    "lists_ok (fst ` ?P) a' (L(?c := b # L ?c))"
    "keeps (\<Union>x \<in> insert (controller a) (insert b (set (L ?c))). link_bytes x) a a'"
    using * by blast
  have bt: "(b, t, True) \<in> ?P \<longleftrightarrow> t = s" for t using b(1) places_same [OF b(1)] by blast
  have "listed (pool_start a) bs (D - {b}) (L(?c := b # L ?c))"
    unfolding listed_def
  proof (intro allI impI)
    fix c' assume c': "c' < (768 :: nat)"
    have "{x. \<exists>t. (x, t, True) \<in> ?P \<and> size_class t = c' \<and> x \<notin> D - {b}}
        = {x. \<exists>t. (x, t, True) \<in> ?P \<and> size_class t = c' \<and> x \<notin> D} \<union> (if c' = ?c then {b} else {})"
    proof (rule set_eqI)
      show "x \<in> {x. \<exists>t. (x, t, True) \<in> ?P \<and> size_class t = c' \<and> x \<notin> D - {b}}
          \<longleftrightarrow> x \<in> {x. \<exists>t. (x, t, True) \<in> ?P \<and> size_class t = c' \<and> x \<notin> D} \<union> (if c' = ?c then {b} else {})" for x
        by (cases "x = b") (use bt b(2) in auto)
    qed
    then show "set ((L(?c := b # L ?c)) c') = {x. \<exists>t. (x, t, True) \<in> ?P \<and> size_class t = c' \<and> x \<notin> D - {b}}"
      using d(6) c' unfolding listed_def by auto
  qed
  moreover have "insert (controller a) (insert b (set (L ?c))) \<subseteq> insert (controller a) (free_starts (pool_start a) bs)"
    using b(1) listed_free [OF d(6) c(3)] by (auto simp: free_starts_def)
  moreover have "controller_block_insert a b = Inr (0, a')" by (simp add: controller_block_insert_def c(1,2) i a'(1))
  ultimately show ?thesis using heap_relink [OF h a'(3) _ a'(2)] by blast
qed

lemma heap_remove:
  assumes h: "heap_st a bs L D" and b: "(b, s, True) \<in> set (places (pool_start a) bs)" "b \<notin> D" and i: "class_index (size_class s) = (fl, sl)"
  shows "\<exists>a'. controller_remove_free_block a b fl sl = Inr (0, a')
    \<and> heap_st a' bs (L(size_class s := remove1 b (L (size_class s)))) (insert b D) \<and> keeps (- used_bytes (pool_start a) bs) a a'"
proof -
  let ?c = "size_class s" and ?P = "set (places (pool_start a) bs)"
  note d = heap_stD [OF h] and c = heap_class [OF h b(1)]
  have bl: "b \<in> set (L ?c)" using d(6) b c(3) unfolding listed_def by blast
  obtain a' where a': "controller_remove_free_block a b fl sl = Inr (0, a')"
    "lists_ok (fst ` ?P) a' (L(?c := remove1 b (L ?c)))" "keeps (\<Union>x \<in> insert (controller a) (set (L ?c)). link_bytes x) a a'"
    using controller_remove_ok [OF heap_lists [OF h] c(3) i bl] by blast
  have bt: "(b, t, True) \<in> ?P \<longleftrightarrow> t = s" for t using b(1) places_same [OF b(1)] by blast
  have "listed (pool_start a) bs (insert b D) (L(?c := remove1 b (L ?c)))"
    unfolding listed_def
  proof (intro allI impI)
    fix c' assume c': "c' < (768 :: nat)"
    have "{x. \<exists>t. (x, t, True) \<in> ?P \<and> size_class t = c' \<and> x \<notin> insert b D}
        = {x. \<exists>t. (x, t, True) \<in> ?P \<and> size_class t = c' \<and> x \<notin> D} - {b}" by auto
    moreover have "b \<notin> {x. \<exists>t. (x, t, True) \<in> ?P \<and> size_class t = c' \<and> x \<notin> D}" if "c' \<noteq> ?c"
      using that bt by simp
    ultimately show "set ((L(?c := remove1 b (L ?c))) c') = {x. \<exists>t. (x, t, True) \<in> ?P \<and> size_class t = c' \<and> x \<notin> insert b D}"
      using d(6) c' set_remove1_eq [OF d(5) [OF c(3)], of b] unfolding listed_def by auto
  qed
  moreover have "insert (controller a) (set (L ?c)) \<subseteq> insert (controller a) (free_starts (pool_start a) bs)"
    using listed_free [OF d(6) c(3)] by auto
  ultimately show ?thesis using heap_relink [OF h a'(3) _ a'(2)] a'(1) by blast
qed

lemma heap_block_remove:
  assumes h: "heap_st a bs L D" and b: "(b, s, True) \<in> set (places (pool_start a) bs)" "b \<notin> D"
  shows "\<exists>a'. controller_block_remove a b = Inr (0, a')
    \<and> heap_st a' bs (L(size_class s := remove1 b (L (size_class s)))) (insert b D) \<and> keeps (- used_bytes (pool_start a) bs) a a'"
proof -
  obtain fl sl where i: "class_index (size_class s) = (fl, sl)" by fastforce
  show ?thesis
    using heap_remove [OF h b i] heap_class [OF h b(1)] i by (auto simp: controller_block_remove_def)
qed

section \<open>Operations on the chain\<close>

lemma next_block: "\<exists>t g vs. ws @ [(0, False)] = (t :: nat, g) # vs"
  by (cases ws) auto

lemma heap_place: "(end_of p us, s, f) \<in> set (places p (us @ (s, f) # ws))"
  by (simp add: places_append)

lemma keeps_phys: "keeps W a a' \<Longrightarrow> W \<subseteq> {b + 8..} \<Longrightarrow> word_at a' b = word_at a b"
  by (rule keeps_word) auto

text \<open>One block and the header behind it.\<close>

lemma heap_block:
  assumes h: "heap_st a (us @ (s, f) # ws) L D" and b: "b = end_of (pool_start a) us" and n: "ws @ [(0, False)] = (t, g) # vs"
  shows "hdr_at a b s (free_of False us) f" "hdr_at a (b + s + 8) t f g" "24 \<le> s" "s < 2 ^ 30" "4 dvd s" "4 dvd b" "b + s + 88 < 2 ^ 64"
    "heap a + 6272 \<le> b" "heap a \<le> y \<Longrightarrow> y \<le> b + s + 16 \<Longrightarrow> mapped a y" "f \<Longrightarrow> word_at a (b + s + 8) = b"
    "free_of False us \<Longrightarrow> word_at a b = prv_of NULL (pool_start a) us"
proof -
  have h': "heap_st a (us @ [(s, f)] @ ws) L D" using h by simp
  note sp = heap_split [OF h' b refl n]
  show "hdr_at a b s (free_of False us) f" "hdr_at a (b + s + 8) t f g" "f \<Longrightarrow> word_at a (b + s + 8) = b"
    "free_of False us \<Longrightarrow> word_at a b = prv_of NULL (pool_start a) us"
    using sp(2,3,6) by simp_all
  have "(b, s, f) \<in> set (places (pool_start a) (us @ (s, f) # ws))" unfolding b by (rule heap_place)
  note pf = place_facts [OF heap_stD(1) [OF h] this]
  show "24 \<le> s" "s < 2 ^ 30" "4 dvd s" "4 dvd b" "b + s + 88 < 2 ^ 64" "heap a + 6272 \<le> b"
    "heap a \<le> y \<Longrightarrow> y \<le> b + s + 16 \<Longrightarrow> mapped a y"
    by (rule pf | assumption)+
qed

lemma heap_replace1:
  assumes h: "heap_st a (us @ (s, f) # ws) L D" and b: "b = end_of (pool_start a) us" "end_of b ms = b + s + 8"
    and n: "ws @ [(0, False)] = (t, g) # vs"
    and k: "keeps W a a'" "same_ctrl a a'" "W \<subseteq> {b + 8..<b + s + 24}"
    and ks: "f \<Longrightarrow> b \<in> D"
    and ms: "sized ms" "seg a' (prv_of NULL (pool_start a) us) (free_of False us) b ms"
      "\<And>x s. (x, s, True) \<in> set (places b ms) \<Longrightarrow> x \<in> D'"
    and nx: "hdr_at a' (b + s + 8) t (free_of (free_of False us) ms) g"
      "free_of (free_of False us) ms \<Longrightarrow> word_at a' (b + s + 8) = prv_of (prv_of NULL (pool_start a) us) b ms"
    and D: "\<And>x. x < b \<or> b + s + 8 \<le> x \<Longrightarrow> x \<in> D' \<longleftrightarrow> x \<in> D"
  shows "heap_st a' (us @ ms @ ws) L D' \<and> keeps (- used_bytes (pool_start a) (us @ (s, True) # ws)) a a'"
proof
  have h': "heap_st a (us @ [(s, f)] @ ws) L D" using h by simp
  have e: "end_of b ms = end_of b [(s, f)]" "end_of b [(s, f)] = b + s + 8" "end_of b [(s, True)] = b + s + 8" using b(2) by simp_all
  show "heap_st a' (us @ ms @ ws) L D'"
  proof (rule heap_replace [OF h' b(1) refl e(1) n k(1,2)])
    show "W \<subseteq> {b + 8..<end_of b [(s, f)] + 16}" unfolding e(2) using k(3) by (simp add: add.assoc)
    show "x \<in> D" if "(x, s', True) \<in> set (places b [(s, f)])" for x s' using that ks by simp
    show "hdr_at a' (end_of b [(s, f)]) t (free_of (free_of False us) ms) g" using nx(1) by simp
    show "free_of (free_of False us) ms \<Longrightarrow>
        word_at a' (end_of b [(s, f)]) = prv_of (prv_of NULL (pool_start a) us) b ms" using nx(2) by simp
    show "x \<in> D' \<longleftrightarrow> x \<in> D" if "x < b \<or> end_of b [(s, f)] \<le> x" for x using that D [of x] by simp
  qed (use ms in auto)
  have "sized (us @ ws)" using region_okD(5) [OF heap_stD(1) [OF h]] by simp
  then have "{b + 8..<end_of b [(s, True)] + 16} \<subseteq> - used_bytes (pool_start a) (us @ [(s, True)] @ ws)"
    by (rule used_outside [OF _ b(1)]) simp
  moreover have "end_of b [(s, True)] + 16 = b + s + 24" by simp
  ultimately have "W \<subseteq> - used_bytes (pool_start a) (us @ [(s, True)] @ ws)" using k(3) by (metis subset_trans)
  then have "W \<subseteq> - used_bytes (pool_start a) (us @ (s, True) # ws)" by simp
  then show "keeps (- used_bytes (pool_start a) (us @ (s, True) # ws)) a a'" by (rule keeps_mono [OF k(1)])
qed

lemma heap_mark_used:
  assumes h: "heap_st a (us @ (s, True) # ws) L {b}" and b: "b = end_of (pool_start a) us"
  shows "\<exists>a'. block_mark_as_used a b = Inr (0, a') \<and> heap_st a' (us @ (s, False) # ws) L {}
    \<and> keeps (- used_bytes (pool_start a) (us @ (s, True) # ws)) a a'"
proof -
  obtain t g vs where n: "ws @ [(0, False)] = (t, g) # vs" using next_block by blast
  note hb = heap_block [OF h b n]
  obtain a' where a': "block_mark_as_used a b = Inr (0, a')" "hdr_at a' b s (free_of False us) False"
    "hdr_at a' (b + s + 8) t False g" "keeps (size_bytes b \<union> size_bytes (b + s + 8)) a a'" "same_ctrl a a'"
    using block_mark_as_used_ok [OF hb(1,2)] hb(3,7) by auto
  have "word_at a' b = prv_of NULL (pool_start a) us" if "free_of False us"
    unfolding hb(11) [OF that, symmetric] by (rule keeps_phys [OF a'(4)]) (auto simp: size_bytes_def)
  then have "heap_st a' (us @ [(s, False)] @ ws) L {} \<and> keeps (- used_bytes (pool_start a) (us @ (s, True) # ws)) a a'"
    using hb(3-5) a'(2,3) by (intro heap_replace1 [OF h b _ n a'(4,5)]) (auto simp: size_bytes_def)
  then show ?thesis using a'(1) by simp
qed

lemma heap_mark_free:
  assumes h: "heap_st a (us @ (s, False) # ws) L {}" and b: "b = end_of (pool_start a) us"
  shows "\<exists>a'. block_mark_as_free a b = Inr (0, a') \<and> heap_st a' (us @ (s, True) # ws) L {b}
    \<and> keeps (- used_bytes (pool_start a) (us @ (s, True) # ws)) a a'"
proof -
  obtain t g vs where n: "ws @ [(0, False)] = (t, g) # vs" using next_block by blast
  note hb = heap_block [OF h b n]
  have m: "mapped a (b + s + 8)" using hb(8) by (intro hb(9)) simp_all
  obtain a' where a': "block_mark_as_free a b = Inr (0, a')" "hdr_at a' b s (free_of False us) True"
    "hdr_at a' (b + s + 8) t True g" "word_at a' (b + s + 8) = b"
    "keeps (size_bytes b \<union> phys_bytes (b + s + 8) \<union> size_bytes (b + s + 8)) a a'" "same_ctrl a a'"
    using block_mark_as_free_ok [OF hb(1,2) _ _ m] hb(3,7) by auto
  have "word_at a' b = prv_of NULL (pool_start a) us" if "free_of False us"
    unfolding hb(11) [OF that, symmetric] by (rule keeps_phys [OF a'(5)]) (auto simp: field_bytes)
  then have "heap_st a' (us @ [(s, True)] @ ws) L {b} \<and> keeps (- used_bytes (pool_start a) (us @ (s, True) # ws)) a a'"
    using hb(3-5) a'(2-4) by (intro heap_replace1 [OF h b _ n a'(5,6)]) (auto simp: field_bytes)
  then show ?thesis using a'(1) by simp
qed

lemma heap_cut:
  assumes h: "heap_st a (us @ (s, True) # ws) L {b}" and b: "b = end_of (pool_start a) us"
    and m: "4 dvd m" "24 \<le> m" "m + 32 \<le> s"
  shows "\<exists>a'. controller_block_trim_free a b m = controller_block_insert a' (b + m + 8)
    \<and> (m + 40 \<le> s \<longrightarrow> controller_block_trim_free_leading a b (m + 8)
        = rbind (controller_block_insert a' b) (\<lambda>(r, a4). Inr (if r \<noteq> 0 then NULL else b + m + 8, a4)))
    \<and> heap_st a' (us @ [(m, True), (s - m - 8, True)] @ ws) L {b, b + m + 8}
    \<and> keeps (- used_bytes (pool_start a) (us @ (s, True) # ws)) a a'
    \<and> used_set (pool_start a) (us @ [(m, True), (s - m - 8, True)] @ ws) = used_set (pool_start a) (us @ (s, True) # ws)"
proof -
  let ?r = "b + m + 8" and ?k = "s - m - 8"
  obtain t g vs where n: "ws @ [(0, False)] = (t, g) # vs" using next_block by blast
  note hb = heap_block [OF h b n]
  have mp: "mapped a y" if "b + 8 \<le> y" "y \<le> b + s + 8" for y using hb(8) that by (intro hb(9)) simp_all
  have b2: "b + s + 32 < 2 ^ 64" using hb(7) by simp
  have nz: "controller a \<noteq> NULL" "b \<noteq> NULL" using region_okD(1,2) [OF heap_stD(1) [OF h]] hb(8) by simp_all
  obtain a1 where a1: "controller_block_trim_free a b m = controller_block_insert a1 ?r" "hdr_at a1 b m (free_of False us) True"
    "hdr_at a1 ?r ?k True True" "word_at a1 ?r = b" "hdr_at a1 (b + s + 8) t True g" "word_at a1 (b + s + 8) = ?r"
    "keeps (extent b s \<union> size_bytes (b + s + 8)) a a1" "same_ctrl a a1"
    and lead: "m + 40 \<le> s \<longrightarrow> controller_block_trim_free_leading a b (m + 8)
        = rbind (controller_block_insert a1 b) (\<lambda>(r, a4). Inr (if r \<noteq> 0 then NULL else ?r, a4))"
    using trim_free_prefix [OF hb(1,2) m hb(6) b2 mp] nz by blast
  let ?ms = "[(m, True), (?k, True)]"
  have k: "?k < 2 ^ 30" "24 \<le> ?k" "4 dvd ?k" "m < 2 ^ 30" using hb(4,5) m by (auto simp: dvd_diff_nat)
  have e: "m + (8 + (s - m - 8 + 8)) = s + 8" "?r + ?k + 8 = b + s + 8" using m(3) by linarith+
  have "word_at a1 b = prv_of NULL (pool_start a) us" if "free_of False us"
    unfolding hb(11) [OF that, symmetric] by (rule keeps_phys [OF a1(7)]) (auto simp: field_bytes extent_def)
  then have "heap_st a1 (us @ ?ms @ ws) L {b, ?r} \<and> keeps (- used_bytes (pool_start a) (us @ (s, True) # ws)) a a1"
    using m k a1(2-6) e by (intro heap_replace1 [OF h b _ n a1(7,8)]) (auto simp: field_bytes extent_def)
  moreover have "used_set (pool_start a) (us @ ?ms @ ws) = used_set (pool_start a) (us @ (s, True) # ws)"
    using e by (auto simp: b add.assoc)
  ultimately show ?thesis using a1(1) lead by blast
qed

text \<open>One of the two parts goes into a free list.\<close>

lemma heap_cut_insert:
  assumes h: "heap_st a (us @ [(m, True), (k, True)] @ ws) L {b, b + m + 8}" and b: "b = end_of (pool_start a) us"
    and x: "(x = b \<and> j = m \<and> y = b + m + 8) \<or> (x = b + m + 8 \<and> j = k \<and> y = b)"
  shows "\<exists>a'. controller_block_insert a x = Inr (0, a') \<and> heap_st a' (us @ [(m, True), (k, True)] @ ws) (L(size_class j := x # L (size_class j))) {y}
    \<and> keeps (- used_bytes (pool_start a) (us @ [(m, True), (k, True)] @ ws)) a a'"
proof -
  have "(x, j, True) \<in> set (places (pool_start a) (us @ [(m, True), (k, True)] @ ws))" using x by (auto simp: places_append b)
  moreover have "{b, b + m + 8} - {x} = {y}" "x \<in> {b, b + m + 8}" using x by auto
  ultimately show ?thesis using heap_insert [OF h] by metis
qed

lemma heap_trim:
  assumes h: "heap_st a (us @ (s, True) # ws) L {b}" and b: "b = end_of (pool_start a) us"
    and m: "4 dvd m" "24 \<le> m" "m + 32 \<le> s"
  shows "\<exists>a'. controller_block_trim_free a b m = Inr (0, a')
    \<and> heap_st a' (us @ (m, True) # (s - m - 8, True) # ws)
        (L(size_class (s - m - 8) := (b + m + 8) # L (size_class (s - m - 8)))) {b}
    \<and> keeps (- used_bytes (pool_start a) (us @ (s, True) # ws)) a a'"
proof -
  obtain a1 where a1: "controller_block_trim_free a b m = controller_block_insert a1 (b + m + 8)"
    "heap_st a1 (us @ [(m, True), (s - m - 8, True)] @ ws) L {b, b + m + 8}" "keeps (- used_bytes (pool_start a) (us @ (s, True) # ws)) a a1"
    "used_set (pool_start a) (us @ [(m, True), (s - m - 8, True)] @ ws) = used_set (pool_start a) (us @ (s, True) # ws)"
    using heap_cut [OF h b m] by blast
  have ps: "pool_start a1 = pool_start a" by (rule region_keeps(2) [OF a1(3)])
  have b1: "b = end_of (pool_start a1) us" using b ps by simp
  have ub: "used_bytes (pool_start a1) (us @ [(m, True), (s - m - 8, True)] @ ws) = used_bytes (pool_start a) (us @ (s, True) # ws)"
    unfolding used_bytes_set ps a1(4) ..
  obtain a2 where a2: "controller_block_insert a1 (b + m + 8) = Inr (0, a2)"
    "heap_st a2 (us @ [(m, True), (s - m - 8, True)] @ ws) (L(size_class (s - m - 8) := (b + m + 8) # L (size_class (s - m - 8)))) {b}"
    "keeps (- used_bytes (pool_start a) (us @ (s, True) # ws)) a1 a2"
    using heap_cut_insert [OF a1(2) b1, of "b + m + 8" "s - m - 8" b] unfolding ub by blast
  then show ?thesis using a1(1) keeps_trans [OF a1(3) a2(3) subset_refl subset_refl] by simp
qed

lemma heap_trim_leading:
  assumes h: "heap_st a (us @ (s, True) # ws) L {b}" and b: "b = end_of (pool_start a) us"
    and m: "4 dvd m" "24 \<le> m" "m + 40 \<le> s"
  shows "\<exists>a'. controller_block_trim_free_leading a b (m + 8) = Inr (b + m + 8, a')
    \<and> heap_st a' (us @ (m, True) # (s - m - 8, True) # ws) (L(size_class m := b # L (size_class m))) {b + m + 8}
    \<and> keeps (- used_bytes (pool_start a) (us @ (s, True) # ws)) a a'
    \<and> used_set (pool_start a) (us @ (m, True) # (s - m - 8, True) # ws) = used_set (pool_start a) (us @ (s, True) # ws)"
proof -
  obtain a1 where a1: "controller_block_trim_free_leading a b (m + 8)
        = rbind (controller_block_insert a1 b) (\<lambda>(r, a4). Inr (if r \<noteq> 0 then NULL else b + m + 8, a4))"
    "heap_st a1 (us @ [(m, True), (s - m - 8, True)] @ ws) L {b, b + m + 8}" "keeps (- used_bytes (pool_start a) (us @ (s, True) # ws)) a a1"
    "used_set (pool_start a) (us @ [(m, True), (s - m - 8, True)] @ ws) = used_set (pool_start a) (us @ (s, True) # ws)"
    using heap_cut [OF h b m(1,2)] m(3) by auto
  have ps: "pool_start a1 = pool_start a" by (rule region_keeps(2) [OF a1(3)])
  have b1: "b = end_of (pool_start a1) us" using b ps by simp
  have ub: "used_bytes (pool_start a1) (us @ [(m, True), (s - m - 8, True)] @ ws) = used_bytes (pool_start a) (us @ (s, True) # ws)"
    unfolding used_bytes_set ps a1(4) ..
  obtain a2 where a2: "controller_block_insert a1 b = Inr (0, a2)"
    "heap_st a2 (us @ [(m, True), (s - m - 8, True)] @ ws) (L(size_class m := b # L (size_class m))) {b + m + 8}"
    "keeps (- used_bytes (pool_start a) (us @ (s, True) # ws)) a1 a2"
    using heap_cut_insert [OF a1(2) b1, of b m "b + m + 8"] unfolding ub by blast
  then show ?thesis using a1(1,4) keeps_trans [OF a1(3) a2(3) subset_refl subset_refl] by (simp del: used_set_simps)
qed

lemma heap_absorb:
  assumes h: "heap_st a (us @ (s, True) # (t, True) # ws) L {b, b + s + 8}" and b: "b = end_of (pool_start a) us"
  shows "\<exists>a'. block_absorb a b (b + s + 8) = Inr (b, a') \<and> heap_st a' (us @ (s + t + 8, True) # ws) L {b}
    \<and> keeps (- used_bytes (pool_start a) (us @ (s, True) # (t, True) # ws)) a a'"
proof -
  let ?x = "b + s + 8" and ?ks = "[(s, True), (t, True)]"
  let ?e = "b + s + t + 16"
  obtain t' g' vs where n: "ws @ [(0, False)] = (t', g') # vs" using next_block by blast
  have h2: "heap_st a ((us @ [(s, True)]) @ (t, True) # ws) L {b, ?x}" using h by simp
  have x: "?x = end_of (pool_start a) (us @ [(s, True)])" using b by simp
  have n1: "((t, True) # ws) @ [(0, False)] = (t, True) # (t', g') # vs" using n by simp
  note hb = heap_block [OF h b n1] and hx = heap_block [OF h2 x n]
  have me: "mapped a ?e" using hx(8) hx(9) [of ?e] by simp
  obtain a' where a': "block_absorb a b ?x = Inr (b, a')" "hdr_at a' b (s + t + 8) (free_of False us) True"
    "word_at a' ?e = b" "keeps (size_bytes b \<union> phys_bytes ?e) a a'" "same_ctrl a a'"
    using block_absorb_ok [OF hb(1,2) _ _ _ me] hb(3,7) hx(3,7) by auto
  have e: "?x + t + 8 = ?e" "end_of b ?ks = ?e" by simp_all
  have "size_bytes ?e \<inter> (size_bytes b \<union> phys_bytes ?e) = {}" using hb(3) by (auto simp: field_bytes)
  then have he: "hdr_at a' ?e t' True g'" using hdr_at_keeps [OF hx(2) a'(4)] unfolding e(1) by blast
  have wb: "word_at a' b = prv_of NULL (pool_start a) us" if "free_of False us"
    unfolding hb(11) [OF that, symmetric] by (rule keeps_phys [OF a'(4)]) (auto simp: field_bytes)
  have tot: "s + t + 8 < 2 ^ 30"
  proof -
    have "?e \<le> end_of (pool_start a) (us @ (s, True) # (t, True) # ws)" 
      using end_of_le [of "?x + t + 8" 8 ws] unfolding e(1) b by (simp add: add.assoc add.commute)
    moreover have "pool_start a \<le> b" unfolding b by (rule end_of_le)
    ultimately show ?thesis using region_okD(10) [OF heap_stD(1) [OF h]] by linarith
  qed
  have h': "heap_st a (us @ ?ks @ ws) L {b, ?x}" using h by simp
  have W: "size_bytes b \<union> phys_bytes ?e \<subseteq> {b + 8..<end_of b ?ks + 16}" unfolding e(2) by (auto simp: field_bytes)
  have "heap_st a' (us @ [(s + t + 8, True)] @ ws) L {b}"
    using tot hb(3,5) hx(5) a'(2,3) wb he
    by (intro heap_replace [OF h' b refl _ n a'(4,5) W]) (auto simp: add.assoc add.commute [of t])
  moreover have "sized (us @ ws)" using region_okD(5) [OF heap_stD(1) [OF h]] by simp
  then have "{b + 8..<end_of b ?ks + 16} \<subseteq> - used_bytes (pool_start a) (us @ ?ks @ ws)"
    by (rule used_outside [OF _ b]) simp
  then have "keeps (- used_bytes (pool_start a) (us @ ?ks @ ws)) a a'" using W by (intro keeps_mono [OF a'(4)]) blast
  ultimately show ?thesis using a'(1) by simp
qed

end
