(* ===== verification/HTFH_Safety.thy ===== *)
theory HTFH_Safety
  imports HTFH_Chain
begin

text \<open>
  Correctness of the HTFH allocator: what \<open>htfh_malloc\<close> and \<open>htfh_free\<close> do to the chain of
  blocks and the free lists, that the initial heap satisfies the invariant, and what follows
  for every sequence of calls.
\<close>

section \<open>States of the allocator\<close>

definition htfh_ok :: "Allocator \<Rightarrow> (nat \<times> bool) list \<Rightarrow> (nat \<Rightarrow> addr list) \<Rightarrow> bool" where
  "htfh_ok a bs L \<longleftrightarrow> heap_st a bs L {} \<and> no_adj False bs \<and> lock_good (mutex a)"

lemma heap_st_same:
  assumes "word_at a' = word_at a" "mapped a' = mapped a" "controller a' = controller a" "heap a' = heap a"
    "heap_size a' = heap_size a" "blocks a' = blocks a" "sl_bitmap a' = sl_bitmap a" "fl_bitmap a' = fl_bitmap a"
  shows "heap_st a' bs L D = heap_st a bs L D"
proof -
  have "seg a' q pf p cs = seg a q pf p cs" for q pf p cs
    using assms(1,2) by (induction a q pf p cs rule: seg.induct) (simp_all add: hdr_at_def)
  moreover have "linked_list a' q xs n = linked_list a q xs n" for q xs n using assms(1) by (intro linked_list_cong) simp
  ultimately show ?thesis using assms by (simp add: heap_st_def region_ok_def heads_ok_def pool_start_def)
qed

lemma heap_st_upd [simp]:
  "heap_st (a\<lparr>mutex := l\<rparr>) bs L D = heap_st a bs L D" "heap_st (a\<lparr>alloc_errno := e\<rparr>) bs L D = heap_st a bs L D"
  by (rule heap_st_same; simp)+

lemma pool_start_upd [simp]:
  "pool_start (a\<lparr>mutex := l\<rparr>) = pool_start a" "pool_start (a\<lparr>alloc_errno := e\<rparr>) = pool_start a"
  by (simp_all add: pool_start_def)

lemma listed_member:
  "listed p bs D L \<Longrightarrow> (x, s, True) \<in> set (places p bs) \<Longrightarrow> x \<notin> D \<Longrightarrow> size_class s < 768 \<Longrightarrow> x \<in> set (L (size_class s))"
  unfolding listed_def by blast

section \<open>Allocation\<close>

text \<open>The request rounded up.\<close>

definition round_request :: "nat \<Rightarrow> nat" where
  "round_request n = max ((n + 3) div 4 * 4) 24"

lemma round_request_facts: "n \<le> round_request n" "4 dvd round_request n" "24 \<le> round_request n"
proof -
  have "n \<le> (n + 3) div 4 * 4" by presburger
  then show "n \<le> round_request n" "24 \<le> round_request n" by (simp_all add: round_request_def)
  show "4 dvd round_request n" by (auto simp: round_request_def max_def)
qed

lemma adjust_request_ok:
  assumes "n + 4 \<le> 2 ^ 64"
  shows "adjust_request_size a n ALIGN_SIZE =
    (if n = 0 \<or> 2 ^ 30 \<le> round_request n then 0 else round_request n, a)"
proof -
  have "align_up a n ALIGN_SIZE = ((n + 3) div 4 * 4, a)" using align_up_eq(1) [of 2 n a] assms by (simp add: ALIGN_SIZE_def)
  then show ?thesis by (auto simp: adjust_request_size_def block_consts round_request_def max_def)
qed

text \<open>Requests that fit into no list: no free block is as large as the least suitable class.\<close>

definition no_fit :: "addr \<Rightarrow> (nat \<times> bool) list \<Rightarrow> nat \<Rightarrow> bool" where
  "no_fit p bs n \<longleftrightarrow> (\<exists>c. n \<le> class_base c \<and> (\<forall>c'. n \<le> class_base c' \<longrightarrow> c \<le> c') \<and>
     (\<forall>x s. (x, s, True) \<in> set (places p bs) \<longrightarrow> s < class_base c))"

text \<open>A block of the first list that is not empty from that class on.\<close>

definition first_fit :: "(nat \<Rightarrow> addr list) \<Rightarrow> nat \<Rightarrow> nat \<Rightarrow> bool" where
  "first_fit L n s \<longleftrightarrow> (\<exists>c. n \<le> class_base c \<and> (\<forall>c'. n \<le> class_base c' \<longrightarrow> c \<le> c') \<and> c \<le> size_class s
     \<and> (\<forall>c' < size_class s. c \<le> c' \<longrightarrow> L c' = []))"

lemma heap_find:
  assumes h: "heap_st a bs L {}" and n: "4 dvd n" "24 \<le> n" "n < 2 ^ 30"
  shows "no_fit (pool_start a) bs n \<and> (\<exists>e. controller_block_find_free a n = Inr (NULL, a\<lparr>alloc_errno := e\<rparr>))
    \<or> (\<exists>us s ws a' b. bs = us @ (s, True) # ws \<and> b = end_of (pool_start a) us \<and> n \<le> s \<and> L (size_class s) \<noteq> [] \<and> b = hd (L (size_class s))
        \<and> first_fit L n s \<and> controller_block_find_free a n = Inr (b, a')
        \<and> heap_st a' bs (L(size_class s := tl (L (size_class s)))) {b} \<and> keeps (- used_bytes (pool_start a) bs) a a')"
proof -
  note d = heap_stD [OF h]
  note r = region_okD [OF d(1)]
  obtain c where c: "mapping_search n = Inr (class_index c)" "n \<le> class_base c" "\<And>c'. n \<le> class_base c' \<Longrightarrow> c \<le> c'"
    using mapping_search_class [of n] n(1,3) by auto
  obtain fl sl where i: "class_index c = (fl, sl)" by fastforce
  have start: "controller_block_find_free a n = (if 24 \<le> fl then Inr (NULL, a)
      else rbind (controller_search_suitable_block a fl sl) (\<lambda>(b, fl', sl', a1).
          if b = NULL then Inr (NULL, a1)
          else rbind (block_size a1 b) (\<lambda>bs. if bs < n then Inr (NULL, set_alloc_errno BLOCK_SIZE_MISMATCH a1)
              else rbind (controller_remove_free_block a1 b fl' sl') (\<lambda>(r, a2). Inr (if r = 0 then b else NULL, a2)))))"
    using n(2) r(1,2) c(1) i by (simp add: controller_block_find_free_def htfh_consts)
  have nofit: "no_fit (pool_start a) bs n" if e: "\<And>c'. c' < 768 \<Longrightarrow> c \<le> c' \<Longrightarrow> L c' = []"
  proof -
    have "s < class_base c" if x: "(x, s, True) \<in> set (places (pool_start a) bs)" for x s
    proof (rule ccontr)
      assume "\<not> s < class_base c"
      then have "c \<le> size_class s" by (simp add: class_base_iff)
      then have "L (size_class s) = []" using e heap_class(3) [OF h x] by blast
      then show False using listed_member [OF d(6) x] heap_class(3) [OF h x] by simp
    qed
    then show ?thesis using c(2,3) unfolding no_fit_def by blast
  qed
  show ?thesis
  proof (cases "c < 768")
    case False
    then have "24 \<le> fl" using i by (auto simp: class_index_def less_eq_div_iff_mult_less_eq)
    then have "controller_block_find_free a n = Inr (NULL, a\<lparr>alloc_errno := alloc_errno a\<rparr>)" using start by simp
    moreover have "no_fit (pool_start a) bs n" using False by (intro nofit) simp
    ultimately show ?thesis by blast
  next
    case True
    have fl: "\<not> 24 \<le> fl" using class_bounds [OF True] i by (auto simp: class_index_def)
    from controller_search_ok [OF d(3) True i] show ?thesis
    proof (elim disjE exE conjE)
      assume e: "\<forall>c' < 768. c \<le> c' \<longrightarrow> L c' = []"
        "controller_search_suitable_block a fl sl = Inr (NULL, fl, sl, set_alloc_errno HEAP_FULL a)"
      then have "controller_block_find_free a n = Inr (NULL, a\<lparr>alloc_errno := HEAP_FULL\<rparr>)"
        using start fl by (simp add: set_alloc_errno_def)
      moreover have "no_fit (pool_start a) bs n" using e(1) by (intro nofit) blast
      ultimately show ?thesis by blast
    next
      fix c' fl' sl'
      assume c': "c' < 768" "c \<le> c'" "L c' \<noteq> []" "class_index c' = (fl', sl')"
        "controller_search_suitable_block a fl sl = Inr (hd (L c'), fl', sl', a)" "\<forall>c'' < c'. c \<le> c'' \<longrightarrow> L c'' = []"
      let ?b = "hd (L c')"
      have bl: "?b \<in> set (L c')" using c'(3) by simp
      obtain s where s: "(?b, s, True) \<in> set (places (pool_start a) bs)" "size_class s = c'"
        using listedD(1) [OF d(6) c'(1) bl] by blast
      obtain us ws where bs: "bs = us @ (s, True) # ws" "?b = end_of (pool_start a) us" using places_split [OF s(1)] by blast
      have nz: "?b \<noteq> NULL" using place_facts(1) [OF d(1) s(1)] by simp
      have "class_base c \<le> s" using c'(2) s(2) class_base_iff [of c s] by simp
      then have ns: "n \<le> s" using c(2) by (rule le_trans [rotated])
      have i': "class_index (size_class s) = (fl', sl')" using c'(4) s(2) by simp
      have rm: "remove1 ?b (L (size_class s)) = tl (L (size_class s))" using c'(3) s(2) by (cases "L c'") simp_all
      obtain a' where a': "controller_remove_free_block a ?b fl' sl' = Inr (0, a')"
        "heap_st a' bs (L(size_class s := tl (L (size_class s)))) {?b}" "keeps (- used_bytes (pool_start a) bs) a a'"
        using heap_remove [OF h s(1) _ i'] unfolding rm by blast
      have "controller_block_find_free a n = Inr (?b, a')"
        using start fl c'(5) nz heap_class(1) [OF h s(1)] ns a'(1) by simp
      moreover have "first_fit L n s" using c(2,3) c'(2,6) unfolding first_fit_def s(2) by blast
      ultimately show ?thesis using bs ns a' s(2) c'(3) by blast
    qed
  qed
qed

text \<open>A block of size \<open>s\<close> of which \<open>n\<close> bytes are taken, and the lists with what remains.\<close>

definition carve :: "nat \<Rightarrow> nat \<Rightarrow> (nat \<times> bool) list" where
  "carve n s = (if n + 32 \<le> s then [(n, False), (s - n - 8, True)] else [(s, False)])"

definition keep_rest :: "(nat \<Rightarrow> addr list) \<Rightarrow> addr \<Rightarrow> nat \<Rightarrow> nat \<Rightarrow> nat \<Rightarrow> addr list" where
  "keep_rest L b n s =
     (if n + 32 \<le> s then L(size_class (s - n - 8) := (b + n + 8) # L (size_class (s - n - 8))) else L)"

lemma heap_take:
  assumes h: "heap_st a (us @ (s, True) # ws) L {b}" and b: "b = end_of (pool_start a) us" and n: "4 dvd n" "24 \<le> n" "n \<le> s"
  shows "\<exists>a'. controller_block_mark_used a b n = Inr (b + 16, a') \<and> heap_st a' (us @ carve n s @ ws) (keep_rest L b n s) {}
    \<and> keeps (- used_bytes (pool_start a) (us @ (s, True) # ws)) a a'"
proof -
  obtain t g vs where nx: "ws @ [(0, False)] = (t, g) # vs" using next_block by blast
  note hb = heap_block [OF h b nx]
  have nz: "controller a \<noteq> NULL" "b \<noteq> NULL" "n \<noteq> 0"
    using region_okD(1,2) [OF heap_stD(1) [OF h]] hb(8) n(2) by auto
  have ptr: "block_to_ptr b = b + 16" using hb(7) by (simp add: block_to_ptr_def block_consts)
  let ?m = "fst (hd (carve n s))" and ?ws = "map (\<lambda>(t, f). (t, True)) (tl (carve n s)) @ ws"
  have tr: "\<exists>a1. controller_block_trim_free a b n = Inr (0, a1) \<and> heap_st a1 (us @ (?m, True) # ?ws) (keep_rest L b n s) {b}
    \<and> keeps (- used_bytes (pool_start a) (us @ (s, True) # ws)) a a1"
  proof (cases "n + 32 \<le> s")
    case True
    then show ?thesis using heap_trim [OF h b n(1,2) True] by (simp add: carve_def keep_rest_def)
  next
    case False
    have "\<not> usize (32 + n) \<le> s" using False n(3) hb(4) by simp
    then have "controller_block_trim_free a b n = Inr (0, a)"
      by (simp add: controller_block_trim_free_def hdr_reads [OF hb(1)])
    then show ?thesis using False h by (simp add: carve_def keep_rest_def)
  qed
  then obtain a1 where a1: "controller_block_trim_free a b n = Inr (0, a1)"
    "heap_st a1 (us @ (?m, True) # ?ws) (keep_rest L b n s) {b}" "keeps (- used_bytes (pool_start a) (us @ (s, True) # ws)) a a1"
    by blast
  have ps: "pool_start a1 = pool_start a" by (rule region_keeps(2) [OF a1(3)])
  then obtain a2 where a2: "block_mark_as_used a1 b = Inr (0, a2)" "heap_st a2 (us @ (?m, False) # ?ws) (keep_rest L b n s) {}"
    "keeps (- used_bytes (pool_start a) (us @ (?m, True) # ?ws)) a1 a2"
    using heap_mark_used [OF a1(2)] b by auto
  have "used_set (pool_start a) (us @ (?m, True) # ?ws) = used_set (pool_start a) (us @ (s, True) # ws)"
    using n(3) by (auto simp: carve_def add.assoc)
  then have k: "keeps (- used_bytes (pool_start a) (us @ (s, True) # ws)) a a2"
    using keeps_trans [OF a1(3) _ subset_refl subset_refl] a2(3) by (simp add: used_bytes_set)
  have eq: "us @ (?m, False) # ?ws = us @ carve n s @ ws" by (simp add: carve_def)
  have "controller_block_mark_used a b n = Inr (b + 16, a2)"
    using nz a1(1) a2(1) ptr by (simp add: controller_block_mark_used_def)
  then show ?thesis using a2(2) k unfolding eq by blast
qed

lemma held_simps [simp]:
  "heap_st (held a) bs L D = heap_st a bs L D" "pool_start (held a) = pool_start a" "controller (held a) = controller a"
  by (simp_all add: held_def)

lemma no_adj_weaken: "no_adj pf bs \<Longrightarrow> no_adj False bs"
  by (cases bs) auto

lemma htfh_malloc_ok:
  assumes ok: "htfh_ok a bs L" and n: "n + 4 \<le> 2 ^ 64" and m: "m = round_request n"
  shows "(\<exists>e. htfh_malloc a n = Inr (NULL, a\<lparr>alloc_errno := e, mutex := cycled (mutex a)\<rparr>)
      \<and> (n = 0 \<or> 2 ^ 30 \<le> m \<or> no_fit (pool_start a) bs m))
    \<or> (\<exists>us s ws a' b. bs = us @ (s, True) # ws \<and> b = end_of (pool_start a) us \<and> n \<noteq> 0 \<and> m \<le> s
        \<and> L (size_class s) \<noteq> [] \<and> b = hd (L (size_class s)) \<and> first_fit L m s \<and> htfh_malloc a n = Inr (b + 16, a')
        \<and> htfh_ok a' (us @ carve m s @ ws) (keep_rest (L(size_class s := tl (L (size_class s)))) b m s)
        \<and> mutex a' = cycled (mutex a) \<and> heap a' = heap a \<and> heap_size a' = heap_size a
        \<and> (\<forall>y \<in> used_bytes (pool_start a) bs. bytes_at a' y = bytes_at a y))"
proof -
  have h: "heap_st (held a) bs L {}" and g: "lock_good (mutex a)" and na: "no_adj False bs" using ok by (simp_all add: htfh_ok_def)
  note u = unlock_held [OF g]
  have nz: "controller a \<noteq> NULL" using region_okD(1,2) [OF heap_stD(1) [OF h]] by simp
  have start: "htfh_malloc a n = rbind (controller_block_find_free (held a) (if n = 0 \<or> 2 ^ 30 \<le> m then 0 else m)) (\<lambda>(b, a2).
      if b = NULL then unlock_return a2 NULL NULL
      else rbind (controller_block_mark_used a2 b (if n = 0 \<or> 2 ^ 30 \<le> m then 0 else m)) (\<lambda>(ptr, a3). unlock_return a3 ptr NULL))"
    using nz lock_held [OF g] adjust_request_ok [OF n, folded m] by (simp add: htfh_malloc_def)
  show ?thesis
  proof (cases "n = 0 \<or> 2 ^ 30 \<le> m")
    case True
    have "controller_block_find_free (held a) 0 = Inr (NULL, held a)" using nz by (simp add: controller_block_find_free_def)
    then have "htfh_malloc a n = Inr (NULL, a\<lparr>alloc_errno := alloc_errno a, mutex := cycled (mutex a)\<rparr>)"
      using start True u(2) [of "held a"] by (simp add: held_def)
    then show ?thesis using True by blast
  next
    case False
    have f: "4 dvd m" "24 \<le> m" "m < 2 ^ 30" using round_request_facts [of n] False by (simp_all add: m)
    from heap_find [OF h f] show ?thesis
    proof (elim disjE exE conjE)
      fix e assume e: "no_fit (pool_start (held a)) bs m" "controller_block_find_free (held a) m = Inr (NULL, held a\<lparr>alloc_errno := e\<rparr>)"
      have "htfh_malloc a n = Inr (NULL, held a\<lparr>alloc_errno := e, mutex := cycled (mutex a)\<rparr>)"
        using start False e(2) u(2) [of "held a\<lparr>alloc_errno := e\<rparr>"] by simp
      also have "held a\<lparr>alloc_errno := e, mutex := cycled (mutex a)\<rparr> = a\<lparr>alloc_errno := e, mutex := cycled (mutex a)\<rparr>"
        by (simp add: held_def)
      finally show ?thesis using e(1) by auto
    next
      fix us s ws a1 b
      assume b: "bs = us @ (s, True) # ws" "b = end_of (pool_start (held a)) us" "m \<le> s" "L (size_class s) \<noteq> []" "b = hd (L (size_class s))"
        "controller_block_find_free (held a) m = Inr (b, a1)"
        "heap_st a1 bs (L(size_class s := tl (L (size_class s)))) {b}" "keeps (- used_bytes (pool_start (held a)) bs) (held a) a1"
        "first_fit L m s"
      have ps: "pool_start a1 = pool_start a" using region_keeps(2) [OF b(8)] by simp
      have b1: "b = end_of (pool_start a1) us" using b(2) ps by simp
      let ?L = "keep_rest (L(size_class s := tl (L (size_class s)))) b m s"
      obtain a2 where a2: "controller_block_mark_used a1 b m = Inr (b + 16, a2)" "heap_st a2 (us @ carve m s @ ws) ?L {}"
        "keeps (- used_bytes (pool_start a1) bs) a1 a2"
        using heap_take [OF b(7) [unfolded b(1)] b1 f(1,2) b(3)] unfolding b(1) by blast
      have k: "keeps (- used_bytes (pool_start a) bs) (held a) a2"
        using keeps_trans [OF b(8) a2(3)] ps by simp
      let ?a' = "a2\<lparr>mutex := cycled (mutex a)\<rparr>"
      have "b \<noteq> NULL" using place_facts(1) [OF heap_stD(1) [OF h]] heap_place b(1,2) by fastforce
      then have run: "htfh_malloc a n = Inr (b + 16, ?a')"
        using start False b(6) a2(1) u(2) [OF keepsD(1) [OF k]] by simp
      have "no_adj False (us @ carve m s @ ws)" using na no_adj_weaken [of True ws] by (auto simp: b(1) no_adj_append carve_def)
      then have "htfh_ok ?a' (us @ carve m s @ ws) ?L" using a2(2) u(3) [OF keepsD(1) [OF k]] by (simp add: htfh_ok_def)
      moreover have "\<forall>y \<in> used_bytes (pool_start a) bs. bytes_at ?a' y = bytes_at a y" using keepsD(5) [OF k] by simp
      moreover have "heap ?a' = heap a" "heap_size ?a' = heap_size a" using keepsD(3,4) [OF k] by (simp_all add: held_def)
      ultimately show ?thesis
        using run b(1-5,9) False
        by (intro disjI2 exI [of _ us] exI [of _ s] exI [of _ ws] exI [of _ ?a'] exI [of _ b]) simp
    qed
  qed
qed

section \<open>Release\<close>

lemma free_of_last: "free_of False us \<Longrightarrow> \<exists>us' t. us = us' @ [(t, True)]"
  by (cases us rule: rev_cases) auto

lemma heap_merge_prev:
  assumes h: "heap_st a (us @ (s, True) # ws) L {b}" and b: "b = end_of (pool_start a) us"
  shows "\<exists>a' us' s' L' b'. controller_block_merge_prev a b = Inr (b', a') \<and> b' = end_of (pool_start a) us'
    \<and> heap_st a' (us' @ (s', True) # ws) L' {b'} \<and> keeps (- used_bytes (pool_start a) (us @ (s, True) # ws)) a a'
    \<and> (us' = us \<and> s' = s \<and> L' = L \<and> \<not> free_of False us
      \<or> (\<exists>t. us = us' @ [(t, True)] \<and> s' = t + s + 8 \<and> L' = L(size_class t := remove1 b' (L (size_class t)))))"
proof -
  obtain t g vs where n: "ws @ [(0, False)] = (t, g) # vs" using next_block by blast
  note hb = heap_block [OF h b n]
  show ?thesis
  proof (cases "free_of False us")
    case False
    then have "controller_block_merge_prev a b = Inr (b, a)" by (simp add: controller_block_merge_prev_def hdr_reads [OF hb(1)])
    then show ?thesis using False h b
      by (intro exI [of _ a] exI [of _ us] exI [of _ s] exI [of _ L] exI [of _ b]) simp
  next
    case True
    then obtain us' t' where us: "us = us' @ [(t', True)]" using free_of_last by blast
    let ?x = "end_of (pool_start a) us'"
    have bx: "b = ?x + t' + 8" by (simp add: b us)
    have h': "heap_st a (us' @ (t', True) # (s, True) # ws) L {b}" using h by (simp add: us)
    have n': "((s, True) # ws) @ [(0, False)] = (s, True) # ws @ [(0, False)]" by simp
    note hx = heap_block [OF h' refl n']
    have w: "word_at a b = ?x" using hb(11) [OF True] by (simp add: us)
    have mb: "mapped a b" using hb(8) by (intro hb(9)) simp_all
    have nz: "?x \<noteq> NULL" using hx(8) by simp
    have prev: "block_prev a b = Inr (?x, a)"
      using True mb w by (simp add: block_prev_def hdr_reads [OF hb(1)] prev_phys_block_def)
    have pl: "(?x, t', True) \<in> set (places (pool_start a) (us' @ (t', True) # (s, True) # ws))" by (rule heap_place)
    have xb: "?x \<notin> {b}" using bx by simp
    let ?L = "L(size_class t' := remove1 ?x (L (size_class t')))"
    obtain a1 where a1: "controller_block_remove a ?x = Inr (0, a1)"
      "heap_st a1 (us' @ (t', True) # (s, True) # ws) ?L (insert ?x {b})"
      "keeps (- used_bytes (pool_start a) (us @ (s, True) # ws)) a a1"
      using heap_block_remove [OF h' pl xb] by (auto simp: us)
    have ps: "pool_start a1 = pool_start a" by (rule region_keeps(2) [OF a1(3)])
    have h1: "heap_st a1 (us' @ (t', True) # (s, True) # ws) ?L {?x, ?x + t' + 8}" using a1(2) bx by simp
    obtain a2 where a2: "block_absorb a1 ?x b = Inr (?x, a2)" "heap_st a2 (us' @ (t' + s + 8, True) # ws) ?L {?x}"
      "keeps (- used_bytes (pool_start a) (us @ (s, True) # ws)) a1 a2"
      using heap_absorb [OF h1] ps bx by (auto simp: us)
    have "controller_block_merge_prev a b = Inr (?x, a2)"
      using True nz prev a1(1) a2(1)
      by (simp add: controller_block_merge_prev_def hdr_reads [OF hb(1)] hdr_reads [OF hx(1)])
    then show ?thesis
      using a2(2) keeps_trans [OF a1(3) a2(3) subset_refl subset_refl] us
      by (intro exI [of _ a2] exI [of _ us'] exI [of _ "t' + s + 8"] exI [of _ ?L] exI [of _ ?x]) simp
  qed
qed

lemma heap_merge_next:
  assumes h: "heap_st a (us @ (s, True) # ws) L {b}" and b: "b = end_of (pool_start a) us"
  shows "\<exists>a' s' ws' L'. controller_block_merge_next a b = Inr (b, a')
    \<and> heap_st a' (us @ (s', True) # ws') L' {b} \<and> keeps (- used_bytes (pool_start a) (us @ (s, True) # ws)) a a'
    \<and> (ws' = ws \<and> s' = s \<and> L' = L \<and> (\<nexists>t ws''. ws = (t, True) # ws'')
      \<or> (\<exists>t. ws = (t, True) # ws' \<and> s' = s + t + 8 \<and> L' = L(size_class t := remove1 (b + s + 8) (L (size_class t)))))"
proof -
  obtain t g vs where n: "ws @ [(0, False)] = (t, g) # vs" using next_block by blast
  note hb = heap_block [OF h b n]
  let ?x = "b + s + 8"
  have nx: "block_next a b = Inr (?x, a)" using hb(3,7) by (intro block_next_ok [OF hb(1)]) simp_all
  show ?thesis
  proof (cases g)
    case False
    then have "controller_block_merge_next a b = Inr (b, a)"
      by (simp add: controller_block_merge_next_def nx hdr_reads [OF hb(2)])
    moreover have "\<nexists>t ws''. ws = (t, True) # ws''" using n False by auto
    ultimately show ?thesis using h
      by (intro exI [of _ a] exI [of _ s] exI [of _ ws] exI [of _ L]) simp
  next
    case True
    then obtain ws' where ws: "ws = (t, True) # ws'" using n by (cases ws) auto
    have h': "heap_st a (us @ (s, True) # (t, True) # ws') L {b}" using h by (simp add: ws)
    have "(end_of (pool_start a) (us @ [(s, True)]), t, True) \<in> set (places (pool_start a) ((us @ [(s, True)]) @ (t, True) # ws'))"
      by (rule heap_place)
    then have pl: "(?x, t, True) \<in> set (places (pool_start a) (us @ (s, True) # (t, True) # ws'))" by (simp add: b)
    let ?L = "L(size_class t := remove1 ?x (L (size_class t)))"
    obtain a1 where a1: "controller_block_remove a ?x = Inr (0, a1)"
      "heap_st a1 (us @ (s, True) # (t, True) # ws') ?L (insert ?x {b})"
      "keeps (- used_bytes (pool_start a) (us @ (s, True) # ws)) a a1"
      using heap_block_remove [OF h' pl] by (auto simp: ws)
    have ps: "pool_start a1 = pool_start a" by (rule region_keeps(2) [OF a1(3)])
    have h1: "heap_st a1 (us @ (s, True) # (t, True) # ws') ?L {b, ?x}" using a1(2) by (simp add: insert_commute)
    obtain a2 where a2: "block_absorb a1 b ?x = Inr (b, a2)" "heap_st a2 (us @ (s + t + 8, True) # ws') ?L {b}"
      "keeps (- used_bytes (pool_start a) (us @ (s, True) # ws)) a1 a2"
      using heap_absorb [OF h1] ps b by (auto simp: ws)
    have "controller_block_merge_next a b = Inr (b, a2)"
      using True a1(1) a2(1) hb(3) by (simp add: controller_block_merge_next_def nx hdr_reads [OF hb(1)] hdr_reads [OF hb(2)])
    then show ?thesis
      using a2(2) keeps_trans [OF a1(3) a2(3) subset_refl subset_refl] ws
      by (intro exI [of _ a2] exI [of _ "s + t + 8"] exI [of _ ws'] exI [of _ ?L]) simp
  qed
qed

lemma used_set_merge:
  assumes "us' = us \<and> s1 = s \<or> (\<exists>t. us = us' @ [(t, True)] \<and> s1 = t + s + 8)"
    and "ws' = ws \<and> s2 = s1 \<or> (\<exists>t. ws = (t, True) # ws' \<and> s2 = s1 + t + 8)"
  shows "used_set p (us' @ (s2, True) # ws') = used_set p (us @ (s, True) # ws)"
proof -
  have "used_set p (us' @ (s1, True) # ws) = used_set p (us @ (s, True) # ws)" using assms(1) by (auto simp: ac_simps)
  moreover have "used_set p (us' @ (s2, True) # ws') = used_set p (us' @ (s1, True) # ws)" using assms(2) by (auto simp: ac_simps)
  ultimately show ?thesis by simp
qed

lemma htfh_free_ok:
  assumes ok: "htfh_ok a (us @ (s, False) # ws) L" and b: "b = end_of (pool_start a) us"
  shows "\<exists>a' us' s1 s2 ws' L1 L2 b'. htfh_free a (b + 16) = Inr (0, a')
    \<and> htfh_ok a' (us' @ (s2, True) # ws') (L2(size_class s2 := b' # L2 (size_class s2))) \<and> b' = end_of (pool_start a) us'
    \<and> (us' = us \<and> s1 = s \<and> L1 = L \<and> \<not> free_of False us
      \<or> (\<exists>t. us = us' @ [(t, True)] \<and> s1 = t + s + 8 \<and> L1 = L(size_class t := remove1 b' (L (size_class t)))))
    \<and> (ws' = ws \<and> s2 = s1 \<and> L2 = L1 \<and> (\<nexists>t ws''. ws = (t, True) # ws'')
      \<or> (\<exists>t. ws = (t, True) # ws' \<and> s2 = s1 + t + 8 \<and> L2 = L1(size_class t := remove1 (b' + s1 + 8) (L1 (size_class t)))))
    \<and> mutex a' = cycled (mutex a) \<and> heap a' = heap a \<and> heap_size a' = heap_size a
    \<and> (\<forall>y \<in> used_bytes (pool_start a) (us @ (s, True) # ws). bytes_at a' y = bytes_at a y)"
proof -
  have h: "heap_st (held a) (us @ (s, False) # ws) L {}" and g: "lock_good (mutex a)" and na: "no_adj False (us @ (s, False) # ws)"
    using ok by (simp_all add: htfh_ok_def)
  note u = unlock_held [OF g]
  let ?p = "pool_start a" and ?bs = "us @ (s, True) # ws"
  obtain t g' vs where n: "ws @ [(0, False)] = (t, g') # vs" using next_block by blast
  have b0: "b = end_of (pool_start (held a)) us" using b by simp
  note hb = heap_block [OF h b0 n]
  have nz: "controller a \<noteq> NULL" "b \<noteq> NULL" using region_okD(1,2) [OF heap_stD(1) [OF h]] hb(8) by simp_all
  have fptr: "block_from_ptr (b + 16) = b" using hb(7) by (simp add: block_from_ptr_def block_consts usize_sub_le)
  obtain a1 where a1: "block_mark_as_free (held a) b = Inr (0, a1)" "heap_st a1 ?bs L {b}" "keeps (- used_bytes ?p ?bs) (held a) a1"
    using heap_mark_free [OF h b0] by auto
  have p1: "pool_start a1 = ?p" using region_keeps(2) [OF a1(3)] by simp
  have b1: "b = end_of (pool_start a1) us" using b p1 by simp
  obtain a2 us' s1 L1 b' where a2: "controller_block_merge_prev a1 b = Inr (b', a2)" "b' = end_of ?p us'"
    "heap_st a2 (us' @ (s1, True) # ws) L1 {b'}" "keeps (- used_bytes ?p ?bs) a1 a2"
    and m1: "us' = us \<and> s1 = s \<and> L1 = L \<and> \<not> free_of False us
      \<or> (\<exists>t. us = us' @ [(t, True)] \<and> s1 = t + s + 8 \<and> L1 = L(size_class t := remove1 b' (L (size_class t))))"
    using heap_merge_prev [OF a1(2) b1] unfolding p1 by blast
  have p2: "pool_start a2 = ?p" using region_keeps(2) [OF a2(4)] p1 by simp
  have b2: "b' = end_of (pool_start a2) us'" using a2(2) p2 by simp
  have us1: "used_set ?p (us' @ (s1, True) # ws) = used_set ?p ?bs" using m1 by (intro used_set_merge [where ?s1.0 = s1]) blast+
  obtain a3 s2 ws' L2 where a3: "controller_block_merge_next a2 b' = Inr (b', a3)"
    "heap_st a3 (us' @ (s2, True) # ws') L2 {b'}" "keeps (- used_bytes ?p (us' @ (s1, True) # ws)) a2 a3"
    and m2: "ws' = ws \<and> s2 = s1 \<and> L2 = L1 \<and> (\<nexists>t ws''. ws = (t, True) # ws'')
      \<or> (\<exists>t. ws = (t, True) # ws' \<and> s2 = s1 + t + 8 \<and> L2 = L1(size_class t := remove1 (b' + s1 + 8) (L1 (size_class t))))"
    using heap_merge_next [OF a2(3) b2] unfolding p2 by blast
  have p3: "pool_start a3 = ?p" using region_keeps(2) [OF a3(3)] p2 by simp
  have us2: "used_set ?p (us' @ (s2, True) # ws') = used_set ?p ?bs" using m1 m2 by (intro used_set_merge [where ?s1.0 = s1]) blast+
  have pl: "(b', s2, True) \<in> set (places (pool_start a3) (us' @ (s2, True) # ws'))" unfolding b2 p2 p3 by (rule heap_place)
  let ?L = "L2(size_class s2 := b' # L2 (size_class s2))"
  obtain a4 where a4: "controller_block_insert a3 b' = Inr (0, a4)" "heap_st a4 (us' @ (s2, True) # ws') ?L ({b'} - {b'})"
    "keeps (- used_bytes ?p (us' @ (s2, True) # ws')) a3 a4" using heap_insert [OF a3(2) pl] p3 by auto
  have k: "keeps (- used_bytes ?p ?bs) (held a) a4"
  proof -
    have "keeps (- used_bytes ?p ?bs) (held a) a2" by (rule keeps_trans [OF a1(3) a2(4) subset_refl subset_refl])
    moreover have "keeps (- used_bytes ?p ?bs) a2 a3" "keeps (- used_bytes ?p ?bs) a3 a4"
      using a3(3) a4(3) unfolding used_bytes_set us1 us2 by simp_all
    ultimately show ?thesis using keeps_trans [OF _ _ subset_refl subset_refl] by blast
  qed
  have nb: "b' \<noteq> NULL" using place_facts(1) [OF heap_stD(1) [OF a3(2)] pl] by simp
  let ?a' = "a4\<lparr>mutex := cycled (mutex a)\<rparr>"
  have run: "htfh_free a (b + 16) = Inr (0, ?a')"
    using nz lock_held [OF g] fptr hdr_reads(2) [OF hb(1)] a1(1) a2(1) a3(1) a4(1) nb u(1) [OF keepsD(1) [OF k]]
    by (simp add: htfh_free_def)
  have "no_adj False (us' @ (s2, True) # ws')"
  proof -
    have us: "no_adj False us' \<and> \<not> free_of False us'" using m1 na by (auto simp: no_adj_append)
    have "no_adj True ws'" using m2 na by (cases ws) (auto simp: no_adj_append)
    then show ?thesis using us by (auto simp: no_adj_append)
  qed
  then have "htfh_ok ?a' (us' @ (s2, True) # ws') ?L" using a4(2) u(3) [OF keepsD(1) [OF k]] by (simp add: htfh_ok_def)
  moreover have "\<forall>y \<in> used_bytes ?p ?bs. bytes_at ?a' y = bytes_at a y" using keepsD(5) [OF k] by simp
  moreover have "heap ?a' = heap a" "heap_size ?a' = heap_size a" using keepsD(3,4) [OF k] by (simp_all add: held_def)
  moreover have "mutex ?a' = cycled (mutex a)" by simp
  ultimately show ?thesis using run a2(2) m1 m2 by blast
qed

section \<open>Creation\<close>

text \<open>The region \<open>mmap\<close> returns, and a size that leaves a pool of less than \<open>2 ^ 30\<close> bytes.\<close>

definition good_region :: "addr \<Rightarrow> nat \<Rightarrow> bool" where
  "good_region r n \<longleftrightarrow> r \<noteq> NULL \<and> 4 dvd r \<and> r + n + 64 < 2 ^ 64 \<and> 4 dvd n \<and> 6320 \<le> n \<and> n < 2 ^ 30"

definition first_lists :: "addr \<Rightarrow> nat \<Rightarrow> nat \<Rightarrow> addr list" where
  "first_lists b k = (\<lambda>_. [])(size_class k := [b])"

lemma read_bytes_zero: "read_bytes (\<lambda>_. 0) p n = 0"
  by (induction n arbitrary: p) simp_all

lemma controller_new_ok:
  assumes r: "good_region r n" and a: "controller a = r" "heap a = r" "heap_size a = n" "bytes_at a = (\<lambda>_. 0)"
  shows "\<exists>a'. controller_new a = Inr (0, a') \<and> heads_ok a' (\<lambda>_. []) \<and> keeps (link_bytes r) a a'"
proof -
  have m: "mapped a (r + 16)" "mapped a (r + 24)" using r a by (simp_all add: mapped_def good_region_def)
  have f: "next_free r = r + 16" "prev_free r = r + 24" using r by (simp_all add: next_free_def prev_free_def good_region_def)
  let ?a = "(put_word (r + 24) r (put_word (r + 16) r a))\<lparr>fl_bitmap := 0, sl_bitmap := replicate 24 0,
    blocks := replicate 24 (replicate 32 r)\<rparr>"
  have "controller_new a = Inr (0, ?a)" using r m a(1) f by (simp add: controller_new_def htfh_consts good_region_def)
  moreover have "heads_ok ?a (\<lambda>_. [])"
    using a(1) class_bounds by (simp add: heads_ok_def)
  moreover have "keeps (link_bytes r) a ?a"
  proof -
    have "keeps (link_bytes r) a (put_word (r + 24) r (put_word (r + 16) r a))"
      by (intro keeps_put_trans keeps_refl) (auto simp: link_bytes_def)
    then show ?thesis by simp
  qed
  ultimately show ?thesis by blast
qed

lemma align_down_pool: "4 dvd n \<Longrightarrow> align_down a n ALIGN_SIZE = (n, a)"
  using align_down_eq [of 2 a n] by (simp add: ALIGN_SIZE_def)

text \<open>Adding the pool to a heap whose lists are empty.\<close>

lemma htfh_add_pool_ok:
  assumes r: "good_region r n" and a: "controller a = r" "heap a = r" "heap_size a = n"
    and h: "heads_ok a (\<lambda>_. [])" and z: "\<And>x. r + 6272 \<le> x \<Longrightarrow> bytes_at a x = 0" and g: "lock_good (mutex a)"
  shows "\<exists>a'. htfh_add_pool a (r + 6280) (n - 6280) = Inr (r + 6280, a')
    \<and> htfh_ok a' [(n - 6296, True)] (first_lists (r + 6272) (n - 6296))
    \<and> mutex a' = cycled (mutex a) \<and> heap a' = r \<and> heap_size a' = n"
proof -
  let ?b = "r + 6272" and ?a = "held a"
  define k where "k = n - 6296"
  let ?x = "?b + k + 8"
  have d: "r \<noteq> NULL" "4 dvd r" "r + n + 64 < 2 ^ 64" "4 dvd n" "6320 \<le> n" "n < 2 ^ 30" using r by (simp_all add: good_region_def)
  have nk: "n = k + 6296" using d by (simp add: k_def)
  have k: "24 \<le> k" "k < 2 ^ 30" "4 dvd k" using d by (auto simp: k_def intro: dvd_diff_nat)
  have ms: "mapped ?a y" if "r \<le> y" "y \<le> r + n - 8" for y using that d a by (simp add: mapped_def held_def)
  have zero: "word_at ?a y = 0" if "?b \<le> y" for y
  proof -
    have "word_at ?a y = read_bytes (\<lambda>_. 0) y 8" unfolding word_at_def using z that by (intro read_bytes_cong) simp
    also have "\<dots> = 0" by (rule read_bytes_zero)
    finally show ?thesis .
  qed
  have hb: "hdr_at ?a y 0 False False" if "?b \<le> y" "y + 16 \<le> r + n" for y
    using that ms [of "y + 8"] zero [of "y + 8"] d by (simp add: hdr_at_def hdr_def)
  have b0: "hdr_at ?a ?b 0 False False" and x0: "hdr_at ?a ?x 0 False False" using d nk by (intro hb; simp)+
  let ?a1 = "put_word (?b + 8) (hdr k False False) ?a"
  let ?a2 = "put_word (?b + 8) (hdr k False True) ?a1"
  let ?a3 = "put_word (?b + 8) (hdr k False True) ?a2"
  have b1: "hdr_at ?a1 ?b k False False" using k by (intro hdr_at_set [OF b0]) simp_all
  have b2: "hdr_at ?a2 ?b k False True" by (rule hdr_at_change [OF b1])
  have b3: "hdr_at ?a3 ?b k False True" by (rule hdr_at_change [OF b2])
  have ap: "apart (?b + 8) (?x + 8)" using k by (simp add: apart_def)
  have x3: "hdr_at ?a3 ?x 0 False False" by (intro hdr_at_put_apart x0 ap)
  have hd: "heads_ok ?a3 (\<lambda>_. [])" by (rule heads_keeps [OF h]) (simp_all add: held_def)
  have ls: "lists_ok {?b} ?a3 (\<lambda>_. [])"
    using hd d a(1) by (auto simp: lists_ok_def spaced_def intro!: ms)
  have c: "size_class k < 768" using k(2) size_class_bound by blast
  obtain fl sl where i: "class_index (size_class k) = (fl, sl)" by fastforce
  have mi: "mapping_insert k = (fl, sl)" using mapping_insert_class [of k] k(2) i by simp
  have mb: "mapped ?a3 (?b + 16)" "mapped ?a3 (?b + 24)" using d by (simp_all, (intro ms; simp)+)
  have dvb: "4 dvd ?b" using d(2) by simp
  note ins = controller_insert_ok [OF ls c i singletonI _ dvb mb]
  obtain a4 where a4: "controller_insert_free_block ?a3 ?b fl sl = Inr (0, a4)"
    "lists_ok {?b} a4 (first_lists ?b k)" "keeps (link_bytes r \<union> link_bytes ?b) ?a3 a4"
    using ins a(1) by (auto simp: first_lists_def)
  have b4: "hdr_at a4 ?b k False True" by (rule hdr_at_keeps [OF b3 a4(3)]) (auto simp: field_bytes)
  have x4: "hdr_at a4 ?x 0 False False" by (rule hdr_at_keeps [OF x3 a4(3)]) (use k in \<open>auto simp: field_bytes\<close>)
  have cn: "controller a4 = r" using keepsD(2) [OF a4(3)] a(1) by simp
  have mx: "mapped a4 ?x" unfolding keeps_mapped [OF a4(3)] using d nk by (simp, intro ms) simp_all
  let ?a5 = "put_word ?x ?b a4"
  have b5: "hdr_at ?a5 ?b k False True" by (rule hdr_at_put_apart [OF b4]) (use k in \<open>simp add: apart_def\<close>)
  have x5: "hdr_at ?a5 ?x 0 False False" by (rule hdr_at_put_apart [OF x4]) (simp add: apart_def)
  have ln: "block_link_next a4 ?b = Inr (?x, ?a5)" using k d nk by (intro block_link_next_ok [OF b4 _ _ mx]) simp_all
  let ?a6 = "put_word (?x + 8) (hdr 0 False False) ?a5"
  let ?a7 = "put_word (?x + 8) (hdr 0 False False) ?a6"
  let ?a8 = "put_word (?x + 8) (hdr 0 True False) ?a7"
  have x6: "hdr_at ?a6 ?x 0 False False" by (rule hdr_at_change [OF x5])
  have x7: "hdr_at ?a7 ?x 0 False False" by (rule hdr_at_change [OF x6])
  have x8: "hdr_at ?a8 ?x 0 True False" by (rule hdr_at_change [OF x7])
  have xb: "apart (?x + 8) (?b + 8)" using k by (simp add: apart_def)
  have b8: "hdr_at ?a8 ?b k False True" by (intro hdr_at_put_apart b5 xb)
  have w8: "word_at ?a8 ?x = ?b" using d k by (simp add: apart_def)
  have mu: "mutex ?a8 = mutex (held a)" using keepsD(1) [OF a4(3)] by simp
  have pool: "usize_sub (n - 6280) htfh_pool_overhead = k"
    using d nk by (simp add: htfh_pool_overhead_def block_consts usize_sub_le)
  have off: "usize_sub (r + 6280) block_header_overhead = ?b" using d by (simp add: block_consts usize_sub_le)
  have bi: "controller_block_insert ?a3 ?b = Inr (0, a4)"
    by (simp only: controller_block_insert_def hdr_reads(1) [OF b3] mi a4(1) rbind_Inr prod.case)
  have al: "(r + 6280) mod ALIGN_SIZE = 0" "\<not> (k < block_size_min \<or> block_size_max < k)"
    using d k by (auto simp: ALIGN_SIZE_def block_consts)
  have run: "htfh_add_pool a (r + 6280) (n - 6280) = Inr (r + 6280, ?a8\<lparr>mutex := cycled (mutex a)\<rparr>)"
    by (simp only: htfh_add_pool_def lock_held [OF g] prod.case pool align_down_pool [OF k(3)] al simp_thms if_False off Let_def
        hdr_writes(5) [OF b0 k(3)] hdr_writes(1) [OF b1] hdr_writes(4) [OF b2] rbind_Inr bi ln hdr_writes(5) [OF x5 dvd_0_right]
        hdr_writes(2) [OF x6] hdr_writes(3) [OF x7] unlock_held(2) [OF g mu]) simp
  have ps: "pool_start ?a8 = ?b" using keepsD(3) [OF a4(3)] a(2) by (simp add: pool_start_def)
  have fl: "heap ?a8 = r" "heap_size ?a8 = n" using keepsD(3,4) [OF a4(3)] a(2,3) by (simp_all add: held_def)
  have "region_ok ?a8 [(k, True)]"
    unfolding region_ok_def ps using d k nk cn fl by simp
  moreover have "seg ?a8 NULL False (pool_start ?a8) ([(k, True)] @ [(0, False)])" unfolding ps using b8 x8 w8 by simp
  moreover have "heads_ok ?a8 (first_lists ?b k)" by (rule heads_keeps [OF lists_okD(1) [OF a4(2)]]) simp_all
  moreover have "linked_list ?a8 (controller ?a8) (first_lists ?b k c') (controller ?a8) \<and> distinct (first_lists ?b k c')" if "c' < 768" for c'
  proof -
    have "apart ?x (?b + 16)" "apart (?x + 8) (?b + 16)" "apart ?x (?b + 24)" "apart (?x + 8) (?b + 24)" using k by (simp_all add: apart_def)
    then have "linked_list ?a8 r (first_lists ?b k c') r = linked_list a4 r (first_lists ?b k c') r"
      by (intro linked_list_cong) (auto simp: first_lists_def split: if_splits)
    then show ?thesis using lists_okD(8,9) [OF a4(2) that] cn by simp
  qed
  moreover have "listed (pool_start ?a8) [(k, True)] {} (first_lists ?b k)"
    unfolding ps by (auto simp: listed_def first_lists_def)
  ultimately have "heap_st ?a8 [(k, True)] (first_lists ?b k) {}" by (simp add: heap_st_def)
  then have "htfh_ok (?a8\<lparr>mutex := cycled (mutex a)\<rparr>) [(k, True)] (first_lists ?b k)"
    using unlock_held(3) [OF g mu] by (simp add: htfh_ok_def)
  then show ?thesis using run fl unfolding k_def [symmetric] by (intro exI [of _ "?a8\<lparr>mutex := cycled (mutex a)\<rparr>"]) simp
qed

lemma htfh_create_ok:
  assumes r: "good_region r n" and l: "lock_good l" "lk_mode l = Unlocked"
  shows "\<exists>a e'. htfh_create True l r e n = Inr (Some a, e') \<and> htfh_ok a [(n - 6296, True)] (first_lists (r + 6272) (n - 6296))
    \<and> heap a = r \<and> heap_size a = n \<and> lk_mode (mutex a) = Unlocked"
proof -
  have d: "r \<noteq> NULL" "4 dvd n" "6320 \<le> n" "n < 2 ^ 30" "r + n + 64 < 2 ^ 64" using r by (simp_all add: good_region_def)
  let ?l = "l\<lparr>lk_calls := Suc (Suc (Suc (Suc (lk_calls l)))), lk_mode := Unlocked\<rparr>"
  have li: "htfh_lock_init l = (0, ?l)"
    using l by (simp add: htfh_lock_init_def attr_call_def pthread_call_def lock_good_def EINVAL_def)
  let ?a = "\<lparr>alloc_errno = e, mutex = ?l, heap_size = n, heap = r, bytes_at = (\<lambda>_. 0), controller = r, fl_bitmap = 0,
    sl_bitmap = replicate FL_INDEX_COUNT 0, blocks = replicate FL_INDEX_COUNT (replicate SL_INDEX_COUNT 0)\<rparr>"
  have g: "lock_good (mutex ?a)" using l(1) by (simp add: lock_good_def)
  obtain a1 where a1: "controller_new (held ?a) = Inr (0, a1)" "heads_ok a1 (\<lambda>_. [])" "keeps (link_bytes r) (held ?a) a1"
    using controller_new_ok [OF r, of "held ?a"] by (auto simp: held_def)
  note k = keepsD [OF a1(3)]
  have f: "controller a1 = r" "heap a1 = r" "heap_size a1 = n" using k(2-4) by (simp_all add: held_def)
  have z: "bytes_at a1 x = 0" if "r + 6272 \<le> x" for x using that k(5) [of x] by (simp add: link_bytes_def held_def)
  have g1: "lock_good (mutex a1)" using g k(1) by (simp add: held_def lock_good_def)
  obtain a2 where a2: "htfh_add_pool a1 (r + 6280) (n - 6280) = Inr (r + 6280, a2)"
    "htfh_ok a2 [(n - 6296, True)] (first_lists (r + 6272) (n - 6296))" "mutex a2 = cycled (mutex a1)" "heap a2 = r" "heap_size a2 = n"
    using htfh_add_pool_ok [OF r f a1(2) z g1] by blast
  have g2: "lock_good (mutex a2)" using g1 a2(3) by (simp add: cycled_def lock_good_def)
  let ?a3 = "a2\<lparr>mutex := (mutex a2)\<lparr>lk_calls := Suc (lk_calls (mutex a2)), lk_mode := release (lk_mode (mutex a2))\<rparr>\<rparr>"
  have un: "alloc_unlock a2 = (0, ?a3)" by (rule alloc_unlock_good [OF g2])
  have md: "lk_mode (mutex ?a3) = Unlocked" using a2(3) k(1) by (simp add: cycled_def held_def numeral_eq_Suc)
  have sz: "usize (r + htfh_size) = r + 6280" "usize_sub n htfh_size = n - 6280"
    using d by (simp_all add: htfh_size_def htfh_consts block_consts usize_sub_le)
  have al: "n mod ALIGN_SIZE = 0" using d(2) by (auto simp: ALIGN_SIZE_def)
  have hh: "heap (held ?a) = r" by simp
  have run: "htfh_create True l r e n = Inr (Some ?a3, alloc_errno ?a3)"
    using al li lock_held [OF g] a1(1) a2(1) un d(1) f(2) sz by (simp add: htfh_create_def Let_def)
  have "htfh_ok ?a3 [(n - 6296, True)] (first_lists (r + 6272) (n - 6296))"
    using a2(2) g2 by (simp add: htfh_ok_def lock_good_def)
  then show ?thesis using run md a2(4,5) by (intro exI [of _ ?a3] exI [of _ "alloc_errno ?a3"]) simp
qed

end
