(* ===== verification/Heap_Interface.thy ===== *)
theory Heap_Interface
  imports Heap_Chain
begin

text \<open>
  What a client relies on when it uses an allocator: a state with the blocks that are handed
  out, \<open>malloc\<close> and \<open>free\<close>, and the bytes.  The lemmas about clients are proved once from these
  laws.
\<close>

section \<open>Clients\<close>

text \<open>
  A client holds pointers: it asks for memory, or gives back one of those it holds.  A \<open>free\<close>
  that reports an error stops it.
\<close>

datatype client_op = Malloc nat | Free nat

fun client ::
  "('s \<Rightarrow> nat \<Rightarrow> (addr \<times> 's) res) \<Rightarrow> ('s \<Rightarrow> addr \<Rightarrow> (int \<times> 's) res) \<Rightarrow> 's \<Rightarrow> addr list \<Rightarrow> client_op list \<Rightarrow> ('s \<times> addr list) res"
where
  "client malloc free s ps [] = Inr (s, ps)"
| "client malloc free s ps (Malloc n # ops) =
     rbind (malloc s n) (\<lambda>(p, s'). client malloc free s' (if p = 0 then ps else p # ps) ops)"
| "client malloc free s ps (Free i # ops) =
     (if i < length ps then
        rbind (free s (ps ! i)) (\<lambda>(r, s').
          if r = 0 then client malloc free s' (take i ps @ drop (Suc i) ps) ops else Inl Exit1)
      else client malloc free s ps ops)"

definition requests_ok :: "nat \<Rightarrow> client_op list \<Rightarrow> bool" where
  "requests_ok limit ops \<longleftrightarrow> (\<forall>n. Malloc n \<in> set ops \<longrightarrow> n \<le> limit)"

text \<open>The blocks of a map do not overlap.\<close>

definition separate :: "(addr \<Rightarrow> nat option) \<Rightarrow> bool" where
  "separate M \<longleftrightarrow> (\<forall>p q n m. M p = Some n \<longrightarrow> M q = Some m \<longrightarrow> p \<noteq> q \<longrightarrow> p + n \<le> q \<or> q + m \<le> p)"

definition same_blocks :: "(addr \<Rightarrow> nat option) \<Rightarrow> (nat \<Rightarrow> nat) \<Rightarrow> (nat \<Rightarrow> nat) \<Rightarrow> bool" where
  "same_blocks M f g \<longleftrightarrow> (\<forall>q m y. M q = Some m \<longrightarrow> q \<le> y \<longrightarrow> y < q + m \<longrightarrow> g y = f y)"

section \<open>Handed out memory and used blocks\<close>

text \<open>
  The used blocks \<open>U\<close> of a heap are those of the map: every address handed out is 16 bytes
  behind the header of a used block that is large enough, and no other block is used.
\<close>

definition tracked :: "(addr \<times> nat) set \<Rightarrow> (addr \<Rightarrow> nat option) \<Rightarrow> bool" where
  "tracked U M \<longleftrightarrow> (\<forall>q n. M q = Some n \<longrightarrow> (\<exists>x s. q = x + 16 \<and> (x, s) \<in> U \<and> n \<le> s))
     \<and> (\<forall>x s. (x, s) \<in> U \<longrightarrow> x + 16 \<in> dom M)"

lemma trackedD:
  assumes "tracked U M"
  shows "M q = Some n \<Longrightarrow> \<exists>x s. q = x + 16 \<and> (x, s) \<in> U \<and> n \<le> s" "(x, s) \<in> U \<Longrightarrow> x + 16 \<in> dom M"
  using assms unfolding tracked_def by blast+

lemma tracked_bytes: "tracked U M \<Longrightarrow> M q = Some n \<Longrightarrow> q \<le> y \<Longrightarrow> y < q + n \<Longrightarrow> y \<in> (\<Union>(x, s) \<in> U. payload x s)"
proof -
  assume a: "tracked U M" "M q = Some n" "q \<le> y" "y < q + n"
  then obtain x s where "q = x + 16" "(x, s) \<in> U" "n \<le> s" using trackedD(1) [OF a(1,2)] by blast
  then show ?thesis using a(3,4) by (intro UN_I [of "(x, s)"]) (simp_all add: payload_def)
qed

lemma tracked_add:
  assumes t: "tracked U M" and b: "\<And>k'. (b, k') \<notin> U" and n: "n \<le> k"
  shows "tracked (insert (b, k) U) (M(b + 16 \<mapsto> n))" "b + 16 \<notin> dom M"
proof -
  show "b + 16 \<notin> dom M"
  proof
    assume "b + 16 \<in> dom M"
    then obtain x s where "b + 16 = x + 16" "(x, s) \<in> U" using t unfolding tracked_def by blast
    then show False using b by simp
  qed
  show "tracked (insert (b, k) U) (M(b + 16 \<mapsto> n))"
    unfolding tracked_def
  proof (intro conjI allI impI)
    fix q n' assume q: "(M(b + 16 \<mapsto> n)) q = Some n'"
    show "\<exists>x s. q = x + 16 \<and> (x, s) \<in> insert (b, k) U \<and> n' \<le> s"
      using q n trackedD(1) [OF t, of q n'] by (cases "q = b + 16") auto
  qed (use t in \<open>auto simp: tracked_def\<close>)
qed

lemma tracked_drop:
  assumes t: "tracked (insert (b, s) U) M" and b: "\<And>k'. (b, k') \<notin> U"
  shows "tracked U (M(b + 16 := None))"
  unfolding tracked_def
proof (intro conjI allI impI)
  fix q n assume q: "(M(b + 16 := None)) q = Some n"
  then obtain x s' where x: "q = x + 16" "(x, s') \<in> insert (b, s) U" "n \<le> s'"
    using trackedD(1) [OF t, of q n] by (auto split: if_splits)
  moreover have "x \<noteq> b" using q x(1) by (auto split: if_splits)
  ultimately show "\<exists>x s'. q = x + 16 \<and> (x, s') \<in> U \<and> n \<le> s'" by blast
next
  fix x s' assume x: "(x, s') \<in> U"
  then have "x \<noteq> b" using b by blast
  then show "x + 16 \<in> dom (M(b + 16 := None))" using t x unfolding tracked_def by auto
qed

lemma tracked_separate:
  assumes t: "tracked U M" and u: "\<And>x s y t. (x, s) \<in> U \<Longrightarrow> (y, t) \<in> U \<Longrightarrow> x \<noteq> y \<Longrightarrow> x + s \<le> y \<or> y + t \<le> x"
  shows "separate M"
  unfolding separate_def
proof (intro allI impI)
  fix p q n m assume a: "M p = Some n" "M q = Some m" "p \<noteq> q"
  obtain x s where x: "p = x + 16" "(x, s) \<in> U" "n \<le> s" using trackedD(1) [OF t a(1)] by blast
  obtain y k where y: "q = y + 16" "(y, k) \<in> U" "m \<le> k" using trackedD(1) [OF t a(2)] by blast
  show "p + n \<le> q \<or> q + m \<le> p" using u [OF x(2) y(2)] x y a(3) by auto
qed

lemma same_blocksD: "same_blocks M f g \<Longrightarrow> M q = Some m \<Longrightarrow> q \<le> y \<Longrightarrow> y < q + m \<Longrightarrow> g y = f y"
  by (simp add: same_blocks_def)

section \<open>Calls inside a locked section\<close>

section \<open>The interface\<close>

locale block_allocator =
  fixes run :: "'s \<Rightarrow> (addr \<Rightarrow> nat option) \<Rightarrow> bool"
    and malloc :: "'s \<Rightarrow> nat \<Rightarrow> (addr \<times> 's) res"
    and free :: "'s \<Rightarrow> addr \<Rightarrow> (int \<times> 's) res"
    and bytes :: "'s \<Rightarrow> nat \<Rightarrow> nat"
    and limit :: nat
  assumes malloc_total: "run s M \<Longrightarrow> n \<le> limit \<Longrightarrow> \<exists>p s'. malloc s n = Inr (p, s')"
    and malloc_run: "run s M \<Longrightarrow> n \<le> limit \<Longrightarrow> malloc s n = Inr (p, s') \<Longrightarrow> run s' (if p = 0 then M else M(p \<mapsto> n))"
    and malloc_fresh: "run s M \<Longrightarrow> n \<le> limit \<Longrightarrow> malloc s n = Inr (p, s') \<Longrightarrow> p \<noteq> 0 \<Longrightarrow> p \<notin> dom M"
    and malloc_keeps: "run s M \<Longrightarrow> n \<le> limit \<Longrightarrow> malloc s n = Inr (p, s') \<Longrightarrow> same_blocks M (bytes s) (bytes s')"
    and free_total: "run s M \<Longrightarrow> p \<in> dom M \<Longrightarrow> \<exists>s'. free s p = Inr (0, s')"
    and free_run: "run s M \<Longrightarrow> p \<in> dom M \<Longrightarrow> free s p = Inr (r, s') \<Longrightarrow> run s' (M(p := None))"
    and free_keeps: "run s M \<Longrightarrow> p \<in> dom M \<Longrightarrow> free s p = Inr (r, s') \<Longrightarrow> same_blocks (M(p := None)) (bytes s) (bytes s')"
    and run_separate: "run s M \<Longrightarrow> separate M"
begin

lemma drop_one:
  assumes "distinct ps" and "i < length ps"
  shows "set (take i ps @ drop (Suc i) ps) = set ps - {ps ! i}" "distinct (take i ps @ drop (Suc i) ps)"
proof -
  have s: "ps = take i ps @ ps ! i # drop (Suc i) ps" by (rule id_take_nth_drop [OF assms(2)])
  then have d: "distinct (take i ps @ ps ! i # drop (Suc i) ps)" using assms(1) by simp
  then show "distinct (take i ps @ drop (Suc i) ps)" by simp
  have "set ps = set (take i ps) \<union> {ps ! i} \<union> set (drop (Suc i) ps)" by (subst s) auto
  then show "set (take i ps @ drop (Suc i) ps) = set ps - {ps ! i}" using d by auto
qed

text \<open>No client can make the allocator fail.\<close>

lemma client_safe:
  "run s M \<Longrightarrow> set ps = dom M \<Longrightarrow> distinct ps \<Longrightarrow> requests_ok limit ops \<Longrightarrow>
    \<exists>s' ps' M'. client malloc free s ps ops = Inr (s', ps') \<and> run s' M' \<and> set ps' = dom M' \<and> distinct ps'"
proof (induction ops arbitrary: s M ps)
  case Nil
  then show ?case by auto
next
  case (Cons op ops)
  have ok: "requests_ok limit ops" using Cons.prems(4) by (auto simp: requests_ok_def)
  show ?case
  proof (cases op)
    case (Malloc n)
    have n: "n \<le> limit" using Cons.prems(4) Malloc by (auto simp: requests_ok_def)
    obtain p s1 where m: "malloc s n = Inr (p, s1)" using malloc_total [OF Cons.prems(1) n] by blast
    let ?M = "if p = 0 then M else M(p \<mapsto> n)" and ?ps = "if p = 0 then ps else p # ps"
    have "set ?ps = dom ?M" "distinct ?ps"
      using Cons.prems(2,3) malloc_fresh [OF Cons.prems(1) n m] by auto
    with Cons.IH [OF malloc_run [OF Cons.prems(1) n m] _ _ ok] show ?thesis by (simp add: Malloc m)
  next
    case (Free i)
    show ?thesis
    proof (cases "i < length ps")
      case True
      then have p: "ps ! i \<in> dom M" using Cons.prems(2) nth_mem by blast
      obtain s1 where f: "free s (ps ! i) = Inr (0, s1)" using free_total [OF Cons.prems(1) p] by blast
      have ps: "set (take i ps @ drop (Suc i) ps) = dom (M(ps ! i := None))" "distinct (take i ps @ drop (Suc i) ps)"
        using drop_one [OF Cons.prems(3) True] Cons.prems(2) by auto
      from Cons.IH [OF free_run [OF Cons.prems(1) p f] ps ok] show ?thesis using True by (simp add: Free f)
    next
      case False
      with Cons.IH [OF Cons.prems(1-3) ok] show ?thesis by (simp add: Free)
    qed
  qed
qed

text \<open>Giving everything back is possible from every state.\<close>

lemma client_drain:
  "run s M \<Longrightarrow> set ps = dom M \<Longrightarrow> distinct ps \<Longrightarrow>
    \<exists>s'. client malloc free s ps (replicate (length ps) (Free 0)) = Inr (s', []) \<and> run s' Map.empty"
proof (induction ps arbitrary: s M)
  case Nil
  then have "M = Map.empty" by auto
  with Nil show ?case by auto
next
  case (Cons p ps)
  have p: "p \<in> dom M" using Cons.prems(2) by auto
  obtain s1 where f: "free s p = Inr (0, s1)" using free_total [OF Cons.prems(1) p] by blast
  have "set ps = dom (M(p := None))" "distinct ps" using Cons.prems(2,3) by auto
  from Cons.IH [OF free_run [OF Cons.prems(1) p f] this] show ?case by (simp add: f)
qed

text \<open>What is in a block survives the allocation and release of others.\<close>

lemma malloc_free_keeps:
  assumes "run s M" and "n \<le> limit" and "malloc s n = Inr (p, s1)" and "p \<noteq> 0" and "free s1 p = Inr (r, s2)"
  shows "run s2 M" "same_blocks M (bytes s) (bytes s2)"
proof -
  have r1: "run s1 (M(p \<mapsto> n))" and pf: "p \<notin> dom M"
    using malloc_run [OF assms(1-3)] malloc_fresh [OF assms(1-4)] assms(4) by simp_all
  have e: "(M(p \<mapsto> n))(p := None) = M" using pf by auto
  show "run s2 M" using free_run [OF r1 _ assms(5)] e by simp
  have "same_blocks M (bytes s1) (bytes s2)" using free_keeps [OF r1 _ assms(5)] e by simp
  then show "same_blocks M (bytes s) (bytes s2)" using malloc_keeps [OF assms(1-3)] by (simp add: same_blocks_def)
qed

end

text \<open>Calls inside a call: the mutex is recursive, and taken once already.\<close>

lemma held_inner: "lock_good (mutex a) \<Longrightarrow> lk_mode (mutex a) = Unlocked \<Longrightarrow> lock_good (mutex (held a)) \<and> lk_mode (mutex (held a)) = Locked 1"
  by (simp add: held_def lock_good_def)

lemma cycled_inner: "lk_mode l = Locked 1 \<Longrightarrow> lk_mode (cycled l) = Locked 1"
  by (simp add: cycled_def numeral_eq_Suc)

lemma unlock_inner:
  assumes "lock_good (mutex a)" and "lk_mode (mutex a) = Locked 1"
  shows "\<exists>l. unlock_return a x y = Inr (x, a\<lparr>mutex := l\<rparr>) \<and> lock_good l \<and> lk_mode l = Unlocked"
  using assms by (intro exI [of _ "(mutex a)\<lparr>lk_calls := Suc (lk_calls (mutex a)), lk_mode := Unlocked\<rparr>"])
    (simp add: unlock_return_def alloc_unlock_good lock_good_def)

text \<open>A mutex none of whose calls fails, for the concrete runs of the witnesses.\<close>

definition small_lock :: lock where
  "small_lock = \<lparr>lk_mode = Unlocked, lk_calls = 0, lk_ret = (\<lambda>_. 0), lk_errno = NONE\<rparr>"

lemma small_lock_good: "lock_good small_lock" "lk_mode small_lock = Unlocked"
  by (simp_all add: small_lock_def lock_good_def)

end
