(* ===== verification/HTFH_Realloc.thy ===== *)
theory HTFH_Realloc
  imports HTFH_Safety Heap_Interface
begin

text \<open>
  The HTFH allocator as its clients see it: the heap together with the map of the blocks handed
  out, and what \<open>htfh_malloc\<close>, \<open>htfh_free\<close>, \<open>htfh_calloc\<close> and \<open>htfh_realloc\<close> do to it.
\<close>

section \<open>Blocks handed out\<close>

text \<open>The used blocks are those of the map.\<close>

abbreviation tracks :: "addr \<Rightarrow> (nat \<times> bool) list \<Rightarrow> (addr \<Rightarrow> nat option) \<Rightarrow> bool" where
  "tracks p bs \<equiv> tracked (used_set p bs)"

definition live_ok :: "Allocator \<Rightarrow> (addr \<Rightarrow> nat option) \<Rightarrow> (nat \<times> bool) list \<Rightarrow> (nat \<Rightarrow> addr list) \<Rightarrow> bool" where
  "live_ok a M bs L \<longleftrightarrow> htfh_ok a bs L \<and> tracks (pool_start a) bs M"

definition run_ok :: "Allocator \<Rightarrow> (addr \<Rightarrow> nat option) \<Rightarrow> (nat \<times> bool) list \<Rightarrow> (nat \<Rightarrow> addr list) \<Rightarrow> bool" where
  "run_ok a M bs L \<longleftrightarrow> live_ok a M bs L \<and> lk_mode (mutex a) = Unlocked"

lemma run_okD:
  assumes "run_ok a M bs L"
  shows "htfh_ok a bs L" "lk_mode (mutex a) = Unlocked" "tracks (pool_start a) bs M" "live_ok a M bs L"
  using assms by (simp_all add: run_ok_def live_ok_def)

lemma cycled_mode: "lk_mode l = Unlocked \<Longrightarrow> lk_mode (cycled l) = Unlocked"
  by (simp add: cycled_def numeral_eq_Suc)

lemma used_place: "(x, s) \<in> used_set p bs \<longleftrightarrow> (x, s, False) \<in> set (places p bs)"
  by (simp add: block_used_def)

lemma tracks_bytes: "tracks p bs M \<Longrightarrow> M q = Some n \<Longrightarrow> q \<le> y \<Longrightarrow> y < q + n \<Longrightarrow> y \<in> used_bytes p bs"
  unfolding used_bytes_set by (rule tracked_bytes)

text \<open>Writing to the memory of a used block keeps the invariant.\<close>

lemma used_meta:
  assumes sz: "sized bs" and x: "(x, s, False) \<in> set (places p bs)"
  shows "meta False p (bs @ [(0, False)]) \<inter> payload x s = {}"
proof -
  obtain us vs where bs: "bs = us @ (s, False) # vs" "x = end_of p us" using places_split [OF x] by blast
  have app: "meta pf p (us @ ys) = meta pf p us \<union> meta (free_of pf us) (end_of p us) ys" for pf p ys
    by (induction pf p us rule: meta.induct) auto
  have "y < x + 16 \<or> x + s + 16 \<le> y" if "y \<in> meta False p (bs @ [(0, False)])" for y
  proof -
    have "y \<in> meta False p us \<or> y \<in> size_bytes x \<or> y \<in> phys_bytes x \<or> y \<in> meta False (x + s + 8) (vs @ [(0, False)])"
      using that by (auto simp: bs(1) app bs(2) [symmetric] split: if_splits)
    then show ?thesis
      using meta_bounds [of y False p us] meta_bounds [of y False "x + s + 8" "vs @ [(0, False)]"] sz bs
      by (auto simp: field_bytes)
  qed
  then show ?thesis by (fastforce simp: payload_def)
qed

lemma heap_write_set:
  assumes h: "heap_st a bs L {}" and y: "\<And>y. f y \<noteq> bytes_at a y \<Longrightarrow> y \<in> used_bytes (pool_start a) bs"
  shows "heap_st (a\<lparr>bytes_at := f\<rparr>) bs L {}"
proof -
  let ?a = "a\<lparr>bytes_at := f\<rparr>" and ?W = "used_bytes (pool_start a) bs"
  note d = heap_stD [OF h]
  have k: "keeps ?W a ?a" using y by (auto simp: keeps_def)
  have "meta False (pool_start a) (bs @ [(0, False)]) \<inter> ?W = {}"
    using used_meta [OF region_okD(5) [OF d(1)]] unfolding block_bytes_def by blast
  then have chain: "seg ?a NULL False (pool_start a) (bs @ [(0, False)])" by (rule seg_keeps [OF d(2) k])
  have "linked_list ?a (controller a) (L c) (controller a)" if c: "c < 768" for c
  proof -
    have "word_at ?a (x + 16) = word_at a (x + 16) \<and> word_at ?a (x + 24) = word_at a (x + 24)" if "x \<in> set (L c)" for x
    proof -
      have "x \<in> insert (controller a) (free_starts (pool_start a) bs)" using that listed_free [OF d(6) c] by blast
      then have l: "link_bytes x \<inter> ?W = {}" using links_outside(2) [OF d(1)] by blast
      have "{x + 16..<x + 16 + 8} \<subseteq> link_bytes x" "{x + 24..<x + 24 + 8} \<subseteq> link_bytes x" by (auto simp: link_bytes_def)
      then show ?thesis using l by (intro conjI keeps_word [OF k]) blast+
    qed
    then have "linked_list ?a (controller a) (L c) (controller a) = linked_list a (controller a) (L c) (controller a)"
      by (rule linked_list_cong)
    then show ?thesis using d(4) [OF c] by simp
  qed
  moreover have "heads_ok ?a L" by (rule heads_keeps [OF d(3)]) simp_all
  ultimately show ?thesis
    using chain d(1,5,6) region_keeps [OF k] by (simp add: heap_st_def)
qed

lemma heap_write: "heap_st a bs L {} \<Longrightarrow> y \<in> used_bytes (pool_start a) bs \<Longrightarrow> heap_st (a\<lparr>bytes_at := (bytes_at a)(y := v)\<rparr>) bs L {}"
  by (rule heap_write_set) (auto split: if_splits)

lemma tracks_carve:
  assumes t: "tracks p (us @ (s, True) # ws) M" and b: "b = end_of p us" and n: "n \<le> m" "m \<le> s"
  shows "tracks p (us @ carve m s @ ws) (M(b + 16 \<mapsto> n))" "b + 16 \<notin> dom M"
proof -
  obtain k where k: "n \<le> k" "used_set p (us @ carve m s @ ws) = insert (b, k) (used_set p (us @ (s, True) # ws))"
  proof (cases "m + 32 \<le> s")
    case True
    then have "used_set p (us @ carve m s @ ws) = insert (b, m) (used_set p (us @ (s, True) # ws))"
      by (auto simp: carve_def b ac_simps)
    with n(1) show ?thesis by (rule that)
  next
    case False
    then have "used_set p (us @ carve m s @ ws) = insert (b, s) (used_set p (us @ (s, True) # ws))"
      by (auto simp: carve_def b)
    with n show ?thesis by (intro that [of s]) simp_all
  qed
  have nb: "(b, k') \<notin> used_set p (us @ (s, True) # ws)" for k'
    using places_same [of b s True p "us @ (s, True) # ws" k' False] heap_place [of p us s True ws] unfolding b used_place by blast
  show "tracks p (us @ carve m s @ ws) (M(b + 16 \<mapsto> n))" unfolding k(2) by (rule tracked_add [OF t nb k(1)])
  show "b + 16 \<notin> dom M" by (rule tracked_add [OF t nb k(1)])
qed

lemma tracks_release:
  assumes t: "tracks p (us @ (s, False) # ws) M" and b: "b = end_of p us" and e: "used_set p bs' = used_set p (us @ (s, True) # ws)"
  shows "tracks p bs' (M(b + 16 := None))"
proof -
  have u: "used_set p (us @ (s, False) # ws) = insert (b, s) (used_set p bs')" unfolding e by (auto simp: b)
  have nb: "(b, k') \<notin> used_set p (us @ (s, True) # ws)" for k'
    using places_same [of b s True p "us @ (s, True) # ws" k' False] heap_place [of p us s True ws] unfolding b used_place by blast
  show ?thesis unfolding e by (rule tracked_drop [OF t [unfolded u [unfolded e]] nb])
qed

lemma htfh_free_null: "htfh_ok a bs L \<Longrightarrow> htfh_free a NULL = Inr (0, a\<lparr>mutex := cycled (mutex a)\<rparr>)"
proof -
  assume ok: "htfh_ok a bs L"
  then have g: "lock_good (mutex a)" and h: "heap_st a bs L {}" by (simp_all add: htfh_ok_def)
  have "controller a \<noteq> NULL" using region_okD(1,2) [OF heap_stD(1) [OF h]] by simp
  then show ?thesis using lock_held [OF g] unlock_held(1) [OF g refl] by (simp add: htfh_free_def held_def)
qed

section \<open>Allocating and releasing\<close>

lemma live_malloc:
  assumes ok: "live_ok a M bs L" and n: "n + 4 \<le> 2 ^ 64"
  shows "\<exists>p a' bs' L'. htfh_malloc a n = Inr (p, a') \<and> live_ok a' (if p = NULL then M else M(p \<mapsto> n)) bs' L'
    \<and> mutex a' = cycled (mutex a)
    \<and> heap a' = heap a \<and> heap_size a' = heap_size a
    \<and> (\<forall>y \<in> used_bytes (pool_start a) bs. bytes_at a' y = bytes_at a y) \<and> (p \<noteq> NULL \<longrightarrow> p \<notin> dom M)
    \<and> (p = NULL \<longrightarrow> n = 0 \<or> 2 ^ 30 \<le> round_request n \<or> no_fit (pool_start a) bs (round_request n))"
proof -
  have h: "htfh_ok a bs L" and t: "tracks (pool_start a) bs M"
    using ok by (simp_all add: live_ok_def)
  from htfh_malloc_ok [OF h n refl] show ?thesis
  proof (rule disjE, goal_cases)
    case 1
    then obtain e where e: "htfh_malloc a n = Inr (NULL, a\<lparr>alloc_errno := e, mutex := cycled (mutex a)\<rparr>)"
      and r: "n = 0 \<or> 2 ^ 30 \<le> round_request n \<or> no_fit (pool_start a) bs (round_request n)" by blast
    let ?a = "a\<lparr>alloc_errno := e, mutex := cycled (mutex a)\<rparr>"
    have "live_ok ?a M bs L" using h t by (simp add: live_ok_def htfh_ok_def cycled_def lock_good_def)
    then show ?thesis using e r by (intro exI [of _ NULL] exI [of _ ?a] exI [of _ bs] exI [of _ L]) simp
  next
    case 2
    then obtain us s ws a' b where b: "bs = us @ (s, True) # ws" "b = end_of (pool_start a) us" "round_request n \<le> s" "htfh_malloc a n = Inr (b + 16, a')"
      and h': "htfh_ok a' (us @ carve (round_request n) s @ ws)
        (keep_rest (L(size_class s := tl (L (size_class s)))) b (round_request n) s)"
      and f: "mutex a' = cycled (mutex a)" "heap a' = heap a" "heap_size a' = heap_size a"
        "\<forall>y \<in> used_bytes (pool_start a) bs. bytes_at a' y = bytes_at a y"
      by blast
    have ps: "pool_start a' = pool_start a" using f(2) by (simp add: pool_start_def)
    have tr: "tracks (pool_start a') (us @ carve (round_request n) s @ ws) (M(b + 16 \<mapsto> n))" "b + 16 \<notin> dom M"
      using tracks_carve [OF t [unfolded b(1)] b(2) round_request_facts(1) b(3)] ps by simp_all
    have "live_ok a' (M(b + 16 \<mapsto> n)) (us @ carve (round_request n) s @ ws)
        (keep_rest (L(size_class s := tl (L (size_class s)))) b (round_request n) s)"
      using h' tr(1) by (simp add: live_ok_def)
    then show ?thesis
      using b(4) f tr(2)
      by (intro exI [of _ "b + 16"] exI [of _ a'] exI [of _ "us @ carve (round_request n) s @ ws"]
          exI [of _ "keep_rest (L(size_class s := tl (L (size_class s)))) b (round_request n) s"]) simp
  qed
qed

lemma live_used:
  assumes "live_ok a M bs L" and "M p = Some n"
  shows "\<exists>us s ws. bs = us @ (s, False) # ws \<and> p = end_of (pool_start a) us + 16 \<and> n \<le> s"
proof -
  obtain x s where x: "p = x + 16" "(x, s) \<in> used_set (pool_start a) bs" "n \<le> s"
    using trackedD(1) [of "used_set (pool_start a) bs" M p n] assms by (auto simp: live_ok_def)
  obtain us ws where "bs = us @ (s, False) # ws" "x = end_of (pool_start a) us"
    using places_split [of x s False] x(2) unfolding used_place by blast
  then show ?thesis using x by blast
qed

lemma live_free:
  assumes ok: "live_ok a M bs L" and p: "p \<in> dom M"
  shows "\<exists>a' bs' L'. htfh_free a p = Inr (0, a') \<and> live_ok a' (M(p := None)) bs' L' \<and> mutex a' = cycled (mutex a) \<and> heap a' = heap a \<and> heap_size a' = heap_size a
    \<and> same_blocks (M(p := None)) (bytes_at a) (bytes_at a')"
proof -
  obtain n where "M p = Some n" using p by blast
  then obtain us s ws where b: "bs = us @ (s, False) # ws" "p = end_of (pool_start a) us + 16"
    using live_used [OF ok] by blast
  let ?b = "end_of (pool_start a) us"
  have h: "htfh_ok a (us @ (s, False) # ws) L" and t: "tracks (pool_start a) (us @ (s, False) # ws) M"
    using ok by (simp_all add: live_ok_def b)
  from htfh_free_ok [OF h refl] obtain a' us' s1 s2 ws' L2 b' where
    run: "htfh_free a (?b + 16) = Inr (0, a')"
    and h': "htfh_ok a' (us' @ (s2, True) # ws') (L2(size_class s2 := b' # L2 (size_class s2)))"
    and m1: "us' = us \<and> s1 = s \<or> (\<exists>t. us = us' @ [(t, True)] \<and> s1 = t + s + 8)"
    and m2: "ws' = ws \<and> s2 = s1 \<or> (\<exists>t. ws = (t, True) # ws' \<and> s2 = s1 + t + 8)"
    and f: "mutex a' = cycled (mutex a)" "heap a' = heap a" "heap_size a' = heap_size a"
      "\<forall>y \<in> used_bytes (pool_start a) (us @ (s, True) # ws). bytes_at a' y = bytes_at a y"
    by (elim exE conjE) blast
  have ps: "pool_start a' = pool_start a" using f(2) by (simp add: pool_start_def)
  have e: "used_set (pool_start a) (us' @ (s2, True) # ws') = used_set (pool_start a) (us @ (s, True) # ws)"
    by (rule used_set_merge [OF m1 m2])
  have tr: "tracks (pool_start a) (us' @ (s2, True) # ws') (M(p := None))"
    unfolding b(2) by (rule tracks_release [OF t refl e])
  then have "live_ok a' (M(p := None)) (us' @ (s2, True) # ws') (L2(size_class s2 := b' # L2 (size_class s2)))"
    using h' ps by (simp add: live_ok_def)
  moreover have "same_blocks (M(p := None)) (bytes_at a) (bytes_at a')"
  proof -
    have "y \<in> used_bytes (pool_start a) (us @ (s, True) # ws)" if "(M(p := None)) q = Some m" "q \<le> y" "y < q + m" for q m y
      using tracks_bytes [OF tr that] unfolding used_bytes_set e .
    then show ?thesis using f(4) unfolding same_blocks_def by blast
  qed
  ultimately show ?thesis using run f(1-3) unfolding b(2) by blast
qed

text \<open>The same with the mutex free before and after.\<close>

lemma run_malloc:
  assumes ok: "run_ok a M bs L" and n: "n + 4 \<le> 2 ^ 64"
  shows "\<exists>p a' bs' L'. htfh_malloc a n = Inr (p, a') \<and> run_ok a' (if p = NULL then M else M(p \<mapsto> n)) bs' L'
    \<and> heap a' = heap a \<and> heap_size a' = heap_size a
    \<and> (\<forall>y \<in> used_bytes (pool_start a) bs. bytes_at a' y = bytes_at a y) \<and> (p \<noteq> NULL \<longrightarrow> p \<notin> dom M)
    \<and> (p = NULL \<longrightarrow> n = 0 \<or> 2 ^ 30 \<le> round_request n \<or> no_fit (pool_start a) bs (round_request n))"
  using live_malloc [OF run_okD(4) [OF ok] n] cycled_mode [OF run_okD(2) [OF ok]] unfolding run_ok_def by metis

lemma run_live:
  assumes "run_ok a M bs L" and "M p = Some n"
  shows "\<exists>us s ws. bs = us @ (s, False) # ws \<and> p = end_of (pool_start a) us + 16 \<and> n \<le> s"
  by (rule live_used [OF run_okD(4) [OF assms(1)] assms(2)])

lemma run_free:
  assumes ok: "run_ok a M bs L" and p: "p \<in> dom M"
  shows "\<exists>a' bs' L'. htfh_free a p = Inr (0, a') \<and> run_ok a' (M(p := None)) bs' L' \<and> heap a' = heap a \<and> heap_size a' = heap_size a
    \<and> same_blocks (M(p := None)) (bytes_at a) (bytes_at a')"
  using live_free [OF run_okD(4) [OF ok] p] cycled_mode [OF run_okD(2) [OF ok]] unfolding run_ok_def by metis

lemma live_separate:
  assumes ok: "live_ok a M bs L" and p: "M p = Some n"
  shows "4 dvd p" "heap a + 6288 \<le> p" "p + n \<le> heap a + heap_size a" "M q = Some m \<Longrightarrow> p \<noteq> q \<Longrightarrow> p + n \<le> q \<or> q + m \<le> p"
proof -
  have h: "heap_st a bs L {}" and t: "tracks (pool_start a) bs M" using ok by (simp_all add: live_ok_def htfh_ok_def)
  note r = heap_stD(1) [OF h]
  obtain x s where x: "p = x + 16" "(x, s, False) \<in> set (places (pool_start a) bs)" "n \<le> s"
    using trackedD(1) [OF t p] unfolding used_place by blast
  show "4 dvd p" "heap a + 6288 \<le> p" "p + n \<le> heap a + heap_size a"
    using place_facts(1,2,6) [OF r x(2)] x(1,3) region_okD(6) [OF r] by simp_all
  assume q: "M q = Some m" "p \<noteq> q"
  obtain y k where y: "q = y + 16" "(y, k, False) \<in> set (places (pool_start a) bs)" "m \<le> k"
    using trackedD(1) [OF t q(1)] unfolding used_place by blast
  show "p + n \<le> q \<or> q + m \<le> p" using places_ordered [OF x(2) y(2)] x y q(2) by auto
qed

lemmas run_separate = live_separate [OF run_okD(4)]

section \<open>Clearing\<close>

text \<open>\<open>htfh_calloc\<close>; the product of its arguments wraps around.\<close>

lemma run_calloc:
  assumes ok: "run_ok a M bs L" and n: "n = usize (count * bytes)" "n + 4 \<le> 2 ^ 64"
  shows "\<exists>p a1 a' bs' L'. htfh_malloc a n = Inr (p, a1) \<and> htfh_calloc a count bytes = Inr (p, a')
    \<and> run_ok a' (if p = NULL then M else M(p \<mapsto> n)) bs' L' \<and> same_blocks M (bytes_at a) (bytes_at a')
    \<and> (p \<noteq> NULL \<longrightarrow> p \<notin> dom M \<and> (\<forall>i < n. bytes_at a' (p + i) = 0))"
proof -
  obtain p a1 bs1 L1 where m: "htfh_malloc a n = Inr (p, a1)" "run_ok a1 (if p = NULL then M else M(p \<mapsto> n)) bs1 L1"
    "\<forall>y \<in> used_bytes (pool_start a) bs. bytes_at a1 y = bytes_at a y" "p \<noteq> NULL \<longrightarrow> p \<notin> dom M"
    using run_malloc [OF ok n(2)] by blast
  have keep: "same_blocks M (bytes_at a) (bytes_at a1)"
    using m(3) tracks_bytes [OF run_okD(3) [OF ok]] unfolding same_blocks_def by blast
  show ?thesis
  proof (cases "p = NULL")
    case True
    then have "htfh_calloc a count bytes = Inr (p, a1)" using m(1) n(1) by (simp add: htfh_calloc_def)
    then show ?thesis using True m(1,2) keep by (intro exI [of _ p] exI [of _ a1] exI [of _ bs1] exI [of _ L1]) simp
  next
    case False
    then have ok1: "run_ok a1 (M(p \<mapsto> n)) bs1 L1" and pM: "p \<notin> dom M" using m(2,4) by simp_all
    have st: "heap_st a1 bs1 L1 {}" and t: "tracks (pool_start a1) bs1 (M(p \<mapsto> n))"
      using ok1 by (simp_all add: run_ok_def live_ok_def htfh_ok_def)
    let ?f = "\<lambda>x. if p \<le> x \<and> x < p + n then 0 mod 256 else bytes_at a1 x"
    have "in_heap a1 p n" using run_separate(2,3) [OF ok1, of p n] region_okD(4) [OF heap_stD(1) [OF st]] by (simp add: in_heap_def)
    then have "htfh_calloc a count bytes = Inr (p, a1\<lparr>bytes_at := ?f\<rparr>)"
      using False m(1) n(1) by (simp add: htfh_calloc_def heap_memset_def)
    moreover have "heap_st (a1\<lparr>bytes_at := ?f\<rparr>) bs1 L1 {}"
    proof (rule heap_write_set [OF st])
      fix y assume "?f y \<noteq> bytes_at a1 y"
      then have "p \<le> y" "y < p + n" by (auto split: if_splits)
      then show "y \<in> used_bytes (pool_start a1) bs1" by (intro tracks_bytes [OF t, of p n]) simp_all
    qed
    then have "run_ok (a1\<lparr>bytes_at := ?f\<rparr>) (M(p \<mapsto> n)) bs1 L1" using ok1 by (simp add: run_ok_def live_ok_def htfh_ok_def pool_start_def)
    moreover have "same_blocks M (bytes_at a) ?f"
      unfolding same_blocks_def
    proof (intro allI impI)
      fix q j y assume q: "M q = Some j" "q \<le> y" "y < q + j"
      have "q \<noteq> p" using q(1) pM by auto
      then have "q + j \<le> p \<or> p + n \<le> q" using run_separate(4) [OF ok1, of q j p n] q(1) by simp
      then show "?f y = bytes_at a y" using q(2,3) same_blocksD [OF keep q] by auto
    qed
    ultimately show ?thesis using False m(1) pM
      by (intro exI [of _ p] exI [of _ a1] exI [of _ "a1\<lparr>bytes_at := ?f\<rparr>"] exI [of _ bs1] exI [of _ L1]) simp
  qed
qed

section \<open>Reallocation\<close>

text \<open>A request after \<open>adjust_request_size\<close>; 0 when it cannot be served.\<close>

definition adjusted :: "nat \<Rightarrow> nat" where
  "adjusted n = (if n = 0 \<or> 2 ^ 30 \<le> round_request n then 0 else round_request n)"

lemma adjusted_less: "s < adjusted n \<Longrightarrow> 24 \<le> s \<Longrightarrow> 4 dvd s \<Longrightarrow> s < n"
proof -
  assume a: "s < adjusted n" "24 \<le> s" "4 dvd s"
  obtain j where j: "s = 4 * j" using a(3) by (elim dvdE)
  have "s < (n + 3) div 4 * 4" using a(1,2) by (auto simp: adjusted_def round_request_def split: if_splits)
  then have "j < (n + 3) div 4" using j by simp
  then show ?thesis unfolding j by linarith
qed

text \<open>What \<open>realloc_block\<close> computes before it chooses one of its ways.\<close>

lemma realloc_start:
  assumes h: "heap_st a (us @ (s, False) # ws) L {}" and b: "b = end_of (pool_start a) us"
    and nx: "ws @ [(0, False)] = (t, g) # vs" and n: "n + 4 \<le> 2 ^ 64"
  shows "realloc_block a (b + 16) n =
    (let trim = (\<lambda>a. rbind (controller_block_trim_used a b (adjusted n)) (\<lambda>(r, a').
              if r \<noteq> 0 then unlock_return a' NULL NULL else unlock_return a' (b + 16) NULL)) in
     if s < adjusted n \<and> (\<not> g \<or> s + t + 8 < adjusted n) then
       rbind (htfh_malloc a n) (\<lambda>(p, a3).
         if p \<noteq> NULL then
           rbind (heap_memcpy a3 p (b + 16) (min s n)) (\<lambda>a4.
           rbind (htfh_free a4 (b + 16)) (\<lambda>(r, a5). if r \<noteq> 0 then unlock_return a5 NULL NULL else unlock_return a5 p NULL))
         else unlock_return a3 p NULL)
     else if s < adjusted n then
       rbind (controller_block_merge_next a b) (\<lambda>(merged, a3).
         if merged \<noteq> NULL then unlock_return a3 NULL NULL else rbind (block_mark_as_used a3 b) (\<lambda>(_, a4). trim a4))
     else trim a)"
proof -
  note hb = heap_block [OF h b nx]
  have fptr: "block_from_ptr (b + 16) = b" using hb(7) by (simp add: block_from_ptr_def block_consts usize_sub_le)
  have nxt: "block_next a b = Inr (b + s + 8, a)" using hb(3,7) by (intro block_next_ok [OF hb(1)]) simp_all
  have adj: "adjust_request_size a n ALIGN_SIZE = (adjusted n, a)" using adjust_request_ok [OF n] by (simp add: adjusted_def)
  have t: "t < 2 ^ 30"
  proof (cases ws)
    case (Cons w ws')
    then have w: "w = (t, g)" using nx by simp
    have h2: "heap_st a ((us @ [(s, False)]) @ (t, g) # ws') L {}" using h Cons w by simp
    obtain t2 g2 vs2 where n2: "ws' @ [(0, False)] = (t2, g2) # vs2" using next_block by blast
    show ?thesis by (rule heap_block(4) [OF h2 refl n2])
  qed (use nx in simp)
  have c: "usize (s + t + block_header_overhead) = s + t + 8" using t hb(4) by (simp add: usize_def block_consts)
  show ?thesis
    by (simp add: realloc_block_def Let_def fptr nxt hdr_reads [OF hb(1)] hdr_reads [OF hb(2)] adj c)
qed

text \<open>It never resizes in place.\<close>

lemma block_realloc_in_place:
  assumes h: "heap_st a (us @ (s, False) # ws) L {}" and b: "b = end_of (pool_start a) us" and n: "n + 4 \<le> 2 ^ 64"
    and fits: "adjusted n \<le> s" and l: "lock_good (mutex a)" "lk_mode (mutex a) = Locked 1"
  shows "\<exists>l. realloc_block a (b + 16) n = Inr (NULL, a\<lparr>alloc_errno := BLOCK_NOT_FREE, mutex := l\<rparr>) \<and> lock_good l \<and> lk_mode l = Unlocked"
proof -
  obtain t g vs where nx: "ws @ [(0, False)] = (t, g) # vs" using next_block by blast
  note hb = heap_block [OF h b nx]
  have tu: "controller_block_trim_used a b (adjusted n) = Inr (- 1, a\<lparr>alloc_errno := BLOCK_NOT_FREE\<rparr>)"
    by (simp add: controller_block_trim_used_def hdr_reads [OF hb(1)] set_alloc_errno_def)
  show ?thesis
    using unlock_inner [of "a\<lparr>alloc_errno := BLOCK_NOT_FREE\<rparr>" NULL NULL] l fits
    by (auto simp: realloc_start [OF h b nx n] tu Let_def)
qed

text \<open>
  Growing into a free block behind it fails as well, but only after the two blocks have been
  merged: the block in use now has their size, while the flag behind it still says that the
  block before is free.
\<close>

definition refusable :: "Allocator \<Rightarrow> addr \<Rightarrow> nat \<Rightarrow> bool" where
  "refusable a e u \<longleftrightarrow> hdr_at a e u True False \<and> (\<exists>v vf vg. hdr_at a (e + u + 8) v vf vg) \<and> mapped a (e + u + 8)
     \<and> e + u + 88 < 2 ^ 64 \<and> 8 \<le> u \<and> mapped a e"

lemma realloc_grows:
  assumes h: "heap_st a (us @ (s, False) # (t, True) # ws) L {}" and b: "b = end_of (pool_start a) us" and n: "n + 4 \<le> 2 ^ 64"
    and grow: "s < adjusted n" "adjusted n \<le> s + t + 8" and l: "lock_good (mutex a)" "lk_mode (mutex a) = Locked 1"
  shows "\<exists>a'. realloc_block a (b + 16) n = Inr (NULL, a') \<and> keeps (- used_bytes (pool_start a) (us @ (s, False) # (t, True) # ws)) a (a'\<lparr>mutex := mutex a\<rparr>)
    \<and> lock_good (mutex a') \<and> lk_mode (mutex a') = Unlocked
    \<and> (\<exists>pf. hdr_at a' b (s + t + 8) pf False) \<and> block_is_prev_free a' (b + s + t + 16) = Inr True
    \<and> block_prev a' (b + s + t + 16) = Inr (b, a') \<and> controller a' = controller a
    \<and> (\<forall>u ws'. ws = (u, False) # ws' \<longrightarrow> refusable a' (b + s + t + 16) u)"
proof -
  let ?x = "b + s + 8" and ?e = "b + s + t + 16" and ?bs = "us @ (s, False) # (t, True) # ws"
  have n1: "((t, True) # ws) @ [(0, False)] = (t, True) # (ws @ [(0, False)])" by simp
  obtain t' g' vs where n2: "ws @ [(0, False)] = (t', g') # vs" using next_block by blast
  note hb = heap_block [OF h b n1]
  have h2: "heap_st a ((us @ [(s, False)]) @ (t, True) # ws) L {}" using h by simp
  have x: "?x = end_of (pool_start a) (us @ [(s, False)])" using b by simp
  note hx = heap_block [OF h2 x n2]
  have pl: "(?x, t, True) \<in> set (places (pool_start a) ?bs)" using heap_place [of "pool_start a" "us @ [(s, False)]" t True ws] x by simp
  obtain a1 where a1: "controller_block_remove a ?x = Inr (0, a1)"
    "heap_st a1 ?bs (L(size_class t := remove1 ?x (L (size_class t)))) {?x}" "keeps (- used_bytes (pool_start a) ?bs) a a1"
    using heap_block_remove [OF h pl] by auto
  have ps: "pool_start a1 = pool_start a" by (rule region_keeps(2) [OF a1(3)])
  have b1: "b = end_of (pool_start a1) us" "?x = end_of (pool_start a1) (us @ [(s, False)])" using b ps by simp_all
  note k = heap_block [OF a1(2) b1(1) n1]
  have h3: "heap_st a1 ((us @ [(s, False)]) @ (t, True) # ws) (L(size_class t := remove1 ?x (L (size_class t)))) {?x}" using a1(2) by simp
  note kx = heap_block [OF h3 b1(2) n2]
  have me: "mapped a1 ?e" using kx(8) kx(9) [of ?e] by simp
  obtain a2 where a2: "block_absorb a1 b ?x = Inr (b, a2)" "hdr_at a2 b (s + t + 8) (free_of False us) False" "word_at a2 ?e = b"
    "keeps (size_bytes b \<union> phys_bytes ?e) a1 a2"
    using block_absorb_ok [OF k(1,2) _ _ _ me] k(3,7) kx(3,7) by auto
  have e: "?x + t + 8 = ?e" by simp
  have "size_bytes ?e \<inter> (size_bytes b \<union> phys_bytes ?e) = {}" using k(3) by (auto simp: field_bytes)
  then have he: "hdr_at a2 ?e t' True g'" using hdr_at_keeps [OF kx(2) a2(4)] unfolding e by blast
  have nxt: "block_next a b = Inr (?x, a)" using hb(3,7) by (intro block_next_ok [OF hb(1)]) simp_all
  have nz: "b \<noteq> NULL" using hb(8) region_okD(2) [OF heap_stD(1) [OF h]] by simp
  have "s \<noteq> 0" using hb(3) by simp
  then have m: "controller_block_merge_next a b = Inr (b, a2)"
    using a1(1) a2(1) by (simp add: controller_block_merge_next_def nxt hdr_reads [OF hb(1)] hdr_reads [OF hb(2)])
  have sub: "size_bytes b \<union> phys_bytes ?e \<subseteq> - used_bytes (pool_start a) ?bs"
  proof -
    have sz: "sized (us @ (s, False) # (t, True) # ws)" using region_okD(5) [OF heap_stD(1) [OF h]] by simp
    have "{b + 8..<end_of b [] + 16} \<subseteq> - used_bytes (pool_start a) (us @ [] @ (s, False) # (t, True) # ws)"
      by (rule used_outside [OF sz b]) simp
    moreover have "{?x + 8..<end_of ?x [(t, True)] + 16} \<subseteq> - used_bytes (pool_start a) ((us @ [(s, False)]) @ [(t, True)] @ ws)"
      by (rule used_outside [OF _ x]) (use sz in simp_all)
    moreover have "size_bytes b \<subseteq> {b + 8..<end_of b [] + 16}" "phys_bytes ?e \<subseteq> {?x + 8..<end_of ?x [(t, True)] + 16}"
      by (auto simp: field_bytes)
    ultimately show ?thesis by simp blast
  qed
  have k2: "keeps (- used_bytes (pool_start a) ?bs) a a2" by (rule keeps_trans [OF a1(3) a2(4) subset_refl sub])
  have g2: "lock_good (mutex a2)" "lk_mode (mutex a2) = Locked 1" using keepsD(1) [OF k2] l by simp_all
  obtain l' where u: "unlock_return a2 NULL NULL = Inr (NULL, a2\<lparr>mutex := l'\<rparr>)" "lock_good l'" "lk_mode l' = Unlocked"
    using unlock_inner [OF g2, of NULL NULL] by blast
  have "realloc_block a (b + 16) n = Inr (NULL, a2\<lparr>mutex := l'\<rparr>)"
    using grow nz by (simp add: realloc_start [OF h b n1 n] Let_def m u(1))
  moreover have "hdr_at (a2\<lparr>mutex := l'\<rparr>) b (s + t + 8) (free_of False us) False" "hdr_at (a2\<lparr>mutex := l'\<rparr>) ?e t' True g'"
    using a2(2) he by (simp_all add: hdr_at_def)
  moreover have "block_prev (a2\<lparr>mutex := l'\<rparr>) ?e = Inr (b, a2\<lparr>mutex := l'\<rparr>)"
  proof -
    have "mapped (a2\<lparr>mutex := l'\<rparr>) ?e" using me keeps_mapped [OF a2(4)] by simp
    moreover have "word_at (a2\<lparr>mutex := l'\<rparr>) ?e = b" using a2(3) by simp
    moreover have "block_is_prev_free (a2\<lparr>mutex := l'\<rparr>) ?e = Inr True"
      by (rule hdr_reads(3) [of _ _ t' True g']) (use he in \<open>simp add: hdr_at_def\<close>)
    ultimately show ?thesis by (simp add: block_prev_def prev_phys_block_def)
  qed
  moreover have "keeps (- used_bytes (pool_start a) ?bs) a ((a2\<lparr>mutex := l'\<rparr>)\<lparr>mutex := mutex a\<rparr>)" using k2 by (simp add: keeps_def)
  moreover have "refusable (a2\<lparr>mutex := l'\<rparr>) ?e u" if ws: "ws = (u, False) # ws'" for u ws'
  proof -
    have t': "t' = u" "g' = False" using n2 ws by simp_all
    have h4: "heap_st a1 ((us @ [(s, False), (t, True)]) @ (u, False) # ws') (L(size_class t := remove1 ?x (L (size_class t)))) {?x}"
      using a1(2) ws by simp
    have e4: "?e = end_of (pool_start a1) (us @ [(s, False), (t, True)])" using b1(1) by simp
    obtain v vg vs' where n4: "ws' @ [(0, False)] = (v, vg) # vs'" using next_block by blast
    note ke = heap_block [OF h4 e4 n4]
    have "size_bytes (?e + u + 8) \<inter> (size_bytes b \<union> phys_bytes ?e) = {}" using ke(3) by (auto simp: field_bytes)
    then have "hdr_at a2 (?e + u + 8) v False vg" using hdr_at_keeps [OF ke(2) a2(4)] by blast
    then have "\<exists>v vf vg. hdr_at (a2\<lparr>mutex := l'\<rparr>) (?e + u + 8) v vf vg" by (auto simp: hdr_at_def)
    moreover have "mapped a1 (?e + u + 8)" "mapped a1 ?e" using ke(8) ke(9) [of "?e + u + 8"] ke(9) [of ?e] by simp_all
    moreover have "mapped (a2\<lparr>mutex := l'\<rparr>) = mapped a1" using keeps_mapped [OF a2(4)] by simp
    moreover have "hdr_at (a2\<lparr>mutex := l'\<rparr>) ?e u True False" using he t' by (simp add: hdr_at_def)
    ultimately show ?thesis using ke(3,7) by (simp add: refusable_def del: mapped_def)
  qed
  moreover have "controller (a2\<lparr>mutex := l'\<rparr>) = controller a" using keepsD(2) [OF k2] by simp
  ultimately show ?thesis using u(2,3) hdr_reads by (intro exI [of _ "a2\<lparr>mutex := l'\<rparr>"]) auto
qed

text \<open>
  The block behind, if it is in use, can then not be released: \<open>htfh_free\<close> takes the block before
  it for free, finds that it is not, and gives up after the block has been marked as free, but
  before it is in a free list.
\<close>

lemma refused_free:
  assumes r: "refusable a e u" and p: "block_prev a e = Inr (b, a)" "hdr_at a b s pf False" "b \<noteq> NULL" "b + 16 \<le> e"
    and g: "lock_good (mutex a)" and nz: "controller a \<noteq> NULL"
  shows "\<exists>a'. htfh_free a (e + 16) = Inr (- 1, a') \<and> alloc_errno a' = BLOCK_NOT_FREE \<and> block_is_free a' e = Inr True \<and> blocks a' = blocks a"
proof -
  obtain v vf vg where h: "hdr_at a e u True False" "hdr_at a (e + u + 8) v vf vg" and m: "mapped a (e + u + 8)" "mapped a e"
    and u: "e + u + 88 < 2 ^ 64" "8 \<le> u" using r unfolding refusable_def by blast
  let ?a = "held a"
  have hh: "hdr_at ?a x n x' f = hdr_at a x n x' f" for x n x' f by (simp add: hdr_at_def held_memory)
  note h1 = h(1) [folded hh] and h2 = h(2) [folded hh]
  have e0: "e \<noteq> NULL" using p(4) by simp
  have fptr: "block_from_ptr (e + 16) = e" using u by (simp add: block_from_ptr_def block_consts usize_sub_le)
  have wb: "word_at a e = b" using p(1) m(2) by (simp add: block_prev_def hdr_reads [OF h(1)] prev_phys_block_def)
  obtain a1 where a1: "block_mark_as_free ?a e = Inr (0, a1)" "hdr_at a1 e u True True"
    "keeps (size_bytes e \<union> phys_bytes (e + u + 8) \<union> size_bytes (e + u + 8)) ?a a1" "same_ctrl ?a a1"
    using block_mark_as_free_ok [OF h1 h2] u m(1) by (auto simp: held_memory)
  have "word_at a1 e = word_at ?a e" by (rule keeps_word [OF a1(3)]) (use u(2) in \<open>auto simp: field_bytes\<close>)
  then have w1: "word_at a1 e = b" using wb by (simp add: held_memory)
  have b1: "hdr_at a1 b s pf False"
    by (rule hdr_at_keeps [OF p(2) [folded hh] a1(3)]) (use p(4) u(2) in \<open>auto simp: field_bytes\<close>)
  have m1: "mapped a1 e" using keeps_mapped [OF a1(3)] m(2) by (simp add: held_memory)
  have pv: "block_prev a1 e = Inr (b, a1)" using m1 w1 by (simp add: block_prev_def hdr_reads [OF a1(2)] prev_phys_block_def)
  have mp: "controller_block_merge_prev a1 e = Inr (NULL, a1\<lparr>alloc_errno := BLOCK_NOT_FREE\<rparr>)"
    using p(3) by (simp add: controller_block_merge_prev_def hdr_reads [OF a1(2)] pv hdr_reads [OF b1] set_alloc_errno_def)
  have g1: "mutex (a1\<lparr>alloc_errno := BLOCK_NOT_FREE\<rparr>) = mutex ?a" using keepsD(1) [OF a1(3)] by simp
  let ?r = "a1\<lparr>alloc_errno := BLOCK_NOT_FREE, mutex := cycled (mutex a)\<rparr>"
  have "htfh_free a (e + 16) = Inr (- 1, ?r)"
    using nz e0 by (simp add: htfh_free_def lock_held [OF g] fptr hdr_reads [OF h1] a1(1) mp unlock_held(2) [OF g g1])
  moreover have "block_is_free ?r e = Inr True" by (rule hdr_reads(2) [of _ _ u True]) (use a1(2) in \<open>simp add: hdr_at_def\<close>)
  moreover have "blocks ?r = blocks a" using a1(4) by (simp add: same_ctrl_def held_def)
  ultimately show ?thesis by (intro exI [of _ ?r]) simp
qed

lemma heap_used_place:
  assumes h: "heap_st a bs L {}" and b: "bs = us @ (s, False) # ws" "p = end_of (pool_start a) us + 16"
  shows "heap a \<le> p" "p + s \<le> heap a + heap_size a" "heap a \<noteq> MAP_FAILED" "controller a \<noteq> NULL" "p \<noteq> NULL"
proof -
  note r = heap_stD(1) [OF h]
  have "(p - 16, s, False) \<in> set (places (pool_start a) bs)" using heap_place [of "pool_start a" us s False ws] b by simp
  note f = place_facts [OF r this]
  show "heap a \<le> p" "p + s \<le> heap a + heap_size a" using f(1,2,6) b(2) region_okD(6) [OF r] by simp_all
  show "heap a \<noteq> MAP_FAILED" "controller a \<noteq> NULL" "p \<noteq> NULL" using region_okD(1,2,4) [OF r] b(2) by simp_all
qed

lemma live_finish:
  assumes "live_ok a M bs L" and "lk_mode (mutex a) = Locked 1"
  shows "\<exists>l. unlock_return a x y = Inr (x, a\<lparr>mutex := l\<rparr>) \<and> run_ok (a\<lparr>mutex := l\<rparr>) M bs L"
proof -
  have g: "lock_good (mutex a)" using assms(1) by (simp add: live_ok_def htfh_ok_def)
  obtain l where l: "unlock_return a x y = Inr (x, a\<lparr>mutex := l\<rparr>)" "lock_good l" "lk_mode l = Unlocked"
    using unlock_inner [OF g assms(2), of x y] by blast
  have "run_ok (a\<lparr>mutex := l\<rparr>) M bs L" using assms(1) l(2,3) by (simp add: run_ok_def live_ok_def htfh_ok_def)
  with l(1) show ?thesis by blast
qed

text \<open>The block moves.\<close>

lemma realloc_moves:
  assumes ok: "live_ok a M bs L" and lk: "lk_mode (mutex a) = Locked 1" and p: "M p = Some m" "m \<le> s"
    and b: "bs = us @ (s, False) # ws" "p = end_of (pool_start a) us + 16"
    and nx: "ws @ [(0, False)] = (t, g) # vs" and n: "n + 4 \<le> 2 ^ 64" and go: "s < adjusted n" "\<not> g \<or> s + t + 8 < adjusted n"
  shows "\<exists>q a' bs' L'. realloc_block a p n = Inr (q, a') \<and> run_ok a' (if q = NULL then M else (M(p := None))(q \<mapsto> n)) bs' L'
    \<and> same_blocks (M(p := None)) (bytes_at a) (bytes_at a') \<and> (q = NULL \<longrightarrow> same_blocks M (bytes_at a) (bytes_at a'))
    \<and> (q \<noteq> NULL \<longrightarrow> (\<forall>i < m. bytes_at a' (q + i) = bytes_at a (p + i)) \<and> q \<notin> dom M \<and> m < n)"
proof -
  have h: "heap_st a (us @ (s, False) # ws) L {}" and tr: "tracks (pool_start a) bs M" using ok by (simp_all add: live_ok_def htfh_ok_def b(1))
  have h': "heap_st a bs L {}" using h b(1) by simp
  note hb = heap_block [OF h refl nx] and up = heap_used_place [OF h' b]
  have sn: "s < n" by (rule adjusted_less [OF go(1) hb(3,5)])
  have start: "realloc_block a p n = rbind (htfh_malloc a n) (\<lambda>(q, a3).
         if q \<noteq> NULL then
           rbind (heap_memcpy a3 q p s) (\<lambda>a4.
           rbind (htfh_free a4 p) (\<lambda>(r, a5). if r \<noteq> 0 then unlock_return a5 NULL NULL else unlock_return a5 q NULL))
         else unlock_return a3 q NULL)"
    using go unfolding b(2) by (simp add: realloc_start [OF h refl nx n, unfolded min_absorb1 [OF less_imp_le [OF sn]]] Let_def)
  obtain q a1 bs1 L1 where m1: "htfh_malloc a n = Inr (q, a1)" "live_ok a1 (if q = NULL then M else M(q \<mapsto> n)) bs1 L1"
    "mutex a1 = cycled (mutex a)" "heap a1 = heap a" "heap_size a1 = heap_size a"
    "\<forall>y \<in> used_bytes (pool_start a) bs. bytes_at a1 y = bytes_at a y" "q \<noteq> NULL \<longrightarrow> q \<notin> dom M"
    using live_malloc [OF ok n] by blast
  have keep: "same_blocks M (bytes_at a) (bytes_at a1)" using m1(6) tracks_bytes [OF tr] unfolding same_blocks_def by blast
  have sub: "same_blocks (M(p := None)) f f'" if "same_blocks M f f'" for f f'
    using that unfolding same_blocks_def by (auto split: if_splits)
  have l1: "lk_mode (mutex a1) = Locked 1" using m1(3) lk cycled_inner by auto
  show ?thesis
  proof (cases "q = NULL")
    case True
    then have ok1: "live_ok a1 M bs1 L1" using m1(2) by simp
    obtain l where "unlock_return a1 q NULL = Inr (q, a1\<lparr>mutex := l\<rparr>)" "run_ok (a1\<lparr>mutex := l\<rparr>) M bs1 L1"
      using live_finish [OF ok1 l1, of q NULL] by (elim exE conjE)
    then show ?thesis using True m1(1) keep sub [OF keep] unfolding start
      by (intro exI [of _ NULL] exI [of _ "a1\<lparr>mutex := l\<rparr>"] exI [of _ bs1] exI [of _ L1]) simp
  next
    case False
    then have ok1: "live_ok a1 (M(q \<mapsto> n)) bs1 L1" and qM: "q \<notin> dom M" using m1(2,7) by simp_all
    have qr: "heap a1 + 6288 \<le> q" "q + n \<le> heap a1 + heap_size a1" using live_separate(2,3) [OF ok1, of q n] by simp_all
    let ?f = "\<lambda>x. if q \<le> x \<and> x < q + s then bytes_at a1 (p + (x - q)) else bytes_at a1 x"
    let ?a2 = "a1\<lparr>bytes_at := ?f\<rparr>"
    have "in_heap a1 q s" "in_heap a1 p s" using qr sn up(1-3) by (simp_all add: in_heap_def m1(4,5))
    then have cp: "heap_memcpy a1 q p s = Inr ?a2" by (simp add: heap_memcpy_def)
    have st1: "heap_st a1 bs1 L1 {}" and t1: "tracks (pool_start a1) bs1 (M(q \<mapsto> n))" using ok1 by (simp_all add: live_ok_def htfh_ok_def)
    have "heap_st ?a2 bs1 L1 {}"
    proof (rule heap_write_set [OF st1])
      fix y assume "?f y \<noteq> bytes_at a1 y"
      then have "q \<le> y" "y < q + n" using sn by (auto split: if_splits)
      then show "y \<in> used_bytes (pool_start a1) bs1" by (intro tracks_bytes [OF t1, of q n]) simp_all
    qed
    then have ok2: "live_ok ?a2 (M(q \<mapsto> n)) bs1 L1" using ok1 by (simp add: live_ok_def htfh_ok_def pool_start_def)
    have pq: "p \<noteq> q" using p(1) qM by auto
    then have pd: "p \<in> dom (M(q \<mapsto> n))" using p(1) by auto
    obtain a3 bs3 L3 where f3: "htfh_free ?a2 p = Inr (0, a3)" "live_ok a3 ((M(q \<mapsto> n))(p := None)) bs3 L3"
      "mutex a3 = cycled (mutex ?a2)" "same_blocks ((M(q \<mapsto> n))(p := None)) (bytes_at ?a2) (bytes_at a3)"
      using live_free [OF ok2 pd] by blast
    have Me: "(M(q \<mapsto> n))(p := None) = (M(p := None))(q \<mapsto> n)" using pq by (simp add: fun_upd_twist)
    have l3: "lk_mode (mutex a3) = Locked 1" using f3(3) cycled_inner l1 by simp
    obtain l where u: "unlock_return a3 q NULL = Inr (q, a3\<lparr>mutex := l\<rparr>)" "run_ok (a3\<lparr>mutex := l\<rparr>) ((M(p := None))(q \<mapsto> n)) bs3 L3"
      using live_finish [OF f3(2) l3, of q NULL] unfolding Me by (elim exE conjE)
    have run: "realloc_block a p n = Inr (q, a3\<lparr>mutex := l\<rparr>)" unfolding start using False m1(1) cp f3(1) u(1) by simp
    have old: "bytes_at a3 y = bytes_at a y" if "(M(p := None)) r = Some k" "r \<le> y" "y < r + k" for r k y
    proof -
      have r: "r \<noteq> p" "M r = Some k" using that(1) by (auto split: if_splits)
      then have rq: "r \<noteq> q" using qM by auto
      have "r + k \<le> q \<or> q + n \<le> r" using live_separate(4) [OF ok1, of r k q n] r rq by simp
      then have "?f y = bytes_at a1 y" using that(2,3) sn by auto
      moreover have "bytes_at a3 y = ?f y" using same_blocksD [OF f3(4), of r k y] r rq that(2,3) by simp
      moreover have "bytes_at a1 y = bytes_at a y" by (rule same_blocksD [OF keep r(2) that(2,3)])
      ultimately show ?thesis by simp
    qed
    have new: "bytes_at a3 (q + i) = bytes_at a (p + i)" if "i < m" for i
    proof -
      have i: "i < s" "i < n" using that p(2) sn by simp_all
      have "bytes_at a3 (q + i) = ?f (q + i)" using same_blocksD [OF f3(4), of q n "q + i"] pq i(2) by simp
      also have "\<dots> = bytes_at a1 (p + i)" using i(1) by simp
      also have "\<dots> = bytes_at a (p + i)" using same_blocksD [OF keep p(1), of "p + i"] that by simp
      finally show ?thesis .
    qed
    have "same_blocks (M(p := None)) (bytes_at a) (bytes_at a3)" unfolding same_blocks_def using old by blast
    then show ?thesis using run u(2) False new qM p(2) sn
      by (intro exI [of _ q] exI [of _ "a3\<lparr>mutex := l\<rparr>"] exI [of _ bs3] exI [of _ L3]) simp
  qed
qed

text \<open>All of \<open>htfh_realloc\<close> for a block in use.\<close>

definition grown :: "Allocator \<Rightarrow> Allocator \<Rightarrow> addr \<Rightarrow> nat \<Rightarrow> bool" where
  "grown a a' p n \<longleftrightarrow> (\<exists>s t. s < n \<and> n \<le> s + t + 8 \<and> block_size a (p - 16) = Inr s \<and> block_size a' (p - 16) = Inr (s + t + 8)
     \<and> block_is_free a' (p - 16) = Inr False \<and> block_is_prev_free a' (p + s + t) = Inr True)"

lemma realloc_held:
  assumes "lock_good (mutex a)" and "controller a \<noteq> NULL" and "p \<noteq> NULL" and "0 < n"
  shows "htfh_realloc a p n = realloc_block (held a) p n"
  using assms by (simp add: htfh_realloc_def lock_held)

lemma live_held: "live_ok (held a) M bs L \<longleftrightarrow> live_ok a M bs L"
  by (simp add: live_ok_def htfh_ok_def held_def lock_good_def pool_start_def)

lemma htfh_realloc_ok:
  assumes ok: "run_ok a M bs L" and p: "M p = Some m" and n: "0 < n" "n + 4 \<le> 2 ^ 64"
  shows "\<exists>q a'. htfh_realloc a p n = Inr (q, a') \<and> lk_mode (mutex a') = Unlocked
    \<and> same_blocks (M(p := None)) (bytes_at a) (bytes_at a')
    \<and> (q \<noteq> NULL \<longrightarrow> (\<exists>bs' L'. run_ok a' ((M(p := None))(q \<mapsto> n)) bs' L') \<and> (\<forall>i < m. bytes_at a' (q + i) = bytes_at a (p + i)) \<and> q \<notin> dom M \<and> m < n)
    \<and> (q = NULL \<longrightarrow> same_blocks M (bytes_at a) (bytes_at a') \<and> ((\<exists>bs' L'. run_ok a' M bs' L') \<or> grown a a' p (adjusted n)))"
proof -
  obtain us s ws where b: "bs = us @ (s, False) # ws" "p = end_of (pool_start a) us + 16" "m \<le> s"
    using run_live [OF ok p] by blast
  let ?a = "held a" and ?b = "end_of (pool_start a) us"
  have h0: "heap_st a bs L {}" and g: "lock_good (mutex a)" and un: "lk_mode (mutex a) = Unlocked"
    using ok by (simp_all add: run_ok_def live_ok_def htfh_ok_def)
  have h: "heap_st ?a (us @ (s, False) # ws) L {}" using h0 by (simp add: b(1))
  have bp: "?b = end_of (pool_start ?a) us" by simp
  have live: "live_ok ?a M bs L" using run_okD(4) [OF ok] by (simp add: live_held)
  note inner = held_inner [OF g un]
  note up = heap_used_place [OF h0 b(1,2)]
  have start: "htfh_realloc a p n = realloc_block ?a p n" by (rule realloc_held [OF g up(4,5) n(1)])
  have sub: "same_blocks (M(p := None)) f f'" if "same_blocks M f f'" for f f'
    using that unfolding same_blocks_def by (auto split: if_splits)
  have byts: "bytes_at ?a = bytes_at a" by (simp add: held_def)
  obtain t g' vs where nx: "ws @ [(0, False)] = (t, g') # vs" using next_block by blast
  consider (fits) "adjusted n \<le> s" | (move) "s < adjusted n" "\<not> g' \<or> s + t + 8 < adjusted n" | (grow) "s < adjusted n" "g'" "adjusted n \<le> s + t + 8"
    by linarith
  then show ?thesis
  proof cases
    case fits
    obtain l where l: "realloc_block ?a (?b + 16) n = Inr (NULL, ?a\<lparr>alloc_errno := BLOCK_NOT_FREE, mutex := l\<rparr>)" "lock_good l" "lk_mode l = Unlocked"
      using block_realloc_in_place [OF h bp n(2) fits] inner by blast
    let ?r = "?a\<lparr>alloc_errno := BLOCK_NOT_FREE, mutex := l\<rparr>"
    have "run_ok ?r M bs L" using live l(2,3) by (simp add: run_ok_def live_ok_def htfh_ok_def pool_start_def)
    moreover have "same_blocks M (bytes_at a) (bytes_at ?r)" by (simp add: same_blocks_def held_def)
    ultimately show ?thesis using start l(1,3) sub unfolding b(2) by (intro exI [of _ NULL] exI [of _ ?r]) auto
  next
    case move
    have p': "p = end_of (pool_start ?a) us + 16" using b(2) by simp
    from realloc_moves [OF live conjunct2 [OF inner] p b(3) b(1) p' nx n(2) move] obtain q a' bs' L' where
      r: "realloc_block ?a p n = Inr (q, a')" "run_ok a' (if q = NULL then M else (M(p := None))(q \<mapsto> n)) bs' L'"
      "same_blocks (M(p := None)) (bytes_at ?a) (bytes_at a')" "q = NULL \<longrightarrow> same_blocks M (bytes_at ?a) (bytes_at a')"
      "q \<noteq> NULL \<longrightarrow> (\<forall>i < m. bytes_at a' (q + i) = bytes_at ?a (p + i)) \<and> q \<notin> dom M \<and> m < n"
      by (elim exE conjE)
    then show ?thesis using start run_okD(2) [OF r(2)] unfolding byts
      by (intro exI [of _ q] exI [of _ a']) (cases "q = NULL"; simp; blast)
  next
    case grow
    obtain ws' where ws: "ws = (t, True) # ws'" using nx grow(2) by (cases ws) auto
    have h2: "heap_st ?a (us @ (s, False) # (t, True) # ws') L {}" using h by (simp add: ws)
    obtain a' pf where r: "realloc_block ?a (?b + 16) n = Inr (NULL, a')"
      "keeps (- used_bytes (pool_start ?a) (us @ (s, False) # (t, True) # ws')) ?a (a'\<lparr>mutex := mutex ?a\<rparr>)"
      "lk_mode (mutex a') = Unlocked" "hdr_at a' ?b (s + t + 8) pf False" "block_is_prev_free a' (?b + s + t + 16) = Inr True"
      using realloc_grows [OF h2 bp n(2) grow(1,3)] inner by blast
    have "same_blocks M (bytes_at a) (bytes_at a')"
      unfolding same_blocks_def
    proof (intro allI impI)
      fix q k y assume q: "M q = Some k" "q \<le> y" "y < q + k"
      have "y \<in> used_bytes (pool_start a) bs" by (rule tracks_bytes [OF run_okD(3) [OF ok] q])
      then have "y \<notin> - used_bytes (pool_start ?a) (us @ (s, False) # (t, True) # ws')" by (simp add: b(1) ws)
      from keepsD(5) [OF r(2) this] show "bytes_at a' y = bytes_at a y" by (simp add: held_def)
    qed
    moreover have "grown a a' p (adjusted n)"
    proof -
      have "hdr_at a ?b s (free_of False us) False" using heap_block(1) [OF h0 [unfolded b(1)] refl nx] .
      then show ?thesis using hdr_reads(1) hdr_reads [OF r(4)] r(5) grow(1,3) by (auto simp: grown_def b(2) add_ac)
    qed
    ultimately show ?thesis using start r(1,3) sub unfolding b(2) by (intro exI [of _ NULL] exI [of _ a']) auto
  qed
qed

end
