(* ===== verification/HTFH_Memalign.thy ===== *)
theory HTFH_Memalign
  imports HTFH_Realloc
begin

text \<open>
  \<open>htfh_memalign\<close>: the gap in front of an aligned address, when the block found has room for it,
  and what the call does to the chain and to what the client holds.
\<close>

section \<open>Arithmetic of the gap\<close>

definition round_to :: "nat \<Rightarrow> nat \<Rightarrow> nat" where
  "round_to A x = (x + A - 1) div A * A"

lemma round_to_facts:
  assumes "0 < A"
  shows "A dvd round_to A x" "x \<le> round_to A x" "round_to A x < x + A"
proof -
  have e: "round_to A x + (x + A - 1) mod A = x + A - 1" unfolding round_to_def by (rule div_mult_mod_eq)
  have m: "(x + A - 1) mod A < A" using assms by simp
  show "A dvd round_to A x" by (simp add: round_to_def)
  show "x \<le> round_to A x" "round_to A x < x + A" using e m assms by linarith+
qed

lemma round_to_eq:
  assumes "0 < A" and "A dvd y" and "x \<le> y" and "y < x + A"
  shows "round_to A x = y"
proof -
  obtain i j where i: "round_to A x = A * i" "y = A * j" using round_to_facts(1) [OF assms(1)] assms(2) by (meson dvdE)
  have "A * i < A * j + A" "A * j < A * i + A" using round_to_facts [OF assms(1), of x] assms i by linarith+
  then have "A * i < A * Suc j" "A * j < A * Suc i" by simp_all
  then have "i < Suc j" "j < Suc i" by (simp_all only: mult_less_cancel1)
  then show ?thesis using i by simp
qed

lemma round_to_add: "0 < A \<Longrightarrow> A dvd d \<Longrightarrow> round_to A (x + d) = round_to A x + d"
  using round_to_facts [of A x] by (intro round_to_eq) simp_all

lemma round_to_ge: "0 < A \<Longrightarrow> A dvd y \<Longrightarrow> y < x + A \<Longrightarrow> y \<le> round_to A x"
proof -
  assume a: "0 < A" "A dvd y" "y < x + A"
  obtain i j where i: "round_to A x = A * i" "y = A * j" using round_to_facts(1) [OF a(1)] a(2) by (meson dvdE)
  have "A * j < A * i + A" using round_to_facts(2) [OF a(1), of x] a(3) i by linarith
  then have "A * j < A * Suc i" by simp
  then have "j < Suc i" by (simp only: mult_less_cancel1)
  then show ?thesis using i by simp
qed

lemma align_up_round: "k < 64 \<Longrightarrow> x + 2 ^ k \<le> 2 ^ 64 \<Longrightarrow> align_up a x (2 ^ k) = (round_to (2 ^ k) x, a) \<and> align_ptr a x (2 ^ k) = (round_to (2 ^ k) x, a)"
  using align_up_eq [of k x a] by (simp add: round_to_def)

text \<open>The room \<open>htfh_memalign\<close> asks for, and the gap it leaves in front of the result.\<close>

definition aligned_request :: "nat \<Rightarrow> nat \<Rightarrow> nat" where
  "aligned_request A m = (if A \<le> 4 then m else round_to A (m + A + 32))"

definition gap_of :: "nat \<Rightarrow> addr \<Rightarrow> nat" where
  "gap_of A p = (let g = round_to A p - p in if g = 0 \<or> 32 \<le> g then g else if A + g < 32 then 32 + g else A + g)"

lemma pow2_cases:
  assumes "3 \<le> k"
  obtains "(2 :: nat) ^ k = 8" "k = 3" | "(2 :: nat) ^ k = 16" "k = 4" | "32 dvd (2 :: nat) ^ k" "5 \<le> k"
proof -
  consider "k = 3" | "k = 4" | "5 \<le> k" using assms by linarith
  then show ?thesis
  proof cases
    case 3
    have "(2 :: nat) ^ 5 dvd 2 ^ k" by (rule le_imp_power_dvd [OF 3])
    then show ?thesis using 3 by (intro that(3)) simp_all
  qed (use that in auto)
qed

lemma pow2_dvd_32: "(2 :: nat) ^ k < 32 \<Longrightarrow> 2 ^ k dvd (32 :: nat)"
proof -
  assume "(2 :: nat) ^ k < 32"
  then have "(2 :: nat) ^ k < 2 ^ 5" by simp
  then have "k \<le> 5" by (simp only: power_strict_increasing_iff)
  from le_imp_power_dvd [OF this, of "2 :: nat"] show ?thesis by simp
qed

lemma gap_facts:
  assumes p: "4 dvd p" and g: "g = gap_of (2 ^ k) p"
  shows "g < 2 ^ k + 32" "k \<le> 2 \<Longrightarrow> g = 0" "4 dvd g \<and> 2 ^ k dvd p + g \<and> (g = 0 \<or> 32 \<le> g)"
proof -
  let ?A = "(2 :: nat) ^ k" and ?h = "round_to (2 ^ k) p - p"
  note r = round_to_facts [of ?A p]
  have h: "?A dvd p + ?h" "?h < ?A" using r by simp_all
  show "g < 2 ^ k + 32" using h(2) unfolding g gap_of_def Let_def by (auto split: if_splits)
  have y: "round_to ?A p = p" if k: "k \<le> 2"
  proof -
    have "?A dvd 2 ^ 2" by (rule le_imp_power_dvd [OF k])
    then have "?A dvd p" using dvd_trans [of ?A 4 p] p by simp
    then show ?thesis by (intro round_to_eq) simp_all
  qed
  show z: "g = 0" if k: "k \<le> 2" using y [OF k] by (simp add: g gap_of_def)
  have big: "4 dvd ?h \<and> (?h = 0 \<or> 32 \<le> ?h \<or> \<not> ?A + ?h < 32 \<or> ?A dvd 32)" if k: "\<not> k \<le> 2"
  proof -
    have "3 \<le> k" using k by simp
    then have d: "4 dvd ?A" using le_imp_power_dvd [of 2 k "2 :: nat"] by simp
    have "4 dvd p + ?h" by (rule dvd_trans [OF d h(1)])
    then have "4 dvd ?h" using p by (simp add: dvd_add_right_iff)
    moreover have "?A + ?h < 32 \<Longrightarrow> ?A dvd 32" by (intro pow2_dvd_32) simp
    ultimately show ?thesis by blast
  qed
  have A4: "4 dvd ?A" if "\<not> k \<le> 2" using that le_imp_power_dvd [of 2 k "2 :: nat"] by simp
  show "4 dvd g \<and> 2 ^ k dvd p + g \<and> (g = 0 \<or> 32 \<le> g)"
  proof (cases "k \<le> 2")
    case True
    then have "g = 0" "round_to ?A p = p" using z y by simp_all
    then show ?thesis using h(1) by simp
  next
    case False
    consider "g = ?h" "?h = 0 \<or> 32 \<le> ?h" | "g = 32 + ?h" "?A + ?h < 32" "?h \<noteq> 0" "?h < 32" | "g = ?A + ?h" "\<not> ?A + ?h < 32"
      unfolding g gap_of_def Let_def by (metis not_le)
    then show ?thesis
    proof cases
      case 1
      then show ?thesis using h(1) big [OF False] by simp
    next
      case 2
      then have "?A dvd 32" using big [OF False] by linarith
      then have "?A dvd (p + ?h) + 32" using h(1) by simp
      then show ?thesis using 2(1) big [OF False] by (simp add: ac_simps)
    next
      case 3
      have "?A dvd (p + ?h) + ?A" using h(1) by simp
      then show ?thesis using 3 big [OF False] A4 [OF False] by (simp add: ac_simps)
    qed
  qed
qed

lemma gap_fits:
  assumes k: "3 \<le> k" and p: "4 dvd p" and g: "g = gap_of (2 ^ k) p" and m: "4 dvd m" "24 \<le> m" and s: "aligned_request (2 ^ k) m \<le> s"
  shows "m + g \<le> s" "2 ^ k + 32 \<le> s" "2 * 2 ^ k \<le> s" "g + 32 \<le> s \<or> k = 3 \<and> m = 24"
proof -
  let ?A = "(2 :: nat) ^ k" and ?h = "round_to (2 ^ k) p - p"
  have A: "\<not> ?A \<le> 4" using k by (cases rule: pow2_cases) (auto dest: dvd_imp_le)
  have s': "round_to ?A (m + ?A + 32) \<le> s" using s A by (simp add: aligned_request_def)
  then have s0: "m + ?A + 32 \<le> s" using round_to_facts(2) [of ?A "m + ?A + 32"] by simp
  then show "m + g \<le> s" "2 ^ k + 32 \<le> s" using gap_facts(1) [OF p g] by simp_all
  have "2 * ?A \<le> round_to ?A (m + ?A + 32)" by (intro round_to_ge) simp_all
  then show "2 * 2 ^ k \<le> s" using s' by simp
  have h: "?A dvd p + ?h" "?h < ?A" "4 dvd ?h"
  proof -
    note r = round_to_facts [of ?A p]
    show h: "?A dvd p + ?h" "?h < ?A" using r by simp_all
    have "4 dvd ?A" using k le_imp_power_dvd [of 2 k "2 :: nat"] by simp
    then have "4 dvd p + ?h" using h(1) dvd_trans by blast
    then show "4 dvd ?h" using p by (simp add: dvd_add_right_iff)
  qed
  show "g + 32 \<le> s \<or> k = 3 \<and> m = 24" using k
  proof (cases rule: pow2_cases)
    case 1
    show ?thesis
    proof (cases "m = 24")
      case False
      obtain j where "m = 4 * j" using m(1) by (elim dvdE)
      then have "28 \<le> m" using m(2) False by simp
      then have "72 \<le> round_to ?A (m + ?A + 32)" using 1 by (intro round_to_ge) simp_all
      moreover have "?h \<le> 4" using h(2,3) 1 by (auto elim!: dvdE)
      ultimately show ?thesis using s' 1 by (auto simp: g gap_of_def Let_def)
    qed (use 1 in simp)
  next
    case 2
    have "80 \<le> round_to ?A (m + ?A + 32)" using m(2) 2 by (intro round_to_ge) simp_all
    moreover have "?h \<le> 12" using h(2,3) 2 by (auto elim!: dvdE)
    ultimately show ?thesis using s' 2 by (auto simp: g gap_of_def Let_def)
  next
    case 3
    have A32: "32 \<le> ?A" using 3(1) by (auto dest: dvd_imp_le)
    have "?A + 64 \<le> s"
    proof (cases "?A = 32")
      case True
      have "96 \<le> round_to ?A (m + ?A + 32)" using m(2) True by (intro round_to_ge) simp_all
      then show ?thesis using s' True by simp
    next
      case False
      have "64 \<le> ?A" using 3(1) A32 False by (auto elim!: dvdE)
      moreover have "2 * ?A \<le> round_to ?A (m + ?A + 32)" by (intro round_to_ge) simp_all
      ultimately show ?thesis using s' by simp
    qed
    moreover have "?h < 32 \<Longrightarrow> ?h \<le> 28" using h(3) by (auto elim!: dvdE)
    ultimately show ?thesis using h(2) A32 by (auto simp: g gap_of_def Let_def)
  qed
qed

lemma alignment_gap_ok:
  assumes k: "k \<le> 62" and p: "4 dvd p" and b: "p + 2 * 2 ^ k + 64 \<le> 2 ^ 64"
  shows "alignment_gap a p (2 ^ k) = (gap_of (2 ^ k) p, a)"
proof -
  let ?A = "(2 :: nat) ^ k" and ?y = "round_to (2 ^ k) p"
  note r = round_to_facts [of ?A p]
  have "align_ptr a p ?A = (?y, a)" using align_up_round [of k p a] k b by simp
  moreover have "usize_sub ?y p = ?y - p" using r b by (simp add: usize_sub_le)
  moreover have "align_ptr a (usize (?y + max (32 - (?y - p)) ?A)) ?A = (p + gap_of ?A p, a) \<and> usize_sub (p + gap_of ?A p) p = gap_of ?A p"
    if g: "?y - p \<noteq> 0" "?y - p < 32"
  proof -
    have "\<not> k \<le> 2" using gap_facts(2) [OF p refl, of k] g by (auto simp: gap_of_def Let_def split: if_splits)
    then have k3: "3 \<le> k" by simp
    have A: "8 \<le> ?A" using k3 by (cases rule: pow2_cases) (auto dest: dvd_imp_le)
    have "max (32 - (?y - p)) ?A \<le> ?A + 24"  using g A by simp
    moreover have "?y < p + 32" using g(2) r(2) by linarith
    then have "?y + max (32 - (?y - p)) ?A + ?A \<le> p + 2 * ?A + 64"
      using r(2) A by (cases "32 - (?y - p) \<le> ?A") simp_all
    ultimately have sm: "?y + max (32 - (?y - p)) ?A + ?A \<le> 2 ^ 64" "?y + max (32 - (?y - p)) ?A < 2 ^ 64" using b A by linarith+
    have "round_to ?A (?y + max (32 - (?y - p)) ?A) = p + gap_of ?A p"
    proof (cases "?A + (?y - p) < 32")
      case True
      then have "?A dvd 32" by (intro pow2_dvd_32) simp
      moreover have "?y + max (32 - (?y - p)) ?A = p + 32"
      proof -
        have "?A \<le> 32 - (?y - p)" "?y + (32 - (?y - p)) = p + 32" using True g r(2) by linarith+
        then show ?thesis by (simp only: max_absorb1)
      qed
      ultimately have "round_to ?A (?y + max (32 - (?y - p)) ?A) = ?y + 32" using round_to_add [of ?A 32 p] by simp
      then show ?thesis using True g r by (simp add: gap_of_def Let_def)
    next
      case False
      then have "32 - (?y - p) \<le> ?A" by linarith
      then have e: "?y + max (32 - (?y - p)) ?A = ?y + ?A" by (simp only: max_absorb2)
      have "round_to ?A (?y + ?A) = ?y + ?A" using r by (intro round_to_eq) simp_all
      then show ?thesis using False g r e by (simp add: gap_of_def Let_def)
    qed
    then have "align_ptr a (usize (?y + max (32 - (?y - p)) ?A)) ?A = (p + gap_of ?A p, a)"
      using align_up_round [of k "?y + max (32 - (?y - p)) ?A" a] k sm by simp
    moreover have "gap_of ?A p < ?A + 32" by (rule gap_facts(1) [OF p refl])
    ultimately show ?thesis using b by (simp add: usize_sub_le)
  qed
  ultimately show ?thesis using r
    by (auto simp: alignment_gap_def Let_def block_consts gap_of_def usize_sub_le)
qed

section \<open>The ways of \<open>htfh_memalign\<close>\<close>

lemma adjusted_facts: "adjusted n \<noteq> 0 \<Longrightarrow> n \<le> adjusted n \<and> 4 dvd adjusted n \<and> 24 \<le> adjusted n \<and> adjusted n < 2 ^ 30"
  using round_request_facts [of n] by (auto simp: adjusted_def split: if_splits)

lemma aligned_request_facts:
  assumes m: "4 dvd m" "24 \<le> m"
  shows "4 dvd aligned_request (2 ^ k) m" "m \<le> aligned_request (2 ^ k) m"
proof -
  note r = round_to_facts [of "2 ^ k" "m + 2 ^ k + 32"]
  have "4 dvd round_to (2 ^ k) (m + 2 ^ k + 32)" if "\<not> 2 ^ k \<le> (4 :: nat)"
  proof -
    have "\<not> k \<le> 2" using that power_increasing [of k 2 "2 :: nat"] by auto
    then have "2 ^ 2 dvd (2 :: nat) ^ k" by (intro le_imp_power_dvd) simp
    then show ?thesis using r(1) dvd_trans [of 4 "2 ^ k"] by simp
  qed
  then show "4 dvd aligned_request (2 ^ k) m" "m \<le> aligned_request (2 ^ k) m" using m r(2) by (auto simp: aligned_request_def)
qed

text \<open>What \<open>htfh_memalign\<close> does with the block it has found, of which it wants \<open>m\<close> bytes.\<close>

definition aligned_finish :: "nat \<Rightarrow> addr \<Rightarrow> Allocator \<Rightarrow> (addr \<times> Allocator) res" where
  "aligned_finish m b a = rbind (controller_block_mark_used a b m) (\<lambda>(ptr, a'). if ptr \<noteq> NULL then unlock_return a' ptr NULL else Inr (NULL, a'))"

definition aligned_take :: "nat \<Rightarrow> nat \<Rightarrow> addr \<Rightarrow> Allocator \<Rightarrow> (addr \<times> Allocator) res" where
  "aligned_take A m b a =
    (case alignment_gap a (block_to_ptr b) A of (gap, a4) \<Rightarrow>
      if gap = 0 then aligned_finish m b a4
      else if gap < 32 then unlock_return (set_alloc_errno GAP_TOO_SMALL a4) NULL NULL
      else rbind (controller_block_trim_free_leading a4 b gap) (\<lambda>(b2, a5). if b2 = NULL then unlock_return a5 NULL NULL else aligned_finish m b2 a5))"

lemma memalign_start:
  assumes g: "lock_good (mutex a)" "controller a \<noteq> NULL" and n: "n + 4 \<le> 2 ^ 64" and k: "k \<le> 62"
  shows "htfh_memalign a (2 ^ k) n =
    rbind (controller_block_find_free (held a) (if adjusted n = 0 \<or> 2 ^ 30 \<le> aligned_request (2 ^ k) (adjusted n) then 0 else aligned_request (2 ^ k) (adjusted n)))
      (\<lambda>(b, a'). if b = NULL then aligned_finish (adjusted n) NULL a' else aligned_take (2 ^ k) (adjusted n) b a')"
proof -
  let ?A = "(2 :: nat) ^ k" and ?m = "adjusted n"
  have A: "?A \<le> 2 ^ 62" by (rule power_increasing [OF k]) simp
  have m: "?m < 2 ^ 30" using adjusted_facts [of n] by (cases "?m = 0") auto
  have adj: "adjust_request_size (held a) n ALIGN_SIZE = (?m, held a)" using adjust_request_ok [OF n] by (simp add: adjusted_def)
  have u: "usize (?m + ?A + 32) = ?m + ?A + 32" using A m by (simp add: usize_def)
  have up: "align_up (held a) (?m + ?A + 32) ?A = (round_to ?A (?m + ?A + 32), held a)" using align_up_round [of k] k A m by simp
  let ?w = "if round_to ?A (?m + ?A + 32) < 2 ^ 30 then max (round_to ?A (?m + ?A + 32)) 24 else 0"
  have adj2: "adjust_request_size (held a) (?m + ?A + 32) ?A = (?w, held a)" by (simp add: adjust_request_size_def up block_consts)
  have r: "?m + ?A + 32 \<le> round_to ?A (?m + ?A + 32)" by (rule round_to_facts) simp
  have w: "(if ?m \<noteq> 0 \<and> ALIGN_SIZE < ?A then ?w else ?m) = (if ?m = 0 \<or> 2 ^ 30 \<le> aligned_request ?A ?m then 0 else aligned_request ?A ?m)"
    using m r by (auto simp: aligned_request_def ALIGN_SIZE_def)
  have fin: "rbind (controller_block_mark_used a' b ?m) (\<lambda>(ptr, a5). if ptr \<noteq> NULL then unlock_return a5 ptr NULL else Inr (NULL, a5)) = aligned_finish ?m b a'" for b a'
    by (simp add: aligned_finish_def)
  have sz: "sizeof_BlockHeader = 32" "(32 \<noteq> block_size_min + block_header_overhead) = False" by (simp_all add: block_consts)
  show ?thesis
    unfolding htfh_memalign_def lock_held [OF g(1)] Let_def
    using g(2) by (simp only: prod.case adj u adj2 w if_False sz fin) (simp add: aligned_take_def cong: if_cong)
qed

lemma aligned_finish_ok:
  assumes h: "heap_st a (us @ (s, True) # ws) L {b}" and b: "b = end_of (pool_start a) us" and n: "4 dvd n" "24 \<le> n" "n \<le> s"
  shows "\<exists>a'. aligned_finish n b a = unlock_return a' (b + 16) NULL \<and> heap_st a' (us @ carve n s @ ws) (keep_rest L b n s) {}
    \<and> keeps (- used_bytes (pool_start a) (us @ (s, True) # ws)) a a'"
  using heap_take [OF h b n] unfolding aligned_finish_def by auto

lemma aligned_take_ok:
  assumes h: "heap_st a (us @ (s, True) # ws) L {b}" and b: "b = end_of (pool_start a) us" and k: "k \<le> 62"
    and m: "4 dvd m" "24 \<le> m" and s: "aligned_request (2 ^ k) m \<le> s"
  shows "\<exists>a' us' s' L'. aligned_take (2 ^ k) m b a = unlock_return a' (end_of (pool_start a) us' + 16) NULL
    \<and> heap_st a' (us' @ carve m s' @ ws) L' {} \<and> m \<le> s'
    \<and> (us' = us \<or> (\<exists>j. us' = us @ [(j, True)])) \<and> used_set (pool_start a) (us' @ (s', True) # ws) = used_set (pool_start a) (us @ (s, True) # ws)
    \<and> (2 ^ k dvd end_of (pool_start a) us' + 16 \<or> k = 3 \<and> m = 24)
    \<and> keeps (- used_bytes (pool_start a) (us @ (s, True) # ws)) a a'"
proof -
  let ?A = "(2 :: nat) ^ k"
  define g where g: "g = gap_of ?A (b + 16)"
  obtain t f vs where nx: "ws @ [(0, False)] = (t, f) # vs" using next_block by blast
  note hb = heap_block [OF h b nx]
  have p4: "4 dvd b + 16" using hb(6) by simp
  note gf = gap_facts [OF p4 g]
  have ms: "m \<le> s" using aligned_request_facts(2) [OF m] s by (rule order.trans)
  have ptr: "block_to_ptr b = b + 16" using hb(7) by (simp add: block_to_ptr_def block_consts)
  have A2: "2 * ?A \<le> s"
  proof (cases "3 \<le> k")
    case True
    from gap_fits(3) [OF True p4 g m s] show ?thesis .
  next
    case False
    then have "?A \<le> 2 ^ 2" by (intro power_increasing) simp_all
    then show ?thesis using m(2) ms by simp
  qed
  have gap: "alignment_gap a (b + 16) ?A = (g, a)" unfolding g by (rule alignment_gap_ok [OF k p4]) (use A2 hb(7) in simp)
  show ?thesis
  proof (cases "g = 0")
    case True
    obtain a' where "aligned_finish m b a = unlock_return a' (b + 16) NULL" "heap_st a' (us @ carve m s @ ws) (keep_rest L b m s) {}"
      "keeps (- used_bytes (pool_start a) (us @ (s, True) # ws)) a a'" using aligned_finish_ok [OF h b m ms] by blast
    then show ?thesis using True gf(3) ms unfolding b [symmetric]
      by (intro exI [of _ a'] exI [of _ us] exI [of _ s] exI [of _ "keep_rest L b m s"]) (simp add: aligned_take_def ptr gap b [symmetric])
  next
    case False
    then have "\<not> k \<le> 2" and g32: "32 \<le> g" using gf(2,3) by auto
    then have k3: "3 \<le> k" by simp
    note fits = gap_fits [OF k3 p4 g m s]
    have take: "aligned_take ?A m b a = rbind (controller_block_trim_free_leading a b g)
        (\<lambda>(b2, a5). if b2 = NULL then unlock_return a5 NULL NULL else aligned_finish m b2 a5)"
      using False g32 by (simp add: aligned_take_def ptr gap)
    have nz: "controller a \<noteq> NULL" "b \<noteq> NULL" using region_okD(1,2) [OF heap_stD(1) [OF h]] hb(8) by simp_all
    show ?thesis
    proof (cases "g + 32 \<le> s")
      case True
      have j: "4 dvd g - 8" "24 \<le> g - 8" "g - 8 + 40 \<le> s" "g - 8 + 8 = g" "b + (g - 8) + 8 = b + g" "s - (g - 8) - 8 = s - g"
        using gf(3) g32 True by (auto simp: dvd_diff_nat)
      obtain a1 where a1: "controller_block_trim_free_leading a b g = Inr (b + g, a1)"
        "heap_st a1 (us @ (g - 8, True) # (s - g, True) # ws) (L(size_class (g - 8) := b # L (size_class (g - 8)))) {b + g}"
        "keeps (- used_bytes (pool_start a) (us @ (s, True) # ws)) a a1"
        "used_set (pool_start a) (us @ (g - 8, True) # (s - g, True) # ws) = used_set (pool_start a) (us @ (s, True) # ws)"
        using heap_trim_leading [OF h b j(1-3)] unfolding j(4-6) by blast
      let ?us = "us @ [(g - 8, True)]"
      have ps: "pool_start a1 = pool_start a" by (rule region_keeps(2) [OF a1(3)])
      have b1: "b + g = end_of (pool_start a) ?us" using b j(5) by simp
      have h1: "heap_st a1 (?us @ (s - g, True) # ws) (L(size_class (g - 8) := b # L (size_class (g - 8)))) {b + g}" using a1(2) by simp
      have mg: "m \<le> s - g" using fits(1) by simp
      have ub: "used_bytes (pool_start a1) (?us @ (s - g, True) # ws) = used_bytes (pool_start a) (us @ (s, True) # ws)"
        unfolding used_bytes_set ps using a1(4) by simp
      obtain a2 L2 where a2: "aligned_finish m (b + g) a1 = unlock_return a2 (b + g + 16) NULL" "heap_st a2 (?us @ carve m (s - g) @ ws) L2 {}"
        "keeps (- used_bytes (pool_start a) (us @ (s, True) # ws)) a1 a2"
        using aligned_finish_ok [OF h1 _ m mg] b1 ps unfolding ub by metis
      have "aligned_take ?A m b a = unlock_return a2 (end_of (pool_start a) ?us + 16) NULL"
        unfolding b1 [symmetric] using nz(2) by (simp add: take a1(1) a2(1))
      moreover have "?A dvd end_of (pool_start a) ?us + 16" using gf(3) unfolding b1 [symmetric] by (simp add: ac_simps)
      moreover have "used_set (pool_start a) (?us @ (s - g, True) # ws) = used_set (pool_start a) (us @ (s, True) # ws)" using a1(4) by simp
      ultimately show ?thesis using a2(2) mg keeps_trans [OF a1(3) a2(3) subset_refl subset_refl] by blast
    next
      case no: False
      then have special: "k = 3 \<and> m = 24" using fits(4) by blast
      have "\<not> usize (32 + g) \<le> s" using no gf(1) fits(2) hb(4) by (simp add: usize_def)
      then have "controller_block_trim_free_leading a b g = Inr (b, a)"
        using nz by (simp add: controller_block_trim_free_leading_def hdr_reads [OF hb(1)])
      moreover obtain a' where "aligned_finish m b a = unlock_return a' (b + 16) NULL" "heap_st a' (us @ carve m s @ ws) (keep_rest L b m s) {}"
        "keeps (- used_bytes (pool_start a) (us @ (s, True) # ws)) a a'" using aligned_finish_ok [OF h b m ms] by blast
      ultimately show ?thesis using special nz ms unfolding take
        by (intro exI [of _ a'] exI [of _ us] exI [of _ s] exI [of _ "keep_rest L b m s"]) (simp add: b [symmetric])
    qed
  qed
qed

lemma run_memalign:
  assumes ok: "run_ok a M bs L" and n: "n + 4 \<le> 2 ^ 64" and k: "k \<le> 62"
  shows "\<exists>p a'. htfh_memalign a (2 ^ k) n = Inr (p, a') \<and> same_blocks M (bytes_at a) (bytes_at a')
    \<and> (p \<noteq> NULL \<longrightarrow> p \<notin> dom M \<and> (2 ^ k dvd p \<or> k = 3 \<and> n \<le> 24) \<and> (\<exists>bs' L'. run_ok a' (M(p \<mapsto> n)) bs' L'))
    \<and> (p = NULL \<longrightarrow> lk_mode (mutex a') = Locked 1)"
proof -
  let ?A = "(2 :: nat) ^ k" and ?m = "adjusted n"
  have h: "heap_st (held a) bs L {}" and g: "lock_good (mutex a)" and na: "no_adj False bs" and un: "lk_mode (mutex a) = Unlocked"
    and t: "tracks (pool_start a) bs M"
    using ok by (simp_all add: run_ok_def live_ok_def htfh_ok_def)
  have c: "controller a \<noteq> NULL" using region_okD(1,2) [OF heap_stD(1) [OF h]] by simp
  note inner = held_inner [OF g un]
  define w where w: "w = (if ?m = 0 \<or> 2 ^ 30 \<le> aligned_request ?A ?m then 0 else aligned_request ?A ?m)"
  have start: "htfh_memalign a ?A n = rbind (controller_block_find_free (held a) w)
      (\<lambda>(b, a'). if b = NULL then aligned_finish ?m NULL a' else aligned_take ?A ?m b a')"
    unfolding w by (rule memalign_start [OF g c n k])
  have refuse: ?thesis if "controller_block_find_free (held a) w = Inr (NULL, (held a)\<lparr>alloc_errno := e\<rparr>)" for e
  proof -
    have "htfh_memalign a ?A n = Inr (NULL, (held a)\<lparr>alloc_errno := BLOCK_IS_NULL\<rparr>)"
      using that c by (simp add: start aligned_finish_def controller_block_mark_used_def set_alloc_errno_def)
    moreover have "same_blocks M (bytes_at a) (bytes_at ((held a)\<lparr>alloc_errno := BLOCK_IS_NULL\<rparr>))" by (simp add: same_blocks_def held_def)
    ultimately show ?thesis using inner by simp
  qed
  show ?thesis
  proof (cases "w = 0")
    case True
    have "controller_block_find_free (held a) w = Inr (NULL, (held a)\<lparr>alloc_errno := alloc_errno (held a)\<rparr>)"
      using True c by (simp add: controller_block_find_free_def)
    then show ?thesis by (rule refuse)
  next
    case False
    then have m0: "?m \<noteq> 0" and wa: "w = aligned_request ?A ?m" and w30: "w < 2 ^ 30" unfolding w by (auto split: if_splits)
    note mf = adjusted_facts [OF m0]
    note ar = aligned_request_facts [of ?m k, folded wa]
    have w4: "4 dvd w" "24 \<le> w" using ar mf by auto
    from heap_find [OF h w4 w30] show ?thesis
    proof (elim disjE exE conjE)
      fix e assume "controller_block_find_free (held a) w = Inr (NULL, (held a)\<lparr>alloc_errno := e\<rparr>)"
      then show ?thesis by (rule refuse)
    next
      fix us s ws a1 b
      assume b: "bs = us @ (s, True) # ws" "b = end_of (pool_start (held a)) us" "w \<le> s"
        "controller_block_find_free (held a) w = Inr (b, a1)"
        "heap_st a1 bs (L(size_class s := tl (L (size_class s)))) {b}" "keeps (- used_bytes (pool_start (held a)) bs) (held a) a1"
      have ps: "pool_start a1 = pool_start a" using region_keeps(2) [OF b(6)] by simp
      have b1: "b = end_of (pool_start a1) us" using b(2) ps by simp
      obtain a2 us' s' L' where a2: "aligned_take ?A ?m b a1 = unlock_return a2 (end_of (pool_start a1) us' + 16) NULL"
        "heap_st a2 (us' @ carve ?m s' @ ws) L' {}" "?m \<le> s'" "us' = us \<or> (\<exists>j. us' = us @ [(j, True)])"
        "used_set (pool_start a1) (us' @ (s', True) # ws) = used_set (pool_start a1) (us @ (s, True) # ws)"
        "?A dvd end_of (pool_start a1) us' + 16 \<or> k = 3 \<and> ?m = 24" "keeps (- used_bytes (pool_start a1) (us @ (s, True) # ws)) a1 a2"
        using aligned_take_ok [OF b(5) [unfolded b(1)] b1 k _ _ b(3) [unfolded wa]] mf by blast
      let ?p = "end_of (pool_start a) us' + 16"
      have kk: "keeps (- used_bytes (pool_start a) bs) (held a) a2" using keeps_trans [OF b(6) _ subset_refl subset_refl] a2(7) ps by (simp add: b(1))
      have lk: "lock_good (mutex a2)" "lk_mode (mutex a2) = Locked 1" using keepsD(1) [OF kk] inner by simp_all
      obtain l where u: "unlock_return a2 ?p NULL = Inr (?p, a2\<lparr>mutex := l\<rparr>)" "lock_good l" "lk_mode l = Unlocked"
        using unlock_inner [OF lk, of ?p NULL] by blast
      have "b \<noteq> NULL" using place_facts(1) [OF heap_stD(1) [OF h]] heap_place b(1,2) by fastforce
      then have run: "htfh_memalign a ?A n = Inr (?p, a2\<lparr>mutex := l\<rparr>)" using b(4) a2(1) u(1) ps by (simp add: start)
      have ps2: "pool_start a2 = pool_start a" using region_keeps(2) [OF kk] by simp
      have tr: "tracks (pool_start a) (us' @ carve ?m s' @ ws) (M(?p \<mapsto> n))" "?p \<notin> dom M"
        using tracks_carve [of "pool_start a" us' s' ws M _ n ?m] t a2(3,5) mf ps b(1) by simp_all
      have "no_adj False (us' @ carve ?m s' @ ws)"
        using na no_adj_weaken [of True ws] a2(4) by (auto simp: b(1) no_adj_append carve_def)
      then have "run_ok (a2\<lparr>mutex := l\<rparr>) (M(?p \<mapsto> n)) (us' @ carve ?m s' @ ws) L'"
        using a2(2) tr(1) u(2,3) ps2 by (simp add: run_ok_def live_ok_def htfh_ok_def)
      moreover have "same_blocks M (bytes_at a) (bytes_at (a2\<lparr>mutex := l\<rparr>))"
        unfolding same_blocks_def
      proof (intro allI impI)
        fix q j y assume q: "M q = Some j" "q \<le> y" "y < q + j"
        have "y \<in> used_bytes (pool_start a) bs" by (rule tracks_bytes [OF t q])
        then show "bytes_at (a2\<lparr>mutex := l\<rparr>) y = bytes_at a y" using keepsD(5) [OF kk, of y] by (simp add: held_def)
      qed
      moreover have "?A dvd ?p \<or> k = 3 \<and> n \<le> 24" using a2(6) ps mf by auto
      ultimately show ?thesis using run tr(2) by auto
    qed
  qed
qed

end
