(* ===== verification/HTFH_Runs.thy ===== *)
theory HTFH_Runs
  imports HTFH_Memalign
begin

text \<open>
  Programs that use the HTFH allocator: every state that calls of the allocator and writes to
  allocated memory can reach, what holds in all of them, and where the calls fall short of
  what they mean to do.
\<close>

section \<open>Reachable states\<close>

text \<open>
  \<open>M\<close> maps the addresses handed out and not yet given back to the sizes asked for. A call of
  \<open>htfh_realloc\<close> belongs to a run when it succeeds: one that fails may leave a corrupt heap. The same
  is true of \<open>htfh_memalign\<close>, which keeps the mutex when it fails.
\<close>

inductive htfh_run :: "Allocator \<Rightarrow> (addr \<Rightarrow> nat option) \<Rightarrow> bool" where
  created: "good_region r n \<Longrightarrow> lock_good l \<Longrightarrow> lk_mode l = Unlocked \<Longrightarrow> htfh_create True l r e n = Inr (Some a, e') \<Longrightarrow>
    htfh_run a Map.empty"
| allocated: "htfh_run a M \<Longrightarrow> n + 4 \<le> 2 ^ 64 \<Longrightarrow> htfh_malloc a n = Inr (p, a') \<Longrightarrow>
    htfh_run a' (if p = NULL then M else M(p \<mapsto> n))"
| freed: "htfh_run a M \<Longrightarrow> p \<in> dom M \<Longrightarrow> htfh_free a p = Inr (r, a') \<Longrightarrow> htfh_run a' (M(p := None))"
| freed_null: "htfh_run a M \<Longrightarrow> htfh_free a NULL = Inr (r, a') \<Longrightarrow> htfh_run a' M"
| cleared: "htfh_run a M \<Longrightarrow> usize (count * bytes) + 4 \<le> 2 ^ 64 \<Longrightarrow> htfh_calloc a count bytes = Inr (p, a') \<Longrightarrow>
    htfh_run a' (if p = NULL then M else M(p \<mapsto> usize (count * bytes)))"
| resized: "htfh_run a M \<Longrightarrow> M p = Some m \<Longrightarrow> 0 < n \<Longrightarrow> n + 4 \<le> 2 ^ 64 \<Longrightarrow> htfh_realloc a p n = Inr (q, a') \<Longrightarrow> q \<noteq> NULL \<Longrightarrow>
    htfh_run a' ((M(p := None))(q \<mapsto> n))"
| aligned: "htfh_run a M \<Longrightarrow> k \<le> 62 \<Longrightarrow> n + 4 \<le> 2 ^ 64 \<Longrightarrow> htfh_memalign a (2 ^ k) n = Inr (p, a') \<Longrightarrow> p \<noteq> NULL \<Longrightarrow>
    htfh_run a' (M(p \<mapsto> n))"
| written: "htfh_run a M \<Longrightarrow> M p = Some n \<Longrightarrow> p \<le> y \<Longrightarrow> y < p + n \<Longrightarrow>
    htfh_run (a\<lparr>bytes_at := (bytes_at a)(y := v)\<rparr>) M"

section \<open>The invariant of all runs\<close>

theorem htfh_run_ok: "htfh_run a M \<Longrightarrow> \<exists>bs L. run_ok a M bs L"
proof (induction rule: htfh_run.induct)
  case (created r n l e a e')
  then obtain a0 where a0: "htfh_create True l r e n = Inr (Some a0, e')"
    "htfh_ok a0 [(n - 6296, True)] (first_lists (r + 6272) (n - 6296))" "lk_mode (mutex a0) = Unlocked"
    using htfh_create_ok [OF created(1-3), of e] by auto
  then have "a0 = a" using created(4) by simp
  moreover have "tracks (pool_start a) [(n - 6296, True)] Map.empty" by (simp add: tracked_def)
  ultimately show ?case using a0 unfolding run_ok_def live_ok_def by blast
next
  case (allocated a M n p a')
  then obtain bs L where "run_ok a M bs L" by blast
  from run_malloc [OF this allocated(2)] allocated(3) show ?case by auto
next
  case (freed a M p r a')
  then obtain bs L where "run_ok a M bs L" by blast
  then obtain a1 bs' L' where "htfh_free a p = Inr (0, a1)" "run_ok a1 (M(p := None)) bs' L'" using run_free [OF _ freed(2)] by blast
  moreover from this have "a1 = a'" using freed(3) by simp
  ultimately show ?case by blast
next
  case (freed_null a M r a')
  then obtain bs L where ok: "run_ok a M bs L" by blast
  then have h: "htfh_ok a bs L" by (rule run_okD(1))
  have "a' = a\<lparr>mutex := cycled (mutex a)\<rparr>" using htfh_free_null [OF h] freed_null(2) by simp
  then have "run_ok a' M bs L" using ok cycled_mode by (simp add: run_ok_def live_ok_def htfh_ok_def cycled_def lock_good_def)
  then show ?case by blast
next
  case (cleared a M count bytes p a')
  then obtain bs L where ok: "run_ok a M bs L" by blast
  obtain q a1 bs' L' where "htfh_calloc a count bytes = Inr (q, a1)" "run_ok a1 (if q = NULL then M else M(q \<mapsto> usize (count * bytes))) bs' L'"
    using run_calloc [OF ok refl cleared(2)] by blast
  moreover from this have "q = p" "a1 = a'" using cleared(3) by simp_all
  ultimately show ?case by blast
next
  case (resized a M p m n q a')
  then obtain bs L where ok: "run_ok a M bs L" by blast
  obtain q1 a1 where r: "htfh_realloc a p n = Inr (q1, a1)"
    "q1 \<noteq> NULL \<longrightarrow> (\<exists>bs' L'. run_ok a1 ((M(p := None))(q1 \<mapsto> n)) bs' L')"
    using htfh_realloc_ok [OF ok resized(2-4)] by blast
  then have "q1 = q" "a1 = a'" using resized(5) by simp_all
  then show ?case using r(2) resized(6) by blast
next
  case (aligned a M k n p a')
  then obtain bs L where ok: "run_ok a M bs L" by blast
  obtain q a1 where "htfh_memalign a (2 ^ k) n = Inr (q, a1)" "q \<noteq> NULL \<longrightarrow> (\<exists>bs' L'. run_ok a1 (M(q \<mapsto> n)) bs' L')"
    using run_memalign [OF ok aligned(3,2)] by blast
  moreover from this have "q = p" "a1 = a'" using aligned(4) by simp_all
  ultimately show ?case using aligned(5) by blast
next
  case (written a M p n y v)
  then obtain bs L where ok: "run_ok a M bs L" by blast
  then have "tracks (pool_start a) bs M" by (rule run_okD(3))
  from tracks_bytes [OF this written(2-4)] have "y \<in> used_bytes (pool_start a) bs" .
  then have "run_ok (a\<lparr>bytes_at := (bytes_at a)(y := v)\<rparr>) M bs L"
    using ok heap_write by (simp add: run_ok_def live_ok_def htfh_ok_def pool_start_def)
  then show ?case by blast
qed

text \<open>The allocator satisfies the interface.\<close>

interpretation htfh: block_allocator htfh_run htfh_malloc htfh_free bytes_at "2 ^ 64 - 4"
proof
  fix s M and n p :: nat and s'
  assume r: "htfh_run s M" and n: "n \<le> 2 ^ 64 - 4"
  then have n': "n + 4 \<le> 2 ^ 64" by simp
  obtain bs L where ok: "run_ok s M bs L" using htfh_run_ok [OF r] by blast
  note m = run_malloc [OF ok n']
  show "\<exists>p s'. htfh_malloc s n = Inr (p, s')" using m by blast
  assume e: "htfh_malloc s n = Inr (p, s')"
  show "htfh_run s' (if p = 0 then M else M(p \<mapsto> n))" by (rule htfh_run.allocated [OF r n' e])
  show "p \<notin> dom M" if "p \<noteq> 0" using m e that by auto
  have t: "tracks (pool_start s) bs M" by (rule run_okD(3) [OF ok])
  show "same_blocks M (bytes_at s) (bytes_at s')" using m e tracks_bytes [OF t] unfolding same_blocks_def by auto
next
  fix s M p s' and r :: int
  assume h: "htfh_run s M" and p: "p \<in> dom M"
  obtain bs L where ok: "run_ok s M bs L" using htfh_run_ok [OF h] by blast
  note f = run_free [OF ok p]
  show "\<exists>s'. htfh_free s p = Inr (0, s')" using f by blast
  assume e: "htfh_free s p = Inr (r, s')"
  show "htfh_run s' (M(p := None))" by (rule htfh_run.freed [OF h p e])
  show "same_blocks (M(p := None)) (bytes_at s) (bytes_at s')" using f e by auto
next
  fix s M
  assume "htfh_run s M"
  then obtain bs L where "run_ok s M bs L" using htfh_run_ok by blast
  then show "separate M" using run_separate(4) unfolding separate_def by blast
qed

end
