(* ===== verification/HTFH_Properties.thy ===== *)
theory HTFH_Properties
  imports HTFH_Runs
begin

text \<open>
  The properties of the HTFH allocator, over the reachable states of \<open>HTFH_Runs\<close>, with
  witnesses on small heaps.
\<close>

section \<open>Facts for the properties\<close>

text \<open>Rounding up to a class wastes at most one part in 32.\<close>

lemma class_step: "32 \<le> c \<Longrightarrow> class_base (Suc c) \<le> class_base c + class_base c div 32"
proof -
  assume c: "32 \<le> c"
  let ?t = "c div 32 + 1" and ?j = "c mod 32"
  have b: "class_base c = (32 + ?j) * 2 ^ ?t" using c by (simp add: class_base_def)
  have "class_base (Suc c) = (32 + ?j) * 2 ^ ?t + 2 ^ ?t"
  proof (cases "?j = 31")
    case True
    then have "Suc c div 32 = Suc (c div 32)" "Suc c mod 32 = 0" by (simp_all add: div_Suc mod_Suc)
    with c True show ?thesis by (simp add: class_base_def)
  next
    case False
    then have "Suc c div 32 = c div 32" "Suc c mod 32 = Suc ?j" by (simp_all add: div_Suc mod_Suc)
    with c show ?thesis by (simp add: class_base_def algebra_simps)
  qed
  moreover have "2 ^ ?t \<le> class_base c div 32"
    unfolding b by (simp add: less_eq_div_iff_mult_less_eq del: power_Suc)
  ultimately show ?thesis using b by simp
qed

lemma least_class_bound:
  assumes "4 dvd m" and "24 \<le> m" and c: "m \<le> class_base c" "\<And>c'. m \<le> class_base c' \<Longrightarrow> c \<le> c'"
  shows "class_base c \<le> m + m div 32"
proof (cases c)
  case (Suc d)
  have lt: "class_base d < m" using c(2) [of d] Suc by (cases "m \<le> class_base d") simp_all
  show ?thesis
  proof (cases "32 \<le> d")
    case True
    have "class_base d div 32 \<le> m div 32" using lt by (intro div_le_mono) simp
    then show ?thesis using class_step [OF True] lt Suc by simp
  next
    case False
    then have "class_base d = 4 * d" "class_base (Suc d) = 4 * Suc d"
      by (simp_all add: class_base_def, cases "d = 31", simp_all)
    then show ?thesis using lt Suc assms(1) by (auto elim!: dvdE)
  qed
qed (simp add: class_base_def)

text \<open>A free block at the end of the pool serves the next request.\<close>

lemma last_block_serves:
  assumes h: "htfh_ok a (us @ [(s, True)]) L" and us: "\<forall>(t, f) \<in> set us. \<not> f"
    and n: "0 < n" "round_request n + round_request n div 32 \<le> s"
  shows "\<exists>a' L'. htfh_malloc a n = Inr (end_of (pool_start a) us + 16, a') \<and> htfh_ok a' (us @ carve (round_request n) s) L'
    \<and> heap a' = heap a \<and> heap_size a' = heap_size a"
proof -
  let ?m = "round_request n" and ?bs = "us @ [(s, True)]"
  note f = round_request_facts [of n]
  have st: "heap_st a ?bs L {}" using h by (simp add: htfh_ok_def)
  have pl: "(end_of (pool_start a) us, s, True) \<in> set (places (pool_start a) ?bs)" by (rule heap_place)
  have lt: "s < 2 ^ 30" by (rule place_facts(4) [OF heap_stD(1) [OF st] pl])
  have n64: "n + 4 \<le> 2 ^ 64" using f(1) n(2) lt by simp
  have nofit: "\<not> no_fit (pool_start a) ?bs ?m"
  proof
    assume "no_fit (pool_start a) ?bs ?m"
    then obtain c where c: "?m \<le> class_base c" "\<And>c'. ?m \<le> class_base c' \<Longrightarrow> c \<le> c'"
      "\<And>x s. (x, s, True) \<in> set (places (pool_start a) ?bs) \<Longrightarrow> s < class_base c" unfolding no_fit_def by blast
    have "class_base c \<le> ?m + ?m div 32" by (rule least_class_bound [OF f(2,3) c(1,2)])
    then show False using c(3) [OF pl] n(2) by simp
  qed
  from htfh_malloc_ok [OF h n64 refl] show ?thesis
  proof (rule disjE, goal_cases)
    case 1
    then show ?thesis using nofit n lt by auto
  next
    case 2
    then obtain us' s' ws' a' L' where b: "?bs = us' @ (s', True) # ws'" "htfh_malloc a n = Inr (end_of (pool_start a) us' + 16, a')"
      "htfh_ok a' (us' @ carve ?m s' @ ws') L'" "heap a' = heap a" "heap_size a' = heap_size a" by blast
    have "us' = us \<and> s' = s \<and> ws' = []"
    proof (cases ws' rule: rev_cases)
      case (snoc zs z)
      then have "us = us' @ (s', True) # zs" using b(1) by simp
      then show ?thesis using us by auto
    qed (use b(1) in simp)
    then show ?thesis using b(2-) by auto
  qed
qed

text \<open>With nothing handed out the pool is one free block.\<close>

lemma empty_pool:
  assumes ok: "run_ok a Map.empty bs L" and big: "6320 \<le> heap_size a"
  shows "bs = [(heap_size a - 6296, True)]"
proof -
  have h: "heap_st a bs L {}" and n: "no_adj False bs" and t: "tracks (pool_start a) bs Map.empty"
    using ok by (simp_all add: run_ok_def live_ok_def htfh_ok_def)
  have free: "f" if sf: "(s, f) \<in> set bs" for s f
  proof (rule ccontr)
    assume nf: "\<not> f"
    obtain us ws where "bs = us @ (s, f) # ws" using split_list [OF sf] by blast
    then have "(end_of (pool_start a) us, s) \<in> used_set (pool_start a) bs" using nf by simp
    from trackedD(2) [OF t this] show False by simp
  qed
  have e: "end_of (pool_start a) bs + 16 = heap a + heap_size a" "pool_start a = heap a + 6272"
    using region_okD(8,11) [OF heap_stD(1) [OF h]] by simp_all
  show ?thesis
  proof (cases bs)
    case Nil
    then show ?thesis using e big by simp
  next
    case (Cons x cs)
    obtain s f where x: "x = (s, f)" by fastforce
    have "f" using free [of s f] Cons x by simp
    moreover have "cs = []"
    proof (cases cs)
      case (Cons y ds)
      obtain t g where "y = (t, g)" by fastforce
      then show ?thesis using free [of t g] n \<open>bs = x # cs\<close> x Cons \<open>f\<close> by simp
    qed simp
    ultimately show ?thesis using e \<open>bs = x # cs\<close> x by auto
  qed
qed

lemma empty_pool_malloc:
  assumes run: "htfh_run a Map.empty" and n: "0 < n" "round_request n + round_request n div 32 \<le> heap_size a - 6296"
  shows "\<exists>a'. htfh_malloc a n = Inr (heap a + 6288, a')"
proof -
  obtain bs L where ok: "run_ok a Map.empty bs L" using htfh_run_ok [OF run] by blast
  have "6320 \<le> heap_size a" using n(2) round_request_facts(3) [of n] by simp
  then have "bs = [] @ [(heap_size a - 6296, True)]" using empty_pool [OF ok] by simp
  then have h: "htfh_ok a ([] @ [(heap_size a - 6296, True)]) L" using ok by (simp add: run_ok_def live_ok_def)
  show ?thesis using last_block_serves [OF h _ n] by (auto simp: pool_start_def)
qed

text \<open>A run for the witnesses.\<close>

lemma small_create:
  "\<exists>a e'. htfh_create True small_lock 4096 NONE 8192 = Inr (Some a, e') \<and> htfh_run a Map.empty \<and> heap a = 4096 \<and> heap_size a = 8192"
proof -
  have r: "good_region 4096 8192" by (simp add: good_region_def)
  have l: "lock_good small_lock" "lk_mode small_lock = Unlocked" by (simp_all add: small_lock_def lock_good_def)
  obtain a e' where a: "htfh_create True small_lock 4096 NONE 8192 = Inr (Some a, e')" "heap a = 4096" "heap_size a = 8192"
    using htfh_create_ok [OF r l] by blast
  then show ?thesis using htfh_run.created [OF r l a(1)] by blast
qed

lemma small_malloc:
  "\<exists>a a'. htfh_run a Map.empty \<and> heap a = 4096 \<and> heap_size a = 8192 \<and> htfh_malloc a 100 = Inr (10384, a') \<and> htfh_run a' [10384 \<mapsto> 100]"
proof -
  obtain a where a: "htfh_run a Map.empty" "heap a = 4096" "heap_size a = 8192" using small_create by blast
  obtain a' where m: "htfh_malloc a 100 = Inr (10384, a')"
    using empty_pool_malloc [OF a(1), of 100] a(2,3) by (auto simp: round_request_def)
  have "htfh_run a' [10384 \<mapsto> 100]" using htfh_run.allocated [OF a(1) _ m] by simp
  with a m show ?thesis by blast
qed

text \<open>Three blocks of which the middle one has been released.\<close>

lemma small_gap:
  "\<exists>a L. htfh_run a [10384 \<mapsto> 100, 10600 \<mapsto> 100] \<and> htfh_ok a [(100, False), (100, True), (100, False), (1572, True)] L \<and> heap a = 4096"
proof -
  obtain a0 where a0: "htfh_run a0 Map.empty" "heap a0 = 4096" "heap_size a0 = 8192" using small_create by blast
  obtain bs L0 where ok: "run_ok a0 Map.empty bs L0" using htfh_run_ok [OF a0(1)] by blast
  have h0: "htfh_ok a0 ([] @ [(1896, True)]) L0" using ok empty_pool [OF ok] a0(3) by (simp add: run_ok_def live_ok_def)
  have r: "round_request 100 = 100" by (simp add: round_request_def)
  obtain a1 L1 where m1: "htfh_malloc a0 100 = Inr (10384, a1)" "htfh_ok a1 ([(100, False)] @ [(1788, True)]) L1" "heap a1 = 4096"
    using last_block_serves [OF h0, of 100] a0(2) by (auto simp: r carve_def pool_start_def)
  obtain a2 L2 where m2: "htfh_malloc a1 100 = Inr (10492, a2)" "htfh_ok a2 ([(100, False), (100, False)] @ [(1680, True)]) L2" "heap a2 = 4096"
    using last_block_serves [OF m1(2), of 100] m1(3) by (auto simp: r carve_def pool_start_def)
  obtain a3 L3 where m3: "htfh_malloc a2 100 = Inr (10600, a3)"
    "htfh_ok a3 ([(100, False), (100, False), (100, False)] @ [(1572, True)]) L3" "heap a3 = 4096"
    using last_block_serves [OF m2(2), of 100] m2(3) by (auto simp: r carve_def pool_start_def)
  have h3: "htfh_ok a3 ([(100, False)] @ (100, False) # [(100, False), (1572, True)]) L3" using m3(2) by simp
  obtain a4 L4 where f: "htfh_free a3 10492 = Inr (0, a4)" "htfh_ok a4 [(100, False), (100, True), (100, False), (1572, True)] L4" "heap a4 = 4096"
    using htfh_free_ok [OF h3 refl] m3(3) by (auto simp: pool_start_def)
  have "htfh_run a1 [10384 \<mapsto> 100]" using htfh_run.allocated [OF a0(1) _ m1(1)] by simp
  then have "htfh_run a2 [10384 \<mapsto> 100, 10492 \<mapsto> 100]" using htfh_run.allocated [OF _ _ m2(1)] by fastforce
  then have "htfh_run a3 [10384 \<mapsto> 100, 10492 \<mapsto> 100, 10600 \<mapsto> 100]" using htfh_run.allocated [OF _ _ m3(1)] by fastforce
  then have "htfh_run a4 ([10384 \<mapsto> 100, 10492 \<mapsto> 100, 10600 \<mapsto> 100](10492 := None))" by (rule htfh_run.freed [OF _ _ f(1)]) simp
  moreover have "[10384 \<mapsto> 100, 10492 \<mapsto> 100, 10600 \<mapsto> 100](10492 := None) = [(10384 :: nat) \<mapsto> 100, 10600 \<mapsto> (100 :: nat)]"
    by (auto simp: fun_eq_iff)
  ultimately show ?thesis using f(2,3) by auto
qed

text \<open>Taking a block and giving it back restores the chain and the lists.\<close>

lemma carve_restored:
  assumes L: "L (size_class s) \<noteq> []" "b = hd (L (size_class s))"
  shows "(L(size_class s := tl (L (size_class s))))(size_class s := b # tl (L (size_class s))) = L"
  using assms by (cases "L (size_class s)") auto

lemma malloc_free_restores:
  assumes ok: "htfh_ok a bs L" and n: "n + 4 \<le> 2 ^ 64" and m: "htfh_malloc a n = Inr (p, a1)" "p \<noteq> NULL"
    and f: "htfh_free a1 p = Inr (r, a2)"
  shows "r = 0 \<and> htfh_ok a2 bs L \<and> pool_start a2 = pool_start a"
proof -
  obtain us s ws b where b: "bs = us @ (s, True) # ws" "b = end_of (pool_start a) us" "round_request n \<le> s"
    "L (size_class s) \<noteq> []" "b = hd (L (size_class s))" "p = b + 16" "heap a1 = heap a"
    and h1: "htfh_ok a1 (us @ carve (round_request n) s @ ws)
        (keep_rest (L(size_class s := tl (L (size_class s)))) b (round_request n) s)"
    using htfh_malloc_ok [OF ok n refl] m by auto
  have na: "no_adj False (us @ (s, True) # ws)" using ok b(1) by (simp add: htfh_ok_def)
  then have nf: "\<not> free_of False us" "no_adj True ws" by (auto simp: no_adj_append)
  have nl: "us \<noteq> us' @ [(t, True)]" for us' t using nf(1) by auto
  have nw: "ws \<noteq> (t, True) # ws'" for t ws' using nf(2) by auto
  have p1: "b = end_of (pool_start a1) us" using b(2,7) by (simp add: pool_start_def)
  let ?m = "round_request n" and ?L = "L(size_class s := tl (L (size_class s)))"
  show ?thesis
  proof (cases "?m + 32 \<le> s")
    case True
    let ?k = "s - ?m - 8"
    have h2: "htfh_ok a1 (us @ (?m, False) # (?k, True) # ws) (?L(size_class ?k := (b + ?m + 8) # ?L (size_class ?k)))"
      using h1 True by (simp add: carve_def keep_rest_def)
    have sum: "?m + ?k + 8 = s" using True by simp
    let ?L1 = "?L(size_class ?k := (b + ?m + 8) # ?L (size_class ?k))"
    from htfh_free_ok [OF h2 p1] obtain a' us' s1 s2 ws' L1 L2 b' where fr: "htfh_free a1 (b + 16) = Inr (0, a')"
      and ho: "htfh_ok a' (us' @ (s2, True) # ws') (L2(size_class s2 := b' # L2 (size_class s2)))"
      and b': "b' = end_of (pool_start a1) us'" and m1: "us' = us \<and> s1 = ?m \<and> L1 = ?L1 \<or> (\<exists>t. us = us' @ [(t, True)])"
      and m2: "(\<nexists>t ws''. (?k, True) # ws = (t, True) # ws'')
        \<or> (\<exists>t. (?k, True) # ws = (t, True) # ws' \<and> s2 = s1 + t + 8 \<and> L2 = L1(size_class t := remove1 (b' + s1 + 8) (L1 (size_class t))))"
      and hp: "heap a' = heap a1" by (elim exE conjE) blast
    have e1: "us' = us" "s1 = ?m" "L1 = ?L1" using m1 nl by blast+
    have bb: "b' = b" using b' e1(1) p1 by simp
    have e2: "ws' = ws" "s2 = s" "L2 = ?L1(size_class ?k := remove1 (b + ?m + 8) (?L1 (size_class ?k)))"
      using m2 True unfolding e1 bb by auto
    have "L2 = ?L" unfolding e2(3) by (auto simp: fun_eq_iff)
    then have "htfh_ok a' bs L" using ho carve_restored [of L s b, OF b(4,5)] unfolding e1(1) e2(1,2) bb b(1) by simp
    then show ?thesis using f fr hp b(6,7) by (simp add: pool_start_def)
  next
    case False
    have h2: "htfh_ok a1 (us @ (s, False) # ws) ?L" using h1 False by (simp add: carve_def keep_rest_def)
    from htfh_free_ok [OF h2 p1] obtain a' us' s1 s2 ws' L1 L2 b' where fr: "htfh_free a1 (b + 16) = Inr (0, a')"
      and ho: "htfh_ok a' (us' @ (s2, True) # ws') (L2(size_class s2 := b' # L2 (size_class s2)))"
      and b': "b' = end_of (pool_start a1) us'" and m1: "us' = us \<and> s1 = s \<and> L1 = ?L \<or> (\<exists>t. us = us' @ [(t, True)])"
      and m2: "ws' = ws \<and> s2 = s1 \<and> L2 = L1 \<or> (\<exists>t. ws = (t, True) # ws')"
      and hp: "heap a' = heap a1" by (elim exE conjE) blast
    have e: "us' = us" "s1 = s" "L1 = ?L" "ws' = ws" "s2 = s1" "L2 = L1" using m1 m2 nl nw by blast+
    have bb: "b' = b" using b' e(1) p1 by simp
    have "htfh_ok a' bs L" using ho carve_restored [of L s b, OF b(4,5)] unfolding bb e b(1) by simp
    then show ?thesis using f fr hp b(6,7) by (simp add: pool_start_def)
  qed
qed

lemma first_fit_unique:
  assumes "first_fit L m s" and "first_fit L m t" and "L (size_class s) \<noteq> []" and "L (size_class t) \<noteq> []"
  shows "size_class s = size_class t"
proof -
  obtain c where c: "m \<le> class_base c" "\<And>c'. m \<le> class_base c' \<Longrightarrow> c \<le> c'" "c \<le> size_class s"
    "\<And>c'. c' < size_class s \<Longrightarrow> c \<le> c' \<Longrightarrow> L c' = []" using assms(1) unfolding first_fit_def by blast
  obtain d where d: "m \<le> class_base d" "\<And>c'. m \<le> class_base c' \<Longrightarrow> d \<le> c'" "d \<le> size_class t"
    "\<And>c'. c' < size_class t \<Longrightarrow> d \<le> c' \<Longrightarrow> L c' = []" using assms(2) unfolding first_fit_def by blast
  have "c = d" using c(2) [OF d(1)] d(2) [OF c(1)] by simp
  then show ?thesis using c(3,4) d(3,4) assms(3,4) by (metis linorder_neqE_nat)
qed

lemma fit_contra:
  assumes "no_fit p bs m" and "first_fit L m s" and "(x, s, True) \<in> set (places p bs)"
  shows False
proof -
  obtain c where c: "m \<le> class_base c" "\<And>c'. m \<le> class_base c' \<Longrightarrow> c \<le> c'" "s < class_base c"
    using assms(1,3) unfolding no_fit_def by blast
  obtain d where d: "m \<le> class_base d" "\<And>c'. m \<le> class_base c' \<Longrightarrow> d \<le> c'" "d \<le> size_class s"
    using assms(2) unfolding first_fit_def by blast
  have "c = d" using c(2) [OF d(1)] d(2) [OF c(1)] by simp
  then show False using d(3) c(3) by (simp add: class_base_iff)
qed

text \<open>The address \<open>htfh_malloc\<close> returns depends on the chain and the lists only.\<close>

lemma malloc_determined:
  assumes a: "htfh_ok a bs L" and a': "htfh_ok a' bs L" "pool_start a' = pool_start a" and n: "n + 4 \<le> 2 ^ 64"
    and m: "htfh_malloc a n = Inr (p, a1)" "p \<noteq> NULL"
  shows "\<exists>a2. htfh_malloc a' n = Inr (p, a2)"
proof -
  obtain us s ws b where b: "bs = us @ (s, True) # ws" "b = end_of (pool_start a) us" "n \<noteq> 0" "L (size_class s) \<noteq> []"
    "b = hd (L (size_class s))" "first_fit L (round_request n) s" "p = b + 16" "round_request n \<le> s"
    using htfh_malloc_ok [OF a n refl] m by auto
  have pl: "(b, s, True) \<in> set (places (pool_start a) bs)" unfolding b(1,2) by (rule heap_place)
  have "s < 2 ^ 30" using place_facts(4) [OF heap_stD(1) pl] a unfolding htfh_ok_def by blast
  then have lt: "round_request n < 2 ^ 30" using b(8) by simp
  from htfh_malloc_ok [OF a'(1) n refl] show ?thesis
  proof (rule disjE, goal_cases)
    case 1
    then have "no_fit (pool_start a) bs (round_request n)" using b(3) lt a'(2) by auto
    from fit_contra [OF this b(6) pl] show ?thesis ..
  next
    case 2
    then obtain s' b' a2 where c: "L (size_class s') \<noteq> []" "b' = hd (L (size_class s'))" "first_fit L (round_request n) s'"
      "htfh_malloc a' n = Inr (b' + 16, a2)" by blast
    then have "size_class s = size_class s'" using first_fit_unique b(4,6) by blast
    then show ?thesis using b(5,7) c by auto
  qed
qed

lemma adjust_request_errno: "\<exists>x e. adjust_request_size a n align = (x, a\<lparr>alloc_errno := e\<rparr>)"
proof -
  obtain x e where "align_up a n align = (x, a\<lparr>alloc_errno := e\<rparr>)"
  proof (cases "align AND usize_dec align \<noteq> 0")
    case True
    then show ?thesis by (intro that [of 0 ALIGN_POWER_OF_TWO]) (simp add: align_up_def set_alloc_errno_def)
  next
    case False
    then have "align_up a n align = (usize (n + usize_dec align) AND usize_not (usize_dec align), a\<lparr>alloc_errno := alloc_errno a\<rparr>)"
      by (simp add: align_up_def)
    then show ?thesis by (rule that)
  qed
  then have e: "adjust_request_size a n align = (if x < block_size_max then max x block_size_min else 0, a\<lparr>alloc_errno := e\<rparr>)"
    if "n \<noteq> 0" using that by (simp add: adjust_request_size_def)
  show ?thesis
  proof (cases "n = 0")
    case True
    then show ?thesis by (intro exI [of _ 0] exI [of _ "alloc_errno a"]) (simp add: adjust_request_size_def)
  qed (use e in blast)
qed

lemma small_prev_used:
  assumes a: "htfh_run a0 Map.empty" "heap a0 = 4096" "heap_size a0 = 8192" "htfh_malloc a0 100 = Inr (10384, a)" "htfh_run a [10384 \<mapsto> 100]"
  shows "block_is_prev_free a (10384 - 16) = Inr False"
proof -
  obtain bs L where ok: "run_ok a0 Map.empty bs L" using htfh_run_ok [OF a(1)] by blast
  have bs: "bs = [(1896, True)]" using empty_pool [OF ok] a(3) by simp
  have h: "htfh_ok a0 bs L" using ok by (simp add: run_ok_def live_ok_def)
  have ps: "pool_start a0 = 10368" using a(2) by (simp add: pool_start_def)
  from htfh_malloc_ok [OF h _ refl, of 100] a(4) obtain us s ws L' where m: "bs = us @ (s, True) # ws"
    "htfh_ok a (us @ carve (round_request 100) s @ ws) L'" "heap a = heap a0" by auto
  then have us: "us = []" using bs by (cases us) simp_all
  obtain k ws' where c: "carve (round_request 100) s @ ws = (k, False) # ws'"
    by (cases "round_request 100 + 32 \<le> s") (simp_all add: carve_def)
  have st: "heap_st a ([] @ (k, False) # ws') L' {}" using m(2) us c by (simp add: htfh_ok_def)
  obtain t g vs where nx: "ws' @ [(0, False)] = (t, g) # vs" using next_block by blast
  have "hdr_at a 10368 k False False" using heap_block(1) [OF st refl nx] m(3) ps by (simp add: pool_start_def)
  then show ?thesis by (simp add: hdr_reads)
qed

text \<open>
  For every size that fits the block \<open>htfh_realloc\<close> returns \<open>NULL\<close> with \<open>BLOCK_NOT_FREE\<close>, since
  \<open>controller_block_trim_used\<close> refuses blocks in use.
\<close>

lemma htfh_realloc_in_place_fails:
  assumes "htfh_run a M" and "M p = Some n" and "0 < k" and "k \<le> n"
  shows "\<exists>a'. htfh_realloc a p k = Inr (NULL, a') \<and> alloc_errno a' = BLOCK_NOT_FREE \<and> bytes_at a' = bytes_at a
    \<and> lk_mode (mutex a') = Unlocked"
proof -
  obtain bs L where ok: "run_ok a M bs L" using htfh_run_ok [OF assms(1)] by blast
  obtain us s ws where b: "bs = us @ (s, False) # ws" "p = end_of (pool_start a) us + 16" "n \<le> s"
    using run_live [OF ok assms(2)] by blast
  have h0: "heap_st a bs L {}" and g: "lock_good (mutex a)" and un: "lk_mode (mutex a) = Unlocked"
    using ok by (simp_all add: run_ok_def live_ok_def htfh_ok_def)
  have h: "heap_st (held a) (us @ (s, False) # ws) L {}" using h0 by (simp add: b(1))
  have s: "s < 2 ^ 30" "4 dvd s" "24 \<le> s" using next_block heap_block(3-5) [OF h refl] by blast+
  have "adjusted k \<le> s" using adjusted_less [of s k] s(2,3) assms(4) b(3) by (meson not_less order.trans order_less_le_trans)
  moreover have "k + 4 \<le> 2 ^ 64" using assms(4) b(3) s(1) by simp
  ultimately show ?thesis
    using block_realloc_in_place [OF h refl] held_inner [OF g un] realloc_held [OF g heap_used_place(4,5) [OF h0 b(1,2)] assms(3)] b(2)
    by (fastforce simp: held_def)
qed

text \<open>What lies behind a block in use when the next is free and the one after it is in use.\<close>

lemma free_between:
  assumes ok: "run_ok a M bs L" and M: "p \<in> dom M" "p + s + t + 16 \<in> dom M"
    and r: "block_size a (p - 16) = Inr s" "block_is_free a (p + s - 8) = Inr True" "block_size a (p + s - 8) = Inr t"
  shows "\<exists>us u ws. bs = us @ (s, False) # (t, True) # (u, False) # ws \<and> p = end_of (pool_start a) us + 16"
proof -
  obtain m k where M: "M p = Some m" "M (p + s + t + 16) = Some k" using M by auto
  obtain us s' ws where b: "bs = us @ (s', False) # ws" "p = end_of (pool_start a) us + 16" using run_live [OF ok M(1)] by blast
  let ?b = "end_of (pool_start a) us"
  have h: "heap_st a (us @ (s', False) # ws) L {}" and na: "no_adj False bs"
    using ok by (simp_all add: run_ok_def live_ok_def htfh_ok_def b(1))
  obtain t' g' vs where nx: "ws @ [(0, False)] = (t', g') # vs" using next_block by blast
  note hb = heap_block [OF h refl nx]
  have s': "s' = s" using r(1) b(2) hdr_reads(1) [OF hb(1)] by simp
  have x: "p + s - 8 = ?b + s' + 8" using b(2) s' by simp
  have t': "t' = t" "g'" using r(2,3) unfolding x by (simp_all add: hdr_reads [OF hb(2)])
  then obtain ws' where ws: "ws = (t, True) # ws'" using nx by (cases ws) auto
  obtain us2 k' ws2 where q: "bs = us2 @ (k', False) # ws2" "p + s + t + 16 = end_of (pool_start a) us2 + 16" using run_live [OF ok M(2)] by blast
  have h': "heap_st a bs L {}" using h b(1) by simp
  obtain t2 g2 vs2 where nx2: "ws2 @ [(0, False)] = (t2, g2) # vs2" using next_block by blast
  have kp: "24 \<le> k'" using heap_block(3) [OF h' [unfolded q(1)] refl nx2] .
  have "ws' \<noteq> []"
  proof
    assume "ws' = []"
    then have "end_of (pool_start a) bs = p + s + t" using b ws s' by simp
    then have "p + s + t + 16 = heap a + heap_size a" using region_okD(8,11) [OF heap_stD(1) [OF h']] by simp
    then show False using heap_used_place(2) [OF h' q] kp by simp
  qed
  then obtain u f ws3 where ws': "ws' = (u, f) # ws3" by (metis list.exhaust surj_pair)
  have "\<not> f" using na unfolding b(1) ws ws' by (simp add: no_adj_append)
  then show ?thesis using b ws ws' s' by auto
qed

text \<open>A released block of 64 bytes between blocks in use, at an address that is not a multiple of 8.\<close>

lemma small_gap_64:
  "\<exists>a L M. htfh_run a M \<and> htfh_ok a [(100, False), (64, True), (100, False), (1608, True)] L \<and> heap a = 4096 \<and> L (size_class 64) \<noteq> []"
proof -
  obtain a0 where a0: "htfh_run a0 Map.empty" "heap a0 = 4096" "heap_size a0 = 8192" using small_create by blast
  obtain bs L0 where ok: "run_ok a0 Map.empty bs L0" using htfh_run_ok [OF a0(1)] by blast
  have h0: "htfh_ok a0 ([] @ [(1896, True)]) L0" using ok empty_pool [OF ok] a0(3) by (simp add: run_ok_def live_ok_def)
  have r: "round_request 100 = 100" "round_request 64 = 64" by (simp_all add: round_request_def)
  obtain a1 L1 where m1: "htfh_malloc a0 100 = Inr (10384, a1)" "htfh_ok a1 ([(100, False)] @ [(1788, True)]) L1" "heap a1 = 4096"
    using last_block_serves [OF h0, of 100] a0(2) by (auto simp: r carve_def pool_start_def)
  obtain a2 L2 where m2: "htfh_malloc a1 64 = Inr (10492, a2)" "htfh_ok a2 ([(100, False), (64, False)] @ [(1716, True)]) L2" "heap a2 = 4096"
    using last_block_serves [OF m1(2), of 64] m1(3) by (auto simp: r carve_def pool_start_def)
  obtain a3 L3 where m3: "htfh_malloc a2 100 = Inr (10564, a3)"
    "htfh_ok a3 ([(100, False), (64, False), (100, False)] @ [(1608, True)]) L3" "heap a3 = 4096"
    using last_block_serves [OF m2(2), of 100] m2(3) by (auto simp: r carve_def pool_start_def)
  have h3: "htfh_ok a3 ([(100, False)] @ (64, False) # [(100, False), (1608, True)]) L3" using m3(2) by simp
  obtain a4 L4 where f: "htfh_free a3 10492 = Inr (0, a4)" "htfh_ok a4 [(100, False), (64, True), (100, False), (1608, True)] L4" "heap a4 = 4096"
    "L4 (size_class 64) \<noteq> []"
    using htfh_free_ok [OF h3 refl] m3(3) by (auto simp: pool_start_def)
  have "htfh_run a1 [10384 \<mapsto> 100]" using htfh_run.allocated [OF a0(1) _ m1(1)] by simp
  then have "htfh_run a2 [10384 \<mapsto> 100, 10492 \<mapsto> 64]" using htfh_run.allocated [OF _ _ m2(1)] by fastforce
  then have "htfh_run a3 [10384 \<mapsto> 100, 10492 \<mapsto> 64, 10564 \<mapsto> 100]" using htfh_run.allocated [OF _ _ m3(1)] by fastforce
  then have "htfh_run a4 ([10384 \<mapsto> 100, 10492 \<mapsto> 64, 10564 \<mapsto> 100](10492 := None))" by (rule htfh_run.freed [OF _ _ f(1)]) simp
  then show ?thesis using f(2-4) by blast
qed

lemma class_64: "class_base 16 = 64" "size_class 64 = 16" "size_class 1608 \<noteq> 16"
  using size_class_large(3) [of 1608] by (simp_all add: class_base_def size_class_def [of 64])

lemma finds_64:
  assumes h: "heap_st a [(100, False), (64, True), (100, False), (1608, True)] L {}" and L: "L (size_class 64) \<noteq> []"
  shows "\<exists>a' L'. controller_block_find_free a 64 = Inr (pool_start a + 108, a')
    \<and> heap_st a' ([(100, False)] @ (64, True) # [(100, False), (1608, True)]) L' {pool_start a + 108} \<and> pool_start a' = pool_start a \<and> mutex a' = mutex a"
proof -
  let ?bs = "[(100, False), (64, True), (100, False), (1608, True)]"
  have fit: "size_class s \<le> 16" if "first_fit L 64 s" for s
  proof (rule ccontr)
    assume s: "\<not> size_class s \<le> 16"
    obtain c where c: "\<And>c'. 64 \<le> class_base c' \<Longrightarrow> c \<le> c'" "\<And>c'. c' < size_class s \<Longrightarrow> c \<le> c' \<Longrightarrow> L c' = []"
      using \<open>first_fit L 64 s\<close> unfolding first_fit_def by blast
    have "c \<le> 16" using c(1) [of 16] class_64(1) by simp
    then show False using c(2) [of 16] s L class_64(2) by simp
  qed
  have pl: "(pool_start a + 108, 64, True) \<in> set (places (pool_start a) ?bs)" by simp
  have "\<not> no_fit (pool_start a) ?bs 64"
  proof
    assume "no_fit (pool_start a) ?bs 64"
    then obtain c where c: "\<And>c'. 64 \<le> class_base c' \<Longrightarrow> c \<le> c'" "64 < class_base c" using pl unfolding no_fit_def by blast
    have "c \<le> 16" using c(1) [of 16] class_64(1) by simp
    then show False using class_base_iff [of c 64] c(2) class_64(2) by simp
  qed
  then obtain us s ws a' b where b: "?bs = us @ (s, True) # ws" "b = end_of (pool_start a) us" "first_fit L 64 s" "64 \<le> s"
    "controller_block_find_free a 64 = Inr (b, a')" "heap_st a' ?bs (L(size_class s := tl (L (size_class s)))) {b}"
    "keeps (- used_bytes (pool_start a) ?bs) a a'"
    using heap_find [OF h, of 64] by auto
  have "(s, True) \<in> set ?bs" unfolding b(1) by simp
  moreover have "s \<noteq> 1608" using fit [OF b(3)] size_class_large(3) [of 1608] by auto
  ultimately have s: "s = 64" by auto
  then have "us = [(100, False)]" using b(1) by (auto simp: Cons_eq_append_conv)
  then have "b = pool_start a + 108" using b(2) by simp
  then show ?thesis using b(5,6) region_keeps(2) [OF b(7)] keepsD(1) [OF b(7)] by auto
qed

section \<open>Properties\<close>

text \<open>
  C2: whatever a client does, no call of the allocator faults, no release is refused, the mutex
  is free afterwards, and the memory the client holds at the end is aligned, inside the heap
  and without overlaps.
\<close>

theorem htfh_client_safe:
  assumes "good_region r n" and "lock_good l" and "lk_mode l = Unlocked" and "requests_ok (2 ^ 64 - 4) ops"
  shows "\<exists>a e' a' ps M. htfh_create True l r e n = Inr (Some a, e') \<and> client htfh_malloc htfh_free a [] ops = Inr (a', ps)
    \<and> set ps = dom M \<and> distinct ps \<and> separate M \<and> lk_mode (mutex a') = Unlocked
    \<and> (\<forall>p k. M p = Some k \<longrightarrow> 4 dvd p \<and> heap a' + 6288 \<le> p \<and> p + k \<le> heap a' + heap_size a')"
proof -
  obtain a e' where a: "htfh_create True l r e n = Inr (Some a, e')" using htfh_create_ok [OF assms(1-3)] by blast
  have run: "htfh_run a Map.empty" by (rule htfh_run.created [OF assms(1-3) a])
  obtain a' ps M where c: "client htfh_malloc htfh_free a [] ops = Inr (a', ps)" "htfh_run a' M" "set ps = dom M" "distinct ps"
    using htfh.client_safe [OF run _ _ assms(4), of "[]"] by auto
  obtain bs L where ok: "run_ok a' M bs L" using htfh_run_ok [OF c(2)] by blast
  have "lk_mode (mutex a') = Unlocked" using ok by (simp add: run_ok_def live_ok_def)
  with a c htfh.run_separate [OF c(2)] run_separate(1-3) [OF ok] show ?thesis by blast
qed

theorem htfh_client_safe_witness:
  "\<exists>a e' a' ps M. htfh_create True small_lock 4096 NONE 8192 = Inr (Some a, e')
    \<and> client htfh_malloc htfh_free a [] [Malloc 100, Malloc 200, Free 1, Malloc 5000] = Inr (a', ps) \<and> set ps = dom M \<and> separate M"
proof -
  have "good_region 4096 8192" "lock_good small_lock" "lk_mode small_lock = Unlocked"
    by (simp_all add: good_region_def small_lock_def lock_good_def)
  moreover have "requests_ok (2 ^ 64 - 4) [Malloc 100, Malloc 200, Free 1, Malloc 5000]" by (simp add: requests_ok_def)
  ultimately show ?thesis using htfh_client_safe [of 4096 8192 small_lock _ NONE] by blast
qed

text \<open>
  C3: in every reachable state \<open>htfh_malloc\<close> returns; what it returns is new, aligned, inside
  the heap and apart from all blocks in use, whose bytes it leaves alone, and it gives up only
  on an empty or oversized request or when no free block is as large as the size class of the
  request.
\<close>

theorem htfh_malloc_spec:
  assumes "htfh_run a M" and "n + 4 \<le> 2 ^ 64"
  shows "\<exists>p a'. htfh_malloc a n = Inr (p, a') \<and> same_blocks M (bytes_at a) (bytes_at a')
    \<and> (p \<noteq> NULL \<longrightarrow> p \<notin> dom M \<and> 4 dvd p \<and> heap a' + 6288 \<le> p \<and> p + n \<le> heap a' + heap_size a' \<and> separate (M(p \<mapsto> n)))
    \<and> (p = NULL \<longrightarrow> n = 0 \<or> 2 ^ 30 \<le> round_request n \<or>
         (\<exists>bs L. run_ok a M bs L \<and> no_fit (pool_start a) bs (round_request n)))"
proof -
  have n: "n \<le> 2 ^ 64 - 4" using assms(2) by simp
  obtain bs L where ok: "run_ok a M bs L" using htfh_run_ok [OF assms(1)] by blast
  obtain p a' bs' L' where m: "htfh_malloc a n = Inr (p, a')" "run_ok a' (if p = NULL then M else M(p \<mapsto> n)) bs' L'"
    "p = NULL \<longrightarrow> n = 0 \<or> 2 ^ 30 \<le> round_request n \<or> no_fit (pool_start a) bs (round_request n)"
    using run_malloc [OF ok assms(2)] by blast
  have "p \<notin> dom M \<and> 4 dvd p \<and> heap a' + 6288 \<le> p \<and> p + n \<le> heap a' + heap_size a' \<and> separate (M(p \<mapsto> n))" if p: "p \<noteq> NULL"
  proof -
    have ok': "run_ok a' (M(p \<mapsto> n)) bs' L'" using m(2) p by simp
    have "htfh_run a' (M(p \<mapsto> n))" using htfh.malloc_run [OF assms(1) n m(1)] p by simp
    from htfh.run_separate [OF this] show ?thesis
      using htfh.malloc_fresh [OF assms(1) n m(1) p] run_separate(1-3) [OF ok', of p n] by simp
  qed
  then show ?thesis using m(1,3) ok htfh.malloc_keeps [OF assms(1) n m(1)] by blast
qed

theorem htfh_malloc_spec_witness:
  "\<exists>a p a'. htfh_run a Map.empty \<and> htfh_malloc a 100 = Inr (p, a') \<and> (p \<noteq> NULL \<longrightarrow> 4 dvd p)"
proof -
  obtain a where a: "htfh_run a Map.empty" using small_create by blast
  then show ?thesis using htfh_malloc_spec [OF a, of 100] by auto
qed

text \<open>
  C28: releasing a block that is in use succeeds, keeps the invariant, and leaves the bytes of
  all other blocks alone.
\<close>

theorem htfh_free_spec:
  assumes "htfh_run a M" and "p \<in> dom M"
  shows "\<exists>a'. htfh_free a p = Inr (0, a') \<and> htfh_run a' (M(p := None)) \<and> same_blocks (M(p := None)) (bytes_at a) (bytes_at a')"
proof -
  obtain a' where "htfh_free a p = Inr (0, a')" using htfh.free_total [OF assms] by blast
  then show ?thesis using htfh.free_run [OF assms] htfh.free_keeps [OF assms] by blast
qed

theorem htfh_free_spec_witness:
  "\<exists>a a'. htfh_run a [10384 \<mapsto> 100] \<and> htfh_free a 10384 = Inr (0, a') \<and> htfh_run a' Map.empty"
proof -
  obtain a where a: "htfh_run a [10384 \<mapsto> 100]" using small_malloc by blast
  then show ?thesis using htfh_free_spec [OF a, of 10384] by auto
qed

text \<open>
  C29: in every reachable state \<open>htfh_calloc\<close> returns what \<open>htfh_malloc\<close> returns for the product of
  its arguments modulo \<open>2 ^ 64\<close>, cleared, and leaves all blocks in use alone: a product that
  overflows is not refused.
\<close>

theorem htfh_calloc_spec:
  assumes "htfh_run a M" and "usize (count * bytes) + 4 \<le> 2 ^ 64"
  shows "\<exists>p a1 a'. htfh_malloc a (usize (count * bytes)) = Inr (p, a1) \<and> htfh_calloc a count bytes = Inr (p, a')
    \<and> htfh_run a' (if p = NULL then M else M(p \<mapsto> usize (count * bytes))) \<and> same_blocks M (bytes_at a) (bytes_at a')
    \<and> (p \<noteq> NULL \<longrightarrow> p \<notin> dom M \<and> separate (M(p \<mapsto> usize (count * bytes))) \<and> (\<forall>i < usize (count * bytes). bytes_at a' (p + i) = 0))"
proof -
  obtain bs L where ok: "run_ok a M bs L" using htfh_run_ok [OF assms(1)] by blast
  obtain p a1 a' where c: "htfh_malloc a (usize (count * bytes)) = Inr (p, a1)" "htfh_calloc a count bytes = Inr (p, a')"
    "same_blocks M (bytes_at a) (bytes_at a')" "p \<noteq> NULL \<longrightarrow> p \<notin> dom M \<and> (\<forall>i < usize (count * bytes). bytes_at a' (p + i) = 0)"
    using run_calloc [OF ok refl assms(2)] by blast
  have run: "htfh_run a' (if p = NULL then M else M(p \<mapsto> usize (count * bytes)))" by (rule htfh_run.cleared [OF assms c(2)])
  then have "separate (M(p \<mapsto> usize (count * bytes)))" if "p \<noteq> NULL" using htfh.run_separate [OF run] that by simp
  with c run show ?thesis by blast
qed

theorem htfh_calloc_spec_witness:
  "\<exists>a a'. htfh_run a Map.empty \<and> htfh_calloc a (2 ^ 63 + 1) 2 = Inr (10384, a') \<and> htfh_run a' [10384 \<mapsto> 2]"
proof -
  obtain a where a: "htfh_run a Map.empty" "heap a = 4096" "heap_size a = 8192" using small_create by blast
  have u: "usize ((2 ^ 63 + 1) * 2) = 2" by (simp add: usize_def)
  obtain a1 where m: "htfh_malloc a 2 = Inr (10384, a1)" using empty_pool_malloc [OF a(1), of 2] a(2,3) by (auto simp: round_request_def)
  show ?thesis using htfh_calloc_spec [OF a(1), of "2 ^ 63 + 1" 2] a(1) m unfolding u by auto
qed

text \<open>
  C30: nothing is lost to fragmentation: once everything has been released the whole pool is
  one free block again, so that every request which is, rounded up, at most \<open>32/33\<close> of it is
  served, at the start of the pool.
\<close>

theorem htfh_empty_pool_serves:
  assumes "htfh_run a Map.empty" and "0 < n" and "round_request n + round_request n div 32 \<le> heap_size a - 6296"
  shows "\<exists>a'. htfh_malloc a n = Inr (heap a + 6288, a')"
  by (rule empty_pool_malloc [OF assms])

theorem htfh_empty_pool_serves_witness:
  "\<exists>a a'. htfh_run a Map.empty \<and> htfh_malloc a 1800 = Inr (10384, a')"
proof -
  obtain a where a: "htfh_run a Map.empty" "heap a = 4096" "heap_size a = 8192" using small_create by blast
  then show ?thesis using htfh_empty_pool_serves [OF a(1), of 1800] by (auto simp: round_request_def)
qed

text \<open>
  C34: releasing what was just allocated restores the heap: the same request is served at the
  same address again.
\<close>

theorem htfh_malloc_free_malloc:
  assumes "htfh_run a M" and "n + 4 \<le> 2 ^ 64" and "htfh_malloc a n = Inr (p, a1)" and "p \<noteq> NULL" and "htfh_free a1 p = Inr (r, a2)"
  shows "r = 0 \<and> (\<exists>a3. htfh_malloc a2 n = Inr (p, a3))"
proof -
  obtain bs L where ok: "htfh_ok a bs L" using htfh_run_ok [OF assms(1)] by (auto simp: run_ok_def live_ok_def)
  from malloc_free_restores [OF ok assms(2-5)] have r: "r = 0" "htfh_ok a2 bs L" "pool_start a2 = pool_start a" by simp_all
  then show ?thesis using malloc_determined [OF ok r(2,3) assms(2-4)] by blast
qed

theorem htfh_malloc_free_malloc_witness:
  "\<exists>a a1 a2 a3. htfh_malloc a 100 = Inr (10384, a1) \<and> htfh_free a1 10384 = Inr (0, a2) \<and> htfh_malloc a2 100 = Inr (10384, a3)"
proof -
  obtain a a1 where a: "htfh_run a Map.empty" "htfh_malloc a 100 = Inr (10384, a1)" "htfh_run a1 [10384 \<mapsto> 100]"
    using small_malloc by blast
  obtain a2 where f: "htfh_free a1 10384 = Inr (0, a2)" using htfh.free_total [OF a(3), of 10384] by auto
  then show ?thesis using htfh_malloc_free_malloc [OF a(1) _ a(2) _ f] a(2) by auto
qed

text \<open>
  C35: releasing a block twice is refused with its own error code and changes nothing, unless
  the block before it was free, so that the header has been merged away.
\<close>

theorem htfh_double_free_rejected:
  assumes "htfh_run a M" and "p \<in> dom M" and "block_is_prev_free a (p - 16) = Inr False" and "htfh_free a p = Inr (r, a')"
  shows "\<exists>a''. htfh_free a' p = Inr (- 1, a'') \<and> alloc_errno a'' = BLOCK_ALREADY_FREED \<and> bytes_at a'' = bytes_at a'
    \<and> blocks a'' = blocks a'"
proof -
  obtain bs L where ok: "run_ok a M bs L" using htfh_run_ok [OF assms(1)] by blast
  obtain n where "M p = Some n" using assms(2) by blast
  then obtain us s ws where b: "bs = us @ (s, False) # ws" "p = end_of (pool_start a) us + 16" using run_live [OF ok] by blast
  let ?b = "end_of (pool_start a) us"
  have h: "htfh_ok a (us @ (s, False) # ws) L" using ok by (simp add: run_ok_def live_ok_def b)
  have nf: "\<not> free_of False us"
  proof -
    obtain t g vs where nx: "ws @ [(0, False)] = (t, g) # vs" using next_block by blast
    have "heap_st a (us @ (s, False) # ws) L {}" using h by (simp add: htfh_ok_def)
    then have "hdr_at a ?b s (free_of False us) False" using heap_block(1) [OF _ refl nx] by blast
    then show ?thesis using assms(3) hdr_reads(3) b(2) by simp
  qed
  then have nl: "us \<noteq> us' @ [(t, True)]" for us' t by auto
  from htfh_free_ok [OF h refl] obtain a1 us' s2 ws' L' where f: "htfh_free a (?b + 16) = Inr (0, a1)"
    "htfh_ok a1 (us' @ (s2, True) # ws') L'" "us' = us \<or> (\<exists>t. us = us' @ [(t, True)])" "heap a1 = heap a"
    by (elim exE conjE) blast
  have a1: "a1 = a'" using f(1) assms(4) b(2) by simp
  have us: "us' = us" using f(3) nl by blast
  have h1: "heap_st (held a') (us @ (s2, True) # ws') L' {}" and g: "lock_good (mutex a')"
    using f(2) unfolding a1 us by (simp_all add: htfh_ok_def)
  have bp: "?b = end_of (pool_start (held a')) us" using f(4) a1 by (simp add: pool_start_def)
  obtain t g' vs where nx: "ws' @ [(0, False)] = (t, g') # vs" using next_block by blast
  note hb = heap_block [OF h1 bp nx]
  have nz: "controller a' \<noteq> NULL" "?b \<noteq> NULL" using region_okD(1,2) [OF heap_stD(1) [OF h1]] hb(8) by simp_all
  have fptr: "block_from_ptr (?b + 16) = ?b" using hb(7) by (simp add: block_from_ptr_def block_consts usize_sub_le)
  let ?a = "(held a')\<lparr>alloc_errno := BLOCK_ALREADY_FREED, mutex := cycled (mutex a')\<rparr>"
  have "htfh_free a' (?b + 16) = Inr (- 1, ?a)"
    using nz lock_held [OF g] fptr hdr_reads(2) [OF hb(1)] unlock_held(2) [OF g, of "(held a')\<lparr>alloc_errno := BLOCK_ALREADY_FREED\<rparr>"]
    by (simp add: htfh_free_def set_alloc_errno_def)
  then show ?thesis using b(2) by (auto simp: held_def)
qed

theorem htfh_double_free_rejected_witness:
  "\<exists>a a' a''. htfh_free a 10384 = Inr (0, a') \<and> htfh_free a' 10384 = Inr (- 1, a'') \<and> alloc_errno a'' = BLOCK_ALREADY_FREED"
proof -
  obtain a0 a where a: "htfh_run a0 Map.empty" "heap a0 = 4096" "heap_size a0 = 8192" "htfh_malloc a0 100 = Inr (10384, a)"
    "htfh_run a [10384 \<mapsto> 100]" using small_malloc by blast
  obtain a' where f: "htfh_free a 10384 = Inr (0, a')" using htfh.free_total [OF a(5), of 10384] by auto
  have "block_is_prev_free a (10384 - 16) = Inr False" by (rule small_prev_used [OF a])
  then show ?thesis using htfh_double_free_rejected [OF a(5) _ _ f] f by auto
qed

text \<open>
  C26: \<open>htfh_realloc\<close> of a block in use returns in every reachable state. It succeeds only by
  moving: the new block is larger, apart from all others, holds the old content, and the state
  is again reachable. When it returns \<open>NULL\<close> all contents are unchanged, and either the
  invariant still holds, or the block has silently been merged with the free block behind it.
\<close>

theorem htfh_realloc_spec:
  assumes "htfh_run a M" and "M p = Some m" and "0 < n" and "n + 4 \<le> 2 ^ 64"
  shows "\<exists>q a'. htfh_realloc a p n = Inr (q, a') \<and> lk_mode (mutex a') = Unlocked \<and> same_blocks (M(p := None)) (bytes_at a) (bytes_at a')
    \<and> (q \<noteq> NULL \<longrightarrow> htfh_run a' ((M(p := None))(q \<mapsto> n)) \<and> separate ((M(p := None))(q \<mapsto> n)) \<and> q \<notin> dom M \<and> m < n
        \<and> (\<forall>i < m. bytes_at a' (q + i) = bytes_at a (p + i)))
    \<and> (q = NULL \<longrightarrow> same_blocks M (bytes_at a) (bytes_at a') \<and> ((\<exists>bs L. run_ok a' M bs L) \<or> grown a a' p (adjusted n)))"
proof -
  obtain bs L where ok: "run_ok a M bs L" using htfh_run_ok [OF assms(1)] by blast
  obtain q a' where r: "htfh_realloc a p n = Inr (q, a')" "lk_mode (mutex a') = Unlocked" "same_blocks (M(p := None)) (bytes_at a) (bytes_at a')"
    "q \<noteq> NULL \<longrightarrow> (\<forall>i < m. bytes_at a' (q + i) = bytes_at a (p + i)) \<and> q \<notin> dom M \<and> m < n"
    "q = NULL \<longrightarrow> same_blocks M (bytes_at a) (bytes_at a') \<and> ((\<exists>bs' L'. run_ok a' M bs' L') \<or> grown a a' p (adjusted n))"
    using htfh_realloc_ok [OF ok assms(2-4)] by blast
  have "htfh_run a' ((M(p := None))(q \<mapsto> n))" if "q \<noteq> NULL" by (rule htfh_run.resized [OF assms r(1) that])
  with htfh.run_separate r show ?thesis by blast
qed

theorem htfh_realloc_spec_witness:
  "\<exists>a q a'. htfh_run a [10384 \<mapsto> 100, 10600 \<mapsto> 100] \<and> htfh_realloc a 10600 500 = Inr (q, a')
    \<and> (q = NULL \<longrightarrow> bytes_at a' 10384 = bytes_at a 10384)"
proof -
  obtain a where a: "htfh_run a [10384 \<mapsto> 100, 10600 \<mapsto> 100]" using small_gap by blast
  have m: "[10384 \<mapsto> 100, 10600 \<mapsto> 100] 10600 = Some (100 :: nat)" by simp
  have n: "0 < (500 :: nat)" "500 + 4 \<le> (2 ^ 64 :: nat)" by simp_all
  obtain q a' where "htfh_realloc a 10600 500 = Inr (q, a')"
    "q = NULL \<longrightarrow> same_blocks [10384 \<mapsto> 100, 10600 \<mapsto> 100] (bytes_at a) (bytes_at a')"
    using htfh_realloc_spec [OF a m n] by blast
  then show ?thesis using a same_blocksD [of "[10384 \<mapsto> 100, 10600 \<mapsto> 100]" _ _ 10384 100 10384] by auto
qed

text \<open>
  C37: when a block grows into the free block behind it, \<open>htfh_realloc\<close> reports a failure although
  it has merged the two blocks, and the block behind can no longer be released: \<open>htfh_free\<close>
  refuses it after it has marked it as free, so that no free list ever holds it.
\<close>

theorem htfh_realloc_growth_corrupts:
  assumes "htfh_run a M" and "p \<in> dom M" and "p + s + t + 16 \<in> dom M" and "0 < n" and "n + 4 \<le> 2 ^ 64"
    and "block_size a (p - 16) = Inr s" and "block_is_free a (p + s - 8) = Inr True" and "block_size a (p + s - 8) = Inr t"
    and "s < adjusted n" and "adjusted n \<le> s + t + 8"
  shows "\<exists>a1 a2. htfh_realloc a p n = Inr (NULL, a1) \<and> htfh_free a1 (p + s + t + 16) = Inr (- 1, a2) \<and> alloc_errno a2 = BLOCK_NOT_FREE
    \<and> block_is_free a2 (p + s + t) = Inr True \<and> blocks a2 = blocks a1"
proof -
  obtain bs L where ok: "run_ok a M bs L" using htfh_run_ok [OF assms(1)] by blast
  obtain us u ws where b: "bs = us @ (s, False) # (t, True) # (u, False) # ws" "p = end_of (pool_start a) us + 16"
    using free_between [OF ok assms(2,3,6-8)] by blast
  let ?b = "end_of (pool_start a) us"
  have h: "heap_st a bs L {}" and g: "lock_good (mutex a)" and un: "lk_mode (mutex a) = Unlocked"
    using ok by (simp_all add: run_ok_def live_ok_def htfh_ok_def)
  let ?a = "held a"
  have h2: "heap_st ?a (us @ (s, False) # (t, True) # (u, False) # ws) L {}" using h b(1) by simp
  have bp: "?b = end_of (pool_start ?a) us" by simp
  obtain a1 where r: "realloc_block ?a (?b + 16) n = Inr (NULL, a1)" "lock_good (mutex a1)"
    "\<exists>pf. hdr_at a1 ?b (s + t + 8) pf False" "block_prev a1 (?b + s + t + 16) = Inr (?b, a1)" "controller a1 = controller ?a"
    "refusable a1 (?b + s + t + 16) u"
    using realloc_grows [OF h2 bp assms(5,9,10)] held_inner [OF g un] by blast
  note up = heap_used_place [OF h b]
  obtain pf where pf: "hdr_at a1 ?b (s + t + 8) pf False" using r(3) by blast
  have nb: "?b \<noteq> NULL" using end_of_le [of "pool_start a" 8 us] region_okD(2) [OF heap_stD(1) [OF h]] by (simp add: pool_start_def)
  have cn: "controller a1 \<noteq> NULL" using r(5) up(4) by simp
  obtain a2 where a2: "htfh_free a1 (?b + s + t + 16 + 16) = Inr (- 1, a2)" "alloc_errno a2 = BLOCK_NOT_FREE"
    "block_is_free a2 (?b + s + t + 16) = Inr True" "blocks a2 = blocks a1"
    using refused_free [OF r(6,4) pf nb _ r(2) cn] by auto
  have "htfh_realloc a p n = Inr (NULL, a1)" using realloc_held [OF g up(4,5) assms(4)] r(1) b(2) by simp
  moreover have "p + s + t = ?b + s + t + 16" "p + s + t + 16 = ?b + s + t + 16 + 16" using b(2) by simp_all
  ultimately show ?thesis using a2 by metis
qed

theorem htfh_realloc_growth_corrupts_witness:
  "\<exists>a a1 a2. htfh_run a [10384 \<mapsto> 100, 10600 \<mapsto> 100] \<and> htfh_realloc a 10384 150 = Inr (NULL, a1)
    \<and> htfh_free a1 10600 = Inr (- 1, a2) \<and> alloc_errno a2 = BLOCK_NOT_FREE"
proof -
  obtain a L where a: "htfh_run a [10384 \<mapsto> 100, 10600 \<mapsto> 100]" "heap a = 4096"
    "htfh_ok a [(100, False), (100, True), (100, False), (1572, True)] L" using small_gap by blast
  have h: "heap_st a ([] @ (100, False) # [(100, True), (100, False), (1572, True)]) L {}" using a(3) by (simp add: htfh_ok_def)
  have nx: "[(100, True), (100, False), (1572, True)] @ [(0, False)] = (100, True) # [(100, False), (1572, True), (0, False)]" by simp
  note hb = heap_block [OF h refl nx]
  have ps: "pool_start a = 10368" using a(2) by (simp add: pool_start_def)
  have r: "block_size a (10384 - 16) = Inr 100" "block_is_free a (10384 + 100 - 8) = Inr True" "block_size a (10384 + 100 - 8) = Inr 100"
    using hdr_reads(1) [OF hb(1)] hdr_reads(1,2) [OF hb(2)] ps by simp_all
  have "adjusted 150 = 152" by (simp add: adjusted_def round_request_def)
  then show ?thesis using htfh_realloc_growth_corrupts [OF a(1) _ _ _ _ r, of 150] a(1) by auto
qed

text \<open>
  C27: in every reachable state \<open>htfh_memalign\<close> returns; what it returns is fresh, inside the heap,
  apart from all blocks in use, whose bytes it leaves alone, and aligned as asked for, with the
  one exception of at most 24 bytes at a multiple of 8. When it returns nothing the mutex is kept.
\<close>

theorem htfh_memalign_spec:
  assumes "htfh_run a M" and "k \<le> 62" and "n + 4 \<le> 2 ^ 64"
  shows "\<exists>p a'. htfh_memalign a (2 ^ k) n = Inr (p, a') \<and> same_blocks M (bytes_at a) (bytes_at a')
    \<and> (p \<noteq> NULL \<longrightarrow> htfh_run a' (M(p \<mapsto> n)) \<and> separate (M(p \<mapsto> n)) \<and> p \<notin> dom M \<and> (2 ^ k dvd p \<or> k = 3 \<and> n \<le> 24)
        \<and> 4 dvd p \<and> heap a' + 6288 \<le> p \<and> p + n \<le> heap a' + heap_size a')
    \<and> (p = NULL \<longrightarrow> lk_mode (mutex a') = Locked 1)"
proof -
  obtain bs L where ok: "run_ok a M bs L" using htfh_run_ok [OF assms(1)] by blast
  obtain p a' where m: "htfh_memalign a (2 ^ k) n = Inr (p, a')" "same_blocks M (bytes_at a) (bytes_at a')"
    "p \<noteq> NULL \<longrightarrow> p \<notin> dom M \<and> (2 ^ k dvd p \<or> k = 3 \<and> n \<le> 24) \<and> (\<exists>bs' L'. run_ok a' (M(p \<mapsto> n)) bs' L')"
    "p = NULL \<longrightarrow> lk_mode (mutex a') = Locked 1"
    using run_memalign [OF ok assms(3,2)] by blast
  have "htfh_run a' (M(p \<mapsto> n)) \<and> 4 dvd p \<and> heap a' + 6288 \<le> p \<and> p + n \<le> heap a' + heap_size a'" if p: "p \<noteq> NULL"
  proof -
    obtain bs' L' where ok': "run_ok a' (M(p \<mapsto> n)) bs' L'" using m(3) p by blast
    show ?thesis using htfh_run.aligned [OF assms m(1) p] run_separate(1-3) [OF ok', of p n] by simp
  qed
  with htfh.run_separate m show ?thesis by blast
qed

theorem htfh_memalign_spec_witness:
  "\<exists>a p a'. htfh_run a [10384 \<mapsto> 100] \<and> htfh_memalign a 16 100 = Inr (p, a') \<and> (p \<noteq> NULL \<longrightarrow> 16 dvd p)"
proof -
  obtain a where a: "htfh_run a [10384 \<mapsto> 100]" using small_malloc by blast
  show ?thesis using htfh_memalign_spec [OF a, of 4 100] a by auto
qed

text \<open>
  C36: \<open>htfh_memalign\<close> can return an address that is not aligned: for 24 bytes at a multiple of 8 it
  accepts a block of 64 bytes, from which the gap of 36 bytes in front of the aligned address
  cannot be split off.
\<close>

theorem htfh_memalign_misaligns:
  "\<exists>a M p a'. htfh_run a M \<and> htfh_memalign a 8 24 = Inr (p, a') \<and> p \<noteq> NULL \<and> \<not> 8 dvd p"
proof -
  obtain a L M where a: "htfh_run a M" "htfh_ok a [(100, False), (64, True), (100, False), (1608, True)] L" "heap a = 4096" "L (size_class 64) \<noteq> []"
    using small_gap_64 by blast
  have g: "lock_good (mutex a)" "lk_mode (mutex a) = Unlocked" using htfh_run_ok [OF a(1)] by (auto simp: run_ok_def live_ok_def htfh_ok_def)
  have h: "heap_st (held a) [(100, False), (64, True), (100, False), (1608, True)] L {}" using a(2) by (simp add: htfh_ok_def)
  have ps: "pool_start (held a) = 10368" using a(3) by (simp add: pool_start_def)
  have c: "controller a \<noteq> NULL" using region_okD(1,2) [OF heap_stD(1) [OF h]] by simp
  have r: "adjusted 24 = 24" "aligned_request (2 ^ 3) 24 = 64" by (simp_all add: adjusted_def round_request_def aligned_request_def round_to_def)
  obtain a1 L1 where a1: "controller_block_find_free (held a) 64 = Inr (10476, a1)"
    "heap_st a1 ([(100, False)] @ (64, True) # [(100, False), (1608, True)]) L1 {10476}" "pool_start a1 = 10368" "mutex a1 = mutex (held a)"
    using finds_64 [OF h a(4)] ps by auto
  have b1: "10476 = end_of (pool_start a1) [(100, False)]" using a1(3) by simp
  have nx: "[(100, False), (1608, True)] @ [(0, False)] = (100, False) # [(1608, True), (0, False)]" by simp
  note hb = heap_block [OF a1(2) b1 nx]
  have c1: "controller a1 \<noteq> NULL" using region_okD(1,2) [OF heap_stD(1) [OF a1(2)]] by simp
  have "gap_of (2 ^ 3) 10492 = 36" by (simp add: gap_of_def round_to_def)
  then have gap: "alignment_gap a1 10492 (2 ^ 3) = (36, a1)" using alignment_gap_ok [of 3 10492 a1] by simp
  have ptr: "block_to_ptr 10476 = 10492" by (simp add: block_to_ptr_def block_consts)
  have "controller_block_trim_free_leading a1 10476 36 = Inr (10476, a1)"
    using c1 by (simp add: controller_block_trim_free_leading_def hdr_reads [OF hb(1)])
  then have take: "aligned_take (2 ^ 3) 24 10476 a1 = aligned_finish 24 10476 a1" using gap by (simp add: aligned_take_def ptr)
  obtain a2 where a2: "aligned_finish 24 10476 a1 = unlock_return a2 10492 NULL" "keeps (- used_bytes (pool_start a1) ([(100, False)] @ (64, True) # [(100, False), (1608, True)])) a1 a2"
    using aligned_finish_ok [OF a1(2) b1, of 24] by auto
  have "lock_good (mutex a2)" "lk_mode (mutex a2) = Locked 1" using keepsD(1) [OF a2(2)] a1(4) held_inner [OF g] by simp_all
  then obtain l where "unlock_return a2 10492 NULL = Inr (10492, a2\<lparr>mutex := l\<rparr>)" using unlock_inner [of a2 10492 NULL] by blast
  then have "htfh_memalign a (2 ^ 3) 24 = Inr (10492, a2\<lparr>mutex := l\<rparr>)"
    using memalign_start [OF g(1) c, of 24 3] r a1(1) a2(1) take by simp
  then have "htfh_memalign a 8 24 = Inr (10492, a2\<lparr>mutex := l\<rparr>)" by simp
  moreover have "\<not> 8 dvd (10492 :: nat)" by simp
  ultimately show ?thesis using a(1) by fastforce
qed

text \<open>
  A failing \<open>htfh_memalign\<close> keeps the mutex: asked for 0 bytes it returns \<open>NULL\<close>, as the
  comment in the code says, but with the mutex still locked.
\<close>

theorem htfh_memalign_keeps_lock:
  assumes "htfh_run a M"
  shows "\<exists>a'. htfh_memalign a align 0 = Inr (NULL, a') \<and> lk_mode (mutex a') = Locked 1"
proof -
  obtain bs L where ok: "run_ok a M bs L" using htfh_run_ok [OF assms] by blast
  then have h: "heap_st a bs L {}" and g: "lock_good (mutex a)" and un: "lk_mode (mutex a) = Unlocked"
    by (simp_all add: run_ok_def live_ok_def htfh_ok_def)
  have nz: "controller a \<noteq> NULL" using region_okD(1,2) [OF heap_stD(1) [OF h]] by simp
  have adj: "adjust_request_size (held a) 0 ALIGN_SIZE = (0, held a)" by (simp add: adjust_request_size_def)
  obtain x e where adj2: "adjust_request_size (held a) (usize (align + 32)) align = (x, (held a)\<lparr>alloc_errno := e\<rparr>)"
    using adjust_request_errno by blast
  let ?a = "(held a)\<lparr>alloc_errno := e\<rparr>"
  have ff: "controller_block_find_free ?a 0 = Inr (NULL, ?a)" using nz by (simp add: controller_block_find_free_def)
  have mu: "controller_block_mark_used ?a NULL 0 = Inr (NULL, ?a\<lparr>alloc_errno := BLOCK_IS_NULL\<rparr>)"
    using nz by (simp add: controller_block_mark_used_def set_alloc_errno_def)
  have "htfh_memalign a align 0 = Inr (NULL, ?a\<lparr>alloc_errno := BLOCK_IS_NULL\<rparr>)"
    using nz by (simp add: htfh_memalign_def lock_held [OF g] adj adj2 ff mu Let_def block_consts)
  moreover have "lk_mode (mutex (?a\<lparr>alloc_errno := BLOCK_IS_NULL\<rparr>)) = Locked 1" using un by (simp add: held_def)
  ultimately show ?thesis by blast
qed

theorem htfh_memalign_keeps_lock_witness:
  "\<exists>a a'. htfh_run a Map.empty \<and> htfh_memalign a 8 0 = Inr (NULL, a') \<and> lk_mode (mutex a') = Locked 1"
proof -
  obtain a where a: "htfh_run a Map.empty" using small_create by blast
  then show ?thesis using htfh_memalign_keeps_lock [OF a, of 8] by blast
qed

text \<open>
  The rounding of a request wraps around: the largest three sizes are treated as a request
  for 24 bytes, and served.
\<close>

theorem htfh_malloc_wraps:
  assumes "2 ^ 64 - 3 \<le> n" and "n < 2 ^ 64"
  shows "htfh_malloc a n = htfh_malloc a 24"
proof -
  have "adjust_request_size b n ALIGN_SIZE = (24, b)" for b
  proof -
    have u: "usize (n + 3) = n + 3 - 2 ^ 64" "n + 3 - 2 ^ 64 < 3" using assms by (simp_all add: usize_def le_mod_geq)
    then have "usize (n + 3) AND usize_not 3 = 0" using and_not_3_nat [of "n + 3 - 2 ^ 64"] by simp
    then have "align_up b n ALIGN_SIZE = (0, b)" by (simp add: align_up_def ALIGN_SIZE_def usize_dec_def)
    then show ?thesis using assms(1) by (auto simp: adjust_request_size_def block_consts)
  qed
  moreover have "adjust_request_size b 24 ALIGN_SIZE = (24, b)" for b
    using adjust_request_ok [of 24 b] by (simp add: round_request_def)
  ultimately show ?thesis by (simp add: htfh_malloc_def split: prod.split)
qed

theorem htfh_malloc_wraps_witness:
  "\<exists>a a'. htfh_run a Map.empty \<and> htfh_malloc a (2 ^ 64 - 1) = Inr (10384, a')"
proof -
  obtain a where a: "htfh_run a Map.empty" "heap a = 4096" "heap_size a = 8192" using small_create by blast
  obtain a' where "htfh_malloc a 24 = Inr (10384, a')"
    using empty_pool_malloc [OF a(1), of 24] a(2,3) by (auto simp: round_request_def)
  then show ?thesis using htfh_malloc_wraps [of "2 ^ 64 - 1" a] a(1) by auto
qed

end
