(* ===== verification/Glibc_Allocator.thy ===== *)
theory Glibc_Allocator
  imports Heap_Memory
begin

text \<open>
  The allocator of \<open>allocator/glibc\<close>, used when \<open>ALLOCATOR_TYPE\<close> is 2.  A header is its address;
  its fields are 8-byte words at the offsets of \<open>struct Header\<close>.  The two info words hold the
  size of the block before and of the block itself, with the used flag in bit 0; the links of
  the free list overlap the memory handed out.  The handle is a record and not \<open>NULL\<close>;
  \<open>mmap\<close>, \<open>munmap\<close> and the allocation of the handle are parameters.
\<close>

section \<open>State\<close>

record GlibcAllocator = heap_state +
  free_list :: addr
  current_brk :: addr

text \<open>The fields of a header.\<close>

definition prev_info :: "addr \<Rightarrow> addr" where
  "prev_info h = h"

definition curr_info :: "addr \<Rightarrow> addr" where
  "curr_info h = usize (h + 8)"

definition header_prev_free :: "addr \<Rightarrow> addr" where
  "header_prev_free h = usize (h + 16)"

definition header_next_free :: "addr \<Rightarrow> addr" where
  "header_next_free h = usize (h + 24)"

definition GCA_INFO_SIZE :: nat where
  "GCA_INFO_SIZE = 2 * 8"

definition GCA_DATA_ALIGN :: nat where
  "GCA_DATA_ALIGN = 2 * 8"

definition GCA_SBRK_ALIGN :: nat where
  "GCA_SBRK_ALIGN = 4096"

definition GCA_MASK_SIZE :: nat where
  "GCA_MASK_SIZE = usize_not 7"

definition GCA_FLAG_USED :: nat where
  "GCA_FLAG_USED = 1"

lemmas gca_consts = GCA_INFO_SIZE_def GCA_DATA_ALIGN_def GCA_SBRK_ALIGN_def GCA_MASK_SIZE_def GCA_FLAG_USED_def

section \<open>Macros\<close>

definition gca_round_up :: "nat \<Rightarrow> nat \<Rightarrow> nat" where
  "gca_round_up x align = usize_sub (usize (x + align)) 1 AND usize_sub 0 align"

definition gca_data_to_header :: "addr \<Rightarrow> addr" where
  "gca_data_to_header d = usize_sub d GCA_INFO_SIZE"

definition gca_header_to_data :: "addr \<Rightarrow> addr" where
  "gca_header_to_data h = usize (h + GCA_INFO_SIZE)"

text \<open>The info word is given by its address, \<open>prev_info h\<close> or \<open>curr_info h\<close>.\<close>

definition gca_size :: "GlibcAllocator \<Rightarrow> addr \<Rightarrow> nat res" where
  "gca_size a w = rbind (load64 a w) (\<lambda>i. Inr (i AND GCA_MASK_SIZE))"

definition gca_used :: "GlibcAllocator \<Rightarrow> addr \<Rightarrow> nat res" where
  "gca_used a w = rbind (load64 a w) (\<lambda>i. Inr (i AND GCA_FLAG_USED))"

definition gca_set_size :: "GlibcAllocator \<Rightarrow> addr \<Rightarrow> nat \<Rightarrow> GlibcAllocator res" where
  "gca_set_size a w v = rbind (load64 a w) (\<lambda>i. store64 a w ((i AND usize_not GCA_MASK_SIZE) OR v))"

definition gca_set_used :: "GlibcAllocator \<Rightarrow> addr \<Rightarrow> nat \<Rightarrow> GlibcAllocator res" where
  "gca_set_used a w v = rbind (load64 a w) (\<lambda>i. store64 a w ((i AND usize_not GCA_FLAG_USED) OR v))"

definition gca_is_sentinel :: "GlibcAllocator \<Rightarrow> addr \<Rightarrow> bool res" where
  "gca_is_sentinel a w = rbind (gca_size a w) (\<lambda>s. Inr (s = 0))"

definition gca_next :: "GlibcAllocator \<Rightarrow> addr \<Rightarrow> addr res" where
  "gca_next a h = rbind (gca_size a (curr_info h)) (\<lambda>s. Inr (usize (gca_header_to_data h + s)))"

definition gca_prev :: "GlibcAllocator \<Rightarrow> addr \<Rightarrow> addr res" where
  "gca_prev a h = rbind (gca_size a (prev_info h)) (\<lambda>s. Inr (gca_data_to_header (usize_sub h s)))"

section \<open>The free list\<close>

definition gca_add_free_list :: "GlibcAllocator \<Rightarrow> addr \<Rightarrow> GlibcAllocator res" where
  "gca_add_free_list a h =
     rbind (store64 a (header_prev_free h) NULL) (\<lambda>a1.
     rbind (store64 a1 (header_next_free h) (free_list a1)) (\<lambda>a2.
     rbind (if free_list a2 \<noteq> NULL then store64 a2 (header_prev_free (free_list a2)) h else Inr a2) (\<lambda>a3.
       Inr (a3\<lparr>free_list := h\<rparr>))))"

definition gca_remove_free_list :: "GlibcAllocator \<Rightarrow> addr \<Rightarrow> GlibcAllocator res" where
  "gca_remove_free_list a h =
     rbind (load64 a (header_prev_free h)) (\<lambda>p.
     rbind (load64 a (header_next_free h)) (\<lambda>n.
     let a1 = (if free_list a = h then a\<lparr>free_list := n\<rparr> else a) in
     rbind (if p \<noteq> NULL then store64 a1 (header_next_free p) n else Inr a1) (\<lambda>a2.
       if n \<noteq> NULL then store64 a2 (header_prev_free n) p else Inr a2)))"

text \<open>The walk along the list need not end; the size asked for does not change on the way.\<close>

partial_function (option) gca_find_loop :: "GlibcAllocator \<Rightarrow> nat \<Rightarrow> addr \<Rightarrow> addr res option" where
  [code]: "gca_find_loop a aligned_size h =
     (if h = NULL then Some (Inr NULL)
      else (case gca_size a (curr_info h) of
        Inl e \<Rightarrow> Some (Inl e)
      | Inr s \<Rightarrow>
        if aligned_size \<le> s then Some (Inr h)
        else (case load64 a (header_next_free h) of
          Inl e \<Rightarrow> Some (Inl e)
        | Inr h' \<Rightarrow> gca_find_loop a aligned_size h')))"

definition gca_find_free_block :: "GlibcAllocator \<Rightarrow> nat \<Rightarrow> addr res" where
  "gca_find_free_block a aligned_size =
     (case gca_find_loop a aligned_size (free_list a) of None \<Rightarrow> Inl Hang | Some r \<Rightarrow> r)"

section \<open>The break\<close>

text \<open>\<open>(void*) -1\<close> and the conversion of a \<open>size_t\<close> to \<open>intptr_t\<close>.\<close>

abbreviation (input) MINUS_ONE :: addr where
  "MINUS_ONE \<equiv> 2 ^ 64 - 1"

definition intptr :: "nat \<Rightarrow> int" where
  "intptr n = (if n < 2 ^ 63 then int n else int n - 2 ^ 64)"

definition gca_brk :: "GlibcAllocator \<Rightarrow> addr \<Rightarrow> int \<times> GlibcAllocator" where
  "gca_brk a p = (if usize (heap a + heap_size a) < p then (- 1, a) else (0, a\<lparr>current_brk := p\<rparr>))"

definition gca_sbrk :: "GlibcAllocator \<Rightarrow> int \<Rightarrow> addr \<times> GlibcAllocator" where
  "gca_sbrk a0 increment =
     (case (if current_brk a0 = NULL then gca_brk a0 NULL else (0, a0)) of (r0, a) \<Rightarrow>
      if r0 < 0 then (MINUS_ONE, a)
      else if increment = 0 then (current_brk a, a)
      else
        let oldbrk = current_brk a in
        if (if 0 < increment then usize (oldbrk + nat increment) < oldbrk else oldbrk < nat (- increment))
          then (MINUS_ONE, a)
        else (case gca_brk a (nat ((int oldbrk + increment) mod 2 ^ 64)) of (r, a1) \<Rightarrow>
          if r < 0 then (MINUS_ONE, a1) else (oldbrk, a1)))"

text \<open>The two results behind the output parameters; \<open>None\<close> is \<open>false\<close>.\<close>

definition gca_handled_sbrk :: "GlibcAllocator \<Rightarrow> nat \<Rightarrow> (addr \<times> addr) option \<times> GlibcAllocator" where
  "gca_handled_sbrk a delta =
     (if usize (current_brk a + delta) < current_brk a then (None, a)
      else (case gca_sbrk a (intptr delta) of (last_brk, a1) \<Rightarrow>
        if last_brk = MINUS_ONE then (None, a1)
        else (Some (last_brk, usize (last_brk + delta)), a1\<lparr>current_brk := usize (last_brk + delta)\<rparr>)))"

section \<open>Blocks\<close>

definition gca_coalesce_next :: "GlibcAllocator \<Rightarrow> addr \<Rightarrow> (bool \<times> GlibcAllocator) res" where
  "gca_coalesce_next a h =
     rbind (gca_next a h) (\<lambda>next_adj.
     rbind (gca_used a (curr_info next_adj)) (\<lambda>u.
     if u \<noteq> 0 then Inr (False, a)
     else
       rbind (gca_remove_free_list a next_adj) (\<lambda>a1.
       rbind (gca_size a1 (curr_info h)) (\<lambda>s.
       rbind (gca_size a1 (curr_info next_adj)) (\<lambda>t.
       let new_size = usize (s + GCA_INFO_SIZE + t) in
       rbind (gca_next a1 next_adj) (\<lambda>next_next_adj.
       rbind (gca_used a1 (curr_info h)) (\<lambda>uh.
       rbind (gca_set_used a1 (prev_info next_next_adj) uh) (\<lambda>a2.
       rbind (gca_set_size a2 (prev_info next_next_adj) new_size) (\<lambda>a3.
       rbind (gca_set_size a3 (curr_info h) new_size) (\<lambda>a4.
         Inr (True, a4)))))))))))"

definition gca_coalesce_prev :: "GlibcAllocator \<Rightarrow> addr \<Rightarrow> (addr \<times> GlibcAllocator) res" where
  "gca_coalesce_prev a h =
     rbind (gca_used a (prev_info h)) (\<lambda>u.
     if u = 0 then
       rbind (gca_prev a h) (\<lambda>p. rbind (gca_coalesce_next a p) (\<lambda>(_, a1). Inr (p, a1)))
     else Inr (h, a))"

definition gca_coalesce :: "GlibcAllocator \<Rightarrow> addr \<Rightarrow> (addr \<times> GlibcAllocator) res" where
  "gca_coalesce a h = rbind (gca_coalesce_next a h) (\<lambda>(_, a1). gca_coalesce_prev a1 h)"

definition gca_sbrk_new_block :: "GlibcAllocator \<Rightarrow> nat \<Rightarrow> (addr \<times> GlibcAllocator) res" where
  "gca_sbrk_new_block a aligned_size =
     (let page_size = gca_round_up (usize (aligned_size + GCA_INFO_SIZE)) GCA_SBRK_ALIGN in
      case gca_handled_sbrk a page_size of
        (None, a1) \<Rightarrow> Inr (NULL, a1)
      | (Some (orig_brk, new_brk), a1) \<Rightarrow>
        let header = gca_data_to_header orig_brk; sentinel = gca_data_to_header new_brk in
        rbind (gca_set_size a1 (curr_info header) (usize_sub page_size GCA_INFO_SIZE)) (\<lambda>a2.
        rbind (gca_set_used a2 (curr_info header) 0) (\<lambda>a3.
        rbind (gca_set_size a3 (prev_info sentinel) (usize_sub page_size GCA_INFO_SIZE)) (\<lambda>a4.
        rbind (gca_set_used a4 (prev_info sentinel) 0) (\<lambda>a5.
        rbind (gca_set_size a5 (curr_info sentinel) 0) (\<lambda>a6.
        rbind (gca_set_used a6 (curr_info sentinel) 1) (\<lambda>a7.
        rbind (gca_add_free_list a7 header) (\<lambda>a8.
          gca_coalesce_prev a8 header))))))))"

definition gca_split_block :: "GlibcAllocator \<Rightarrow> addr \<Rightarrow> nat \<Rightarrow> (addr \<times> GlibcAllocator) res" where
  "gca_split_block a h aligned_size =
     rbind (gca_size a (curr_info h)) (\<lambda>curr_size.
     if curr_size < usize (aligned_size + GCA_INFO_SIZE + GCA_DATA_ALIGN) then Inr (NULL, a)
     else
       let split_size = usize_sub (usize_sub curr_size aligned_size) GCA_INFO_SIZE in
       rbind (gca_next a h) (\<lambda>next_header.
       rbind (gca_set_size a (prev_info next_header) split_size) (\<lambda>a1.
       rbind (gca_set_used a1 (prev_info next_header) 0) (\<lambda>a2.
       rbind (gca_set_size a2 (curr_info h) aligned_size) (\<lambda>a3.
       rbind (gca_next a3 h) (\<lambda>split_header.
       rbind (gca_set_size a3 (prev_info split_header) aligned_size) (\<lambda>a4.
       rbind (gca_used a4 (curr_info h)) (\<lambda>u.
       rbind (gca_set_used a4 (prev_info split_header) u) (\<lambda>a5.
       rbind (gca_set_size a5 (curr_info split_header) split_size) (\<lambda>a6.
       rbind (gca_set_used a6 (curr_info split_header) 0) (\<lambda>a7.
       rbind (gca_add_free_list a7 split_header) (\<lambda>a8.
       rbind (gca_coalesce_next a8 split_header) (\<lambda>(_, a9).
         Inr (split_header, a9))))))))))))))"

section \<open>Creating and destroying\<close>

text \<open>
  \<open>got\<close> says whether the handle could be allocated, \<open>l\<close> is the mutex before its initialisation
  and \<open>region\<close> what \<open>mmap\<close> returns, \<open>MAP_FAILED\<close> when it fails.
\<close>

definition gca_create ::
  "bool \<Rightarrow> lock \<Rightarrow> addr \<Rightarrow> AllocatorErrno \<Rightarrow> nat \<Rightarrow> (GlibcAllocator option \<times> AllocatorErrno) res" where
  "gca_create got l region e heapSize =
     (if \<not> got then Inr (None, NULL_ALLOCATOR_INSTANCE)
      else (case htfh_lock_init l of (r, l1) \<Rightarrow>
        if r \<noteq> 0 then Inr (None, MUTEX_LOCK_INIT)
        else
          let a0 = \<lparr>alloc_errno = e, mutex = l1, heap_size = heapSize, heap = region, bytes_at = (\<lambda>_. 0),
                    free_list = NULL, current_brk = region\<rparr> in
          (case alloc_lock a0 of (r2, a1) \<Rightarrow>
            if r2 \<noteq> 0 then Inr (None, alloc_errno a1)
            else
              let failed = (\<lambda>a. case alloc_unlock (set_alloc_errno HEAP_MMAP_FAILED a) of (_, a') \<Rightarrow>
                    Inr (None, alloc_errno a')) in
              if heap a1 = NULL then failed a1
              else (case gca_handled_sbrk a1 GCA_SBRK_ALIGN of
                (None, a2) \<Rightarrow> failed a2
              | (Some (orig_brk, new_brk), a2) \<Rightarrow>
                let bottom = orig_brk; top = gca_data_to_header new_brk;
                    first_size = GCA_SBRK_ALIGN - 2 * GCA_INFO_SIZE in
                rbind (gca_set_size a2 (prev_info bottom) 0) (\<lambda>a3.
                rbind (gca_set_used a3 (prev_info bottom) 1) (\<lambda>a4.
                rbind (gca_set_size a4 (curr_info top) 0) (\<lambda>a5.
                rbind (gca_set_used a5 (curr_info top) 1) (\<lambda>a6.
                rbind (gca_set_size a6 (curr_info bottom) first_size) (\<lambda>a7.
                rbind (gca_set_used a7 (curr_info bottom) 0) (\<lambda>a8.
                rbind (gca_set_size a8 (prev_info top) first_size) (\<lambda>a9.
                rbind (gca_set_used a9 (prev_info top) 0) (\<lambda>a10.
                rbind (gca_add_free_list a10 bottom) (\<lambda>a11.
                case alloc_unlock a11 of (r3, a12) \<Rightarrow>
                  Inr (if r3 = 0 then Some a12 else None, alloc_errno a12))))))))))))))"

text \<open>\<open>munmap_ret\<close> is the result of \<open>munmap\<close>; the handle is gone when the result is 0.\<close>

definition gca_destroy :: "int \<Rightarrow> GlibcAllocator \<Rightarrow> (int \<times> GlibcAllocator) res" where
  "gca_destroy munmap_ret a0 =
     (case alloc_lock a0 of (r, a) \<Rightarrow>
      if r = - 1 then Inr (- 1, a)
      else if heap a \<noteq> NULL \<and> munmap_ret \<noteq> 0 then unlock_return (set_alloc_errno HEAP_UNMAP_FAILED a) (- 1) (- 1)
      else (case alloc_unlock a of (r2, a1) \<Rightarrow> Inr (if r2 = - 1 then - 1 else 0, a1)))"

section \<open>Allocation\<close>

definition gca_malloc :: "GlibcAllocator \<Rightarrow> nat \<Rightarrow> (addr \<times> GlibcAllocator) res" where
  "gca_malloc a0 sz =
     (if heap a0 = NULL \<or> sz = 0 then Inr (NULL, set_alloc_errno MALLOC_FAILED a0)
      else (case alloc_lock a0 of (r, a) \<Rightarrow>
        if r = - 1 then Inr (NULL, a)
        else
          let aligned_size = gca_round_up sz GCA_DATA_ALIGN in
          if aligned_size = 0 then unlock_return (set_alloc_errno MALLOC_FAILED a) NULL NULL
          else
            rbind (gca_find_free_block a aligned_size) (\<lambda>h0.
            rbind (if h0 = NULL then gca_sbrk_new_block a aligned_size else Inr (h0, a)) (\<lambda>(h, a1).
            if h = NULL then unlock_return (set_alloc_errno MALLOC_FAILED a1) NULL NULL
            else
              rbind (gca_split_block a1 h aligned_size) (\<lambda>(_, a2).
              rbind (gca_remove_free_list a2 h) (\<lambda>a3.
              rbind (gca_set_used a3 (curr_info h) 1) (\<lambda>a4.
              rbind (gca_next a4 h) (\<lambda>n.
              rbind (gca_set_used a4 (prev_info n) 1) (\<lambda>a5.
                unlock_return a5 (gca_header_to_data h) NULL)))))))))"

definition gca_free :: "GlibcAllocator \<Rightarrow> addr \<Rightarrow> (int \<times> GlibcAllocator) res" where
  "gca_free a0 ptr =
     (if heap a0 = NULL \<or> ptr = NULL then Inr (- 1, a0)
      else (case alloc_lock a0 of (r, a) \<Rightarrow>
        if r = - 1 then Inr (- 1, a)
        else
          let h = gca_data_to_header ptr in
          rbind (gca_set_used a (curr_info h) 0) (\<lambda>a1.
          rbind (gca_next a1 h) (\<lambda>n.
          rbind (gca_set_used a1 (prev_info n) 0) (\<lambda>a2.
          rbind (gca_add_free_list a2 h) (\<lambda>a3.
          rbind (gca_coalesce a3 h) (\<lambda>(_, a4).
            Inr (alloc_unlock a4))))))))"

definition gca_calloc :: "GlibcAllocator \<Rightarrow> nat \<Rightarrow> nat \<Rightarrow> (addr \<times> GlibcAllocator) res" where
  "gca_calloc a0 num sz =
     (if heap a0 = NULL \<or> sz = 0 \<or> num = 0 \<or> (2 ^ 64 - 1) div sz < num then Inr (NULL, a0)
      else (case alloc_lock a0 of (r, a) \<Rightarrow>
        if r = - 1 then Inr (NULL, a)
        else
          rbind (gca_malloc a (usize (num * sz))) (\<lambda>(ptr, a1).
          rbind (if ptr \<noteq> NULL then heap_memset a1 ptr 0 (usize (num * sz)) else Inr a1) (\<lambda>a2.
            unlock_return a2 ptr NULL))))"

text \<open>The last part of \<open>gca_realloc\<close>: a new block, the old one copied into it.\<close>

definition gca_realloc_move :: "GlibcAllocator \<Rightarrow> addr \<Rightarrow> nat \<Rightarrow> nat \<Rightarrow> (addr \<times> GlibcAllocator) res" where
  "gca_realloc_move a ptr sz orig_size =
     rbind (gca_malloc a sz) (\<lambda>(new_ptr, a1).
       if new_ptr \<noteq> NULL then
         rbind (heap_memcpy a1 new_ptr ptr orig_size) (\<lambda>a2.
         rbind (gca_free a2 ptr) (\<lambda>(_, a3). unlock_return a3 new_ptr NULL))
       else unlock_return a1 new_ptr NULL)"

definition gca_realloc :: "GlibcAllocator \<Rightarrow> addr \<Rightarrow> nat \<Rightarrow> (addr \<times> GlibcAllocator) res" where
  "gca_realloc a0 ptr sz =
     (if heap a0 = NULL \<or> sz = 0 then Inr (NULL, a0)
      else (case alloc_lock a0 of (r, a) \<Rightarrow>
        if r = - 1 then Inr (NULL, a)
        else if ptr = NULL then rbind (gca_malloc a sz) (\<lambda>(new_ptr, a1). unlock_return a1 new_ptr NULL)
        else
          let aligned_size = gca_round_up sz GCA_DATA_ALIGN; h = gca_data_to_header ptr in
          rbind (gca_size a (curr_info h)) (\<lambda>orig_size.
          if aligned_size \<le> orig_size then
            rbind (gca_split_block a h aligned_size) (\<lambda>(_, a1). unlock_return a1 ptr NULL)
          else
            rbind (gca_coalesce_next a h) (\<lambda>(merged, a1).
            rbind (gca_size a1 (curr_info h)) (\<lambda>size1.
            if merged \<and> aligned_size \<le> size1 then
              rbind (gca_split_block a1 h aligned_size) (\<lambda>(_, a2). unlock_return a2 ptr NULL)
            else
              rbind (gca_next a1 h) (\<lambda>n.
              rbind (gca_is_sentinel a1 (curr_info n)) (\<lambda>last.
              if last then
                rbind (gca_sbrk_new_block a1 (usize_sub aligned_size size1)) (\<lambda>(next_alloc, a2).
                if next_alloc \<noteq> NULL then
                  rbind (gca_coalesce_next a2 h) (\<lambda>(_, a3).
                  rbind (gca_split_block a3 h aligned_size) (\<lambda>(_, a4). unlock_return a4 ptr NULL))
                else gca_realloc_move a2 ptr sz orig_size)
              else gca_realloc_move a1 ptr sz orig_size)))))))"

section \<open>The macros of the allocation manager\<close>

text \<open>With \<open>ALLOCATOR_TYPE\<close> 2 two of the macros are the constant \<open>NULL\<close>.\<close>

definition am_malloc_glibc :: "GlibcAllocator \<Rightarrow> nat \<Rightarrow> (addr \<times> GlibcAllocator) res" where
  "am_malloc_glibc allocator sz = gca_malloc allocator sz"

definition am_calloc_glibc :: "GlibcAllocator \<Rightarrow> nat \<Rightarrow> nat \<Rightarrow> (addr \<times> GlibcAllocator) res" where
  "am_calloc_glibc allocator count sz = gca_calloc allocator count sz"

definition am_memalign_glibc :: "GlibcAllocator \<Rightarrow> nat \<Rightarrow> nat \<Rightarrow> (addr \<times> GlibcAllocator) res" where
  "am_memalign_glibc allocator align sz = Inr (NULL, allocator)"

definition am_realloc_glibc :: "GlibcAllocator \<Rightarrow> addr \<Rightarrow> nat \<Rightarrow> (addr \<times> GlibcAllocator) res" where
  "am_realloc_glibc allocator ptr sz = Inr (NULL, allocator)"

definition am_free_glibc :: "GlibcAllocator \<Rightarrow> addr \<Rightarrow> (int \<times> GlibcAllocator) res" where
  "am_free_glibc allocator ptr = gca_free allocator ptr"

end
