(* ===== verification/Glibc_Heap.thy ===== *)
theory Glibc_Heap
  imports Glibc_Allocator Heap_Chain
begin

text \<open>
  The heap of the glibc-style allocator as a structure: info words, the bytes an operation may
  write, the free list as a list of addresses, and the chain of blocks between the start of
  the heap and the break.  The invariant \<open>gca_st\<close> ties them together.
\<close>

section \<open>Info words\<close>

text \<open>An info word as the size it holds and whether the block is free; bits 1 and 2 mean nothing.\<close>

definition info :: "'a heap_state_scheme \<Rightarrow> addr \<Rightarrow> nat \<times> bool" where
  "info a p = (word_at a p div 8 * 8, even (word_at a p))"

definition put_size :: "addr \<Rightarrow> nat \<Rightarrow> GlibcAllocator \<Rightarrow> GlibcAllocator" where
  "put_size p v a = put_word p (word_at a p mod 8 + v) a"

definition put_flag :: "addr \<Rightarrow> bool \<Rightarrow> GlibcAllocator \<Rightarrow> GlibcAllocator" where
  "put_flag p f a = put_word p (word_at a p div 2 * 2 + (if f then 0 else 1)) a"

lemma word_size: "8 dvd v \<Longrightarrow> v < 2 ^ 64 \<Longrightarrow> (w :: nat) mod 8 + v < 2 ^ 64"
proof -
  assume "8 dvd v" "v < 2 ^ 64"
  then obtain k where "v = 8 * k" "k < 2 ^ 61" by (auto elim!: dvdE)
  then have "v + 8 \<le> 2 ^ 64" by simp
  then show ?thesis using mod_less_divisor [of 8 w] by linarith
qed

lemma word_flag: "(w :: nat) < 2 ^ 64 \<Longrightarrow> w div 2 * 2 + (if f then 0 else 1) < 2 ^ 64"
proof -
  assume "w < 2 ^ 64"
  then have "w div 2 < 2 ^ 63" by (simp add: less_mult_imp_div_less)
  then show ?thesis by simp
qed

lemma gca_info_ops:
  assumes "mapped a w"
  shows "gca_size a w = Inr (fst (info a w))" "gca_used a w = Inr (if snd (info a w) then 0 else 1)"
    "8 dvd v \<Longrightarrow> gca_set_size a w v = Inr (put_size w v a)"
    "gca_set_used a w 0 = Inr (put_flag w True a)" "gca_set_used a w 1 = Inr (put_flag w False a)"
    "gca_is_sentinel a w = Inr (fst (info a w) = 0)"
proof -
  let ?w = "word_at a w"
  have m: "?w AND usize_not 7 = ?w div 8 * 8" using and_usize_not_mask [OF word_at_less, of 3 a w] by simp
  have n: "usize_not (usize_not 7) = 7" "(7 :: nat) = mask 3" by (simp_all add: usize_not_def mask_eq_exp_minus_1)
  have l: "?w AND 7 = ?w mod 8" unfolding n(2) take_bit_eq_mask [symmetric] by (simp add: take_bit_nat_def)
  have o: "?w mod 2 = (if even ?w then 0 else 1)" by (rule mod2_eq_if)
  have q: "?w AND usize_not (Suc 0) = ?w div 2 * 2" using and_usize_not_mask [OF word_at_less, of 1 a w] by simp
  show "gca_size a w = Inr (fst (info a w))" using assms by (simp add: gca_size_def gca_consts m info_def)
  then show "gca_is_sentinel a w = Inr (fst (info a w) = 0)" by (simp add: gca_is_sentinel_def)
  show "gca_used a w = Inr (if snd (info a w) then 0 else 1)" using assms by (simp add: gca_used_def gca_consts o info_def)
  have "?w mod 8 OR v = ?w mod 8 + v" if "8 dvd v"
    using or_disjoint [of 3 v "?w mod 8"] that by (simp add: or.commute)
  then show "8 dvd v \<Longrightarrow> gca_set_size a w v = Inr (put_size w v a)"
    using assms by (simp add: gca_set_size_def gca_consts n(1) l put_size_def)
  have "?w div 2 * 2 OR 1 = ?w div 2 * 2 + 1" by (rule or_disjoint [of 1]) simp_all
  then show "gca_set_used a w 0 = Inr (put_flag w True a)" "gca_set_used a w 1 = Inr (put_flag w False a)"
    using assms q by (simp_all add: gca_set_used_def gca_consts put_flag_def)
qed

named_theorems info_simps \<open>reading info words and links after stores\<close>

lemma info_put [simp, info_simps]:
  "8 dvd v \<Longrightarrow> v < 2 ^ 64 \<Longrightarrow> info (put_size p v a) p = (v, snd (info a p))"
  "info (put_flag p f a) p = (fst (info a p), f)"
proof -
  show "info (put_flag p f a) p = (fst (info a p), f)"
  proof -
    have e: "w div 8 = w div 2 div 4" for w :: nat by (simp add: div_mult2_eq [symmetric])
    have "(w div 2 * 2 + (if f then 0 else 1)) div 8 * 8 = w div 8 * (8 :: nat)" for w unfolding e by simp
    moreover have "even (w div 2 * 2 + (if f then 0 else (1 :: nat))) = f" for w by simp
    ultimately show ?thesis using word_flag [OF word_at_less, of a p f] by (simp add: info_def put_flag_def)
  qed
  assume v: "8 dvd v" "v < 2 ^ 64"
  obtain k where k: "v = 8 * k" using v(1) by (elim dvdE)
  have "(w mod 8 + v) div 8 * 8 = v" "even (w mod 8 + v) = even w" for w :: nat
    unfolding k by (simp_all add: dvd_mod_iff)
  then show "info (put_size p v a) p = (v, snd (info a p))"
    using word_size [OF v, of "word_at a p"] by (simp add: info_def put_size_def)
qed

lemma info_apart [simp, info_simps]:
  assumes "apart p q"
  shows "info (put_size p v a) q = info a q" "info (put_flag p f a) q = info a q" "info (put_word p v b) q = info b q"
    "word_at (put_size p v a) q = word_at a q" "word_at (put_flag p f a) q = word_at a q"
  using assms by (simp_all add: info_def put_size_def put_flag_def)

lemma put_fields [simp]:
  "free_list (put_size p v a) = free_list a" "current_brk (put_size p v a) = current_brk a" "heap (put_size p v a) = heap a"
  "heap_size (put_size p v a) = heap_size a" "mutex (put_size p v a) = mutex a" "mapped (put_size p v a) = mapped a"
  "free_list (put_flag p f a) = free_list a" "current_brk (put_flag p f a) = current_brk a" "heap (put_flag p f a) = heap a"
  "heap_size (put_flag p f a) = heap_size a" "mutex (put_flag p f a) = mutex a" "mapped (put_flag p f a) = mapped a"
  "free_list (put_word p w a) = free_list a" "current_brk (put_word p w a) = current_brk a"
  "alloc_errno (put_size p v a) = alloc_errno a" "alloc_errno (put_flag p f a) = alloc_errno a"
  by (simp_all add: put_size_def put_flag_def) (simp_all add: put_word_def)

lemma info_upd [simp]:
  "info (a\<lparr>free_list := x\<rparr>) = info a" "info (a\<lparr>current_brk := y\<rparr>) = info a" "info (b\<lparr>mutex := l\<rparr>) = info b"
  "info (b\<lparr>alloc_errno := e\<rparr>) = info b" "word_at (a\<lparr>free_list := x\<rparr>) = word_at a" "word_at (a\<lparr>current_brk := y\<rparr>) = word_at a"
  "mapped (a\<lparr>free_list := x\<rparr>) = mapped a" "mapped (a\<lparr>current_brk := y\<rparr>) = mapped a"
  by (simp_all add: info_def word_at_def mapped_def fun_eq_iff)

section \<open>Frames\<close>

text \<open>Only bytes of \<open>W\<close>, the head of the free list, the break and the error code may differ.\<close>

definition framed :: "nat set \<Rightarrow> GlibcAllocator \<Rightarrow> GlibcAllocator \<Rightarrow> bool" where
  "framed W a a' \<longleftrightarrow> (\<forall>x. x \<notin> W \<longrightarrow> bytes_at a' x = bytes_at a x) \<and> mutex a' = mutex a \<and> heap a' = heap a \<and> heap_size a' = heap_size a"

lemma framed_refl [simp]: "framed W a a"
  by (simp add: framed_def)

lemma framed_trans: "framed V a a1 \<Longrightarrow> framed W a1 a2 \<Longrightarrow> V \<subseteq> X \<Longrightarrow> W \<subseteq> X \<Longrightarrow> framed X a a2"
  unfolding framed_def by (metis subset_iff)

lemma framed_mono: "framed V a a1 \<Longrightarrow> V \<subseteq> X \<Longrightarrow> framed X a a1"
  unfolding framed_def by blast

lemma framed_put_word: "framed W a a1 \<Longrightarrow> {p..<p + 8} \<subseteq> W \<Longrightarrow> framed W a (put_word p v a1)"
proof -
  assume f: "framed W a a1" "{p..<p + 8} \<subseteq> W"
  have "x < p \<or> p + 8 \<le> x" if "x \<notin> W" for x using f(2) that by (meson atLeastLessThan_iff leI subsetD)
  then show ?thesis using f(1) by (auto simp: framed_def put_word_def write_bytes_other)
qed

lemma framed_put:
  "framed W a a1 \<Longrightarrow> {p..<p + 8} \<subseteq> W \<Longrightarrow> framed W a (put_word p v a1)"
  "framed W a a1 \<Longrightarrow> {p..<p + 8} \<subseteq> W \<Longrightarrow> framed W a (put_size p v a1)"
  "framed W a a1 \<Longrightarrow> {p..<p + 8} \<subseteq> W \<Longrightarrow> framed W a (put_flag p f a1)"
  by (simp_all only: put_size_def put_flag_def framed_put_word)

lemma framed_upd [simp]:
  "framed W a (a'\<lparr>free_list := x\<rparr>) = framed W a a'" "framed W a (a'\<lparr>current_brk := y\<rparr>) = framed W a a'"
  "framed W a (a'\<lparr>alloc_errno := e\<rparr>) = framed W a a'"
  by (simp_all add: framed_def)

lemma framedD:
  assumes "framed W a a'"
  shows "mutex a' = mutex a" "heap a' = heap a" "heap_size a' = heap_size a" "mapped a' = mapped a"
    "x \<notin> W \<Longrightarrow> bytes_at a' x = bytes_at a x"
  using assms by (simp_all add: framed_def mapped_def fun_eq_iff)

lemma framed_word: "framed W a a' \<Longrightarrow> {p..<p + 8} \<inter> W = {} \<Longrightarrow> word_at a' p = word_at a p"
  unfolding word_at_def framed_def by (rule read_bytes_cong) (auto simp: disjoint_iff)

lemma framed_info: "framed W a a' \<Longrightarrow> {p..<p + 8} \<inter> W = {} \<Longrightarrow> info a' p = info a p"
  using framed_word [of W a a' p] by (simp add: info_def)

section \<open>The free list\<close>

text \<open>The list ends with \<open>NULL\<close> in both directions; \<open>p\<close> is the element before.\<close>

fun links :: "GlibcAllocator \<Rightarrow> addr \<Rightarrow> addr list \<Rightarrow> addr \<Rightarrow> bool" where
  "links a p [] n \<longleftrightarrow> True"
| "links a p (x # xs) n \<longleftrightarrow> word_at a (x + 16) = p \<and> word_at a (x + 24) = first_of n xs \<and> links a x xs n"

definition link_area :: "addr \<Rightarrow> nat set" where
  "link_area x = {x + 16..<x + 32}"

definition free_list_ok :: "GlibcAllocator \<Rightarrow> addr list \<Rightarrow> bool" where
  "free_list_ok a fl \<longleftrightarrow> free_list a = first_of NULL fl \<and> links a NULL fl NULL \<and> distinct fl
     \<and> (\<forall>x \<in> set fl. 0 < x \<and> x + 32 < 2 ^ 64 \<and> mapped a (x + 8) \<and> mapped a (x + 16) \<and> mapped a (x + 24))
     \<and> (\<forall>x \<in> set fl. \<forall>y \<in> set fl. x \<noteq> y \<longrightarrow> x + 32 \<le> y \<or> y + 32 \<le> x)"

lemma links_append: "links a p (xs @ ys) n \<longleftrightarrow> links a p xs (first_of n ys) \<and> links a (last_of p xs) ys n"
  by (induction xs arbitrary: p) (simp_all add: first_of_append)

lemma links_cong:
  "(\<And>x. x \<in> set xs \<Longrightarrow> word_at a' (x + 16) = word_at a (x + 16) \<and> word_at a' (x + 24) = word_at a (x + 24)) \<Longrightarrow>
    links a' p xs n = links a p xs n"
  by (induction xs arbitrary: p) auto

lemma free_list_okD:
  assumes "free_list_ok a fl"
  shows "free_list a = first_of NULL fl" "links a NULL fl NULL" "distinct fl"
    "x \<in> set fl \<Longrightarrow> 0 < x" "x \<in> set fl \<Longrightarrow> x + 32 < 2 ^ 64" "x \<in> set fl \<Longrightarrow> mapped a (x + 8)"
    "x \<in> set fl \<Longrightarrow> mapped a (x + 16)" "x \<in> set fl \<Longrightarrow> mapped a (x + 24)"
    "x \<in> set fl \<Longrightarrow> y \<in> set fl \<Longrightarrow> x \<noteq> y \<Longrightarrow> x + 32 \<le> y \<or> y + 32 \<le> x"
  using assms by (auto simp: free_list_ok_def)

lemma gca_add_ok:
  assumes ok: "free_list_ok a fl" and h: "h \<notin> set fl" "0 < h" "h + 32 < 2 ^ 64"
      "mapped a (h + 8)" "mapped a (h + 16)" "mapped a (h + 24)"
    and sp: "\<And>x. x \<in> set fl \<Longrightarrow> x + 32 \<le> h \<or> h + 32 \<le> x"
  shows "\<exists>a'. gca_add_free_list a h = Inr a' \<and> free_list_ok a' (h # fl)
    \<and> framed (\<Union>x \<in> set (h # fl). link_area x) a a' \<and> current_brk a' = current_brk a \<and> alloc_errno a' = alloc_errno a"
proof -
  note d = free_list_okD [OF ok]
  let ?a1 = "put_word (h + 16) NULL a"
  let ?a2 = "put_word (h + 24) (free_list a) ?a1"
  let ?a3 = "if free_list a \<noteq> NULL then put_word (free_list a + 16) h ?a2 else ?a2"
  have ad: "header_prev_free h = h + 16" "header_next_free h = h + 24"
    using h(3) by (simp_all add: header_prev_free_def header_next_free_def)
  have fh: "free_list a \<in> set fl" if "free_list a \<noteq> NULL" using that d(1) by (cases fl) simp_all
  have pf: "header_prev_free (free_list a) = free_list a + 16" "mapped ?a2 (free_list a + 16)" if "free_list a \<noteq> NULL"
    using d(5,7) [OF fh [OF that]] by (simp_all add: header_prev_free_def)
  have run: "gca_add_free_list a h = Inr (?a3\<lparr>free_list := h\<rparr>)"
    using h(5,6) pf by (simp add: gca_add_free_list_def ad)
  have fl64: "free_list a < 2 ^ 64" using d(1) d(5) by (cases fl) fastforce+
  have lk: "links ?a3 NULL (h # fl) NULL"
  proof (cases fl)
    case Nil
    then show ?thesis using d(1) by (simp add: apart_def)
  next
    case (Cons x xs)
    then have x: "free_list a = x" "0 < x" "x \<in> set fl" using d(1,4) by simp_all
    have s: "x + 32 \<le> h \<or> h + 32 \<le> x" using sp x(3) by blast
    then have ap: "apart (x + 16) (h + 16)" "apart (x + 16) (h + 24)" "apart (h + 16) (x + 24)" "apart (h + 24) (x + 24)"
      "apart (h + 24) (h + 16)" "apart (x + 16) (x + 24)"
      by (auto simp: apart_def)
    have "links ?a3 x xs NULL = links a x xs NULL"
    proof (rule links_cong)
      fix y assume y: "y \<in> set xs"
      then have "y + 32 \<le> h \<or> h + 32 \<le> y" "x + 32 \<le> y \<or> y + 32 \<le> x"
        using sp [of y] d(9) [of x y] d(3) x(3) Cons by auto
      then show "word_at ?a3 (y + 16) = word_at a (y + 16) \<and> word_at ?a3 (y + 24) = word_at a (y + 24)"
        by (auto simp: apart_def x(1))
    qed
    then show ?thesis using d(2) ap x fl64 h(3) Cons by simp
  qed
  have "free_list_ok (?a3\<lparr>free_list := h\<rparr>) (h # fl)"
    unfolding free_list_ok_def
  proof (intro conjI)
    have "links (?a3\<lparr>free_list := h\<rparr>) NULL (h # fl) NULL = links ?a3 NULL (h # fl) NULL" by (rule links_cong) simp
    with lk show "links (?a3\<lparr>free_list := h\<rparr>) NULL (h # fl) NULL" by simp
    have m: "mapped (?a3\<lparr>free_list := h\<rparr>) = mapped a" by simp
    show "\<forall>x\<in>set (h # fl). 0 < x \<and> x + 32 < 2 ^ 64 \<and> mapped (?a3\<lparr>free_list := h\<rparr>) (x + 8)
        \<and> mapped (?a3\<lparr>free_list := h\<rparr>) (x + 16) \<and> mapped (?a3\<lparr>free_list := h\<rparr>) (x + 24)"
      unfolding m using d(4-8) h by auto
    show "\<forall>x\<in>set (h # fl). \<forall>y\<in>set (h # fl). x \<noteq> y \<longrightarrow> x + 32 \<le> y \<or> y + 32 \<le> x"
      using d(9) sp by (auto; fastforce)
  qed (use d(3) h(1) in simp_all)
  moreover have "framed (\<Union>x \<in> set (h # fl). link_area x) a (?a3\<lparr>free_list := h\<rparr>)"
  proof -
    have "{h + 16..<h + 16 + 8} \<subseteq> link_area h" "{h + 24..<h + 24 + 8} \<subseteq> link_area h" "{x + 16..<x + 16 + 8} \<subseteq> link_area x" for x
      by (auto simp: link_area_def)
    then have "framed (\<Union>x \<in> set (h # fl). link_area x) a ?a2" by (intro framed_put framed_refl) auto
    moreover have "{free_list a + 16..<free_list a + 16 + 8} \<subseteq> (\<Union>x \<in> set (h # fl). link_area x)" if "free_list a \<noteq> NULL"
      using fh [OF that] by (fastforce simp: link_area_def)
    ultimately show ?thesis by (cases "free_list a = NULL") (auto simp: framed_put)
  qed
  ultimately show ?thesis using run by (auto simp: put_word_def)
qed
text \<open>Stores to one end of a list.\<close>

definition far :: "addr \<Rightarrow> addr list \<Rightarrow> bool" where
  "far x ys \<longleftrightarrow> (\<forall>y \<in> set ys. x + 32 \<le> y \<or> y + 32 \<le> x)"

lemma links_other: "far x ys \<Longrightarrow> k = 16 \<or> k = 24 \<Longrightarrow> links (put_word (x + k) v a) p ys n = links a p ys n"
  by (rule links_cong) (auto simp: far_def apart_def)

lemma links_set_last:
  assumes "links a q (us @ [p]) m" and "far p us" and "n < 2 ^ 64"
  shows "links (put_word (p + 24) n a) q (us @ [p]) n"
  using assms links_other [of p us 24 n a q p] by (simp add: links_append apart_def)

lemma links_set_first:
  assumes "links a q (n # vs) m" and "far n vs" and "p < 2 ^ 64"
  shows "links (put_word (n + 16) p a) p (n # vs) m"
  using assms links_other [of n vs 16 p a n m] by (simp add: apart_def)

lemma free_list_far:
  assumes "free_list_ok a fl" and "x \<in> set fl" and "set ys \<subseteq> set fl - {x}"
  shows "far x ys"
  using assms(2,3) free_list_okD(9) [OF assms(1)] unfolding far_def by (metis Diff_iff insertI1 subset_iff)

lemma gca_remove_ok:
  assumes ok: "free_list_ok a (xs @ h # ys)"
  shows "\<exists>a'. gca_remove_free_list a h = Inr a' \<and> free_list_ok a' (xs @ ys)
    \<and> framed (\<Union>x \<in> set (xs @ ys). link_area x) a a' \<and> current_brk a' = current_brk a \<and> alloc_errno a' = alloc_errno a"
proof -
  note d = free_list_okD [OF ok]
  let ?p = "last_of NULL xs" and ?n = "first_of NULL ys"
  let ?a1 = "if free_list a = h then a\<lparr>free_list := ?n\<rparr> else a"
  let ?a2 = "if ?p \<noteq> NULL then put_word (?p + 24) ?n ?a1 else ?a1"
  let ?a3 = "if ?n \<noteq> NULL then put_word (?n + 16) ?p ?a2 else ?a2"
  have h: "h \<in> set (xs @ h # ys)" by simp
  have ad: "header_prev_free h = h + 16" "header_next_free h = h + 24"
    using d(5) [OF h] by (simp_all add: header_prev_free_def header_next_free_def)
  have wh: "word_at a (h + 16) = ?p" "word_at a (h + 24) = ?n" using d(2) by (simp_all add: links_append)
  have pn: "?p \<noteq> NULL \<Longrightarrow> ?p \<in> set xs" "?n \<noteq> NULL \<Longrightarrow> ?n \<in> set ys"
    using last_of_in [of NULL xs] first_of_in [of NULL ys] by auto
  have p64: "?p < 2 ^ 64" "?n < 2 ^ 64"
    using d(5) [of ?p] d(5) [of ?n] pn by (cases "?p = NULL", simp_all, cases "?n = NULL", simp_all)
  have s1: "header_next_free ?p = ?p + 24" "mapped a (?p + 24)" if "?p \<noteq> NULL"
    using d(5,8) [of ?p] pn(1) [OF that] by (simp_all add: header_next_free_def)
  have s2: "header_prev_free ?n = ?n + 16" "mapped a (?n + 16)" if "?n \<noteq> NULL"
    using d(5,7) [of ?n] pn(2) [OF that] by (simp_all add: header_prev_free_def)
  have run: "gca_remove_free_list a h = Inr ?a3"
    using d(7,8) [OF h] wh s1 s2 by (simp add: gca_remove_free_list_def ad)
  have dis: "distinct xs" "distinct ys" "set xs \<inter> set ys = {}" "h \<notin> set xs" "h \<notin> set ys" using d(3) by auto
  have pz: "?p \<noteq> NULL \<longleftrightarrow> xs \<noteq> []" "?n \<noteq> NULL \<longleftrightarrow> ys \<noteq> []"
    using d(4) [of ?p] d(4) [of ?n] last_of_in [of NULL xs] first_of_in [of NULL ys] by (cases xs rule: rev_cases; cases ys; simp)+
  have l: "links ?a1 NULL xs h" "links ?a1 h ys NULL"
    using d(2) links_cong [of xs ?a1 a NULL h] links_cong [of ys ?a1 a h NULL] by (simp_all add: links_append)
  have l2: "links ?a2 NULL xs ?n" "links ?a2 h ys NULL"
  proof -
    show "links ?a2 NULL xs ?n"
    proof (cases xs rule: rev_cases)
      case (snoc us p)
      have "far p us" using dis snoc by (intro free_list_far [OF ok]) auto
      with snoc l(1) p64(2) pz(1) show ?thesis by (simp add: links_set_last)
    qed simp
    have "far ?p ys" if "?p \<noteq> NULL" using dis pn(1) [OF that] by (intro free_list_far [OF ok]) auto
    then show "links ?a2 h ys NULL" using l(2) links_other by simp
  qed
  have l3: "links ?a3 NULL xs ?n" "links ?a3 ?p ys NULL"
  proof -
    have "far ?n xs" if "?n \<noteq> NULL" using dis pn(2) [OF that] by (intro free_list_far [OF ok]) auto
    then show "links ?a3 NULL xs ?n" using l2(1) links_other by (cases "?n = NULL") simp_all
    show "links ?a3 ?p ys NULL"
    proof (cases ys)
      case (Cons n vs)
      have "far n vs" using dis Cons by (intro free_list_far [OF ok]) auto
      then show ?thesis using Cons l2(2) p64(1) pz(2) links_set_first [of ?a2 h n vs NULL ?p] by simp
    qed simp
  qed
  have f: "free_list ?a3 = first_of NULL (xs @ ys)"
    using d(1) dis(4) pz by (cases xs) (auto simp: first_of_append)
  have "free_list_ok ?a3 (xs @ ys)"
    unfolding free_list_ok_def
  proof (intro conjI)
    have m: "mapped ?a3 = mapped a" by simp
    show "\<forall>x\<in>set (xs @ ys). 0 < x \<and> x + 32 < 2 ^ 64 \<and> mapped ?a3 (x + 8) \<and> mapped ?a3 (x + 16) \<and> mapped ?a3 (x + 24)"
      unfolding m using d(4-8) by auto
    show "\<forall>x\<in>set (xs @ ys). \<forall>y\<in>set (xs @ ys). x \<noteq> y \<longrightarrow> x + 32 \<le> y \<or> y + 32 \<le> x"
      using d(9) by (intro ballI impI) simp
  qed (use f l3 dis in \<open>simp_all add: links_append\<close>)
  moreover have "framed (\<Union>x \<in> set (xs @ ys). link_area x) a ?a3"
  proof -
    have "{?p + 24..<?p + 24 + 8} \<subseteq> (\<Union>x \<in> set (xs @ ys). link_area x)" if "?p \<noteq> NULL"
      using pn(1) [OF that] by (fastforce simp: link_area_def)
    moreover have "{?n + 16..<?n + 16 + 8} \<subseteq> (\<Union>x \<in> set (xs @ ys). link_area x)" if "?n \<noteq> NULL"
      using pn(2) [OF that] by (fastforce simp: link_area_def)
    ultimately show ?thesis by (simp add: framed_put_word)
  qed
  ultimately show ?thesis using run by (intro exI [of _ ?a3]) (simp add: put_word_def)
qed

text \<open>The walk finds the first block of the list that is large enough.\<close>

lemma gca_find_loop_ok:
  assumes ok: "free_list_ok a fl"
  shows "links a p ys NULL \<Longrightarrow> set ys \<subseteq> set fl \<Longrightarrow>
    gca_find_loop a n (first_of NULL ys) = Some (Inr (case find (\<lambda>x. n \<le> fst (info a (x + 8))) ys of None \<Rightarrow> NULL | Some x \<Rightarrow> x))"
proof (induction ys arbitrary: p)
  case Nil
  then show ?case by (simp add: gca_find_loop.simps)
next
  case (Cons x xs)
  have x: "x \<in> set fl" using Cons.prems by simp
  note d = free_list_okD [OF ok]
  have ad: "curr_info x = x + 8" "header_next_free x = x + 24" using d(5) [OF x] by (simp_all add: curr_info_def header_next_free_def)
  have "gca_find_loop a n x = (if n \<le> fst (info a (x + 8)) then Some (Inr x) else gca_find_loop a n (first_of NULL xs))"
    using d(4,6,8) [OF x] gca_info_ops(1) [OF d(6) [OF x]] Cons.prems(1) by (subst gca_find_loop.simps) (simp add: ad)
  moreover have "gca_find_loop a n (first_of NULL xs) = Some (Inr (case find (\<lambda>x. n \<le> fst (info a (x + 8))) xs of None \<Rightarrow> NULL | Some x \<Rightarrow> x))"
    using Cons.prems by (intro Cons.IH [of x]) simp_all
  ultimately show ?case by simp
qed

section \<open>The chain of blocks\<close>

text \<open>
  Block headers are 16 bytes.  Every header repeats size and flag of the block before it;
  \<open>q\<close> is what the first one says.
\<close>

abbreviation g_places :: "addr \<Rightarrow> (nat \<times> bool) list \<Rightarrow> (addr \<times> nat \<times> bool) list" where
  "g_places \<equiv> block_places 16"

abbreviation g_end :: "addr \<Rightarrow> (nat \<times> bool) list \<Rightarrow> addr" where
  "g_end \<equiv> block_end 16"

fun chain :: "GlibcAllocator \<Rightarrow> nat \<times> bool \<Rightarrow> addr \<Rightarrow> (nat \<times> bool) list \<Rightarrow> bool" where
  "chain a q p [] \<longleftrightarrow> True"
| "chain a q p ((s, f) # bs) \<longleftrightarrow> info a p = q \<and> info a (p + 8) = (s, f) \<and> chain a (s, f) (p + s + 16) bs"

definition before :: "nat \<times> bool \<Rightarrow> (nat \<times> bool) list \<Rightarrow> nat \<times> bool" where
  "before q bs = (if bs = [] then q else last bs)"

definition g_sized :: "(nat \<times> bool) list \<Rightarrow> bool" where
  "g_sized bs \<longleftrightarrow> (\<forall>(s, f) \<in> set bs. 16 \<le> s \<and> 16 dvd s)"

definition g_frees :: "addr \<Rightarrow> (nat \<times> bool) list \<Rightarrow> addr set" where
  "g_frees p bs = {x. \<exists>s. (x, s, True) \<in> set (g_places p bs)}"

lemma g_sized_simps [simp]:
  "g_sized []" "g_sized ((s, f) # bs) \<longleftrightarrow> 16 \<le> s \<and> 16 dvd s \<and> g_sized bs" "g_sized (us @ vs) \<longleftrightarrow> g_sized us \<and> g_sized vs"
  by (auto simp: g_sized_def)

lemma g_frees_simps [simp]:
  "g_frees p [] = {}" "g_frees p ((s, True) # bs) = insert p (g_frees (p + s + 16) bs)"
  "g_frees p ((s, False) # bs) = g_frees (p + s + 16) bs" "g_frees p (us @ vs) = g_frees p us \<union> g_frees (g_end p us) vs"
  by (auto simp: g_frees_def places_append)

lemma before_simps [simp]: "before q [] = q" "before q (us @ [b]) = b" "before q (b # us) = before b us"
  by (auto simp: before_def)

lemma headers_append: "chain a q p (us @ vs) \<longleftrightarrow> chain a q p us \<and> chain a (before q us) (g_end p us) vs"
  by (induction a q p us rule: chain.induct) auto

lemma chain_keeps:
  "chain a q p bs \<Longrightarrow> framed W a a' \<Longrightarrow> (\<And>x. x \<in> W \<Longrightarrow> x < p \<or> g_end p bs \<le> x) \<Longrightarrow> chain a' q p bs"
proof (induction a q p bs rule: chain.induct)
  case (2 a q p s f bs)
  have e: "p + s + 16 \<le> g_end (p + s + 16) bs" by (rule end_of_le)
  have out: "x \<notin> W" if "p \<le> x" "x < p + 16" for x using 2(4) [of x] e that by auto
  have "info a' p = info a p" "info a' (p + 8) = info a (p + 8)"
    using out by (auto intro!: framed_info [OF 2(3)])
  moreover have "chain a' (s, f) (p + s + 16) bs"
  proof (rule 2(1) [OF _ 2(3)])
    show "x < p + s + 16 \<or> g_end (p + s + 16) bs \<le> x" if "x \<in> W" for x using 2(4) [OF that] by auto
  qed (use 2(2) in simp)
  ultimately show ?case using 2(2) by simp
qed simp

lemma chain_place: "chain a q p bs \<Longrightarrow> (x, s, f) \<in> set (g_places p bs) \<Longrightarrow> info a (x + 8) = (s, f)"
  by (induction a q p bs rule: chain.induct) auto

lemma g_frees_bounds: "x \<in> g_frees p bs \<Longrightarrow> g_sized bs \<Longrightarrow> p \<le> x \<and> x + 32 \<le> g_end p bs"
proof -
  assume x: "x \<in> g_frees p bs" and s: "g_sized bs"
  then obtain s where p: "(x, s, True) \<in> set (g_places p bs)" by (auto simp: g_frees_def)
  then have "16 \<le> s" using s
    by (induction "16 :: nat" p bs rule: block_places.induct) auto
  then show ?thesis using places_bounds [OF p] by simp
qed

lemma g_end_dvd: "16 dvd p \<Longrightarrow> g_sized bs \<Longrightarrow> 16 dvd g_end p bs"
  by (induction "16 :: nat" p bs rule: block_end.induct) auto

text \<open>
  The heap starts with the first block and ends with a header of size 0 below the break.
  \<open>D\<close> are blocks that are free but not in the list, which happens inside an operation.
\<close>

definition gca_region :: "GlibcAllocator \<Rightarrow> (nat \<times> bool) list \<Rightarrow> bool" where
  "gca_region a bs \<longleftrightarrow> 0 < heap a \<and> 16 dvd heap a \<and> heap a + heap_size a + 64 < 2 ^ 64 \<and> heap_size a < 2 ^ 63 \<and> g_sized bs
     \<and> current_brk a = g_end (heap a) bs + 16 \<and> current_brk a \<le> heap a + heap_size a"

definition gca_st :: "GlibcAllocator \<Rightarrow> (nat \<times> bool) list \<Rightarrow> addr list \<Rightarrow> addr set \<Rightarrow> bool" where
  "gca_st a bs fl D \<longleftrightarrow> gca_region a bs \<and> chain a (0, False) (heap a) (bs @ [(0, False)]) \<and> free_list_ok a fl
     \<and> set fl \<union> D = g_frees (heap a) bs \<and> set fl \<inter> D = {}"

lemma gca_stD:
  assumes "gca_st a bs fl D"
  shows "gca_region a bs" "chain a (0, False) (heap a) (bs @ [(0, False)])" "free_list_ok a fl"
    "set fl \<union> D = g_frees (heap a) bs" "set fl \<inter> D = {}"
  using assms by (simp_all add: gca_st_def)

lemma gca_regionD:
  assumes "gca_region a bs"
  shows "0 < heap a" "16 dvd heap a" "heap a + heap_size a + 64 < 2 ^ 64" "g_sized bs"
    "current_brk a = g_end (heap a) bs + 16" "g_end (heap a) bs + 16 \<le> heap a + heap_size a" "16 dvd g_end (heap a) bs"
    "heap a \<le> x \<Longrightarrow> x \<le> g_end (heap a) bs + 8 \<Longrightarrow> mapped a x" "heap_size a < 2 ^ 63"
  using assms g_end_dvd [of "heap a" bs] by (auto simp: gca_region_def mapped_def)

text \<open>Replacing the blocks \<open>ks\<close> by blocks \<open>ms\<close> of the same extent.\<close>

lemma gca_replace:
  assumes st: "gca_st a (us @ ks @ ws) fl D" and h: "h = g_end (heap a) us" "e = g_end h ks" "g_end h ms = e"
    and fr: "framed W a a'" "free_list a' = free_list a" "current_brk a' = current_brk a"
    and W: "\<And>x. x \<in> W \<Longrightarrow> h + 8 \<le> x \<and> x < e + 8" "\<And>x. x \<in> set fl \<Longrightarrow> link_area x \<inter> W = {}"
    and ms: "ks \<noteq> []" "ms \<noteq> []" "g_sized ms" "chain a' (info a h) h ms" "info a' e = last ms"
    and D: "set fl \<union> D' = g_frees (heap a) (us @ ms @ ws)" "set fl \<inter> D' = {}"
  shows "gca_st a' (us @ ms @ ws) fl D'"
proof -
  note d = gca_stD [OF st]
  note f = framedD [OF fr(1)]
  obtain k ks' where ks: "ks = k # ks'" using ms(1) by (cases ks) auto
  have c: "chain a (0, False) (heap a) us" "chain a (before (0, False) us) h ks"
    "chain a (before (before (0, False) us) ks) e (ws @ [(0, False)])"
    using d(2) h by (simp_all add: headers_append)
  have he: "h \<le> e" using h(2) end_of_le by simp
  have i: "info a h = before (0, False) us" using c(2) ks by (cases k) simp
  have "chain a' (0, False) (heap a) us"
    using W(1) h(1) by (intro chain_keeps [OF c(1) fr(1)]) fastforce
  moreover have "chain a' (before (before (0, False) us) ms) e (ws @ [(0, False)])"
  proof -
    obtain r g vs where n: "ws @ [(0, False)] = (r, g) # vs" by (cases "ws @ [(0, False)]") auto
    have v: "info a (e + 8) = (r, g)" "chain a (r, g) (e + r + 16) vs" using c(3) n by simp_all
    have "chain a' (r, g) (e + r + 16) vs" using W(1) by (intro chain_keeps [OF v(2) fr(1)]) fastforce
    moreover have "info a' (e + 8) = (r, g)" using W(1) v(1) framed_info [OF fr(1), of "e + 8"] by fastforce
    moreover have "before q ms = last ms" for q using ms(2) by (simp add: before_def)
    ultimately show ?thesis using ms(5) by (simp add: n)
  qed
  ultimately have ch: "chain a' (0, False) (heap a') ((us @ ms @ ws) @ [(0, False)])"
    using ms(4) i h(1,3) f(2) by (simp add: headers_append)
  have e: "g_end (heap a) (us @ ms @ ws) = g_end (heap a) (us @ ks @ ws)" using h by simp
  have "g_sized (us @ ms @ ws)" using gca_regionD(4) [OF d(1)] ms(3) by simp
  then have rg: "gca_region a' (us @ ms @ ws)"
    using d(1) f(2,3) fr(3) unfolding gca_region_def f(2) e by simp
  have "free_list_ok a' fl"
  proof -
    have "links a' NULL fl NULL = links a NULL fl NULL"
    proof (rule links_cong)
      fix x assume "x \<in> set fl"
      then have "link_area x \<inter> W = {}" by (rule W(2))
      then show "word_at a' (x + 16) = word_at a (x + 16) \<and> word_at a' (x + 24) = word_at a (x + 24)"
        by (intro conjI framed_word [OF fr(1)]) (auto simp: link_area_def disjoint_iff)
    qed
    then show ?thesis using d(3) fr(2) f(4) by (simp add: free_list_ok_def)
  qed
  then show ?thesis using rg ch D f(2) by (simp add: gca_st_def)
qed

section \<open>Memory of used blocks\<close>

abbreviation g_used :: "addr \<Rightarrow> (nat \<times> bool) list \<Rightarrow> nat set" where
  "g_used \<equiv> block_bytes 16"

lemma header_unused: "x = g_end p us \<Longrightarrow> {x..<x + 16} \<inter> g_used p (us @ ws) = {}"
proof -
  assume x: "x = g_end p us"
  have "y < x \<or> x + 16 \<le> y" if "(z, s, False) \<in> set (g_places p (us @ ws))" "y \<in> payload z s" for y z s
    using that outer_place [of z s False 16 p us "g_end p us" ws] x by (auto simp: places_append payload_def)
  then show ?thesis by (fastforce simp: block_bytes_def)
qed

lemma places_sized16: "(x, s, f) \<in> set (g_places p bs) \<Longrightarrow> g_sized bs \<Longrightarrow> 16 \<le> s \<and> 16 dvd s"
  by (induction "16 :: nat" p bs rule: block_places.induct) auto

lemma link_unused:
  assumes x: "x \<in> g_frees p bs" and s: "g_sized bs"
  shows "link_area x \<inter> g_used p bs = {}"
proof -
  obtain sx where p: "(x, sx, True) \<in> set (g_places p bs)" using x by (auto simp: g_frees_def)
  have "y < x + 16 \<or> x + 32 \<le> y" if q: "(z, t, False) \<in> set (g_places p bs)" "y \<in> payload z t" for y z t
  proof -
    have "x \<noteq> z" using block_places_same [OF _ p, of t False] q(1) by auto
    then show ?thesis
      using places_ordered [OF p q(1)] places_sized16 [OF p s] q(2) by (auto simp: payload_def)
  qed
  then show ?thesis by (fastforce simp: block_bytes_def link_area_def)
qed

lemma framed_used:
  assumes "framed W a a'" and "W \<inter> U = {}"
  shows "framed (- U) a a'"
  using assms by (intro framed_mono [OF assms(1)]) auto

lemma link_areas_unused:
  assumes "gca_st a bs fl D"
  shows "(\<Union>x \<in> set fl. link_area x) \<inter> g_used (heap a) bs = {}"
  using link_unused [OF _ gca_regionD(4) [OF gca_stD(1) [OF assms]]] gca_stD(4) [OF assms] by blast

section \<open>Operations on the list\<close>

text \<open>One block and its surroundings.\<close>

lemma gca_block:
  assumes st: "gca_st a (us @ (s, f) # ws) fl D" and h: "h = g_end (heap a) us" and n: "ws @ [(0, False)] = (r, g) # vs"
  shows "heap a \<le> h" "16 dvd h" "16 \<le> s" "16 dvd s" "h + s + 32 \<le> heap a + heap_size a" "h + s + 96 < 2 ^ 64" "0 < h"
    "info a h = before (0, False) us" "info a (h + 8) = (s, f)" "info a (h + s + 16) = (s, f)" "info a (h + s + 24) = (r, g)"
    "heap a \<le> x \<Longrightarrow> x \<le> h + s + 24 \<Longrightarrow> mapped a x"
proof -
  note d = gca_stD [OF st] and r = gca_regionD [OF gca_stD(1) [OF st]]
  have "chain a (0, False) (heap a) (us @ (s, f) # (r, g) # vs)" using d(2) by (simp add: n)
  then show "info a h = before (0, False) us" "info a (h + 8) = (s, f)" "info a (h + s + 16) = (s, f)" "info a (h + s + 24) = (r, g)"
    unfolding headers_append h [symmetric] by (simp_all add: add.assoc add.commute)
  have e: "h + s + 16 \<le> g_end (heap a) (us @ (s, f) # ws)" using end_of_le [of "h + s + 16" 16 ws] by (simp add: h)
  show "heap a \<le> h" using end_of_le [of "heap a" 16 us] by (simp add: h)
  with r(1) show "0 < h" by simp
  show "16 dvd h" using g_end_dvd [OF r(2)] r(4) by (simp add: h)
  show "16 \<le> s" "16 dvd s" using r(4) by simp_all
  show "h + s + 32 \<le> heap a + heap_size a" "h + s + 96 < 2 ^ 64" using e r(3,6) by simp_all
  show "heap a \<le> x \<Longrightarrow> x \<le> h + s + 24 \<Longrightarrow> mapped a x" using e by (intro r(8)) simp_all
qed

text \<open>Writing links leaves the headers alone.\<close>

lemma headers_cong:
  "(\<And>x s f. (x, s, f) \<in> set (g_places p bs) \<Longrightarrow> info a' x = info a x \<and> info a' (x + 8) = info a (x + 8)) \<Longrightarrow>
    chain a' q p bs = chain a q p bs"
proof (induction a q p bs rule: chain.induct)
  case (2 a q p s f bs)
  have "info a' p = info a p" "info a' (p + 8) = info a (p + 8)" using 2(2) [of p s f] by simp_all
  moreover have "chain a' (s, f) (p + s + 16) bs = chain a (s, f) (p + s + 16) bs"
  proof (rule 2(1))
    show "info a' x = info a x \<and> info a' (x + 8) = info a (x + 8)" if "(x, s', f') \<in> set (g_places (p + s + 16) bs)" for x s' f'
      using 2(2) [of x s' f'] that by simp
  qed
  ultimately show ?case by simp
qed simp

lemma header_not_link:
  assumes x: "(x, s, f) \<in> set (g_places p (bs @ [(0, False)]))" and y: "y \<in> g_frees p bs" and z: "g_sized bs"
  shows "{x..<x + 16} \<inter> link_area y = {}"
proof -
  obtain t where p: "(y, t, True) \<in> set (g_places p bs)" using y by (auto simp: g_frees_def)
  then have q: "(y, t, True) \<in> set (g_places p (bs @ [(0, False)]))" by (simp add: places_append)
  show ?thesis
  proof (cases "x = y")
    case False
    then show ?thesis using places_ordered [OF x q] places_sized16 [OF p z] by (auto simp: link_area_def)
  qed (auto simp: link_area_def)
qed

lemma gca_relink:
  assumes st: "gca_st a bs fl D" and fr: "framed (\<Union>x \<in> S. link_area x) a a'" and S: "S \<subseteq> g_frees (heap a) bs"
    and ok: "free_list_ok a' fl'" and b: "current_brk a' = current_brk a"
    and D: "set fl' \<union> D' = set fl \<union> D" "set fl' \<inter> D' = {}"
  shows "gca_st a' bs fl' D'" "framed (- g_used (heap a) bs) a a'"
proof -
  note d = gca_stD [OF st] and f = framedD [OF fr]
  note z = gca_regionD(4) [OF d(1)]
  have "info a' x = info a x \<and> info a' (x + 8) = info a (x + 8)"
    if "(x, s, f) \<in> set (g_places (heap a) (bs @ [(0, False)]))" for x s f
  proof -
    have "{x..<x + 16} \<inter> (\<Union>y \<in> S. link_area y) = {}" using header_not_link [OF that _ z] S by blast
    then show ?thesis by (intro conjI framed_info [OF fr]) (auto simp: disjoint_iff)
  qed
  then have "chain a' (0, False) (heap a) (bs @ [(0, False)]) = chain a (0, False) (heap a) (bs @ [(0, False)])"
    by (rule headers_cong)
  then show "gca_st a' bs fl' D'"
    using d ok b D f(2,3) by (simp add: gca_st_def gca_region_def)
  show "framed (- g_used (heap a) bs) a a'"
    using link_unused [OF _ z] S by (intro framed_used [OF fr]) blast
qed

lemma gca_st_remove:
  assumes st: "gca_st a bs fl D" and h: "h \<in> set fl"
  shows "\<exists>a'. gca_remove_free_list a h = Inr a' \<and> gca_st a' bs (remove1 h fl) (insert h D)
    \<and> framed (- g_used (heap a) bs) a a' \<and> alloc_errno a' = alloc_errno a"
proof -
  note d = gca_stD [OF st]
  obtain xs ys where fl: "fl = xs @ h # ys" using h by (meson split_list)
  have dis: "distinct (xs @ h # ys)" using free_list_okD(3) [OF d(3)] fl by simp
  then have r: "remove1 h fl = xs @ ys" by (simp add: fl remove1_append)
  obtain a' where a': "gca_remove_free_list a h = Inr a'" "free_list_ok a' (xs @ ys)"
    "framed (\<Union>x \<in> set (xs @ ys). link_area x) a a'" "current_brk a' = current_brk a" "alloc_errno a' = alloc_errno a"
    using gca_remove_ok [OF d(3) [unfolded fl]] by blast
  have "set (xs @ ys) \<subseteq> g_frees (heap a) bs" using d(4) fl by auto
  moreover have "set (xs @ ys) \<union> insert h D = set fl \<union> D" "set (xs @ ys) \<inter> insert h D = {}"
    using d(5) dis fl by auto
  ultimately have "gca_st a' bs (xs @ ys) (insert h D)" "framed (- g_used (heap a) bs) a a'"
    by (rule gca_relink [OF st a'(3) _ a'(2,4)])+
  then show ?thesis using a'(1,5) r by auto
qed

lemma gca_st_add:
  assumes st: "gca_st a bs fl D" and h: "h \<in> D"
  shows "\<exists>a'. gca_add_free_list a h = Inr a' \<and> gca_st a' bs (h # fl) (D - {h})
    \<and> framed (- g_used (heap a) bs) a a' \<and> alloc_errno a' = alloc_errno a"
proof -
  note d = gca_stD [OF st] and r = gca_regionD [OF gca_stD(1) [OF st]]
  have hf: "h \<in> g_frees (heap a) bs" "h \<notin> set fl" using h d(4,5) by auto
  have b: "heap a \<le> h" "h + 32 \<le> g_end (heap a) bs" using g_frees_bounds [OF hf(1) r(4)] by simp_all
  have m: "mapped a (h + 8)" "mapped a (h + 16)" "mapped a (h + 24)" using b by (intro r(8); simp)+
  have sp: "x + 32 \<le> h \<or> h + 32 \<le> x" if x: "x \<in> set fl" for x
  proof -
    have "x \<in> g_frees (heap a) bs" "x \<noteq> h" using x d(4) hf(2) by auto
    then obtain s t where p: "(x, s, True) \<in> set (g_places (heap a) bs)" "(h, t, True) \<in> set (g_places (heap a) bs)"
      using hf(1) by (auto simp: g_frees_def)
    show ?thesis
      using places_ordered [OF p \<open>x \<noteq> h\<close>] places_sized16 [OF p(1) r(4)] places_sized16 [OF p(2) r(4)] by auto
  qed
  have h0: "0 < h" "h + 32 < 2 ^ 64" using b r(1,3,6) by simp_all
  obtain a' where a': "gca_add_free_list a h = Inr a'" "free_list_ok a' (h # fl)"
    "framed (\<Union>x \<in> set (h # fl). link_area x) a a'" "current_brk a' = current_brk a" "alloc_errno a' = alloc_errno a"
    using gca_add_ok [OF d(3) hf(2) h0 m sp] by blast
  have "set (h # fl) \<subseteq> g_frees (heap a) bs" using d(4) hf by auto
  moreover have "set (h # fl) \<union> (D - {h}) = set fl \<union> D" "set (h # fl) \<inter> (D - {h}) = {}" using d(5) h by auto
  ultimately have "gca_st a' bs (h # fl) (D - {h})" "framed (- g_used (heap a) bs) a a'"
    by (rule gca_relink [OF st a'(3) _ a'(2,4)])+
  then show ?thesis using a'(1,5) by auto
qed

section \<open>Operations on blocks\<close>

lemma gca_addresses:
  assumes "h + s + 96 < 2 ^ 64"
  shows "curr_info h = h + 8" "curr_info (h + s + 16) = h + s + 24" "gca_header_to_data h = h + 16" "prev_info x = x"
  using assms by (simp_all add: curr_info_def gca_header_to_data_def gca_consts prev_info_def)

lemma gca_next_ok: "mapped a (h + 8) \<Longrightarrow> info a (h + 8) = (s, f) \<Longrightarrow> h + s + 96 < 2 ^ 64 \<Longrightarrow> gca_next a h = Inr (h + s + 16)"
  by (simp add: gca_next_def gca_addresses [of h s] gca_info_ops add.commute add.left_commute)

text \<open>Setting the flag of a block, in its header and in that of the next one.\<close>

definition put_state :: "addr \<Rightarrow> nat \<Rightarrow> bool \<Rightarrow> GlibcAllocator \<Rightarrow> GlibcAllocator" where
  "put_state h s f a = put_flag (h + s + 16) f (put_flag (h + 8) f a)"

lemma gca_mark:
  assumes st: "gca_st a (us @ (s, f) # ws) fl D" and h: "h = g_end (heap a) us"
    and g: "h \<notin> set fl" "D' = (if g then insert h (D - {h}) else D - {h})"
  shows "gca_st (put_state h s g a) (us @ (s, g) # ws) fl D'"
    "framed (- g_used (heap a) (us @ (s, f) # ws)) a (put_state h s g a)"
proof -
  let ?e = "h + s + 16" and ?a = "put_state h s g a"
  note d = gca_stD [OF st] and r = gca_regionD [OF gca_stD(1) [OF st]]
  obtain t k vs where n: "ws @ [(0, False)] = (t, k) # vs" by (cases "ws @ [(0, False)]") auto
  note b = gca_block [OF st h n]
  let ?W = "{h + 8..<h + 16} \<union> {?e..<?e + 8}"
  have fr: "framed ?W a ?a"
    unfolding put_state_def by (intro framed_put framed_refl) auto
  have i: "info ?a (h + 8) = (s, g)" "info ?a ?e = (s, g)" "info ?a h = info a h"
    using b(9,10) by (simp_all add: put_state_def apart_def)
  have z: "g_sized (us @ [(s, f)] @ ws)" using r(4) by simp
  have lk: "link_area x \<inter> ?W = {}" if "x \<in> set fl" for x
  proof -
    have x: "x \<in> g_frees (heap a) (us @ (s, f) # ws)" using that d(4) by auto
    have p: "(h, s, f) \<in> set (g_places (heap a) ((us @ (s, f) # ws) @ [(0, False)]))"
      "(?e, t, k) \<in> set (g_places (heap a) ((us @ (s, f) # ws) @ [(0, False)]))"
      using n h by (simp_all add: places_append)
    show ?thesis
      using header_not_link [OF p(1) x r(4)] header_not_link [OF p(2) x r(4)] by (auto simp: disjoint_iff)
  qed
  have fb: "x < h \<or> ?e \<le> x" if "x \<in> g_frees (heap a) us \<union> g_frees ?e ws" for x
    using that g_frees_bounds [of x "heap a" us] g_frees_bounds [of x ?e ws] r(4) h by auto
  have fs: "g_frees (heap a) (us @ (s, f) # ws) = g_frees (heap a) us \<union> (if f then {h} else {}) \<union> g_frees ?e ws"
    "g_frees (heap a) (us @ (s, g) # ws) = g_frees (heap a) us \<union> (if g then {h} else {}) \<union> g_frees ?e ws"
    by (cases f; cases g; simp add: h)+
  have nh: "h \<notin> g_frees (heap a) us \<union> g_frees ?e ws" using fb [of h] by auto
  have "gca_st ?a (us @ [(s, g)] @ ws) fl D'"
  proof (rule gca_replace [where ks = "[(s, f)]" and W = ?W])
    show "gca_st a (us @ [(s, f)] @ ws) fl D" using st by simp
    show "set fl \<union> D' = g_frees (heap a) (us @ [(s, g)] @ ws)" "set fl \<inter> D' = {}"
      using d(4,5) fs nh g by (auto split: if_splits)
    show "h + 8 \<le> x \<and> x < ?e + 8" if "x \<in> ?W" for x using that by auto
  qed (use h fr i z lk in \<open>simp_all add: put_state_def\<close>)
  then show "gca_st ?a (us @ (s, g) # ws) fl D'" by simp
  show "framed (- g_used (heap a) (us @ (s, f) # ws)) a ?a"
  proof (rule framed_used [OF fr])
    have "{h..<h + 16} \<inter> g_used (heap a) (us @ (s, f) # ws) = {}" by (rule header_unused [OF h])
    moreover have "{?e..<?e + 16} \<inter> g_used (heap a) ((us @ [(s, f)]) @ ws) = {}" by (rule header_unused) (simp add: h)
    ultimately show "?W \<inter> g_used (heap a) (us @ (s, f) # ws) = {}" by (auto simp: disjoint_iff)
  qed
qed

lemma gca_set_flag: "mapped a w \<Longrightarrow> gca_set_used a w (if f then 0 else 1) = Inr (put_flag w f a)"
  using gca_info_ops(4,5) by (cases f) simp_all

text \<open>The header of a block and the first word of the next one keep clear of the list.\<close>

lemma gca_outer_words:
  assumes st: "gca_st a (us @ ks @ ws) fl D" and h: "h = g_end (heap a) us" "e = g_end h ks" and ks: "ks \<noteq> []"
  shows "x \<in> set fl \<Longrightarrow> link_area x \<inter> ({h + 8..<h + 16} \<union> {e..<e + 8}) = {}"
    "({h + 8..<h + 16} \<union> {e..<e + 8}) \<inter> g_used (heap a) (us @ ks @ ws) = {}"
proof -
  note d = gca_stD [OF st] and r = gca_regionD [OF gca_stD(1) [OF st]]
  obtain s f ks' where k: "ks = (s, f) # ks'" using ks by (cases ks) auto
  obtain t k vs where n: "ws @ [(0, False)] = (t, k) # vs" by (cases "ws @ [(0, False)]") auto
  have p: "(h, s, f) \<in> set (g_places (heap a) ((us @ ks @ ws) @ [(0, False)]))"
    "(e, t, k) \<in> set (g_places (heap a) ((us @ ks @ ws) @ [(0, False)]))"
    using n h k by (simp_all add: places_append)
  show "link_area x \<inter> ({h + 8..<h + 16} \<union> {e..<e + 8}) = {}" if "x \<in> set fl"
  proof -
    have x: "x \<in> g_frees (heap a) (us @ ks @ ws)" using that d(4) by blast
    show ?thesis using header_not_link [OF p(1) x r(4)] header_not_link [OF p(2) x r(4)] by (auto simp: disjoint_iff)
  qed
  have "{h..<h + 16} \<inter> g_used (heap a) (us @ ks @ ws) = {}" by (rule header_unused [OF h(1)])
  moreover have "{e..<e + 16} \<inter> g_used (heap a) ((us @ ks) @ ws) = {}" by (rule header_unused) (simp add: h)
  ultimately show "({h + 8..<h + 16} \<union> {e..<e + 8}) \<inter> g_used (heap a) (us @ ks @ ws) = {}"
    by (auto simp: disjoint_iff)
qed

lemma gca_coalesce_no:
  assumes st: "gca_st a (us @ (s, f) # ws) fl D" and h: "h = g_end (heap a) us" and n: "ws @ [(0, False)] = (r, False) # vs"
  shows "gca_coalesce_next a h = Inr (False, a)"
proof -
  note b = gca_block [OF st h n] and ad = gca_addresses [OF gca_block(6) [OF st h n]]
  have "mapped a (h + 8)" "mapped a (h + s + 24)" using b(1) by (intro b(12); simp)+
  then show ?thesis
    using gca_next_ok [OF _ b(9,6)] b(11) by (simp add: gca_coalesce_next_def ad gca_info_ops)
qed

lemma insert_both: "R \<union> insert n D = insert n F \<Longrightarrow> n \<notin> R \<Longrightarrow> n \<notin> F \<Longrightarrow> n \<notin> D \<Longrightarrow> R \<union> D = F"
proof -
  assume a: "R \<union> insert n D = insert n F" "n \<notin> R" "n \<notin> F" "n \<notin> D"
  have "R \<union> D = (R \<union> insert n D) - {n}" using a(2,4) by auto
  also have "\<dots> = F" unfolding a(1) using a(3) by simp
  finally show ?thesis .
qed

lemma gca_coalesce_yes:
  assumes st: "gca_st a (us @ (s, f) # (t, True) # ws) fl D" and h: "h = g_end (heap a) us" and n: "h + s + 16 \<in> set fl"
  shows "\<exists>a'. gca_coalesce_next a h = Inr (True, a') \<and> gca_st a' (us @ (s + t + 16, f) # ws) (remove1 (h + s + 16) fl) D
    \<and> framed (- g_used (heap a) (us @ (s, f) # (t, True) # ws)) a a' \<and> alloc_errno a' = alloc_errno a"
proof -
  let ?n = "h + s + 16" and ?e = "h + s + 16 + t + 16" and ?S = "s + t + 16"
  let ?bs = "us @ (s, f) # (t, True) # ws"
  obtain a1 where a1: "gca_remove_free_list a ?n = Inr a1" "gca_st a1 ?bs (remove1 ?n fl) (insert ?n D)"
    "framed (- g_used (heap a) ?bs) a a1" "alloc_errno a1 = alloc_errno a"
    using gca_st_remove [OF st n] by blast
  note f1 = framedD [OF a1(3)]
  obtain r g vs where v: "ws @ [(0, False)] = (r, g) # vs" by (cases "ws @ [(0, False)]") auto
  have h1: "h = g_end (heap a1) us" using h f1(2) by simp
  have n0: "((t, True) # ws) @ [(0, False)] = (t, True) # (r, g) # vs" using v by simp
  note b0 = gca_block [OF st h n0] and b1 = gca_block [OF a1(2) h1 n0]
  have st2: "gca_st a1 ((us @ [(s, f)]) @ (t, True) # ws) (remove1 ?n fl) (insert ?n D)" using a1(2) by simp
  have n1: "?n = g_end (heap a1) (us @ [(s, f)])" using h1 by simp
  note c1 = gca_block [OF st2 n1 v]
  note ad = gca_addresses [OF b0(6)] and ad2 = gca_addresses [OF c1(6)]
  let ?a2 = "put_flag ?e f a1"
  let ?a3 = "put_size ?e ?S ?a2"
  let ?a4 = "put_size (h + 8) ?S ?a3"
  have m0: "mapped a (h + 8)" "mapped a (?n + 8)" using b0(1) by (intro b0(12); simp)+
  have m1: "mapped a1 (h + 8)" using b1(1) by (intro b1(12)) simp_all
  have m2: "mapped a1 (?n + 8)" "mapped a1 ?e" using c1(1) by (intro c1(12); simp)+
  have dv: "8 dvd ?S" "?S < 2 ^ 64" using b1(4) c1(4,6) by (auto intro: dvd_trans [of 8 16])
  have i0: "info a (?n + 8) = (t, True)" using b0(11) by (simp add: add.assoc)
  have S: "usize (s + GCA_INFO_SIZE + t) = ?S" using dv(2) by (simp add: gca_consts)
  have cn: "curr_info ?n = ?n + 8" using c1(6) by (simp add: curr_info_def)
  have "gca_used a (curr_info ?n) = Inr 0" "gca_size a1 (curr_info h) = Inr s" "gca_size a1 (curr_info ?n) = Inr t"
    "gca_used a1 (curr_info h) = Inr (if f then 0 else 1)"
    using m0 m1 m2 i0 b1(9) c1(9) by (simp_all only: cn ad(1) gca_info_ops fst_conv snd_conv if_True)
  moreover have "gca_set_used a1 (prev_info ?e) (if f then 0 else 1) = Inr ?a2"
    "gca_set_size ?a2 (prev_info ?e) ?S = Inr ?a3" "gca_set_size ?a3 (curr_info h) ?S = Inr ?a4"
    using m1 m2 dv by (simp_all only: ad(1,4) gca_set_flag gca_info_ops(3) put_fields)
  ultimately have run: "gca_coalesce_next a h = Inr (True, ?a4)"
    by (simp only: gca_coalesce_next_def gca_next_ok [OF m0(1) b0(9,6)] rbind_Inr simp_thms if_False a1(1) S Let_def
        gca_next_ok [OF m2(1) c1(9,6)])
  let ?W = "{h + 8..<h + 16} \<union> {?e..<?e + 8}"
  have sp: "apart (h + 8) ?e" "apart ?e (h + 8)" "apart ?e h" "apart (h + 8) h" by (auto simp: apart_def)
  have i: "info ?a4 ?e = (?S, f)" "info ?a4 (h + 8) = (?S, f)" "info ?a4 h = info a1 h"
    using dv sp b1(9) by simp_all
  have fr: "framed ?W a1 ?a4" by (intro framed_put framed_refl) auto
  have st3: "gca_st a1 (us @ [(s, f), (t, True)] @ ws) (remove1 ?n fl) (insert ?n D)" using a1(2) by simp
  have e3: "?e = g_end h [(s, f), (t, True)]" by simp
  note out = gca_outer_words [OF st3 h1 e3]
  note d = gca_stD [OF a1(2)] and rg = gca_regionD [OF gca_stD(1) [OF a1(2)]]
  have nD: "?n \<notin> D" using gca_stD(5) [OF st] n by auto
  have new: "g_frees (heap a1) ?bs = insert ?n (g_frees (heap a1) (us @ (?S, f) # ws))" "?n \<notin> g_frees (heap a1) (us @ (?S, f) # ws)"
  proof -
    have e: "h + (s + t + 16) + 16 = ?e" by simp
    show "g_frees (heap a1) ?bs = insert ?n (g_frees (heap a1) (us @ (?S, f) # ws))"
      by (cases f) (simp_all add: h1 [symmetric] e insert_commute)
    have "x < h \<or> ?e \<le> x" if "x \<in> g_frees (heap a1) us \<union> g_frees ?e ws" for x
      using that g_frees_bounds [of x "heap a1" us] g_frees_bounds [of x ?e ws] rg(4) h1 by auto
    from this [of ?n] have "?n \<notin> g_frees (heap a1) us \<union> g_frees ?e ws" by auto
    then show "?n \<notin> g_frees (heap a1) (us @ (?S, f) # ws)" by (cases f) (simp_all add: h1 [symmetric] e)
  qed
  have "gca_st ?a4 (us @ [(?S, f)] @ ws) (remove1 ?n fl) D"
  proof (rule gca_replace [OF st3 h1 e3 _ fr])
    show "set (remove1 ?n fl) \<union> D = g_frees (heap a1) (us @ [(?S, f)] @ ws)"
    proof -
      have "set (remove1 ?n fl) \<union> insert ?n D = insert ?n (g_frees (heap a1) (us @ (?S, f) # ws))" using d(4) new(1) by (rule trans)
      moreover have "?n \<notin> set (remove1 ?n fl)" using d(5) by blast
      ultimately have "set (remove1 ?n fl) \<union> D = g_frees (heap a1) (us @ (?S, f) # ws)" using new(2) nD by (rule insert_both)
      then show ?thesis by simp
    qed
    show "set (remove1 ?n fl) \<inter> D = {}" using d(5) by auto
    show "link_area x \<inter> ?W = {}" if "x \<in> set (remove1 ?n fl)" for x using out(1) [OF _ that] by simp
    show "chain ?a4 (info a1 h) h [(?S, f)]" using i by simp
    show "info ?a4 ?e = last [(?S, f)]" using i by simp
    show "g_sized [(?S, f)]" using b1(3,4) c1(4) by simp
  qed auto
  moreover have "framed (- g_used (heap a) ?bs) a1 ?a4"
    using out(2) f1(2) by (intro framed_used [OF fr]) simp
  ultimately show ?thesis
    using run a1(4) framed_trans [OF a1(3) _ subset_refl subset_refl]
    by (intro exI [of _ ?a4]) (simp)
qed

lemma used_bytes_simps [simp]:
  "block_bytes k p [] = {}" "block_bytes k p ((s, True) # bs) = block_bytes k (p + s + k) bs"
  "block_bytes k p ((s, False) # bs) = payload p s \<union> block_bytes k (p + s + k) bs"
  "block_bytes k p (us @ vs) = block_bytes k p us \<union> block_bytes k (block_end k p us) vs"
  by (simp_all add: used_bytes_set)

text \<open>Cutting a block in two, up to the insertion of the second part.\<close>

definition put_cut :: "addr \<Rightarrow> nat \<Rightarrow> nat \<Rightarrow> bool \<Rightarrow> GlibcAllocator \<Rightarrow> GlibcAllocator" where
  "put_cut h n m f a = (let r = h + n + 16; e = r + m + 16 in
     put_flag (r + 8) True (put_size (r + 8) m (put_flag r f (put_size r n
       (put_size (h + 8) n (put_flag e True (put_size e m a)))))))"

lemma gca_cut:
  assumes st: "gca_st a (us @ (s, f) # ws) fl D" and h: "h = g_end (heap a) us"
    and n: "16 dvd n" "16 \<le> n" "n + 32 \<le> s" and m: "m = s - n - 16" and r: "r = h + n + 16"
  shows "gca_split_block a h n = rbind (gca_add_free_list (put_cut h n m f a) r) (\<lambda>a8.
      rbind (gca_coalesce_next a8 r) (\<lambda>(_, a9). Inr (r, a9)))"
    "gca_st (put_cut h n m f a) (us @ (n, f) # (m, True) # ws) fl (insert r D)"
    "framed (- g_used (heap a) (us @ (n, f) # (m, True) # ws)) a (put_cut h n m f a)"
    "16 \<le> m" "16 dvd m" "n + m + 16 = s" "r \<notin> set fl \<union> D" "alloc_errno (put_cut h n m f a) = alloc_errno a"
proof -
  let ?e = "h + s + 16"
  obtain t g vs where v: "ws @ [(0, False)] = (t, g) # vs" by (cases "ws @ [(0, False)]") auto
  note b = gca_block [OF st h v] and ad = gca_addresses [OF gca_block(6) [OF st h v]]
  show m': "16 \<le> m" "16 dvd m" "n + m + 16 = s" using m n b(4) by (auto intro!: dvd_diff_nat)
  have e: "r + m + 16 = ?e" using m' r by simp
  have d8: "8 dvd n" "8 dvd m" "n < 2 ^ 64" "m < 2 ^ 64"
    using n(1) m'(2,3) b(6) by (auto intro: dvd_trans [of 8 16])
  let ?a1 = "put_size ?e m a"
  let ?a2 = "put_flag ?e True ?a1"
  let ?a3 = "put_size (h + 8) n ?a2"
  let ?a4 = "put_size r n ?a3"
  let ?a5 = "put_flag r f ?a4"
  let ?a6 = "put_size (r + 8) m ?a5"
  let ?a7 = "put_flag (r + 8) True ?a6"
  have cut: "put_cut h n m f a = ?a7" by (simp add: put_cut_def Let_def e r [symmetric])
  show "alloc_errno (put_cut h n m f a) = alloc_errno a"
    unfolding cut by (simp)
  have mp: "mapped a (h + 8)" "mapped a ?e" "mapped a r" "mapped a (r + 8)"
    using b(1) n m' by (intro b(12); simp add: r)+
  have ap: "apart (h + 8) ?e" "apart ?e (h + 8)" "apart r (h + 8)" "apart (r + 8) (h + 8)" "apart r ?e" "apart (r + 8) ?e"
    "apart (r + 8) r" "apart r (r + 8)" "apart ?e h" "apart (h + 8) h" "apart r h" "apart (r + 8) h"
    using n m' by (auto simp: apart_def r)
  have i3: "info ?a3 (h + 8) = (n, f)" using b(9) ap d8 by simp
  have i: "info ?a7 (h + 8) = (n, f)" "info ?a7 r = (n, f)" "info ?a7 (r + 8) = (m, True)" "info ?a7 ?e = (m, True)"
    "info ?a7 h = info a h"
    using i3 ap d8 by simp_all
  have nx: "gca_next a h = Inr ?e" by (rule gca_next_ok [OF mp(1) b(9,6)])
  have nx3: "gca_next ?a3 h = Inr r" unfolding r using mp(1) i3 n b(6) by (intro gca_next_ok) simp_all
  have cr: "curr_info r = r + 8" using n b(6) by (simp add: curr_info_def r)
  have big: "(s < usize (n + GCA_INFO_SIZE + GCA_DATA_ALIGN)) = False" using n(3) b(6) by (simp add: gca_consts)
  have sub: "usize_sub (usize_sub s n) GCA_INFO_SIZE = m" using n b(6) by (simp add: usize_sub_le gca_consts m)
  have i4: "info ?a4 (h + 8) = (n, f)" using i3 ap by simp
  have "gca_size a (curr_info h) = Inr s" "gca_used ?a4 (curr_info h) = Inr (if f then 0 else 1)"
    using mp(1) b(9) i4 by (simp_all only: ad(1) gca_info_ops put_fields fst_conv snd_conv)
  moreover have "gca_set_size a (prev_info ?e) m = Inr ?a1" "gca_set_used ?a1 (prev_info ?e) 0 = Inr ?a2"
    "gca_set_size ?a2 (curr_info h) n = Inr ?a3" "gca_set_size ?a3 (prev_info r) n = Inr ?a4"
    "gca_set_used ?a4 (prev_info r) (if f then 0 else 1) = Inr ?a5" "gca_set_size ?a5 (curr_info r) m = Inr ?a6"
    "gca_set_used ?a6 (curr_info r) 0 = Inr ?a7"
    using mp d8 by (simp_all only: ad(1,4) cr gca_set_flag gca_info_ops(3,4) put_fields)
  ultimately show "gca_split_block a h n = rbind (gca_add_free_list (put_cut h n m f a) r) (\<lambda>a8.
      rbind (gca_coalesce_next a8 r) (\<lambda>(_, a9). Inr (r, a9)))"
    by (simp only: gca_split_block_def rbind_Inr big if_False Let_def sub nx nx3 cut)
  let ?W = "{h + 8..<h + 16} \<union> {?e..<?e + 8} \<union> {r..<r + 16}"
  have fr: "framed ?W a ?a7" by (intro framed_put framed_refl) auto
  note d = gca_stD [OF st] and rg = gca_regionD [OF gca_stD(1) [OF st]]
  have st1: "gca_st a (us @ [(s, f)] @ ws) fl D" using st by simp
  have e1: "?e = g_end h [(s, f)]" by simp
  note out = gca_outer_words [OF st1 h e1]
  have fb: "x < h \<or> ?e \<le> x" if "x \<in> g_frees (heap a) us \<union> g_frees ?e ws" for x
    using that g_frees_bounds [of x "heap a" us] g_frees_bounds [of x ?e ws] rg(4) h by auto
  have fs: "g_frees (heap a) (us @ (s, f) # ws) = g_frees (heap a) us \<union> (if f then {h} else {}) \<union> g_frees ?e ws"
    "g_frees (heap a) (us @ (n, f) # (m, True) # ws) = insert r (g_frees (heap a) us \<union> (if f then {h} else {}) \<union> g_frees ?e ws)"
    by (cases f; simp only: g_frees_simps h [symmetric] r [symmetric] e if_True if_False; auto)+
  have hr: "h < r" "r < ?e" using m' by (simp_all add: r)
  have nr: "r \<notin> g_frees (heap a) us \<union> (if f then {h} else {}) \<union> g_frees ?e ws" using fb [of r] hr by auto
  show nfD: "r \<notin> set fl \<union> D" using nr unfolding d(4) fs(1) .
  have lr: "link_area x \<inter> {r..<r + 16} = {}" if "x \<in> set fl" for x
  proof -
    have "x \<in> g_frees (heap a) us \<or> x = h \<or> x \<in> g_frees ?e ws" using that d(4) fs(1) by (auto split: if_splits)
    then have "x + 32 \<le> r \<or> r + 16 \<le> x + 16"
      using g_frees_bounds [of x "heap a" us] g_frees_bounds [of x ?e ws] rg(4) h hr n by (auto simp: r)
    then show ?thesis by (auto simp: link_area_def)
  qed
  have "gca_st ?a7 (us @ [(n, f), (m, True)] @ ws) fl (insert r D)"
  proof (rule gca_replace [OF st1 h e1 _ fr])
    have "set fl \<union> insert r D = insert r (set fl \<union> D)" by simp
    then show "set fl \<union> insert r D = g_frees (heap a) (us @ [(n, f), (m, True)] @ ws)"
      using fs by (simp only: d(4) append.simps)
    show "set fl \<inter> insert r D = {}" using d(5) nfD by simp
    show "link_area x \<inter> ?W = {}" if "x \<in> set fl" for x using out(1) [OF _ that] lr [OF that] by auto
    show "chain ?a7 (info a h) h [(n, f), (m, True)]" using i by (simp add: r)
    show "info ?a7 ?e = last [(n, f), (m, True)]" using i by simp
    show "h + 8 \<le> x \<and> x < ?e + 8" if "x \<in> ?W" for x using that m' by (auto simp: r)
    show "g_end h [(n, f), (m, True)] = ?e" using e by (simp add: r)
  qed (use n m' in simp_all)
  then show "gca_st (put_cut h n m f a) (us @ (n, f) # (m, True) # ws) fl (insert r D)" by (simp add: cut)
  show "framed (- g_used (heap a) (us @ (n, f) # (m, True) # ws)) a (put_cut h n m f a)"
    unfolding cut
  proof (rule framed_used [OF fr])
    have "{h..<h + 16} \<inter> g_used (heap a) (us @ (n, f) # (m, True) # ws) = {}" by (rule header_unused [OF h])
    moreover have "{r..<r + 16} \<inter> g_used (heap a) ((us @ [(n, f)]) @ (m, True) # ws) = {}"
      by (rule header_unused) (simp add: h r)
    moreover have "{?e..<?e + 16} \<inter> g_used (heap a) ((us @ [(n, f), (m, True)]) @ ws) = {}"
      by (rule header_unused) (use e in \<open>simp add: h r\<close>)
    ultimately show "?W \<inter> g_used (heap a) (us @ (n, f) # (m, True) # ws) = {}"
      by (simp only: append.simps append_assoc) (auto simp: disjoint_iff)
  qed
qed

lemma framed_chain: "framed W a a1 \<Longrightarrow> framed W a1 a2 \<Longrightarrow> framed W a a2"
  by (rule framed_trans) auto

text \<open>Splitting a block, by what follows it.\<close>

lemma gca_split_no:
  assumes st: "gca_st a (us @ (s, f) # ws) fl D" and h: "h = g_end (heap a) us" and n: "s < n + 32" "n + 32 < 2 ^ 64"
  shows "gca_split_block a h n = Inr (NULL, a)"
proof -
  obtain t g vs where v: "ws @ [(0, False)] = (t, g) # vs" by (cases "ws @ [(0, False)]") auto
  note b = gca_block [OF st h v]
  have "mapped a (h + 8)" using b(1) by (intro b(12)) simp_all
  then show ?thesis using n b(9) gca_addresses(1) [OF b(6)] by (simp add: gca_split_block_def gca_info_ops gca_consts)
qed

lemma gca_split_yes:
  assumes st: "gca_st a (us @ (s, f) # ws) fl D" and h: "h = g_end (heap a) us"
    and n: "16 dvd n" "16 \<le> n" "n + 32 \<le> s" and v: "ws @ [(0, False)] = (t, False) # vs"
  shows "\<exists>a'. gca_split_block a h n = Inr (h + n + 16, a')
    \<and> gca_st a' (us @ (n, f) # (s - n - 16, True) # ws) ((h + n + 16) # fl) D
    \<and> framed (- g_used (heap a) (us @ (n, f) # (s - n - 16, True) # ws)) a a' \<and> alloc_errno a' = alloc_errno a"
proof -
  let ?r = "h + n + 16" and ?m = "s - n - 16"
  let ?a = "put_cut h n ?m f a" and ?bs = "us @ (n, f) # (?m, True) # ws"
  note c = gca_cut [OF st h n refl refl]
  note f = framedD [OF c(3)]
  obtain a8 where a8: "gca_add_free_list ?a ?r = Inr a8" "gca_st a8 ?bs (?r # fl) (insert ?r D - {?r})"
    "framed (- g_used (heap ?a) ?bs) ?a a8" "alloc_errno a8 = alloc_errno ?a"
    using gca_st_add [OF c(2) insertI1] by blast
  have "insert ?r D - {?r} = D" using c(7) by auto
  then have st8: "gca_st a8 ((us @ [(n, f)]) @ (?m, True) # ws) (?r # fl) D" using a8(2) by simp
  have r: "?r = g_end (heap a8) (us @ [(n, f)])" using h f(2) framedD(2) [OF a8(3)] by simp
  have "gca_coalesce_next a8 ?r = Inr (False, a8)" by (rule gca_coalesce_no [OF st8 r v])
  then show ?thesis
    using c(1,8) a8(1,4) st8 framed_chain [OF c(3) a8(3) [unfolded f(2)]] by (intro exI [of _ a8]) simp
qed

lemma gca_split_merge:
  assumes st: "gca_st a (us @ (s, f) # (t, True) # ws) fl D" and h: "h = g_end (heap a) us"
    and n: "16 dvd n" "16 \<le> n" "n + 32 \<le> s" and e: "h + s + 16 \<in> set fl"
  shows "\<exists>a'. gca_split_block a h n = Inr (h + n + 16, a')
    \<and> gca_st a' (us @ (n, f) # (s - n + t, True) # ws) ((h + n + 16) # remove1 (h + s + 16) fl) D
    \<and> framed (- g_used (heap a) (us @ (n, f) # (s - n + t, True) # ws)) a a' \<and> alloc_errno a' = alloc_errno a"
proof -
  let ?r = "h + n + 16" and ?m = "s - n - 16"
  let ?a = "put_cut h n ?m f a" and ?bs = "us @ (n, f) # (?m, True) # (t, True) # ws"
  note c = gca_cut [OF st h n refl refl]
  note f = framedD [OF c(3)]
  obtain a8 where a8: "gca_add_free_list ?a ?r = Inr a8" "gca_st a8 ?bs (?r # fl) (insert ?r D - {?r})"
    "framed (- g_used (heap ?a) ?bs) ?a a8" "alloc_errno a8 = alloc_errno ?a"
    using gca_st_add [OF c(2) insertI1] by blast
  have "insert ?r D - {?r} = D" using c(7) by auto
  then have st8: "gca_st a8 ((us @ [(n, f)]) @ (?m, True) # (t, True) # ws) (?r # fl) D" using a8(2) by simp
  have hp: "heap a8 = heap a" using f(2) framedD(2) [OF a8(3)] by simp
  have r: "?r = g_end (heap a8) (us @ [(n, f)])" using h hp by simp
  have e2: "?r + ?m + 16 = h + s + 16" "?m + t + 16 = s - n + t" using c(6) by simp_all
  have e3: "?r + ?m + 16 \<in> set (?r # fl)" using e e2 by simp
  obtain a9 where a9: "gca_coalesce_next a8 ?r = Inr (True, a9)"
    "gca_st a9 ((us @ [(n, f)]) @ (?m + t + 16, True) # ws) (remove1 (?r + ?m + 16) (?r # fl)) D"
    "framed (- g_used (heap a8) ((us @ [(n, f)]) @ (?m, True) # (t, True) # ws)) a8 a9" "alloc_errno a9 = alloc_errno a8"
    using gca_coalesce_yes [OF st8 r e3] by blast
  have "remove1 (?r + ?m + 16) (?r # fl) = ?r # remove1 (h + s + 16) fl" unfolding e2(1) using n by simp
  then have "gca_st a9 (us @ (n, f) # (s - n + t, True) # ws) (?r # remove1 (h + s + 16) fl) D"
    using a9(2) unfolding e2(2) by simp
  moreover have fr: "framed (- g_used (heap a) ?bs) a a9"
  proof (rule framed_chain)
    show "framed (- g_used (heap a) ?bs) a a8" by (rule framed_chain [OF c(3) a8(3) [unfolded f(2)]])
    show "framed (- g_used (heap a) ?bs) a8 a9" using a9(3) unfolding hp append.simps append_assoc .
  qed
  moreover have eq: "g_used (heap a) ?bs = g_used (heap a) (us @ (n, f) # (s - n + t, True) # ws)"
    using e2 by (cases f) (simp_all add: h [symmetric] add.assoc add.commute add.left_commute)
  have "framed (- g_used (heap a) (us @ (n, f) # (s - n + t, True) # ws)) a a9" using fr unfolding eq .
  ultimately show ?thesis using c(1,8) a8(1,4) a9(1,4) by (intro exI [of _ a9]) simp
qed

text \<open>Merging with the block before.\<close>

lemma gca_prev_used:
  assumes st: "gca_st a (us @ (s, f) # ws) fl D" and h: "h = g_end (heap a) us" and u: "\<not> free_of False us"
  shows "gca_coalesce_prev a h = Inr (h, a)"
proof -
  obtain t g vs where v: "ws @ [(0, False)] = (t, g) # vs" by (cases "ws @ [(0, False)]") auto
  note b = gca_block [OF st h v]
  have "snd (before (0, False) us) = free_of False us" by (cases us rule: rev_cases) (auto simp: split: prod.splits)
  moreover have "mapped a h" using b(1) by (intro b(12)) simp_all
  ultimately show ?thesis using b(8) u by (simp add: gca_coalesce_prev_def prev_info_def gca_info_ops)
qed

lemma gca_prev_free:
  assumes st: "gca_st a (us @ (t, True) # (s, True) # ws) fl D" and h: "h = g_end (heap a) us + t + 16" and fl: "h \<in> set fl"
  shows "\<exists>a'. gca_coalesce_prev a h = Inr (g_end (heap a) us, a') \<and> gca_st a' (us @ (t + s + 16, True) # ws) (remove1 h fl) D
    \<and> framed (- g_used (heap a) (us @ (t, True) # (s, True) # ws)) a a' \<and> alloc_errno a' = alloc_errno a"
proof -
  let ?p = "g_end (heap a) us"
  have v: "((s, True) # ws) @ [(0, False)] = (s, True) # (ws @ [(0, False)])" by simp
  note b = gca_block [OF st refl v]
  obtain a' where a': "gca_coalesce_next a ?p = Inr (True, a')" "gca_st a' (us @ (t + s + 16, True) # ws) (remove1 h fl) D"
    "framed (- g_used (heap a) (us @ (t, True) # (s, True) # ws)) a a'" "alloc_errno a' = alloc_errno a"
    using gca_coalesce_yes [OF st refl] fl h by blast
  have m: "mapped a h" using b(1) by (intro b(12)) (simp_all add: h)
  have i: "info a h = (t, True)" using b(10) h by simp
  have "gca_prev a h = Inr ?p"
  proof -
    have "usize_sub h t = ?p + 16" "usize_sub (?p + 16) 16 = ?p" using b(6) h by (simp_all add: usize_sub_le)
    then show ?thesis using m i by (simp add: gca_prev_def prev_info_def gca_info_ops gca_data_to_header_def gca_consts)
  qed
  then have "gca_coalesce_prev a h = Inr (?p, a')"
    using m i a'(1) by (simp add: gca_coalesce_prev_def prev_info_def gca_info_ops)
  then show ?thesis using a'(2-4) by blast
qed

section \<open>Growing the heap\<close>

lemma gca_handled_sbrk_ok:
  assumes b: "0 < current_brk a" "current_brk a \<le> heap a + heap_size a" "heap a + heap_size a + 64 < 2 ^ 64" "heap_size a < 2 ^ 63"
      "heap a \<le> current_brk a"
    and d: "0 < d" "d < 2 ^ 64"
  shows "gca_handled_sbrk a d = (if current_brk a + d \<le> heap a + heap_size a
    then (Some (current_brk a, current_brk a + d), a\<lparr>current_brk := current_brk a + d\<rparr>) else (None, a))"
proof -
  let ?b = "current_brk a"
  show ?thesis
  proof (cases "?b + d < 2 ^ 64")
    case False
    then have "usize (?b + d) = ?b + d - 2 ^ 64"
      using b(2,3) d(2) unfolding usize_def by (simp add: mod_if)
    then have "usize (?b + d) < ?b" using d(2) False by simp
    then show ?thesis using False b(3) by (simp add: gca_handled_sbrk_def)
  next
    case True
    have nw: "\<not> usize (?b + d) < ?b" using True by simp
    show ?thesis
    proof (cases "d < 2 ^ 63")
      case False
      have "- intptr d = 2 ^ 64 - int d" using False by (simp add: intptr_def)
      then have "nat (- intptr d) = 2 ^ 64 - d" using d(2) by (simp add: nat_diff_distrib)
      moreover have "intptr d < 0" using False d(2) by (simp add: intptr_def)
      moreover have "?b < 2 ^ 64 - d" using True by linarith
      ultimately have "gca_sbrk a (intptr d) = (MINUS_ONE, a)"
        using True b(1) d(2) by (simp add: gca_sbrk_def Let_def)
      then show ?thesis using nw False b(4,5) by (simp add: gca_handled_sbrk_def)
    next
      case small: True
      have i: "intptr d = int d" using small by (simp add: intptr_def)
      have "(int ?b + int d) mod 2 ^ 64 = int ?b + int d"
      proof (rule mod_pos_pos_trivial)
        have "int (?b + d) < int (2 ^ 64)" using True by (simp only: of_nat_less_iff)
        then show "int ?b + int d < 2 ^ 64" by simp
      qed simp
      then have m: "nat ((int ?b + int d) mod 2 ^ 64) = ?b + d" by (simp only: nat_add_distrib of_nat_0_le_iff nat_int)
      have m2: "nat ((int ?b + int d) mod 18446744073709551616) = ?b + d" using m by simp
      have h: "usize (heap a + heap_size a) = heap a + heap_size a" using b(3) by simp
      have "gca_sbrk a (intptr d) = (if heap a + heap_size a < ?b + d then (MINUS_ONE, a) else (?b, a\<lparr>current_brk := ?b + d\<rparr>))"
        using b(1) d(1) nw m2 by (simp add: gca_sbrk_def Let_def i gca_brk_def h nat_add_distrib)
      then show ?thesis using nw True b(2,3) by (auto simp: gca_handled_sbrk_def)
    qed
  qed
qed

definition page_up :: "nat \<Rightarrow> nat" where
  "page_up n = (n + 16 + 4095) div 4096 * 4096"

lemma gca_round_up_ok: "k < 64 \<Longrightarrow> 0 < x + 2 ^ k \<Longrightarrow> x + 2 ^ k \<le> 2 ^ 64 \<Longrightarrow> gca_round_up x (2 ^ k) = (x + 2 ^ k - 1) div 2 ^ k * 2 ^ k"
proof -
  assume a: "k < 64" "0 < x + 2 ^ k" "x + 2 ^ k \<le> 2 ^ 64"
  have k: "(2 :: nat) ^ k < 2 ^ 64" using a(1) by (intro power_strict_increasing) simp_all
  have "usize_sub 0 (2 ^ k) = usize_not (2 ^ k - 1)"
    using k by (simp add: usize_sub_def usize_not_def)
  moreover have "usize_sub (usize (x + 2 ^ k)) 1 = x + 2 ^ k - 1"
  proof (cases "x + 2 ^ k = 2 ^ 64")
    case True
    then have "usize (x + 2 ^ k) = 0" by (simp add: usize_def)
    then show ?thesis using True by (simp add: usize_sub_def)
  next
    case False
    then have "x + 2 ^ k < 2 ^ 64" using a(3) by simp
    moreover have "1 \<le> x + 2 ^ k" using a(2) by (simp only: One_nat_def Suc_le_eq)
    ultimately show ?thesis by (simp only: usize_id usize_sub_le)
  qed
  ultimately show ?thesis
    using and_usize_not_mask [of "x + 2 ^ k - 1" k] a by (simp add: gca_round_up_def)
qed

lemma page_up_facts: "n + 16 \<le> page_up n" "16 dvd page_up n" "page_up n \<le> n + 16 + 4095"
proof -
  show "n + 16 \<le> page_up n" unfolding page_up_def by linarith
  show "page_up n \<le> n + 16 + 4095" by (simp add: page_up_def)
  show "16 dvd page_up n" unfolding page_up_def by (rule dvd_mult) simp
qed

text \<open>The new block before it is merged with the one below it.\<close>

definition grown :: "GlibcAllocator \<Rightarrow> addr \<Rightarrow> nat \<Rightarrow> GlibcAllocator" where
  "grown a h n = (let x = h + page_up n in
     put_flag (x + 8) False (put_size (x + 8) 0 (put_flag x True (put_size x (page_up n - 16)
       (put_flag (h + 8) True (put_size (h + 8) (page_up n - 16) (a\<lparr>current_brk := x + 16\<rparr>)))))))"

lemma gca_grow:
  assumes st: "gca_st a bs fl D" and n: "16 dvd n" "16 \<le> n" "n + 8192 \<le> 2 ^ 64" and h: "h = g_end (heap a) bs"
  shows "heap a + heap_size a < current_brk a + page_up n \<Longrightarrow> gca_sbrk_new_block a n = Inr (NULL, a)"
    "current_brk a + page_up n \<le> heap a + heap_size a \<Longrightarrow>
      gca_sbrk_new_block a n = rbind (gca_add_free_list (grown a h n) h) (\<lambda>a8. gca_coalesce_prev a8 h)"
    "current_brk a + page_up n \<le> heap a + heap_size a \<Longrightarrow> gca_st (grown a h n) (bs @ [(page_up n - 16, True)]) fl (insert h D)"
    "framed (- g_used (heap a) bs) a (grown a h n)" "h \<notin> set fl \<union> D" "alloc_errno (grown a h n) = alloc_errno a"
proof -
  note d = gca_stD [OF st] and r = gca_regionD [OF gca_stD(1) [OF st]]
  note p = page_up_facts [of n]
  let ?P = "page_up n" and ?x = "h + page_up n"
  have brk: "current_brk a = h + 16" using r(5) h by simp
  have hh: "heap a \<le> h" using end_of_le h by simp
  have P: "32 \<le> ?P" "?P < 2 ^ 64" using p n by simp_all
  have S16: "16 dvd ?P - 16" using p(2) P(1) by (simp add: dvd_diff_nat)
  have S: "8 dvd ?P - 16" "?P - 16 < 2 ^ 64" using P(2) by (auto intro: dvd_trans [OF _ S16])
  have rnd: "gca_round_up (usize (n + GCA_INFO_SIZE)) GCA_SBRK_ALIGN = ?P"
    using gca_round_up_ok [of 12 "n + 16"] n(3) by (simp add: gca_consts page_up_def)
  note sb = gca_handled_sbrk_ok [OF _ _ r(3,9), of ?P]
  have b0: "0 < current_brk a" "current_brk a \<le> heap a + heap_size a" "heap a \<le> current_brk a" using brk r(6) hh h by simp_all
  have P0: "0 < ?P" using P(1) by simp
  note sbrk = sb [OF b0 P0 P(2)]
  show "heap a + heap_size a < current_brk a + ?P \<Longrightarrow> gca_sbrk_new_block a n = Inr (NULL, a)"
    by (simp add: gca_sbrk_new_block_def rnd sbrk)
  let ?a1 = "a\<lparr>current_brk := ?x + 16\<rparr>"
  let ?a2 = "put_size (h + 8) (?P - 16) ?a1"
  let ?a3 = "put_flag (h + 8) True ?a2"
  let ?a4 = "put_size ?x (?P - 16) ?a3"
  let ?a5 = "put_flag ?x True ?a4"
  let ?a6 = "put_size (?x + 8) 0 ?a5"
  let ?a7 = "put_flag (?x + 8) False ?a6"
  have g: "grown a h n = ?a7" by (simp add: grown_def Let_def)
  show "alloc_errno (grown a h n) = alloc_errno a" unfolding g by (simp)
  let ?W = "{h + 8..<h + 16} \<union> {?x..<?x + 16}"
  have fr: "framed ?W a ?a7" by (intro framed_put framed_refl; auto)
  have ub: "y < h" if "y \<in> g_used (heap a) bs" for y
    using that places_bounds [of _ _ False 16 "heap a" bs] h by (fastforce simp: block_bytes_def payload_def)
  show "framed (- g_used (heap a) bs) a (grown a h n)"
    unfolding g by (rule framed_used [OF fr]) (use ub in fastforce)
  have fb: "x + 32 \<le> h" if "x \<in> g_frees (heap a) bs" for x using g_frees_bounds [OF that r(4)] h by simp
  show nh: "h \<notin> set fl \<union> D" using fb [of h] d(4) by auto
  assume fits: "current_brk a + ?P \<le> heap a + heap_size a"
  then have fx: "?x + 16 \<le> heap a + heap_size a" using brk by simp
  have mp: "mapped a (h + 8)" "mapped a ?x" "mapped a (?x + 8)"
    using fx hh P(1) r(8) [of h] r(1,3) by (auto simp: mapped_def)
  have ad: "gca_data_to_header (h + 16) = h" "gca_data_to_header (h + 16 + ?P) = ?x" "curr_info h = h + 8" "curr_info ?x = ?x + 8"
    "usize_sub ?P GCA_INFO_SIZE = ?P - 16" "prev_info ?x = ?x"
    using fx r(3) P by (simp_all add: gca_data_to_header_def gca_consts usize_sub_le curr_info_def prev_info_def)
  have sbrk2: "gca_handled_sbrk a ?P = (Some (h + 16, h + 16 + ?P), ?a1)"
    using sbrk fits brk by (simp add: add.commute add.left_commute)
  have ops: "gca_set_size ?a1 (curr_info h) (?P - 16) = Inr ?a2" "gca_set_used ?a2 (curr_info h) 0 = Inr ?a3"
    "gca_set_size ?a3 (prev_info ?x) (?P - 16) = Inr ?a4" "gca_set_used ?a4 (prev_info ?x) 0 = Inr ?a5"
    "gca_set_size ?a5 (curr_info ?x) 0 = Inr ?a6" "gca_set_used ?a6 (curr_info ?x) 1 = Inr ?a7"
    using mp S by (simp_all only: ad gca_info_ops(3,4,5) put_fields info_upd dvd_0_right)
  show "gca_sbrk_new_block a n = rbind (gca_add_free_list (grown a h n) h) (\<lambda>a8. gca_coalesce_prev a8 h)"
    by (simp only: gca_sbrk_new_block_def Let_def rnd sbrk2 prod.case option.case ad(1,2,5) ops rbind_Inr g)
  have c: "chain a (0, False) (heap a) bs" "info a h = before (0, False) bs"
    using d(2) h by (simp_all add: headers_append)
  have c7: "chain ?a7 (0, False) (heap a) bs" using h by (intro chain_keeps [OF c(1) fr]) auto
  have ap: "apart (h + 8) h" "apart ?x h" "apart (?x + 8) h" "apart ?x (h + 8)" "apart (?x + 8) (h + 8)" "apart (?x + 8) ?x"
    using P(1) by (auto simp: apart_def)
  have i: "info ?a7 h = before (0, False) bs" "info ?a7 (h + 8) = (?P - 16, True)" "info ?a7 ?x = (?P - 16, True)"
    "info ?a7 (?x + 8) = (0, False)"
    using c(2) S ap by simp_all
  have xe: "h + (?P - 16) + 16 = ?x" using P(1) by simp
  have ch: "chain ?a7 (0, False) (heap a) ((bs @ [(?P - 16, True)]) @ [(0, False)])"
    using c7 i xe h by (simp add: headers_append)
  have rg: "gca_region ?a7 (bs @ [(?P - 16, True)])"
    using d(1) fx xe S16 P(1) p n(2) h by (simp add: gca_region_def)
  have "links ?a7 NULL fl NULL = links a NULL fl NULL"
  proof (rule links_cong)
    fix x assume "x \<in> set fl"
    then have "x + 32 \<le> h" using fb d(4) by blast
    then show "word_at ?a7 (x + 16) = word_at a (x + 16) \<and> word_at ?a7 (x + 24) = word_at a (x + 24)"
      by (intro conjI framed_word [OF fr]) auto
  qed
  then have lk: "free_list_ok ?a7 fl" using d(3) by (simp add: free_list_ok_def)
  have "set fl \<union> insert h D = g_frees (heap a) (bs @ [(?P - 16, True)])" using d(4) h by auto
  moreover have "set fl \<inter> insert h D = {}" using d(5) nh by auto
  ultimately show "gca_st (grown a h n) (bs @ [(?P - 16, True)]) fl (insert h D)"
    using ch rg lk by (simp add: gca_st_def g)
qed

end
