(* ===== verification/Glibc_Safety.thy ===== *)
theory Glibc_Safety
  imports Glibc_Heap Heap_Interface
begin

text \<open>
  Correctness of the glibc-style allocator: what \<open>gca_malloc\<close> and \<open>gca_free\<close> do to the chain of
  blocks and the free list, when the heap grows, and that a new heap satisfies the invariant.
\<close>

section \<open>States between calls\<close>

definition gca_ok :: "GlibcAllocator \<Rightarrow> (nat \<times> bool) list \<Rightarrow> addr list \<Rightarrow> bool" where
  "gca_ok a bs fl \<longleftrightarrow> gca_st a bs fl {} \<and> no_adj False bs \<and> bs \<noteq> [] \<and> lock_good (mutex a)"

lemma links_same: "word_at a' = word_at a \<Longrightarrow> links a' p xs n = links a p xs n"
  by (rule links_cong) simp

lemma gca_st_same:
  assumes "word_at a' = word_at a" "mapped a' = mapped a" "heap a' = heap a" "heap_size a' = heap_size a"
    "free_list a' = free_list a" "current_brk a' = current_brk a"
  shows "gca_st a' bs fl D = gca_st a bs fl D"
proof -
  have "chain a' q p cs = chain a q p cs" for q p cs using assms(1) by (intro headers_cong) (simp add: info_def)
  then show ?thesis
    using assms links_same [OF assms(1)] by (simp add: gca_st_def gca_region_def free_list_ok_def)
qed

lemma gca_st_upd [simp]:
  "gca_st (a\<lparr>mutex := l\<rparr>) bs fl D = gca_st a bs fl D" "gca_st (a\<lparr>alloc_errno := e\<rparr>) bs fl D = gca_st a bs fl D"
  "gca_st (held a) bs fl D = gca_st a bs fl D" "current_brk (held a) = current_brk a" "free_list (held a) = free_list a"
  by (rule gca_st_same; simp add: held_def)+ (simp_all add: held_def)

section \<open>Taking a block\<close>

definition g_carve :: "nat \<Rightarrow> nat \<Rightarrow> (nat \<times> bool) list" where
  "g_carve n s = (if n + 32 \<le> s then [(n, False), (s - n - 16, True)] else [(s, False)])"

lemma g_carve_ne [simp]: "g_carve n s \<noteq> []"
  by (simp add: g_carve_def)

definition g_rest :: "addr \<Rightarrow> nat \<Rightarrow> nat \<Rightarrow> addr list \<Rightarrow> addr list" where
  "g_rest h n s fl = (if n + 32 \<le> s then (h + n + 16) # remove1 h fl else remove1 h fl)"

text \<open>The last steps of \<open>gca_malloc\<close>: the flags of a block that has left the list.\<close>

lemma gca_mark_used:
  assumes st: "gca_st a (us @ (s, True) # ws) fl {h}" and h: "h = g_end (heap a) us"
  shows "rbind (gca_set_used a (curr_info h) 1) (\<lambda>a4. rbind (gca_next a4 h) (\<lambda>n. rbind (gca_set_used a4 (prev_info n) 1) F))
      = F (put_state h s False a)"
    "gca_st (put_state h s False a) (us @ (s, False) # ws) fl {}"
    "framed (- g_used (heap a) (us @ (s, True) # ws)) a (put_state h s False a)"
proof -
  obtain t g vs where v: "ws @ [(0, False)] = (t, g) # vs" by (cases "ws @ [(0, False)]") auto
  note b = gca_block [OF st h v] and ad = gca_addresses [OF gca_block(6) [OF st h v]]
  let ?a4 = "put_flag (h + 8) False a"
  have mp: "mapped a (h + 8)" "mapped a (h + s + 16)" using b(1) by (intro b(12); simp)+
  have i: "info ?a4 (h + 8) = (s, False)" using b(9) by simp
  have nx: "gca_next ?a4 h = Inr (h + s + 16)" by (rule gca_next_ok [OF _ i b(6)]) (use mp(1) in simp)
  have ops: "gca_set_used a (curr_info h) 1 = Inr ?a4"
    "gca_set_used ?a4 (prev_info (h + s + 16)) 1 = Inr (put_state h s False a)"
    using mp by (simp_all only: ad(1,4) gca_info_ops(5) put_fields put_state_def)
  then show "rbind (gca_set_used a (curr_info h) 1) (\<lambda>a4. rbind (gca_next a4 h) (\<lambda>n. rbind (gca_set_used a4 (prev_info n) 1) F))
      = F (put_state h s False a)"
    by (simp only: rbind_Inr nx)
  have nf: "h \<notin> set fl" using gca_stD(5) [OF st] by simp
  show "gca_st (put_state h s False a) (us @ (s, False) # ws) fl {}"
    "framed (- g_used (heap a) (us @ (s, True) # ws)) a (put_state h s False a)"
    using gca_mark [OF st h nf, of "{}" False] by simp_all
qed

lemma gca_take:
  assumes st: "gca_st a (us @ (s, True) # ws) fl {}" and h: "h = g_end (heap a) us" and fl: "h \<in> set fl"
    and n: "16 dvd n" "16 \<le> n" "n \<le> s" and v: "ws @ [(0, False)] = (t, False) # vs"
  shows "\<exists>a'. rbind (gca_split_block a h n) (\<lambda>(_, a2). rbind (gca_remove_free_list a2 h) (\<lambda>a3.
      rbind (gca_set_used a3 (curr_info h) 1) (\<lambda>a4. rbind (gca_next a4 h) (\<lambda>x. rbind (gca_set_used a4 (prev_info x) 1) F)))) = F a'
    \<and> gca_st a' (us @ g_carve n s @ ws) (g_rest h n s fl) {} \<and> framed (- g_used (heap a) (us @ (s, True) # ws)) a a'
    \<and> alloc_errno a' = alloc_errno a"
proof -
  obtain a2 k ms fl2 x where a2: "gca_split_block a h n = Inr (x, a2)" "gca_st a2 (us @ (k, True) # ms @ ws) fl2 {}"
    "framed (- g_used (heap a) (us @ (s, True) # ws)) a a2" "alloc_errno a2 = alloc_errno a"
    and k: "g_carve n s = (k, False) # ms" "remove1 h fl2 = g_rest h n s fl" "h \<in> set fl2"
    and u: "g_used (heap a) (us @ (k, True) # ms @ ws) = g_used (heap a) (us @ (s, True) # ws)"
  proof (cases "n + 32 \<le> s")
    case True
    obtain a2 where s2: "gca_split_block a h n = Inr (h + n + 16, a2)"
      "gca_st a2 (us @ (n, True) # (s - n - 16, True) # ws) ((h + n + 16) # fl) {}"
      "framed (- g_used (heap a) (us @ (n, True) # (s - n - 16, True) # ws)) a a2" "alloc_errno a2 = alloc_errno a"
      using gca_split_yes [OF st h n(1,2) True v] by blast
    have e: "h + n + 16 + (s - n - 16) + 16 = h + s + 16" using True by simp
    have ue: "g_used (heap a) (us @ (n, True) # (s - n - 16, True) # ws) = g_used (heap a) (us @ (s, True) # ws)"
      by (simp only: used_bytes_simps h [symmetric] e)
    show thesis
    proof (rule that)
      show "gca_split_block a h n = Inr (h + n + 16, a2)" "alloc_errno a2 = alloc_errno a" by fact+
      show "gca_st a2 (us @ (n, True) # [(s - n - 16, True)] @ ws) ((h + n + 16) # fl) {}" using s2(2) by simp
      show "framed (- g_used (heap a) (us @ (s, True) # ws)) a a2" using s2(3) unfolding ue .
      show "g_used (heap a) (us @ (n, True) # [(s - n - 16, True)] @ ws) = g_used (heap a) (us @ (s, True) # ws)" using ue by simp
    qed (use True n fl in \<open>simp_all add: g_carve_def g_rest_def\<close>)
  next
    case False
    obtain t' g vs' where v': "ws @ [(0, False)] = (t', g) # vs'" using v by blast
    note b = gca_block [OF st h v']
    have "gca_split_block a h n = Inr (NULL, a)" using False n(3) b(6) by (intro gca_split_no [OF st h]) simp_all
    moreover have "gca_st a (us @ (s, True) # [] @ ws) fl {}" using st by simp
    ultimately show thesis
      using that [of NULL a s "[]" fl] False fl by (simp add: g_carve_def g_rest_def)
  qed
  obtain a3 where a3: "gca_remove_free_list a2 h = Inr a3" "gca_st a3 (us @ (k, True) # ms @ ws) (remove1 h fl2) {h}"
    "framed (- g_used (heap a2) (us @ (k, True) # ms @ ws)) a2 a3" "alloc_errno a3 = alloc_errno a2"
    using gca_st_remove [OF a2(2) k(3)] by blast
  have hp: "heap a2 = heap a" "heap a3 = heap a" using framedD(2) [OF a2(3)] framedD(2) [OF a3(3)] by simp_all
  have h3: "h = g_end (heap a3) us" using h hp by simp
  note mk = gca_mark_used [OF a3(2) h3]
  have fr: "framed (- g_used (heap a) (us @ (s, True) # ws)) a (put_state h k False a3)"
  proof (rule framed_chain [OF a2(3)], rule framed_chain)
    show "framed (- g_used (heap a) (us @ (s, True) # ws)) a2 a3" using a3(3) unfolding hp u .
    show "framed (- g_used (heap a) (us @ (s, True) # ws)) a3 (put_state h k False a3)" using mk(3) unfolding hp u .
  qed
  have "alloc_errno (put_state h k False a3) = alloc_errno a"
    using a2(4) a3(4) by (simp add: put_state_def)
  moreover have "gca_st (put_state h k False a3) (us @ g_carve n s @ ws) (g_rest h n s fl) {}" using mk(2) k by simp
  ultimately show ?thesis
    using fr a2(1) a3(1) mk(1) by (intro exI [of _ "put_state h k False a3"]) (simp only: rbind_Inr prod.case simp_thms)
qed

section \<open>Finding a block\<close>

text \<open>The first block of the list that is large enough.\<close>

definition g_first :: "addr \<Rightarrow> (nat \<times> bool) list \<Rightarrow> addr list \<Rightarrow> nat \<Rightarrow> addr \<Rightarrow> bool" where
  "g_first p bs fl n h \<longleftrightarrow> (\<exists>xs ys. fl = xs @ h # ys \<and> (\<forall>x s. x \<in> set xs \<longrightarrow> (x, s, True) \<in> set (g_places p bs) \<longrightarrow> s < n))"

definition g_no_fit :: "addr \<Rightarrow> (nat \<times> bool) list \<Rightarrow> nat \<Rightarrow> bool" where
  "g_no_fit p bs n \<longleftrightarrow> (\<forall>x s. (x, s, True) \<in> set (g_places p bs) \<longrightarrow> s < n)"

lemma find_split: "find P xs = Some x \<Longrightarrow> \<exists>us vs. xs = us @ x # vs \<and> P x \<and> (\<forall>u \<in> set us. \<not> P u)"
proof (induction xs)
  case (Cons y ys)
  show ?case
  proof (cases "P y")
    case True
    with Cons.prems show ?thesis by (intro exI [of _ "[]"] exI [of _ ys]) simp
  next
    case False
    then obtain us vs where "ys = us @ x # vs" "P x" "\<forall>u \<in> set us. \<not> P u" using Cons by auto
    with False show ?thesis by (intro exI [of _ "y # us"] exI [of _ vs]) simp
  qed
qed simp

lemma gca_find_ok:
  assumes st: "gca_st a bs fl {}"
  shows "g_no_fit (heap a) bs n \<and> gca_find_free_block a n = Inr NULL
    \<or> (\<exists>us s ws h. bs = us @ (s, True) # ws \<and> h = g_end (heap a) us \<and> n \<le> s \<and> h \<in> set fl \<and> g_first (heap a) bs fl n h
        \<and> gca_find_free_block a n = Inr h \<and> h \<noteq> NULL)"
proof -
  note d = gca_stD [OF st]
  let ?fit = "\<lambda>x. n \<le> fst (info a (x + 8))"
  have run: "gca_find_free_block a n = Inr (case find ?fit fl of None \<Rightarrow> NULL | Some x \<Rightarrow> x)"
    using gca_find_loop_ok [OF d(3) free_list_okD(2) [OF d(3)] subset_refl] free_list_okD(1) [OF d(3)]
    by (simp add: gca_find_free_block_def)
  have c: "chain a (0, False) (heap a) bs" using d(2) by (simp add: headers_append)
  have sz: "info a (x + 8) = (s, True)" if "(x, s, True) \<in> set (g_places (heap a) bs)" for x s
    by (rule chain_place [OF c that])
  have mem: "x \<in> set fl" if "(x, s, True) \<in> set (g_places (heap a) bs)" for x s
    using that d(4) by (auto simp: g_frees_def)
  show ?thesis
  proof (cases "find ?fit fl")
    case None
    then have "g_no_fit (heap a) bs n" using sz mem unfolding g_no_fit_def find_None_iff by fastforce
    then show ?thesis using run None by simp
  next
    case (Some h)
    then obtain xs ys where x: "fl = xs @ h # ys" "?fit h" "\<forall>u \<in> set xs. \<not> ?fit u" using find_split [OF Some] by blast
    then have hf: "h \<in> set fl" by simp
    then obtain s where s: "(h, s, True) \<in> set (g_places (heap a) bs)" using d(4) by (auto simp: g_frees_def)
    obtain us ws where u: "bs = us @ (s, True) # ws" "h = g_end (heap a) us" using places_split [OF s] by blast
    have "g_first (heap a) bs fl n h"
      unfolding g_first_def using x(1,3) sz by (intro exI [of _ xs] exI [of _ ys]) fastforce
    then show ?thesis
      using run Some u hf x(2) sz [OF s] free_list_okD(4) [OF d(3) hf] by auto
  qed
qed

section \<open>Allocation\<close>

text \<open>The heap after growing by \<open>P\<close> bytes, with the new block merged into a free last block.\<close>

definition g_extend :: "(nat \<times> bool) list \<Rightarrow> nat \<Rightarrow> (nat \<times> bool) list" where
  "g_extend bs P = (if free_of False bs then butlast bs @ [(fst (last bs) + P, True)] else bs @ [(P - 16, True)])"

definition g_extend_list :: "addr \<Rightarrow> (nat \<times> bool) list \<Rightarrow> addr list \<Rightarrow> addr list" where
  "g_extend_list h bs fl = (if free_of False bs then fl else h # fl)"

lemma gca_extend:
  assumes st: "gca_st a bs fl {}" and n: "16 dvd n" "16 \<le> n" "n + 8192 \<le> 2 ^ 64"
    and fits: "current_brk a + page_up n \<le> heap a + heap_size a"
  shows "\<exists>us s h a'. g_extend bs (page_up n) = us @ [(s, True)] \<and> h = g_end (heap a) us \<and> n \<le> s \<and> h \<noteq> NULL
    \<and> gca_sbrk_new_block a n = Inr (h, a') \<and> gca_st a' (us @ [(s, True)]) (g_extend_list (g_end (heap a) bs) bs fl) {}
    \<and> h \<in> set (g_extend_list (g_end (heap a) bs) bs fl) \<and> framed (- g_used (heap a) bs) a a' \<and> alloc_errno a' = alloc_errno a
    \<and> g_used (heap a) (us @ [(s, True)]) = g_used (heap a) bs \<and> block_used 16 (heap a) (us @ [(s, True)]) = block_used 16 (heap a) bs"
proof -
  let ?h = "g_end (heap a) bs" and ?P = "page_up n"
  note g = gca_grow [OF st n refl]
  have hp0: "heap (grown a ?h n) = heap a" using framedD(2) [OF g(4)] by simp
  obtain a8 where a8: "gca_add_free_list (grown a ?h n) ?h = Inr a8" "gca_st a8 (bs @ [(?P - 16, True)]) (?h # fl) (insert ?h {} - {?h})"
    "framed (- g_used (heap (grown a ?h n)) (bs @ [(?P - 16, True)])) (grown a ?h n) a8" "alloc_errno a8 = alloc_errno (grown a ?h n)"
    using gca_st_add [OF g(3) [OF fits] insertI1] by blast
  have st8: "gca_st a8 (bs @ [(?P - 16, True)]) (?h # fl) {}" using a8(2) by simp
  have hp: "heap a8 = heap a" using framedD(2) [OF a8(3)] hp0 by simp
  have f8: "framed (- g_used (heap a) bs) a a8"
    by (rule framed_chain [OF g(4)]) (use a8(3) hp0 in simp)
  have run: "gca_sbrk_new_block a n = gca_coalesce_prev a8 ?h" using g(2) [OF fits] a8(1) by simp
  have P: "n + 16 \<le> ?P" by (rule page_up_facts)
  show ?thesis
  proof (cases "free_of False bs")
    case False
    have "gca_coalesce_prev a8 ?h = Inr (?h, a8)" by (rule gca_prev_used [OF st8 _ False]) (simp add: hp)
    moreover have "?h \<noteq> NULL" using end_of_le [of "heap a" 16 bs] gca_regionD(1) [OF gca_stD(1) [OF st]] by simp
    ultimately show ?thesis
      using False run st8 f8 P a8(4) g(6)
      by (intro exI [of _ bs] exI [of _ "?P - 16"] exI [of _ ?h] exI [of _ a8]) (simp add: g_extend_def g_extend_list_def)
  next
    case True
    then obtain us t where bs: "bs = us @ [(t, True)]" by (cases bs rule: rev_cases) auto
    let ?p = "g_end (heap a) us"
    have st9: "gca_st a8 (us @ (t, True) # (?P - 16, True) # []) (?h # fl) {}" using st8 bs by simp
    have h9: "?h = g_end (heap a8) us + t + 16" by (simp add: bs hp)
    obtain a9 where a9: "gca_coalesce_prev a8 ?h = Inr (?p, a9)" "gca_st a9 (us @ (t + (?P - 16) + 16, True) # []) (remove1 ?h (?h # fl)) {}"
      "framed (- g_used (heap a8) (us @ (t, True) # (?P - 16, True) # [])) a8 a9" "alloc_errno a9 = alloc_errno a8"
      using gca_prev_free [OF st9 h9] unfolding hp by auto
    have sum: "t + (?P - 16) + 16 = t + ?P" using P by simp
    have pf: "?p \<in> set fl" "?p \<noteq> NULL"
      using gca_stD(4) [OF st] end_of_le [of "heap a" 16 us] gca_regionD(1) [OF gca_stD(1) [OF st]] by (auto simp: bs)
    have "framed (- g_used (heap a) bs) a8 a9" using a9(3) by (simp add: hp bs)
    then have f9: "framed (- g_used (heap a) bs) a a9" by (rule framed_chain [OF f8])
    show ?thesis
      using run a9(1,2,4) f9 pf P a8(4) g(6) unfolding sum
      by (intro exI [of _ us] exI [of _ "t + ?P"] exI [of _ ?p] exI [of _ a9]) (simp add: g_extend_def g_extend_list_def bs)
  qed
qed

text \<open>The request rounded up.\<close>

definition g_round :: "nat \<Rightarrow> nat" where
  "g_round n = (n + 15) div 16 * 16"

lemma g_round_facts: "n \<le> g_round n" "16 dvd g_round n" "0 < n \<Longrightarrow> 16 \<le> g_round n" "n + 8208 \<le> 2 ^ 64 \<Longrightarrow> g_round n + 8192 \<le> 2 ^ 64"
proof -
  show "n \<le> g_round n" unfolding g_round_def by linarith
  show "16 dvd g_round n" by (simp add: g_round_def)
  show "16 \<le> g_round n" if "0 < n"
  proof -
    have "16 \<le> n + 15" using that by simp
    then have "1 \<le> (n + 15) div 16" by (simp add: less_eq_div_iff_mult_less_eq)
    then show ?thesis by (simp add: g_round_def)
  qed
  have "g_round n \<le> n + 15" by (simp add: g_round_def)
  then show "g_round n + 8192 \<le> 2 ^ 64" if "n + 8208 \<le> 2 ^ 64" using that by simp
qed

lemma no_adj_next: "no_adj pf (us @ (s, True) # ws) \<Longrightarrow> \<exists>t vs. ws @ [(0, False)] = (t, False) # vs"
  by (cases ws) (auto simp: no_adj_append)

lemma no_adj_weak: "no_adj pf bs \<Longrightarrow> no_adj False bs"
  by (cases bs) auto

lemma no_adj_carve: "no_adj pf (us @ (s, True) # ws) \<Longrightarrow> no_adj pf (us @ g_carve n s @ ws)"
  by (auto simp: no_adj_append g_carve_def intro: no_adj_weak)

lemma no_adj_extend: "no_adj False bs \<Longrightarrow> no_adj False (g_extend bs P)"
  by (cases bs rule: rev_cases) (auto simp: g_extend_def no_adj_append split: prod.splits)

lemma g_end_pos: "gca_st a bs fl D \<Longrightarrow> 0 < g_end (heap a) us"
  using end_of_le [of "heap a" 16 us] gca_regionD(1) [OF gca_stD(1)] by fastforce

lemma gca_malloc_steps:
  assumes g: "lock_good (mutex a)" and hp: "heap a \<noteq> NULL" and sz: "0 < sz" "sz + 8208 \<le> 2 ^ 64"
    and find: "gca_find_free_block (held a) (g_round sz) = Inr h0"
    and blk: "(if h0 = NULL then gca_sbrk_new_block (held a) (g_round sz) else Inr (h0, held a)) = Inr (h, a1)"
  shows "gca_malloc a sz =
     (if h = NULL then unlock_return (set_alloc_errno MALLOC_FAILED a1) NULL NULL
      else rbind (gca_split_block a1 h (g_round sz)) (\<lambda>(_, a2). rbind (gca_remove_free_list a2 h) (\<lambda>a3.
        rbind (gca_set_used a3 (curr_info h) 1) (\<lambda>a4. rbind (gca_next a4 h) (\<lambda>x. rbind (gca_set_used a4 (prev_info x) 1) (\<lambda>a5.
          unlock_return a5 (gca_header_to_data h) NULL))))))"
proof -
  have r: "gca_round_up sz GCA_DATA_ALIGN = g_round sz"
    using gca_round_up_ok [of 4 sz] sz by (simp add: gca_consts g_round_def)
  have nz: "g_round sz \<noteq> 0" "(heap a = NULL \<or> sz = 0) = False" "(0 = - (1 :: int)) = False" using g_round_facts(3) [OF sz(1)] sz(1) hp by auto
  show ?thesis
    unfolding gca_malloc_def nz(2) if_False lock_held [OF g] prod.case nz(3) Let_def r find rbind_Inr blk using nz(1) by simp
qed

theorem gca_malloc_spec:
  assumes ok: "gca_ok a bs fl" and sz: "0 < sz" "sz + 8208 \<le> 2 ^ 64" and m: "m = g_round sz"
  shows "g_no_fit (heap a) bs m \<and> heap a + heap_size a < current_brk a + page_up m
      \<and> gca_malloc a sz = Inr (NULL, a\<lparr>alloc_errno := MALLOC_FAILED, mutex := cycled (mutex a)\<rparr>)
    \<or> (\<exists>bs1 fl1 us s ws h a'. bs1 = us @ (s, True) # ws \<and> h = g_end (heap a) us \<and> m \<le> s
        \<and> (bs1 = bs \<and> fl1 = fl \<and> g_first (heap a) bs fl m h
          \<or> g_no_fit (heap a) bs m \<and> current_brk a + page_up m \<le> heap a + heap_size a
            \<and> bs1 = g_extend bs (page_up m) \<and> fl1 = g_extend_list (g_end (heap a) bs) bs fl)
        \<and> gca_malloc a sz = Inr (h + 16, a') \<and> gca_ok a' (us @ g_carve m s @ ws) (g_rest h m s fl1)
        \<and> mutex a' = cycled (mutex a) \<and> heap a' = heap a \<and> heap_size a' = heap_size a \<and> alloc_errno a' = alloc_errno a
        \<and> (\<forall>y \<in> g_used (heap a) bs. bytes_at a' y = bytes_at a y)
        \<and> block_used 16 (heap a) bs1 = block_used 16 (heap a) bs)"
proof -
  have st: "gca_st a bs fl {}" and na: "no_adj False bs" and g: "lock_good (mutex a)" using ok by (simp_all add: gca_ok_def)
  have sth: "gca_st (held a) bs fl {}" using st by simp
  note n = g_round_facts [of sz, folded m]
  have hp: "heap a \<noteq> NULL" using gca_regionD(1) [OF gca_stD(1) [OF st]] by simp
  note steps = gca_malloc_steps [OF g hp sz, folded m]
  have n16: "16 dvd m" "16 \<le> m" "m + 8192 \<le> 2 ^ 64" using n sz by simp_all
  have main: "gca_malloc a sz = Inr (h + 16, a'\<lparr>mutex := cycled (mutex a)\<rparr>)
      \<and> gca_ok (a'\<lparr>mutex := cycled (mutex a)\<rparr>) (us @ g_carve m s @ ws) (g_rest h m s fl1)
      \<and> heap a' = heap a \<and> heap_size a' = heap_size a \<and> alloc_errno a' = alloc_errno a
      \<and> (\<forall>y \<in> g_used (heap a) bs. bytes_at a' y = bytes_at a y)"
    if f: "gca_find_free_block (held a) m = Inr h0"
      and b: "(if h0 = NULL then gca_sbrk_new_block (held a) m else Inr (h0, held a)) = Inr (h, a1)"
      and s1: "gca_st a1 (us @ (s, True) # ws) fl1 {}" and h: "h = g_end (heap a) us" "h \<in> set fl1" and ms: "m \<le> s"
      and nx: "no_adj False (us @ (s, True) # ws)" and fr: "framed (- g_used (heap a) bs) (held a) a1"
      and e: "alloc_errno a1 = alloc_errno a" and u: "g_used (heap a) (us @ (s, True) # ws) = g_used (heap a) bs"
      and a': "rbind (gca_split_block a1 h m) (\<lambda>(_, a2). rbind (gca_remove_free_list a2 h) (\<lambda>a3.
          rbind (gca_set_used a3 (curr_info h) 1) (\<lambda>a4. rbind (gca_next a4 h) (\<lambda>x. rbind (gca_set_used a4 (prev_info x) 1)
            (\<lambda>a5. unlock_return a5 (gca_header_to_data h) NULL)))))
        = unlock_return a' (gca_header_to_data h) NULL"
        "gca_st a' (us @ g_carve m s @ ws) (g_rest h m s fl1) {}" "framed (- g_used (heap a1) (us @ (s, True) # ws)) a1 a'"
        "alloc_errno a' = alloc_errno a1"
    for h0 h a1 us s ws fl1 a'
  proof -
    have hp1: "heap a1 = heap a" using framedD(2) [OF fr] by simp
    have fr2: "framed (- g_used (heap a) bs) (held a) a'" by (rule framed_chain [OF fr]) (use a'(3) in \<open>simp only: hp1 u\<close>)
    note k = framedD [OF fr2]
    have hz: "h \<noteq> NULL" using g_end_pos [OF st] h(1) by simp
    obtain t g2 vs where v: "ws @ [(0, False)] = (t, g2) # vs" by (cases "ws @ [(0, False)]") auto
    have "gca_header_to_data h = h + 16" by (rule gca_addresses(3) [OF gca_block(6) [OF s1 _ v]]) (simp add: h(1) hp1)
    moreover have "unlock_return a' x NULL = Inr (x, a'\<lparr>mutex := cycled (mutex a)\<rparr>)" for x
      by (rule unlock_held(2) [OF g k(1)])
    ultimately have "gca_malloc a sz = Inr (h + 16, a'\<lparr>mutex := cycled (mutex a)\<rparr>)"
      unfolding steps [OF f b] a'(1) using hz by simp
    moreover have "gca_ok (a'\<lparr>mutex := cycled (mutex a)\<rparr>) (us @ g_carve m s @ ws) (g_rest h m s fl1)"
      using a'(2) no_adj_carve [OF nx] unlock_held(3) [OF g k(1)] by (simp add: gca_ok_def)
    ultimately show ?thesis using k e a'(4) by (simp add: held_def)
  qed
  from gca_find_ok [OF sth, of m] show ?thesis
  proof (rule disjE, goal_cases)
    case 2
    then obtain us s ws h where b: "bs = us @ (s, True) # ws" "h = g_end (heap a) us" "m \<le> s" "h \<in> set fl"
      "g_first (heap a) bs fl m h" "gca_find_free_block (held a) m = Inr h" "h \<noteq> NULL" by auto
    obtain t vs where v: "ws @ [(0, False)] = (t, False) # vs" using no_adj_next na unfolding b(1) by blast
    have s1: "gca_st (held a) (us @ (s, True) # ws) fl {}" using sth b(1) by simp
    have h1: "h = g_end (heap (held a)) us" using b(2) by simp
    obtain a' where a': "rbind (gca_split_block (held a) h m) (\<lambda>(_, a2). rbind (gca_remove_free_list a2 h) (\<lambda>a3.
          rbind (gca_set_used a3 (curr_info h) 1) (\<lambda>a4. rbind (gca_next a4 h) (\<lambda>x. rbind (gca_set_used a4 (prev_info x) 1)
            (\<lambda>a5. unlock_return a5 (gca_header_to_data h) NULL)))))
        = unlock_return a' (gca_header_to_data h) NULL"
        "gca_st a' (us @ g_carve m s @ ws) (g_rest h m s fl) {}" "framed (- g_used (heap (held a)) (us @ (s, True) # ws)) (held a) a'"
        "alloc_errno a' = alloc_errno (held a)"
      using gca_take [OF s1 h1 b(4) n16(1,2) b(3) v] by blast
    have bl: "(if h = NULL then gca_sbrk_new_block (held a) m else Inr (h, held a)) = Inr (h, held a)" using b(7) by simp
    have "framed (- g_used (heap a) bs) (held a) (held a)" "alloc_errno (held a) = alloc_errno a"
      "g_used (heap a) (us @ (s, True) # ws) = g_used (heap a) bs" using b(1) by (simp_all add: held_def)
    from main [OF b(6) bl s1 b(2,4,3) na [unfolded b(1)] this a'] show ?thesis
      using b(1,2,3,5) by (intro disjI2 exI [of _ bs] exI [of _ fl] exI [of _ us] exI [of _ s] exI [of _ ws] exI [of _ h]
          exI [of _ "a'\<lparr>mutex := cycled (mutex a)\<rparr>"]) simp
  next
    case 1
    then have nf: "g_no_fit (heap a) bs m" "gca_find_free_block (held a) m = Inr NULL" by simp_all
    show ?thesis
    proof (cases "current_brk a + page_up m \<le> heap a + heap_size a")
      case False
      then have "gca_sbrk_new_block (held a) m = Inr (NULL, held a)"
        using gca_grow(1) [OF sth n16 refl] by (simp add: held_def)
      then have bl: "(if NULL = NULL then gca_sbrk_new_block (held a) m else Inr (NULL, held a)) = Inr (NULL, held a)" by simp
      have "unlock_return (set_alloc_errno MALLOC_FAILED (held a)) NULL NULL
          = Inr (NULL, (set_alloc_errno MALLOC_FAILED (held a))\<lparr>mutex := cycled (mutex a)\<rparr>)"
        by (rule unlock_held(2) [OF g]) (simp add: set_alloc_errno_def)
      then have "gca_malloc a sz = Inr (NULL, a\<lparr>alloc_errno := MALLOC_FAILED, mutex := cycled (mutex a)\<rparr>)"
        using steps [OF nf(2) bl] by (simp add: set_alloc_errno_def held_def)
      then show ?thesis using nf(1) False by simp
    next
      case True
      have fits: "current_brk (held a) + page_up m \<le> heap (held a) + heap_size (held a)" using True by simp
      obtain us s h a1 where x: "g_extend bs (page_up m) = us @ [(s, True)]" "h = g_end (heap a) us" "m \<le> s"
        "gca_sbrk_new_block (held a) m = Inr (h, a1)" "gca_st a1 (us @ [(s, True)]) (g_extend_list (g_end (heap a) bs) bs fl) {}"
        "h \<in> set (g_extend_list (g_end (heap a) bs) bs fl)" "framed (- g_used (heap a) bs) (held a) a1"
        "alloc_errno a1 = alloc_errno a" "g_used (heap a) (us @ [(s, True)]) = g_used (heap a) bs"
        "block_used 16 (heap a) (us @ [(s, True)]) = block_used 16 (heap a) bs"
        using gca_extend [OF sth n16 fits] by (auto simp: held_def)
      let ?fl = "g_extend_list (g_end (heap a) bs) bs fl"
      have h1: "h = g_end (heap a1) us" using x(2) framedD(2) [OF x(7)] by simp
      obtain a' where a': "rbind (gca_split_block a1 h m) (\<lambda>(_, a2). rbind (gca_remove_free_list a2 h) (\<lambda>a3.
          rbind (gca_set_used a3 (curr_info h) 1) (\<lambda>a4. rbind (gca_next a4 h) (\<lambda>x. rbind (gca_set_used a4 (prev_info x) 1)
            (\<lambda>a5. unlock_return a5 (gca_header_to_data h) NULL)))))
        = unlock_return a' (gca_header_to_data h) NULL"
        "gca_st a' (us @ g_carve m s @ []) (g_rest h m s ?fl) {}" "framed (- g_used (heap a1) (us @ [(s, True)])) a1 a'"
        "alloc_errno a' = alloc_errno a1"
        using gca_take [OF x(5) h1 x(6) n16(1,2) x(3), of 0 "[]"] by auto
      have bl: "(if NULL = NULL then gca_sbrk_new_block (held a) m else Inr (NULL, held a)) = Inr (h, a1)" using x(4) by simp
      have na1: "no_adj False (us @ [(s, True)])" using no_adj_extend [OF na, of "page_up m"] x(1) by simp
      from main [OF nf(2) bl x(5) x(2,6,3) na1 x(7,8,9) a'] show ?thesis
        using nf(1) True x(1,2,3,10) by (intro disjI2 exI [of _ "us @ [(s, True)]"] exI [of _ ?fl] exI [of _ us] exI [of _ s] exI [of _ "[]"]
            exI [of _ h] exI [of _ "a'\<lparr>mutex := cycled (mutex a)\<rparr>"]) simp
    qed
  qed
qed

section \<open>Release\<close>

text \<open>The block and the neighbours it is merged with.\<close>

definition merged_next :: "nat \<Rightarrow> (nat \<times> bool) list \<Rightarrow> nat \<Rightarrow> (nat \<times> bool) list \<Rightarrow> bool" where
  "merged_next s ws s' ws' \<longleftrightarrow> ws' = ws \<and> s' = s \<and> (\<exists>t vs. ws @ [(0, False)] = (t, False) # vs)
    \<or> (\<exists>t. ws = (t, True) # ws' \<and> s' = s + t + 16)"

definition merged_prev :: "(nat \<times> bool) list \<Rightarrow> nat \<Rightarrow> (nat \<times> bool) list \<Rightarrow> nat \<Rightarrow> bool" where
  "merged_prev us s us' s' \<longleftrightarrow> us' = us \<and> s' = s \<and> \<not> free_of False us
    \<or> (\<exists>t. us = us' @ [(t, True)] \<and> s' = t + s + 16)"

lemma merged_used:
  assumes "merged_next s ws s1 ws'" and "merged_prev us s1 us' s'"
  shows "block_used 16 p (us' @ (s', True) # ws') = block_used 16 p (us @ (s, True) # ws)"
    "g_used p (us' @ (s', True) # ws') = g_used p (us @ (s, True) # ws)"
    "no_adj False (us @ (s, False) # ws) \<Longrightarrow> no_adj False (us' @ (s', True) # ws')"
proof -
  have "block_used 16 p (us @ (s1, True) # ws') = block_used 16 p (us @ (s, True) # ws)"
    using assms(1) by (auto simp: merged_next_def add.assoc add.commute add.left_commute)
  moreover have "block_used 16 p (us' @ (s', True) # ws') = block_used 16 p (us @ (s1, True) # ws')"
    using assms(2) by (auto simp: merged_prev_def add.assoc add.commute add.left_commute)
  ultimately show e: "block_used 16 p (us' @ (s', True) # ws') = block_used 16 p (us @ (s, True) # ws)" by simp
  show "g_used p (us' @ (s', True) # ws') = g_used p (us @ (s, True) # ws)" unfolding used_bytes_set e ..
  assume n: "no_adj False (us @ (s, False) # ws)"
  have "no_adj True ws'"
    using assms(1) n by (cases ws) (auto simp: merged_next_def no_adj_append)
  then show "no_adj False (us' @ (s', True) # ws')"
    using assms(2) n by (auto simp: merged_prev_def no_adj_append)
qed

lemma gca_coalesce_ok:
  assumes st: "gca_st a (us @ (s, True) # ws) fl {}" and h: "h = g_end (heap a) us" "h \<in> set fl"
  shows "\<exists>p a' us' s1 s' ws' fl'. gca_coalesce a h = Inr (p, a') \<and> merged_next s ws s1 ws' \<and> merged_prev us s1 us' s'
    \<and> gca_st a' (us' @ (s', True) # ws') fl' {} \<and> framed (- g_used (heap a) (us @ (s, True) # ws)) a a' \<and> alloc_errno a' = alloc_errno a"
proof -
  obtain m a1 s1 ws' fl1 where a1: "gca_coalesce_next a h = Inr (m, a1)" "merged_next s ws s1 ws'" "gca_st a1 (us @ (s1, True) # ws') fl1 {}"
    "h \<in> set fl1" "framed (- g_used (heap a) (us @ (s, True) # ws)) a a1" "alloc_errno a1 = alloc_errno a"
  proof (cases "\<exists>t ws'. ws = (t, True) # ws'")
    case True
    then obtain t ws' where w: "ws = (t, True) # ws'" by blast
    have st1: "gca_st a (us @ (s, True) # (t, True) # ws') fl {}" using st w by simp
    have "h + s + 16 \<in> g_frees (heap a) (us @ (s, True) # (t, True) # ws')" by (simp add: h(1))
    then have e: "h + s + 16 \<in> set fl" using gca_stD(4) [OF st1] by simp
    obtain a1 where "gca_coalesce_next a h = Inr (True, a1)" "gca_st a1 (us @ (s + t + 16, True) # ws') (remove1 (h + s + 16) fl) {}"
      "framed (- g_used (heap a) (us @ (s, True) # (t, True) # ws')) a a1" "alloc_errno a1 = alloc_errno a"
      using gca_coalesce_yes [OF st1 h(1) e] by blast
    moreover have "h \<in> set (remove1 (h + s + 16) fl)" using h(2) by simp
    ultimately show thesis using w by (intro that [of True a1 "s + t + 16" ws' "remove1 (h + s + 16) fl"]) (simp_all add: merged_next_def)
  next
    case False
    obtain t g vs where v: "ws @ [(0, False)] = (t, g) # vs" by (cases "ws @ [(0, False)]") auto
    then have "g = False" using False by (cases ws) auto
    then have v1: "ws @ [(0, False)] = (t, False) # vs" using v by simp
    then have "merged_next s ws s ws" by (simp add: merged_next_def)
    with gca_coalesce_no [OF st h(1) v1] st h(2) show thesis by (intro that [of False a s ws fl]) simp_all
  qed
  have hp: "heap a1 = heap a" using framedD(2) [OF a1(5)] .
  have u1: "g_used (heap a) (us @ (s1, True) # ws') = g_used (heap a) (us @ (s, True) # ws)"
    using a1(2) by (auto simp: merged_next_def add.assoc add.commute add.left_commute)
  have run: "gca_coalesce a h = gca_coalesce_prev a1 h" using a1(1) by (simp add: gca_coalesce_def)
  show ?thesis
  proof (cases "free_of False us")
    case False
    have "gca_coalesce_prev a1 h = Inr (h, a1)" by (rule gca_prev_used [OF a1(3) _ False]) (simp add: h(1) hp)
    moreover have "merged_prev us s1 us s1" using False by (simp add: merged_prev_def)
    ultimately show ?thesis using run a1 by (intro exI [of _ h] exI [of _ a1] exI [of _ us] exI [of _ s1] exI [of _ ws'] exI [of _ fl1]) simp
  next
    case True
    then obtain us' t where u: "us = us' @ [(t, True)]" by (cases us rule: rev_cases) auto
    have st2: "gca_st a1 (us' @ (t, True) # (s1, True) # ws') fl1 {}" using a1(3) u by simp
    have h2: "h = g_end (heap a1) us' + t + 16" using h(1) hp u by simp
    obtain a2 where a2: "gca_coalesce_prev a1 h = Inr (g_end (heap a1) us', a2)" "gca_st a2 (us' @ (t + s1 + 16, True) # ws') (remove1 h fl1) {}"
      "framed (- g_used (heap a1) (us' @ (t, True) # (s1, True) # ws')) a1 a2" "alloc_errno a2 = alloc_errno a1"
      using gca_prev_free [OF st2 h2 a1(4)] by blast
    have "framed (- g_used (heap a) (us @ (s, True) # ws)) a a2"
    proof (rule framed_chain [OF a1(5)])
      have "us' @ (t, True) # (s1, True) # ws' = us @ (s1, True) # ws'" using u by simp
      then show "framed (- g_used (heap a) (us @ (s, True) # ws)) a1 a2" using a2(3) by (simp only: hp u1)
    qed
    moreover have "merged_prev us s1 us' (t + s1 + 16)" using u by (simp add: merged_prev_def)
    ultimately show ?thesis
      using run a1(2,6) a2 by (intro exI [of _ "g_end (heap a1) us'"] exI [of _ a2] exI [of _ us'] exI [of _ s1]
          exI [of _ "t + s1 + 16"] exI [of _ ws'] exI [of _ "remove1 h fl1"]) simp
  qed
qed

theorem gca_free_spec:
  assumes ok: "gca_ok a (us @ (s, False) # ws) fl" and h: "h = g_end (heap a) us"
  shows "\<exists>a' us' s1 s' ws' fl'. gca_free a (h + 16) = Inr (0, a') \<and> gca_ok a' (us' @ (s', True) # ws') fl'
    \<and> merged_next s ws s1 ws' \<and> merged_prev us s1 us' s' \<and> mutex a' = cycled (mutex a) \<and> heap a' = heap a \<and> heap_size a' = heap_size a
    \<and> alloc_errno a' = alloc_errno a \<and> (\<forall>y \<in> g_used (heap a) (us @ (s, True) # ws). bytes_at a' y = bytes_at a y)"
proof -
  have st: "gca_st a (us @ (s, False) # ws) fl {}" and na: "no_adj False (us @ (s, False) # ws)" and g: "lock_good (mutex a)"
    using ok by (simp_all add: gca_ok_def)
  have st0: "gca_st (held a) (us @ (s, False) # ws) fl {}" using st by simp
  obtain t k vs where v: "ws @ [(0, False)] = (t, k) # vs" by (cases "ws @ [(0, False)]") auto
  have h0: "h = g_end (heap (held a)) us" using h by simp
  note b = gca_block [OF st0 h0 v] and ad = gca_addresses [OF gca_block(6) [OF st0 h0 v]]
  let ?a1 = "put_flag (h + 8) True (held a)" and ?a2 = "put_state h s True (held a)"
  have mp: "mapped (held a) (h + 8)" "mapped (held a) (h + s + 16)" using b(1) by (intro b(12); simp)+
  have i: "info ?a1 (h + 8) = (s, True)" using b(9) by simp
  have nx: "gca_next ?a1 h = Inr (h + s + 16)" by (rule gca_next_ok [OF _ i b(6)]) (use mp(1) in simp)
  have ops: "gca_set_used (held a) (curr_info h) 0 = Inr ?a1" "gca_set_used ?a1 (prev_info (h + s + 16)) 0 = Inr ?a2"
    using mp by (simp_all only: ad(1,4) gca_info_ops(4) put_fields put_state_def)
  have z: "g_sized (us @ (s, False) # ws)" by (rule gca_regionD(4) [OF gca_stD(1) [OF st0]])
  have nfl: "h \<notin> set fl"
  proof
    assume "h \<in> set fl"
    then have "h \<in> g_frees (heap (held a)) (us @ (s, False) # ws)" using gca_stD(4) [OF st0] by auto
    then obtain s' where "(h, s', True) \<in> set (g_places (heap (held a)) (us @ (s, False) # ws))" by (auto simp: g_frees_def)
    moreover have "(h, s, False) \<in> set (g_places (heap (held a)) (us @ (s, False) # ws))" using h0 by (simp add: places_append)
    ultimately show False using block_places_same [of 16 h s' True _ _ s False] by simp
  qed
  have mk: "gca_st ?a2 (us @ (s, True) # ws) fl {h}" "framed (- g_used (heap (held a)) (us @ (s, False) # ws)) (held a) ?a2"
    using gca_mark [OF st0 h0 nfl, of "{h}" True] by simp_all
  have hp2: "heap ?a2 = heap a" using framedD(2) [OF mk(2)] by simp
  obtain a3 where a3: "gca_add_free_list ?a2 h = Inr a3" "gca_st a3 (us @ (s, True) # ws) (h # fl) ({h} - {h})"
    "framed (- g_used (heap ?a2) (us @ (s, True) # ws)) ?a2 a3" "alloc_errno a3 = alloc_errno ?a2"
    using gca_st_add [OF mk(1) insertI1] by blast
  have st3: "gca_st a3 (us @ (s, True) # ws) (h # fl) {}" using a3(2) by simp
  have hp3: "heap a3 = heap a" using framedD(2) [OF a3(3)] hp2 by simp
  have h3: "h = g_end (heap a3) us" "h \<in> set (h # fl)" using h hp3 by simp_all
  obtain p a4 us' s1 s' ws' fl' where a4: "gca_coalesce a3 h = Inr (p, a4)" "merged_next s ws s1 ws'" "merged_prev us s1 us' s'"
    "gca_st a4 (us' @ (s', True) # ws') fl' {}" "framed (- g_used (heap a3) (us @ (s, True) # ws)) a3 a4" "alloc_errno a4 = alloc_errno a3"
    using gca_coalesce_ok [OF st3 h3] by blast
  have sub: "g_used (heap a) (us @ (s, True) # ws) \<subseteq> g_used (heap a) (us @ (s, False) # ws)" by auto
  have "framed (- g_used (heap a) (us @ (s, True) # ws)) (held a) ?a2"
    by (rule framed_mono [OF mk(2)]) (use sub in auto)
  then have fr: "framed (- g_used (heap a) (us @ (s, True) # ws)) (held a) a4"
    using framed_chain [OF framed_chain] a3(3) a4(5) unfolding hp2 hp3 by blast
  note k = framedD [OF fr]
  let ?a5 = "a4\<lparr>mutex := cycled (mutex a)\<rparr>"
  have un: "alloc_unlock a4 = (0, ?a5)" by (rule unlock_held(1) [OF g k(1)])
  have d: "gca_data_to_header (h + 16) = h" using b(6) by (simp add: gca_data_to_header_def gca_consts usize_sub_le)
  have cond: "(heap a = NULL \<or> h + 16 = NULL) = False" "(0 = - (1 :: int)) = False"
    using gca_regionD(1) [OF gca_stD(1) [OF st]] by simp_all
  have "gca_free a (h + 16) = Inr (0, ?a5)"
    unfolding gca_free_def cond if_False lock_held [OF g] prod.case Let_def d ops rbind_Inr nx a3(1) a4(1) un ..
  moreover have "gca_ok ?a5 (us' @ (s', True) # ws') fl'"
    using a4(4) merged_used(3) [OF a4(2,3) na] unlock_held(3) [OF g k(1)] by (simp add: gca_ok_def)
  moreover have "alloc_errno ?a5 = alloc_errno a"
    using a3(4) a4(6) by (simp add: put_state_def held_def)
  ultimately show ?thesis
    using a4(2,3) k by (intro exI [of _ ?a5] exI [of _ us'] exI [of _ s1] exI [of _ s'] exI [of _ ws'] exI [of _ fl']) simp
qed

section \<open>The first heap\<close>

text \<open>What \<open>mmap\<close> returns when it succeeds, for a heap of at least one page.\<close>

definition gca_good_region :: "addr \<Rightarrow> nat \<Rightarrow> bool" where
  "gca_good_region r n \<longleftrightarrow> 0 < r \<and> 16 dvd r \<and> 4096 \<le> n \<and> n < 2 ^ 63 \<and> r + n + 64 < 2 ^ 64"

lemma fresh_words:
  assumes "bytes_at a = (\<lambda>_. 0)"
  shows "word_at a p = 0" "info a p = (0, True)"
proof -
  have "read_bytes (\<lambda>_. 0) q n = 0" for q n by (induction n arbitrary: q) simp_all
  then show "word_at a p = 0" "info a p = (0, True)" using assms by (simp_all add: word_at_def info_def)
qed

lemma gca_first_block:
  fixes a :: GlibcAllocator
  assumes r: "gca_good_region r n" and a: "heap a = r" "heap_size a = n" "current_brk a = r + 4096" "free_list a = NULL"
    and z: "bytes_at a = (\<lambda>_. 0)"
  defines "a' \<equiv> put_flag (r + 4080) True (put_size (r + 4080) 4064 (put_flag (r + 8) True (put_size (r + 8) 4064
      (put_flag (r + 4088) False (put_size (r + 4088) 0 (put_flag r False (put_size r 0 a)))))))"
  shows "gca_st a' [(4064, True)] [] {r}"
proof -
  have i: "info a' r = (0, False)" "info a' (r + 8) = (4064, True)" "info a' (r + 4080) = (4064, True)" "info a' (r + 4088) = (0, False)"
    unfolding a'_def by (simp_all add: apart_def fresh_words [OF z])
  have d: "0 < r" "16 dvd r" "4096 \<le> n" "n < 2 ^ 63" "r + n + 64 < 2 ^ 64" using r by (simp_all add: gca_good_region_def)
  have f: "heap a' = r" "heap_size a' = n" "current_brk a' = r + 4096" "free_list a' = NULL" unfolding a'_def using a by simp_all
  have "chain a' (0, False) (heap a') ([(4064, True)] @ [(0, False)])"
    using i unfolding f by (simp add: add.commute)
  moreover have "gca_region a' [(4064, True)]" unfolding gca_region_def f using d by simp
  moreover have "free_list_ok a' []" by (simp add: free_list_ok_def f)
  ultimately show ?thesis unfolding gca_st_def by (simp add: f)
qed

lemma gca_create_ok:
  assumes r: "gca_good_region r n" and l: "lock_good l" "lk_mode l = Unlocked"
  shows "\<exists>a. gca_create True l r e n = Inr (Some a, e) \<and> gca_ok a [(4064, True)] [r] \<and> heap a = r \<and> heap_size a = n
    \<and> lk_mode (mutex a) = Unlocked"
proof -
  have d: "0 < r" "16 dvd r" "4096 \<le> n" "n < 2 ^ 63" "r + n + 64 < 2 ^ 64" using r by (simp_all add: gca_good_region_def)
  let ?l = "l\<lparr>lk_calls := Suc (Suc (Suc (Suc (lk_calls l)))), lk_mode := Unlocked\<rparr>"
  have li: "htfh_lock_init l = (0, ?l)"
    using l by (simp add: htfh_lock_init_def attr_call_def pthread_call_def lock_good_def EINVAL_def)
  let ?a0 = "\<lparr>alloc_errno = e, mutex = ?l, heap_size = n, heap = r, bytes_at = (\<lambda>_. 0), free_list = NULL, current_brk = r\<rparr>"
  have g: "lock_good (mutex ?a0)" using l(1) by (simp add: lock_good_def)
  let ?a2 = "(held ?a0)\<lparr>current_brk := r + 4096\<rparr>"
  have hs: "gca_handled_sbrk (held ?a0) GCA_SBRK_ALIGN = (Some (r, r + 4096), ?a2)"
    using gca_handled_sbrk_ok [of "held ?a0" 4096] d by (simp add: gca_consts held_def)
  let ?a3 = "put_size r 0 ?a2"
  let ?a4 = "put_flag r False ?a3"
  let ?a5 = "put_size (r + 4088) 0 ?a4"
  let ?a6 = "put_flag (r + 4088) False ?a5"
  let ?a7 = "put_size (r + 8) 4064 ?a6"
  let ?a8 = "put_flag (r + 8) True ?a7"
  let ?a9 = "put_size (r + 4080) 4064 ?a8"
  let ?a10 = "put_flag (r + 4080) True ?a9"
  have ad: "gca_data_to_header (r + 4096) = r + 4080" "curr_info (r + 4080) = r + 4088" "curr_info r = r + 8"
    "prev_info r = r" "prev_info (r + 4080) = r + 4080" "GCA_SBRK_ALIGN - 2 * GCA_INFO_SIZE = 4064"
    using d by (simp_all add: gca_data_to_header_def gca_consts usize_sub_le curr_info_def prev_info_def)
  have mp: "mapped ?a2 r" "mapped ?a2 (r + 8)" "mapped ?a2 (r + 4080)" "mapped ?a2 (r + 4088)"
    using d by (auto simp: mapped_def held_def)
  have ops: "gca_set_size ?a2 (prev_info r) 0 = Inr ?a3" "gca_set_used ?a3 (prev_info r) 1 = Inr ?a4"
    "gca_set_size ?a4 (curr_info (r + 4080)) 0 = Inr ?a5" "gca_set_used ?a5 (curr_info (r + 4080)) 1 = Inr ?a6"
    "gca_set_size ?a6 (curr_info r) 4064 = Inr ?a7" "gca_set_used ?a7 (curr_info r) 0 = Inr ?a8"
    "gca_set_size ?a8 (prev_info (r + 4080)) 4064 = Inr ?a9" "gca_set_used ?a9 (prev_info (r + 4080)) 0 = Inr ?a10"
  proof -
    have "8 dvd (4064 :: nat)" by simp
    with mp show "gca_set_size ?a2 (prev_info r) 0 = Inr ?a3" "gca_set_used ?a3 (prev_info r) 1 = Inr ?a4"
    "gca_set_size ?a4 (curr_info (r + 4080)) 0 = Inr ?a5" "gca_set_used ?a5 (curr_info (r + 4080)) 1 = Inr ?a6"
    "gca_set_size ?a6 (curr_info r) 4064 = Inr ?a7" "gca_set_used ?a7 (curr_info r) 0 = Inr ?a8"
    "gca_set_size ?a8 (prev_info (r + 4080)) 4064 = Inr ?a9" "gca_set_used ?a9 (prev_info (r + 4080)) 0 = Inr ?a10"
    by (simp_all only: ad(2-5) gca_info_ops(3,4,5) put_fields dvd_0_right)
  qed
  have st: "gca_st ?a10 [(4064, True)] [] {r}" by (rule gca_first_block [OF r]) (simp_all add: held_def)
  obtain a11 where a11: "gca_add_free_list ?a10 r = Inr a11" "gca_st a11 [(4064, True)] [r] {}"
    "framed (- g_used (heap ?a10) [(4064, True)]) ?a10 a11" "alloc_errno a11 = alloc_errno ?a10"
    using gca_st_add [OF st, of r] by auto
  note k = framedD [OF a11(3)]
  have mx: "mutex a11 = mutex (held ?a0)" using k(1) by simp
  let ?a12 = "a11\<lparr>mutex := cycled (mutex ?a0)\<rparr>"
  have un: "alloc_unlock a11 = (0, ?a12)" by (rule unlock_held(1) [OF g mx])
  have nz: "(heap (held ?a0) = NULL) = False" using d(1) by simp
  have e: "alloc_errno ?a12 = e" using a11(4) by (simp add: held_def)
  have "gca_create True l r e n = Inr (Some ?a12, e)"
    by (simp only: gca_create_def simp_thms if_False li prod.case Let_def lock_held [OF g] nz hs option.case ad(1,6) ops rbind_Inr
        a11(1) un e if_True)
  moreover have "gca_ok ?a12 [(4064, True)] [r]"
    using a11(2) unlock_held(3) [OF g refl] by (simp add: gca_ok_def)
  moreover have "lk_mode (mutex ?a12) = Unlocked" by (simp add: cycled_def numeral_eq_Suc)
  ultimately show ?thesis using k by (intro exI [of _ ?a12]) (simp add: held_def)
qed

text \<open>
  \<open>mmap\<close> reports a failure with \<open>MAP_FAILED\<close>, which the code does not test for; the first
  attempt to move the break fails instead, because the address overflows.
\<close>

lemma gca_create_fails:
  assumes l: "lock_good l" and r: "r = MAP_FAILED \<or> 0 < r \<and> n < 4096 \<and> r + n + 4096 < 2 ^ 64"
  shows "gca_create True l r e n = Inr (None, HEAP_MMAP_FAILED)"
proof -
  let ?l = "l\<lparr>lk_calls := Suc (Suc (Suc (Suc (lk_calls l)))), lk_mode := Unlocked\<rparr>"
  have li: "htfh_lock_init l = (0, ?l)"
    using l by (simp add: htfh_lock_init_def attr_call_def pthread_call_def lock_good_def EINVAL_def)
  let ?a0 = "\<lparr>alloc_errno = e, mutex = ?l, heap_size = n, heap = r, bytes_at = (\<lambda>_. 0), free_list = NULL, current_brk = r\<rparr>"
  have g: "lock_good (mutex ?a0)" using l(1) by (simp add: lock_good_def)
  have hs: "gca_handled_sbrk (held ?a0) 4096 = (None, held ?a0)"
    using r
  proof
    assume "r = MAP_FAILED"
    then show ?thesis by (simp add: gca_handled_sbrk_def held_def usize_def)
  next
    assume "0 < r \<and> n < 4096 \<and> r + n + 4096 < 2 ^ 64"
    then show ?thesis using gca_handled_sbrk_ok [of "held ?a0" 4096] by (simp add: held_def)
  qed
  have u: "alloc_unlock (set_alloc_errno HEAP_MMAP_FAILED (held ?a0))
      = (0, (set_alloc_errno HEAP_MMAP_FAILED (held ?a0))\<lparr>mutex := cycled (mutex ?a0)\<rparr>)"
    by (rule unlock_held(1) [OF g]) (simp add: set_alloc_errno_def)
  have nz: "(heap (held ?a0) = NULL) = False" using r by auto
  have e: "alloc_errno ((set_alloc_errno HEAP_MMAP_FAILED (held ?a0))\<lparr>mutex := cycled (mutex ?a0)\<rparr>) = HEAP_MMAP_FAILED"
    by (simp add: set_alloc_errno_def)
  show ?thesis
    by (simp only: gca_create_def simp_thms if_False li prod.case Let_def lock_held [OF g] nz GCA_SBRK_ALIGN_def hs option.case u e)
qed

end
