(* ===== verification/Glibc_Realloc.thy ===== *)
theory Glibc_Realloc
  imports Glibc_Safety
begin

text \<open>
  What each operation of the glibc-style allocator does to the memory handed out: it keeps the
  invariant of the heap, and it keeps the bytes of every block it is not asked about.
\<close>

section \<open>The heap and the memory handed out\<close>

text \<open>
  \<open>M\<close> maps the addresses handed out and not yet given back to the sizes asked for.
\<close>

definition gca_heap_ok :: "GlibcAllocator \<Rightarrow> (addr \<Rightarrow> nat option) \<Rightarrow> (nat \<times> bool) list \<Rightarrow> addr list \<Rightarrow> bool" where
  "gca_heap_ok a M bs fl \<longleftrightarrow> gca_ok a bs fl \<and> tracked (block_used 16 (heap a) bs) M"

definition gca_run_ok :: "GlibcAllocator \<Rightarrow> (addr \<Rightarrow> nat option) \<Rightarrow> (nat \<times> bool) list \<Rightarrow> addr list \<Rightarrow> bool" where
  "gca_run_ok a M bs fl \<longleftrightarrow> gca_heap_ok a M bs fl \<and> lk_mode (mutex a) = Unlocked"

lemma cycled_unlocked: "lk_mode l = Unlocked \<Longrightarrow> lk_mode (cycled l) = Unlocked"
  by (simp add: cycled_def numeral_eq_Suc)

lemma g_used_place: "(x, s) \<in> block_used k p bs \<longleftrightarrow> (x, s, False) \<in> set (block_places k p bs)"
  by (simp add: block_used_def)

lemma g_not_used: "(b, k') \<notin> block_used 16 p (us @ (s, True) # ws)" if "b = g_end p us"
proof
  assume "(b, k') \<in> block_used 16 p (us @ (s, True) # ws)"
  then have "(b, k', False) \<in> set (g_places p (us @ (s, True) # ws))" unfolding g_used_place .
  moreover have "(b, s, True) \<in> set (g_places p (us @ (s, True) # ws))" using that by (simp add: places_append)
  ultimately have "k' = s \<and> False = True" by (rule block_places_same [rotated]) simp
  then show False by simp
qed

lemma g_carve_used:
  assumes "b = g_end p us" and "m \<le> s"
  shows "\<exists>k. m \<le> k \<and> block_used 16 p (us @ g_carve m s @ ws) = insert (b, k) (block_used 16 p (us @ (s, True) # ws))"
proof (cases "m + 32 \<le> s")
  case True
  then show ?thesis using assms(1) by (intro exI [of _ m]) (auto simp: g_carve_def ac_simps)
next
  case False
  then show ?thesis using assms by (intro exI [of _ s]) (auto simp: g_carve_def)
qed

text \<open>Writing to the memory of used blocks keeps the invariant.\<close>

lemma gca_write_set:
  assumes st: "gca_st a bs fl {}" and y: "\<And>y. f y \<noteq> bytes_at a y \<Longrightarrow> y \<in> g_used (heap a) bs"
  shows "gca_st (a\<lparr>bytes_at := f\<rparr>) bs fl {}"
proof -
  let ?a = "a\<lparr>bytes_at := f\<rparr>" and ?U = "g_used (heap a) bs"
  note d = gca_stD [OF st] and z = gca_regionD(4) [OF gca_stD(1) [OF st]]
  have fr: "framed ?U a ?a" using y by (auto simp: framed_def)
  have "info ?a x = info a x \<and> info ?a (x + 8) = info a (x + 8)"
    if p: "(x, s, f) \<in> set (g_places (heap a) (bs @ [(0, False)]))" for x s f
  proof -
    obtain us ws where "bs @ [(0, False)] = us @ (s, f) # ws" "x = g_end (heap a) us" using places_split [OF p] by blast
    then have "{x..<x + 16} \<inter> g_used (heap a) (bs @ [(0, False)]) = {}" using header_unused [of x "heap a" us "(s, f) # ws"] by simp
    then have "{x..<x + 16} \<inter> ?U = {}" by auto
    then show ?thesis by (intro conjI framed_info [OF fr]) (auto simp: disjoint_iff)
  qed
  then have "chain ?a (0, False) (heap a) (bs @ [(0, False)])" using d(2) headers_cong by blast
  moreover have "links ?a NULL fl NULL = links a NULL fl NULL"
  proof (rule links_cong)
    fix x assume "x \<in> set fl"
    then have "link_area x \<inter> ?U = {}" using link_unused [OF _ z] d(4) by blast
    then show "word_at ?a (x + 16) = word_at a (x + 16) \<and> word_at ?a (x + 24) = word_at a (x + 24)"
      by (intro conjI framed_word [OF fr]) (auto simp: link_area_def disjoint_iff)
  qed
  ultimately show ?thesis
    using d framedD(4) [OF fr] by (simp add: gca_st_def gca_region_def free_list_ok_def)
qed

lemma gca_write: "gca_st a bs fl {} \<Longrightarrow> y \<in> g_used (heap a) bs \<Longrightarrow> gca_st (a\<lparr>bytes_at := (bytes_at a)(y := v)\<rparr>) bs fl {}"
  by (rule gca_write_set) (auto split: if_splits)

section \<open>Allocating and releasing\<close>

lemma gca_heap_malloc:
  assumes ok: "gca_heap_ok a M bs fl" and n: "n + 8208 \<le> 2 ^ 64"
  shows "\<exists>p a' bs' fl'. gca_malloc a n = Inr (p, a') \<and> gca_heap_ok a' (if p = NULL then M else M(p \<mapsto> n)) bs' fl'
    \<and> (mutex a' = mutex a \<or> mutex a' = cycled (mutex a))
    \<and> heap a' = heap a \<and> heap_size a' = heap_size a \<and> same_blocks M (bytes_at a) (bytes_at a') \<and> (p \<noteq> NULL \<longrightarrow> p \<notin> dom M)
    \<and> (p = NULL \<longrightarrow> n = 0 \<or> g_no_fit (heap a) bs (g_round n) \<and> heap a + heap_size a < current_brk a + page_up (g_round n))"
proof (cases "n = 0")
  case True
  have "gca_malloc a n = Inr (NULL, a\<lparr>alloc_errno := MALLOC_FAILED\<rparr>)" using True by (simp add: gca_malloc_def set_alloc_errno_def)
  moreover have "gca_heap_ok (a\<lparr>alloc_errno := MALLOC_FAILED\<rparr>) M bs fl" using ok by (simp add: gca_heap_ok_def gca_ok_def)
  ultimately show ?thesis using True by (intro exI [of _ NULL] exI [of _ "a\<lparr>alloc_errno := MALLOC_FAILED\<rparr>"] exI [of _ bs] exI [of _ fl])
      (simp add: same_blocks_def)
next
  case False
  have h: "gca_ok a bs fl" and t: "tracked (block_used 16 (heap a) bs) M"
    using ok by (simp_all add: gca_heap_ok_def)
  have keep: "same_blocks M (bytes_at a) (bytes_at a')" if "\<forall>y \<in> g_used (heap a) bs. bytes_at a' y = bytes_at a y" for a' :: GlibcAllocator
    using that tracked_bytes [OF t] unfolding same_blocks_def used_bytes_set by blast
  have n0: "0 < n" using False by simp
  from gca_malloc_spec [OF h n0 n refl] show ?thesis
  proof (rule disjE, goal_cases)
    case 1
    let ?a = "a\<lparr>alloc_errno := MALLOC_FAILED, mutex := cycled (mutex a)\<rparr>"
    have "gca_heap_ok ?a M bs fl" using h t by (simp add: gca_heap_ok_def gca_ok_def cycled_def lock_good_def)
    then show ?thesis using 1 False by (intro exI [of _ NULL] exI [of _ ?a] exI [of _ bs] exI [of _ fl]) (simp add: same_blocks_def)
  next
    case 2
    then obtain bs1 fl1 us s ws b a' where b: "bs1 = us @ (s, True) # ws" "b = g_end (heap a) us" "g_round n \<le> s"
      "gca_malloc a n = Inr (b + 16, a')"
      and h': "gca_ok a' (us @ g_carve (g_round n) s @ ws) (g_rest b (g_round n) s fl1)"
      and f: "mutex a' = cycled (mutex a)" "heap a' = heap a" "heap_size a' = heap_size a"
        "\<forall>y \<in> g_used (heap a) bs. bytes_at a' y = bytes_at a y" "block_used 16 (heap a) bs1 = block_used 16 (heap a) bs"
      by blast
    obtain k where k: "g_round n \<le> k"
      "block_used 16 (heap a) (us @ g_carve (g_round n) s @ ws) = insert (b, k) (block_used 16 (heap a) bs)"
      using g_carve_used [OF b(2,3), of ws] f(5) b(1) by auto
    have nb: "(b, k') \<notin> block_used 16 (heap a) bs" for k' using g_not_used [OF b(2), of k' s ws] unfolding f(5) [symmetric] b(1) .
    have nk: "n \<le> k" using g_round_facts(1) [of n] k(1) by simp
    note tr = tracked_add [OF t nb nk]
    have "gca_heap_ok a' (M(b + 16 \<mapsto> n)) (us @ g_carve (g_round n) s @ ws) (g_rest b (g_round n) s fl1)"
      using h' tr(1) k(2) f(1,2) by (simp add: gca_heap_ok_def)
    then show ?thesis
      using b(4) f(1-3) keep [OF f(4)] tr(2)
      by (intro exI [of _ "b + 16"] exI [of _ a'] exI [of _ "us @ g_carve (g_round n) s @ ws"] exI [of _ "g_rest b (g_round n) s fl1"]) simp
  qed
qed

lemma gca_heap_live:
  assumes "gca_heap_ok a M bs fl" and "M p = Some n"
  shows "\<exists>us s ws. bs = us @ (s, False) # ws \<and> p = g_end (heap a) us + 16 \<and> n \<le> s"
proof -
  obtain x s where x: "p = x + 16" "(x, s) \<in> block_used 16 (heap a) bs" "n \<le> s"
    using trackedD(1) [of "block_used 16 (heap a) bs" M p n] assms by (auto simp: gca_heap_ok_def)
  obtain us ws where "bs = us @ (s, False) # ws" "x = g_end (heap a) us"
    using places_split [of x s False] x(2) unfolding g_used_place by blast
  then show ?thesis using x by blast
qed

lemma gca_heap_free:
  assumes ok: "gca_heap_ok a M bs fl" and p: "p \<in> dom M"
  shows "\<exists>a' bs' fl'. gca_free a p = Inr (0, a') \<and> gca_heap_ok a' (M(p := None)) bs' fl' \<and> mutex a' = cycled (mutex a)
    \<and> heap a' = heap a \<and> heap_size a' = heap_size a
    \<and> same_blocks (M(p := None)) (bytes_at a) (bytes_at a')"
proof -
  obtain n where "M p = Some n" using p by blast
  then obtain us s ws where b: "bs = us @ (s, False) # ws" "p = g_end (heap a) us + 16" using gca_heap_live [OF ok] by blast
  let ?b = "g_end (heap a) us" and ?bs = "us @ (s, True) # ws"
  have h: "gca_ok a (us @ (s, False) # ws) fl" and t: "tracked (block_used 16 (heap a) bs) M"
    using ok by (simp_all add: gca_heap_ok_def b(1))
  obtain a' us' s1 s' ws' fl' where run: "gca_free a (?b + 16) = Inr (0, a')"
    and h': "gca_ok a' (us' @ (s', True) # ws') fl'" and m: "merged_next s ws s1 ws'" "merged_prev us s1 us' s'"
    and f: "mutex a' = cycled (mutex a)" "heap a' = heap a" "heap_size a' = heap_size a"
      "\<forall>y \<in> g_used (heap a) ?bs. bytes_at a' y = bytes_at a y"
    using gca_free_spec [OF h refl] by blast
  note e = merged_used(1) [OF m, of "heap a"]
  have "block_used 16 (heap a) bs = insert (?b, s) (block_used 16 (heap a) ?bs)" by (auto simp: b(1))
  then have "tracked (insert (?b, s) (block_used 16 (heap a) ?bs)) M" using t by simp
  then have tr: "tracked (block_used 16 (heap a) ?bs) (M(?b + 16 := None))" by (rule tracked_drop) (rule g_not_used [OF refl])
  have "gca_heap_ok a' (M(p := None)) (us' @ (s', True) # ws') fl'"
    using h' f(1,2) tr unfolding b(2) e [symmetric] by (simp add: gca_heap_ok_def)
  moreover have "same_blocks (M(p := None)) (bytes_at a) (bytes_at a')"
    using f(4) tracked_bytes [OF tr] unfolding same_blocks_def used_bytes_set b(2) by blast
  ultimately show ?thesis using run f(1-3) unfolding b(2) by blast
qed

lemma gca_heap_separate:
  assumes ok: "gca_heap_ok a M bs fl"
  shows "separate M" "M p = Some n \<Longrightarrow> 16 dvd p \<and> heap a + 16 \<le> p \<and> p + n + 16 \<le> heap a + heap_size a"
proof -
  have st: "gca_st a bs fl {}" and t: "tracked (block_used 16 (heap a) bs) M" using ok by (simp_all add: gca_heap_ok_def gca_ok_def)
  show "separate M"
  proof (rule tracked_separate [OF t])
    fix x s y k assume "(x, s) \<in> block_used 16 (heap a) bs" "(y, k) \<in> block_used 16 (heap a) bs" "x \<noteq> y"
    then show "x + s \<le> y \<or> y + k \<le> x" using places_ordered [of x s False 16 "heap a" bs y k False] by (auto simp: g_used_place)
  qed
  assume p: "M p = Some n"
  then obtain us s ws where b: "bs = us @ (s, False) # ws" "p = g_end (heap a) us + 16" "n \<le> s" using gca_heap_live [OF ok] by blast
  obtain r g vs where v: "ws @ [(0, False)] = (r, g) # vs" by (cases "ws @ [(0, False)]") auto
  note q = gca_block [OF st [unfolded b(1)] refl v]
  show "16 dvd p \<and> heap a + 16 \<le> p \<and> p + n + 16 \<le> heap a + heap_size a" using q(1,2,5) b(2,3) by simp
qed

section \<open>Resizing a block in place\<close>

text \<open>
  The used block \<open>h\<close> has size \<open>k\<close> instead of \<open>s\<close>, and the blocks behind it are rearranged:
  the other used blocks are the same and keep their memory, and so does this block as far as
  both sizes reach.
\<close>

definition resized :: "GlibcAllocator \<Rightarrow> GlibcAllocator \<Rightarrow> (nat \<times> bool) list \<Rightarrow> nat \<Rightarrow> (nat \<times> bool) list \<Rightarrow> nat \<Rightarrow>
    (nat \<times> bool) list \<Rightarrow> addr list \<Rightarrow> bool" where
  "resized a a' us s ws k ws' fl' \<longleftrightarrow> gca_st a' (us @ (k, False) # ws') fl' {} \<and> no_adj False (us @ (k, False) # ws')
     \<and> block_used 16 (g_end (heap a) us + k + 16) ws' = block_used 16 (g_end (heap a) us + s + 16) ws
     \<and> framed (- (g_used (heap a) us \<union> payload (g_end (heap a) us) (min s k) \<union> g_used (g_end (heap a) us + s + 16) ws)) a a'
     \<and> alloc_errno a' = alloc_errno a"

lemma g_used_eq: "block_used 16 p ws = block_used 16 q ws' \<Longrightarrow> g_used p ws = g_used q ws'"
  by (simp add: used_bytes_set)

lemma resized_trans:
  assumes "resized a a1 us s ws s1 ws1 fl1" and "resized a1 a2 us s1 ws1 k ws' fl'" and "min s k \<le> s1"
  shows "resized a a2 us s ws k ws' fl'"
proof -
  let ?h = "g_end (heap a) us"
  have f1: "framed (- (g_used (heap a) us \<union> payload ?h (min s s1) \<union> g_used (?h + s + 16) ws)) a a1"
    using assms(1) by (simp add: resized_def)
  have hp: "heap a1 = heap a" using framedD(2) [OF f1] .
  have u: "block_used 16 (?h + s1 + 16) ws1 = block_used 16 (?h + s + 16) ws" using assms(1) by (simp add: resized_def)
  have f2: "framed (- (g_used (heap a) us \<union> payload ?h (min s1 k) \<union> g_used (?h + s1 + 16) ws1)) a1 a2"
    using assms(2) by (simp add: resized_def hp)
  have p: "payload ?h (min s k) \<subseteq> payload ?h (min s s1)" "payload ?h (min s k) \<subseteq> payload ?h (min s1 k)"
    using assms(3) by (auto simp: payload_def)
  have "framed (- (g_used (heap a) us \<union> payload ?h (min s k) \<union> g_used (?h + s + 16) ws)) a a2"
  proof (rule framed_chain)
    show "framed (- (g_used (heap a) us \<union> payload ?h (min s k) \<union> g_used (?h + s + 16) ws)) a a1"
      by (rule framed_mono [OF f1]) (use p(1) in blast)
    show "framed (- (g_used (heap a) us \<union> payload ?h (min s k) \<union> g_used (?h + s + 16) ws)) a1 a2"
      by (rule framed_mono [OF f2]) (use p(2) g_used_eq [OF u] in blast)
  qed
  then show ?thesis using assms(1,2) u by (simp add: resized_def hp)
qed

lemma no_adj_split: "no_adj False (us @ (s, False) # ws) \<Longrightarrow> no_adj False ws"
  by (simp add: no_adj_append)

text \<open>The block is cut down to \<open>n\<close> bytes if the rest is large enough.\<close>

lemma gca_shrink:
  assumes st: "gca_st a (us @ (s, False) # ws) fl {}" and na: "no_adj False (us @ (s, False) # ws)" and h: "h = g_end (heap a) us"
    and n: "16 dvd n" "16 \<le> n" "n \<le> s"
  shows "\<exists>x a' k ws' fl'. gca_split_block a h n = Inr (x, a') \<and> n \<le> k \<and> k \<le> s \<and> resized a a' us s ws k ws' fl'"
proof (cases "n + 32 \<le> s")
  case False
  obtain t g vs where v: "ws @ [(0, False)] = (t, g) # vs" by (cases "ws @ [(0, False)]") auto
  note b = gca_block [OF st h v]
  have "gca_split_block a h n = Inr (NULL, a)" using False n(3) b(6) by (intro gca_split_no [OF st h]) simp_all
  then show ?thesis using n(3) st na by (intro exI [of _ NULL] exI [of _ a] exI [of _ s] exI [of _ ws] exI [of _ fl]) (simp add: resized_def)
next
  case True
  have mn: "min s n = n" using n(3) by simp
  show ?thesis
  proof (cases "\<exists>t ws'. ws = (t, True) # ws'")
    case False
    then obtain t vs where v: "ws @ [(0, False)] = (t, False) # vs" by (cases ws) auto
    obtain a' where a': "gca_split_block a h n = Inr (h + n + 16, a')"
      "gca_st a' (us @ (n, False) # (s - n - 16, True) # ws) ((h + n + 16) # fl) {}"
      "framed (- g_used (heap a) (us @ (n, False) # (s - n - 16, True) # ws)) a a'" "alloc_errno a' = alloc_errno a"
      using gca_split_yes [OF st h n(1,2) True v] by blast
    have e: "h + n + 16 + (s - n - 16) + 16 = h + s + 16" using True by simp
    have "no_adj False (us @ (n, False) # (s - n - 16, True) # ws)"
      using na False by (cases ws) (auto simp: no_adj_append)
    then have "resized a a' us s ws n ((s - n - 16, True) # ws) ((h + n + 16) # fl)"
      using a'(2-4)
      by (simp only: resized_def h [symmetric] used_bytes_simps used_set_simps mn e Un_assoc simp_thms)
    then show ?thesis using a'(1) n(3) by blast
  next
    case True': True
    then obtain t ws' where w: "ws = (t, True) # ws'" by blast
    have st1: "gca_st a (us @ (s, False) # (t, True) # ws') fl {}" using st w by simp
    have "h + s + 16 \<in> g_frees (heap a) (us @ (s, False) # (t, True) # ws')" by (simp add: h)
    then have fl: "h + s + 16 \<in> set fl" using gca_stD(4) [OF st1] by simp
    obtain a' where a': "gca_split_block a h n = Inr (h + n + 16, a')"
      "gca_st a' (us @ (n, False) # (s - n + t, True) # ws') ((h + n + 16) # remove1 (h + s + 16) fl) {}"
      "framed (- g_used (heap a) (us @ (n, False) # (s - n + t, True) # ws')) a a'" "alloc_errno a' = alloc_errno a"
      using gca_split_merge [OF st1 h n(1,2) True fl] by blast
    have e: "h + n + 16 + (s - n + t) + 16 = h + s + 16 + t + 16" using True by simp
    have "no_adj False (us @ (n, False) # (s - n + t, True) # ws')" using na by (auto simp: no_adj_append w)
    then have "resized a a' us s ws n ((s - n + t, True) # ws') ((h + n + 16) # remove1 (h + s + 16) fl)"
      using a'(2-4)
      by (simp only: resized_def h [symmetric] used_bytes_simps used_set_simps mn e Un_assoc simp_thms w)
    then show ?thesis using a'(1) n(3) by blast
  qed
qed

text \<open>A free block behind it is taken in.\<close>

lemma gca_grow_next:
  assumes st: "gca_st a (us @ (s, False) # ws) fl {}" and na: "no_adj False (us @ (s, False) # ws)" and h: "h = g_end (heap a) us"
  shows "\<exists>m a' k ws' fl'. gca_coalesce_next a h = Inr (m, a') \<and> s \<le> k \<and> (\<not> m \<longrightarrow> k = s) \<and> resized a a' us s ws k ws' fl'
    \<and> (\<exists>t vs. ws' @ [(0, False)] = (t, False) # vs)"
proof (cases "\<exists>t ws'. ws = (t, True) # ws'")
  case False
  then obtain t vs where v: "ws @ [(0, False)] = (t, False) # vs" by (cases ws) auto
  have "gca_coalesce_next a h = Inr (False, a)" by (rule gca_coalesce_no [OF st h v])
  then show ?thesis using st na v
    by (intro exI [of _ False] exI [of _ a] exI [of _ s] exI [of _ ws] exI [of _ fl]) (simp add: resized_def)
next
  case True
  then obtain t ws' where w: "ws = (t, True) # ws'" by blast
  have st1: "gca_st a (us @ (s, False) # (t, True) # ws') fl {}" using st w by simp
  have "h + s + 16 \<in> g_frees (heap a) (us @ (s, False) # (t, True) # ws')" by (simp add: h)
  then have fl: "h + s + 16 \<in> set fl" using gca_stD(4) [OF st1] by simp
  obtain a' where a': "gca_coalesce_next a h = Inr (True, a')" "gca_st a' (us @ (s + t + 16, False) # ws') (remove1 (h + s + 16) fl) {}"
    "framed (- g_used (heap a) (us @ (s, False) # (t, True) # ws')) a a'" "alloc_errno a' = alloc_errno a"
    using gca_coalesce_yes [OF st1 h fl] by blast
  have n2: "no_adj False (us @ (s + t + 16, False) # ws')" "\<exists>t vs. ws' @ [(0, False)] = (t, False) # vs"
    using na by (cases ws'; auto simp: no_adj_append w intro: no_adj_weak)+
  have e: "h + (s + t + 16) + 16 = h + s + 16 + t + 16" by simp
  have "resized a a' us s ws (s + t + 16) ws' (remove1 (h + s + 16) fl)"
    using a'(2-4) n2(1) e by (simp add: resized_def h [symmetric] w Int_assoc)
  then show ?thesis using a'(1) n2(2)
    by (intro exI [of _ True] exI [of _ a'] exI [of _ "s + t + 16"] exI [of _ ws'] exI [of _ "remove1 (h + s + 16) fl"]) simp
qed

text \<open>The last block takes in a new block at the end of the heap.\<close>

lemma gca_grow_last:
  assumes st: "gca_st a (us @ [(s, False)]) fl {}" and na: "no_adj False (us @ [(s, False)])" and h: "h = g_end (heap a) us"
    and n: "16 dvd n" "16 \<le> n" "n + 8192 \<le> 2 ^ 64"
  shows "gca_sbrk_new_block a n = Inr (NULL, a)
    \<or> (\<exists>x a1 a' k fl'. gca_sbrk_new_block a n = Inr (x, a1) \<and> x \<noteq> NULL \<and> gca_coalesce_next a1 h = Inr (True, a')
        \<and> s + n \<le> k \<and> resized a a' us s [] k [] fl')"
proof (cases "current_brk a + page_up n \<le> heap a + heap_size a")
  case False
  then show ?thesis using gca_grow(1) [OF st n refl] by simp
next
  case True
  let ?e = "h + s + 16" and ?P = "page_up n"
  have e: "?e = g_end (heap a) (us @ [(s, False)])" by (simp add: h)
  note g = gca_grow [OF st n e]
  have hp0: "heap (grown a ?e n) = heap a" using framedD(2) [OF g(4)] by simp
  obtain a8 where a8: "gca_add_free_list (grown a ?e n) ?e = Inr a8"
    "gca_st a8 ((us @ [(s, False)]) @ [(?P - 16, True)]) (?e # fl) (insert ?e {} - {?e})"
    "framed (- g_used (heap (grown a ?e n)) ((us @ [(s, False)]) @ [(?P - 16, True)])) (grown a ?e n) a8"
    "alloc_errno a8 = alloc_errno (grown a ?e n)"
    using gca_st_add [OF g(3) [OF True] insertI1] by blast
  have st8: "gca_st a8 ((us @ [(s, False)]) @ [(?P - 16, True)]) (?e # fl) {}" using a8(2) by simp
  have hp: "heap a8 = heap a" using framedD(2) [OF a8(3)] hp0 by simp
  have f8: "framed (- g_used (heap a) (us @ [(s, False)])) a a8"
    by (rule framed_chain [OF g(4)]) (use a8(3) hp0 in simp)
  have "gca_coalesce_prev a8 ?e = Inr (?e, a8)"
    by (rule gca_prev_used [OF st8]) (simp_all add: hp h)
  then have run: "gca_sbrk_new_block a n = Inr (?e, a8)" using g(2) [OF True] a8(1) by simp
  have st9: "gca_st a8 (us @ (s, False) # (?P - 16, True) # []) (?e # fl) {}" using st8 by simp
  have h9: "h = g_end (heap a8) us" using h hp by simp
  obtain a9 where a9: "gca_coalesce_next a8 h = Inr (True, a9)" "gca_st a9 (us @ (s + (?P - 16) + 16, False) # []) (remove1 ?e (?e # fl)) {}"
    "framed (- g_used (heap a8) (us @ (s, False) # (?P - 16, True) # [])) a8 a9" "alloc_errno a9 = alloc_errno a8"
    using gca_coalesce_yes [OF st9 h9] by auto
  have sum: "s + (?P - 16) + 16 = s + ?P" using page_up_facts(1) [of n] by simp
  have "framed (- g_used (heap a) (us @ [(s, False)])) a8 a9" using a9(3) by (simp add: hp)
  then have f9: "framed (- g_used (heap a) (us @ [(s, False)])) a a9" by (rule framed_chain [OF f8])
  have "resized a a9 us s [] (s + ?P) [] fl"
    using a9(2,4) a8(4) g(6) f9 na unfolding sum by (simp add: resized_def no_adj_append h [symmetric])
  moreover have "s + n \<le> s + ?P" using page_up_facts(1) [of n] by simp
  moreover have "?e \<noteq> NULL" by simp
  ultimately show ?thesis using run a9(1) by blast
qed

lemma gca_heap_ok_mutex: "gca_heap_ok a M bs fl \<Longrightarrow> lock_good l \<Longrightarrow> gca_heap_ok (a\<lparr>mutex := l\<rparr>) M bs fl"
  by (simp add: gca_heap_ok_def gca_ok_def)

lemma gca_heap_ok_good: "gca_heap_ok a M bs fl \<Longrightarrow> lock_good (mutex a)"
  by (simp add: gca_heap_ok_def gca_ok_def)

lemma gca_finish:
  assumes "gca_heap_ok a M bs fl" and "lk_mode (mutex a) = Locked 1"
  shows "\<exists>l. unlock_return a x y = Inr (x, a\<lparr>mutex := l\<rparr>) \<and> gca_run_ok (a\<lparr>mutex := l\<rparr>) M bs fl"
  using unlock_inner [OF gca_heap_ok_good [OF assms(1)] assms(2), of x y] gca_heap_ok_mutex [OF assms(1)]
  by (auto simp: gca_run_ok_def)

section \<open>Moving a block\<close>

lemma gca_realloc_move_ok:
  assumes ok: "gca_heap_ok a M bs fl" and l: "lk_mode (mutex a) = Locked 1" and p: "M p = Some m" "m \<le> s"
    and ps: "heap a \<le> p" "p + s \<le> heap a + heap_size a" and sz: "s < sz" "sz + 8208 \<le> 2 ^ 64" and hp: "heap a \<noteq> MAP_FAILED"
  shows "\<exists>q a' bs' fl'. gca_realloc_move a p sz s = Inr (q, a') \<and> gca_run_ok a' (if q = NULL then M else (M(p := None))(q \<mapsto> sz)) bs' fl'
    \<and> same_blocks (M(p := None)) (bytes_at a) (bytes_at a') \<and> (q = NULL \<longrightarrow> same_blocks M (bytes_at a) (bytes_at a'))
    \<and> (q \<noteq> NULL \<longrightarrow> (\<forall>i < m. bytes_at a' (q + i) = bytes_at a (p + i))) \<and> (q \<noteq> NULL \<longrightarrow> q \<notin> dom M) \<and> heap a' = heap a \<and> heap_size a' = heap_size a"
proof -
  obtain q a1 bs1 fl1 where m1: "gca_malloc a sz = Inr (q, a1)" "gca_heap_ok a1 (if q = NULL then M else M(q \<mapsto> sz)) bs1 fl1"
    "mutex a1 = mutex a \<or> mutex a1 = cycled (mutex a)" "heap a1 = heap a" "heap_size a1 = heap_size a"
    "same_blocks M (bytes_at a) (bytes_at a1)" "q \<noteq> NULL \<longrightarrow> q \<notin> dom M"
    using gca_heap_malloc [OF ok sz(2)] by blast
  have l1: "lk_mode (mutex a1) = Locked 1" using m1(3) l cycled_inner by auto
  have sub: "same_blocks (M(p := None)) f g" if "same_blocks M f g" for f g
    using that unfolding same_blocks_def by (auto split: if_splits)
  show ?thesis
  proof (cases "q = NULL")
    case True
    then have ok1: "gca_heap_ok a1 M bs1 fl1" using m1(2) by simp
    obtain l where "unlock_return a1 q NULL = Inr (q, a1\<lparr>mutex := l\<rparr>)" "gca_run_ok (a1\<lparr>mutex := l\<rparr>) M bs1 fl1"
      using gca_finish [OF ok1 l1, of q NULL] by (elim exE conjE)
    then show ?thesis using True m1(1,4-6) sub [OF m1(6)]
      by (intro exI [of _ NULL] exI [of _ "a1\<lparr>mutex := l\<rparr>"] exI [of _ bs1] exI [of _ fl1]) (simp add: gca_realloc_move_def)
  next
    case False
    then have ok1: "gca_heap_ok a1 (M(q \<mapsto> sz)) bs1 fl1" and qM: "q \<notin> dom M" using m1(2,7) by simp_all
    have qr: "heap a1 + 16 \<le> q" "q + sz + 16 \<le> heap a1 + heap_size a1" using gca_heap_separate(2) [OF ok1, of q sz] by simp_all
    let ?f = "\<lambda>x. if q \<le> x \<and> x < q + s then bytes_at a1 (p + (x - q)) else bytes_at a1 x"
    let ?a2 = "a1\<lparr>bytes_at := ?f\<rparr>"
    have "heap a1 \<noteq> MAP_FAILED" unfolding m1(4) by (rule hp)
    moreover have "heap a1 \<le> p" "p + s \<le> heap a1 + heap_size a1" unfolding m1(4,5) by (rule ps)+
    moreover have "heap a1 \<le> q" using qr(1) by (rule add_leD1)
    moreover have "q + s \<le> heap a1 + heap_size a1" using qr(2) sz(1) by linarith
    ultimately have "in_heap a1 q s" "in_heap a1 p s" by (simp_all only: in_heap_def simp_thms)
    then have cp: "heap_memcpy a1 q p s = Inr ?a2" by (simp only: heap_memcpy_def simp_thms if_True)
    have st1: "gca_st a1 bs1 fl1 {}" and t1: "tracked (block_used 16 (heap a1) bs1) (M(q \<mapsto> sz))" and g1: "gca_ok a1 bs1 fl1"
      using ok1 by (simp_all add: gca_heap_ok_def gca_ok_def)
    have "gca_st ?a2 bs1 fl1 {}"
    proof (rule gca_write_set [OF st1])
      fix y assume "?f y \<noteq> bytes_at a1 y"
      then have "q \<le> y" "y < q + sz" using sz(1) by (auto split: if_splits)
      then show "y \<in> g_used (heap a1) bs1" unfolding used_bytes_set by (intro tracked_bytes [OF t1, of q sz]) simp_all
    qed
    then have ok2: "gca_heap_ok ?a2 (M(q \<mapsto> sz)) bs1 fl1" using g1 t1 by (simp add: gca_heap_ok_def gca_ok_def)
    have pq: "p \<noteq> q" using p(1) qM by auto
    then have pd: "p \<in> dom (M(q \<mapsto> sz))" using p(1) by auto
    obtain a3 bs3 fl3 where f3: "gca_free ?a2 p = Inr (0, a3)" "gca_heap_ok a3 ((M(q \<mapsto> sz))(p := None)) bs3 fl3"
      "mutex a3 = cycled (mutex ?a2)" "heap a3 = heap ?a2" "heap_size a3 = heap_size ?a2"
      "same_blocks ((M(q \<mapsto> sz))(p := None)) (bytes_at ?a2) (bytes_at a3)"
      using gca_heap_free [OF ok2 pd] by blast
    have Me: "(M(q \<mapsto> sz))(p := None) = (M(p := None))(q \<mapsto> sz)" using pq by (simp add: fun_upd_twist)
    have l3: "lk_mode (mutex a3) = Locked 1" using f3(3) cycled_inner l1 by simp
    obtain l where u: "unlock_return a3 q NULL = Inr (q, a3\<lparr>mutex := l\<rparr>)" "gca_run_ok (a3\<lparr>mutex := l\<rparr>) ((M(p := None))(q \<mapsto> sz)) bs3 fl3"
      using gca_finish [OF f3(2) l3, of q NULL] unfolding Me by (elim exE conjE)
    have run: "gca_realloc_move a p sz s = Inr (q, a3\<lparr>mutex := l\<rparr>)"
      using False m1(1) cp f3(1) u(1) by (simp add: gca_realloc_move_def)
    have sep: "separate (M(q \<mapsto> sz))" using gca_heap_separate(1) [OF ok1] .
    have old: "bytes_at a3 y = bytes_at a y" if "(M(p := None)) r = Some k" "r \<le> y" "y < r + k" for r k y
    proof -
      have r: "r \<noteq> p" "M r = Some k" using that(1) by (auto split: if_splits)
      then have rq: "r \<noteq> q" using qM by auto
      have "r + k \<le> q \<or> q + sz \<le> r" using sep r(2) rq unfolding separate_def by (metis fun_upd_other fun_upd_same)
      then have "?f y = bytes_at a1 y" using that(2,3) sz(1) by auto
      moreover have "bytes_at a3 y = bytes_at ?a2 y"
        by (rule same_blocksD [OF f3(6) _ that(2,3)]) (use r rq in simp)
      moreover have "bytes_at a1 y = bytes_at a y" by (rule same_blocksD [OF m1(6) r(2) that(2,3)])
      ultimately show ?thesis by simp
    qed
    have new: "bytes_at a3 (q + i) = bytes_at a (p + i)" if "i < m" for i
    proof -
      have i: "i < s" "i < sz" using that p(2) sz(1) by simp_all
      have "((M(q \<mapsto> sz))(p := None)) q = Some sz" using pq by simp
      from same_blocksD [OF f3(6) this, of "q + i"] have "bytes_at a3 (q + i) = ?f (q + i)" using i(2) by simp
      also have "\<dots> = bytes_at a1 (p + i)" using i(1) by simp
      also have "\<dots> = bytes_at a (p + i)" using same_blocksD [OF m1(6) p(1), of "p + i"] that by simp
      finally show ?thesis .
    qed
    show ?thesis
      using run u(2) old new False qM f3(4,5) m1(4,5)
      by (intro exI [of _ q] exI [of _ "a3\<lparr>mutex := l\<rparr>"] exI [of _ bs3] exI [of _ fl3]) (simp add: same_blocks_def)
  qed
qed

section \<open>Reallocation\<close>

lemma resized_heap_ok:
  assumes ok: "gca_heap_ok a M (us @ (s, False) # ws) fl" and p: "M p = Some m" "p = g_end (heap a) us + 16"
    and r: "resized a a' us s ws k ws' fl'" and n: "n \<le> k"
  shows "gca_heap_ok a' (M(p \<mapsto> n)) (us @ (k, False) # ws') fl'" "same_blocks (M(p := None)) (bytes_at a) (bytes_at a')"
    "i < min m k \<Longrightarrow> bytes_at a' (p + i) = bytes_at a (p + i)" "mutex a' = mutex a" "heap a' = heap a" "heap_size a' = heap_size a"
proof -
  let ?h = "g_end (heap a) us" and ?R = "block_used 16 (heap a) (us @ (s, True) # ws)"
  have g: "gca_ok a (us @ (s, False) # ws) fl" and t: "tracked (block_used 16 (heap a) (us @ (s, False) # ws)) M"
    using ok by (simp_all add: gca_heap_ok_def)
  let ?K = "g_used (heap a) us \<union> payload ?h (min s k) \<union> g_used (?h + s + 16) ws"
  have fr: "framed (- ?K) a a'" using r by (simp add: resized_def)
  note f = framedD [OF fr]
  show "mutex a' = mutex a" "heap a' = heap a" "heap_size a' = heap_size a" by (fact f)+
  have u: "block_used 16 (heap a) (us @ (s, False) # ws) = insert (?h, s) ?R" by auto
  have nb: "(?h, k') \<notin> ?R" for k' by (rule g_not_used [OF refl])
  have td: "tracked ?R (M(p := None))" unfolding p(2) by (rule tracked_drop [OF t [unfolded u] nb])
  have "tracked (insert (?h, k) ?R) ((M(p := None))(?h + 16 \<mapsto> n))" by (rule tracked_add [OF td nb n])
  then have tn: "tracked (insert (?h, k) ?R) (M(p \<mapsto> n))" by (simp add: p(2))
  have u': "block_used 16 (heap a') (us @ (k, False) # ws') = insert (?h, k) ?R"
    using r f(2) by (auto simp: resized_def)
  have "gca_ok a' (us @ (k, False) # ws') fl'" using r g f(1) by (simp add: gca_ok_def resized_def)
  then show "gca_heap_ok a' (M(p \<mapsto> n)) (us @ (k, False) # ws') fl'" using tn unfolding gca_heap_ok_def u' by simp
  have keep: "bytes_at a' y = bytes_at a y" if "y \<in> ?K" for y using f(5) [of y] that by blast
  show "same_blocks (M(p := None)) (bytes_at a) (bytes_at a')"
    unfolding same_blocks_def
  proof (intro allI impI)
    fix q j y assume q: "(M(p := None)) q = Some j" "q \<le> y" "y < q + j"
    have "y \<in> (\<Union>(x, s) \<in> ?R. payload x s)" by (rule tracked_bytes [OF td q])
    then show "bytes_at a' y = bytes_at a y" by (intro keep) (auto simp: used_bytes_set)
  qed
  assume i: "i < min m k"
  obtain x s' where x: "p = x + 16" "(x, s') \<in> insert (?h, s) ?R" "m \<le> s'" using trackedD(1) [OF t p(1)] unfolding u by blast
  then have "s' = s" using nb p(2) by auto
  then have "m \<le> s" using x(3) by simp
  then show "bytes_at a' (p + i) = bytes_at a (p + i)" using i by (intro keep) (auto simp: payload_def p(2))
qed

text \<open>What \<open>gca_realloc\<close> promises of a block of \<open>m\<close> bytes.\<close>

definition realloc_post ::
  "GlibcAllocator \<Rightarrow> (addr \<Rightarrow> nat option) \<Rightarrow> addr \<Rightarrow> nat \<Rightarrow> nat \<Rightarrow> addr \<Rightarrow> GlibcAllocator \<Rightarrow> bool" where
  "realloc_post a M p m sz q a' \<longleftrightarrow> (\<exists>bs fl. gca_run_ok a' (if q = NULL then M else (M(p := None))(q \<mapsto> sz)) bs fl)
     \<and> same_blocks (M(p := None)) (bytes_at a) (bytes_at a') \<and> (q = NULL \<longrightarrow> same_blocks M (bytes_at a) (bytes_at a'))
     \<and> (q \<noteq> NULL \<longrightarrow> (\<forall>i < min m sz. bytes_at a' (q + i) = bytes_at a (p + i))) \<and> (q \<noteq> NULL \<longrightarrow> q = p \<or> q \<notin> dom M)
     \<and> heap a' = heap a \<and> heap_size a' = heap_size a"

lemma realloc_in_place:
  assumes ok: "gca_heap_ok a M (us @ (s, False) # ws) fl" and l: "lk_mode (mutex a) = Locked 1"
    and p: "M p = Some m" "p = g_end (heap a) us + 16" and r: "resized a a' us s ws k ws' fl'" and n: "sz \<le> k"
  shows "\<exists>a2. unlock_return a' p NULL = Inr (p, a2) \<and> realloc_post a M p m sz p a2"
proof -
  note h = resized_heap_ok [OF ok p r n]
  have l': "lk_mode (mutex a') = Locked 1" using h(4) l by simp
  obtain l where u: "unlock_return a' p NULL = Inr (p, a'\<lparr>mutex := l\<rparr>)" "gca_run_ok (a'\<lparr>mutex := l\<rparr>) (M(p \<mapsto> sz)) (us @ (k, False) # ws') fl'"
    using gca_finish [OF h(1) l', of p NULL] by (elim exE conjE)
  have "\<exists>bs fl. gca_run_ok (a'\<lparr>mutex := l\<rparr>) (if p = NULL then M else (M(p := None))(p \<mapsto> sz)) bs fl"
    using u(2) p(2) by auto
  moreover have "\<forall>i < min m sz. bytes_at (a'\<lparr>mutex := l\<rparr>) (p + i) = bytes_at a (p + i)" using h(3) n by simp
  ultimately have "realloc_post a M p m sz p (a'\<lparr>mutex := l\<rparr>)" using h(2,5,6) p(2) by (simp add: realloc_post_def)
  with u(1) show ?thesis by blast
qed

lemma realloc_moving:
  assumes ok: "gca_heap_ok a M (us @ (s, False) # ws) fl" and l: "lk_mode (mutex a) = Locked 1"
    and p: "M p = Some m" "p = g_end (heap a) us + 16" and r: "resized a a1 us s ws k ws' fl'" and k: "s \<le> k"
    and sz: "s < sz" "sz + 8208 \<le> 2 ^ 64" and v: "ws @ [(0, False)] = (t, g) # vs"
  shows "\<exists>q a2. gca_realloc_move a1 p sz s = Inr (q, a2) \<and> realloc_post a M p m sz q a2"
proof -
  have ms: "m \<le> s" using gca_heap_live [OF ok p(1)] trackedD(1) [of _ M p m] ok p
  proof -
    have t: "tracked (block_used 16 (heap a) (us @ (s, False) # ws)) M" using ok by (simp add: gca_heap_ok_def)
    obtain x s' where x: "p = x + 16" "(x, s') \<in> block_used 16 (heap a) (us @ (s, False) # ws)" "m \<le> s'" using trackedD(1) [OF t p(1)] by blast
    then have "(x, s') \<in> insert (g_end (heap a) us, s) (block_used 16 (heap a) (us @ (s, True) # ws))" by auto
    moreover have "(g_end (heap a) us, s') \<notin> block_used 16 (heap a) (us @ (s, True) # ws)" by (rule g_not_used [OF refl])
    ultimately have "s' = s" using x(1) p(2) by auto
    then show "m \<le> s" using x(3) by simp
  qed
  have st: "gca_st a (us @ (s, False) # ws) fl {}" using ok by (simp add: gca_heap_ok_def gca_ok_def)
  note b = gca_block [OF st refl v]
  have mk: "m \<le> k" using ms k by simp
  note h = resized_heap_ok [OF ok p r mk]
  have Mm: "M(p \<mapsto> m) = M" using p(1) by auto
  have keep: "same_blocks M (bytes_at a) (bytes_at a1)"
    unfolding same_blocks_def
  proof (intro allI impI)
    fix q j y assume q: "M q = Some j" "q \<le> y" "y < q + j"
    show "bytes_at a1 y = bytes_at a y"
    proof (cases "q = p")
      case True
      then show ?thesis using h(3) [of "y - p"] q p(1) mk by auto
    next
      case False
      then show ?thesis using same_blocksD [OF h(2) _ q(2,3)] q(1) by simp
    qed
  qed
  have l1: "lk_mode (mutex a1) = Locked 1" using h(4) l by simp
  have ok1: "gca_heap_ok a1 M (us @ (k, False) # ws') fl'" using h(1) unfolding Mm .
  have r1: "heap a1 \<le> p" "p + s \<le> heap a1 + heap_size a1" using b(1,5) unfolding h(5,6) p(2) by simp_all
  have mf: "heap a1 \<noteq> MAP_FAILED" using gca_regionD(3) [OF gca_stD(1) [OF st]] unfolding h(5) by simp
  obtain q a2 bs2 fl2 where q: "gca_realloc_move a1 p sz s = Inr (q, a2)"
    "gca_run_ok a2 (if q = NULL then M else (M(p := None))(q \<mapsto> sz)) bs2 fl2"
    "same_blocks (M(p := None)) (bytes_at a1) (bytes_at a2)" "q = NULL \<longrightarrow> same_blocks M (bytes_at a1) (bytes_at a2)"
    "q \<noteq> NULL \<longrightarrow> (\<forall>i < m. bytes_at a2 (q + i) = bytes_at a1 (p + i))" "q \<noteq> NULL \<longrightarrow> q \<notin> dom M"
    "heap a2 = heap a1" "heap_size a2 = heap_size a1"
    using gca_realloc_move_ok [OF ok1 l1 p(1) ms r1 sz mf] by (elim exE conjE)
  have "bytes_at a1 (p + i) = bytes_at a (p + i)" if "i < m" for i using same_blocksD [OF keep p(1), of "p + i"] that by simp
  moreover have trans: "same_blocks N (bytes_at a) (bytes_at a2)" if "same_blocks N (bytes_at a) (bytes_at a1)" "same_blocks N (bytes_at a1) (bytes_at a2)" for N
    using that unfolding same_blocks_def by metis
  moreover have "\<exists>bs fl. gca_run_ok a2 (if q = NULL then M else (M(p := None))(q \<mapsto> sz)) bs fl" using q(2) by (intro exI)
  ultimately have "realloc_post a M p m sz q a2"
    using q(5-8) trans [OF h(2) q(3)] trans [OF keep] q(4) h(5,6) by (simp add: realloc_post_def)
  with q(1) show ?thesis by blast
qed

theorem gca_realloc_spec:
  assumes ok: "gca_run_ok a M bs fl" and p: "M p = Some m" and sz: "0 < sz" "sz + 8208 \<le> 2 ^ 64"
  shows "\<exists>q a'. gca_realloc a p sz = Inr (q, a') \<and> realloc_post a M p m sz q a'"
proof -
  have ok1: "gca_heap_ok a M bs fl" and l: "lk_mode (mutex a) = Unlocked" using ok by (simp_all add: gca_run_ok_def)
  note g = gca_heap_ok_good [OF ok1]
  obtain us s ws where b: "bs = us @ (s, False) # ws" "p = g_end (heap a) us + 16" "m \<le> s" using gca_heap_live [OF ok1 p] by blast
  let ?a = "held a" and ?h = "g_end (heap a) us"
  have in1: "lock_good (mutex ?a)" "lk_mode (mutex ?a) = Locked 1" using held_inner [OF g l] by simp_all
  have okh: "gca_heap_ok ?a M (us @ (s, False) # ws) fl" using ok1 in1(1) by (simp add: gca_heap_ok_def gca_ok_def b(1))
  then have st: "gca_st ?a (us @ (s, False) # ws) fl {}" and na: "no_adj False (us @ (s, False) # ws)"
    by (simp_all add: gca_heap_ok_def gca_ok_def)
  have h: "?h = g_end (heap ?a) us" by simp
  obtain t k vs where v: "ws @ [(0, False)] = (t, k) # vs" by (cases "ws @ [(0, False)]") auto
  note bl = gca_block [OF st h v]
  let ?n = "g_round sz"
  note n = g_round_facts [of sz]
  have n16: "16 dvd ?n" "16 \<le> ?n" "?n + 8192 \<le> 2 ^ 64" using n sz by simp_all
  have post: "realloc_post ?a M p m sz q a' = realloc_post a M p m sz q a'" for q a' by (simp add: realloc_post_def)
  have ph: "p = g_end (heap ?a) us + 16" using b(2) by simp
  have rnd: "gca_round_up sz GCA_DATA_ALIGN = ?n"
    using gca_round_up_ok [of 4 sz] sz by (simp add: gca_consts g_round_def)
  have d: "gca_data_to_header p = ?h" using bl(6) by (simp add: gca_data_to_header_def gca_consts usize_sub_le b(2))
  have c1: "curr_info ?h = ?h + 8" using bl(6) by (simp add: curr_info_def)
  have mp: "mapped ?a (?h + 8)" using bl(1) by (intro bl(12)) simp_all
  have os: "gca_size ?a (curr_info ?h) = Inr s" unfolding c1 gca_info_ops(1) [OF mp] bl(9) by simp
  have nz: "(heap a = NULL \<or> sz = 0) = False" "(0 = - (1 :: int)) = False" "(p = NULL) = False"
    using gca_regionD(1) [OF gca_stD(1) [OF st]] sz(1) b(2) by simp_all
  have start: "gca_realloc a p sz = (if ?n \<le> s then rbind (gca_split_block ?a ?h ?n) (\<lambda>(_, a1). unlock_return a1 p NULL)
      else rbind (gca_coalesce_next ?a ?h) (\<lambda>(merged, a1). rbind (gca_size a1 (curr_info ?h)) (\<lambda>size1.
        if merged \<and> ?n \<le> size1 then rbind (gca_split_block a1 ?h ?n) (\<lambda>(_, a2). unlock_return a2 p NULL)
        else rbind (gca_next a1 ?h) (\<lambda>x. rbind (gca_is_sentinel a1 (curr_info x)) (\<lambda>last.
          if last then rbind (gca_sbrk_new_block a1 (usize_sub ?n size1)) (\<lambda>(next_alloc, a2).
            if next_alloc \<noteq> NULL then rbind (gca_coalesce_next a2 ?h) (\<lambda>(_, a3).
              rbind (gca_split_block a3 ?h ?n) (\<lambda>(_, a4). unlock_return a4 p NULL))
            else gca_realloc_move a2 p sz s)
          else gca_realloc_move a1 p sz s)))))"
    unfolding gca_realloc_def nz if_False lock_held [OF g] prod.case Let_def rnd d os rbind_Inr ..
  show ?thesis
  proof (cases "?n \<le> s")
    case True
    obtain x a1 j ws1 fl1 where r: "gca_split_block ?a ?h ?n = Inr (x, a1)" "?n \<le> j" "resized ?a a1 us s ws j ws1 fl1"
      using gca_shrink [OF st na h n16(1,2) True] by blast
    have "sz \<le> j" using r(2) n(1) by simp
    from realloc_in_place [OF okh in1(2) p ph r(3) this] obtain a2 where "unlock_return a1 p NULL = Inr (p, a2)" "realloc_post ?a M p m sz p a2"
      by blast
    then show ?thesis using start True r(1) post by auto
  next
    case False
    obtain c a1 j ws1 fl1 where r: "gca_coalesce_next ?a ?h = Inr (c, a1)" "s \<le> j" "\<not> c \<longrightarrow> j = s" "resized ?a a1 us s ws j ws1 fl1"
      "\<exists>t vs. ws1 @ [(0, False)] = (t, False) # vs"
      using gca_grow_next [OF st na h] by blast
    have st1: "gca_st a1 (us @ (j, False) # ws1) fl1 {}" and na1: "no_adj False (us @ (j, False) # ws1)" and hp1: "heap a1 = heap a"
      using r(4) by (auto simp: resized_def framed_def)
    have h1: "?h = g_end (heap a1) us" by (simp add: hp1)
    obtain t1 vs1 where v1: "ws1 @ [(0, False)] = (t1, False) # vs1" using r(5) by blast
    note b1 = gca_block [OF st1 h1 v1]
    have mp1: "mapped a1 (?h + 8)" "mapped a1 (?h + j + 24)" using b1(1) by (intro b1(12); simp)+
    have s1: "gca_size a1 (curr_info ?h) = Inr j" unfolding c1 gca_info_ops(1) [OF mp1(1)] b1(9) by simp
    have nx: "gca_next a1 ?h = Inr (?h + j + 16)" by (rule gca_next_ok [OF mp1(1) b1(9,6)])
    have sn: "gca_is_sentinel a1 (curr_info (?h + j + 16)) = Inr (t1 = 0)"
      unfolding gca_addresses(2) [OF b1(6)] gca_info_ops(6) [OF mp1(2)] b1(11) by simp
    have cn: "(c \<and> ?n \<le> j) = (?n \<le> j)" using r(3) False by auto
    note start2 = start [unfolded r(1) rbind_Inr prod.case s1 cn nx sn]
    have nsz: "s < sz"
    proof -
      obtain q r where "?n = 16 * q" "s = 16 * r" using n16(1) bl(4) by (elim dvdE)
      then have "s + 16 \<le> ?n" using False by simp
      moreover have "?n < sz + 16" by (simp add: g_round_def)
      ultimately show ?thesis by simp
    qed
    show ?thesis
    proof (cases "?n \<le> j")
      case True
      obtain x a2 j2 ws2 fl2 where r2: "gca_split_block a1 ?h ?n = Inr (x, a2)" "?n \<le> j2" "j2 \<le> j" "resized a1 a2 us j ws1 j2 ws2 fl2"
        using gca_shrink [OF st1 na1 h1 n16(1,2) True] by blast
      have rr: "resized ?a a2 us s ws j2 ws2 fl2" by (rule resized_trans [OF r(4) r2(4)]) (use r(2) in simp)
      have "sz \<le> j2" using r2(2) n(1) by simp
      from realloc_in_place [OF okh in1(2) p ph rr this] obtain a3 where "unlock_return a2 p NULL = Inr (p, a3)" "realloc_post ?a M p m sz p a3"
        by blast
      then show ?thesis using start2 False True r2(1) post by auto
    next
      case nj: False
      obtain q a2 where mv: "gca_realloc_move a1 p sz s = Inr (q, a2)" "realloc_post ?a M p m sz q a2"
        using realloc_moving [OF okh in1(2) p ph r(4,2) nsz sz(2) v] by blast
      show ?thesis
      proof (cases "t1 = 0")
        case False
        then show ?thesis using start2 \<open>\<not> ?n \<le> s\<close> nj mv post by auto
      next
        case True
        have w: "ws1 = []" using v1 True gca_regionD(4) [OF gca_stD(1) [OF st1]] by (cases ws1) auto
        have sub: "usize_sub ?n j = ?n - j" using nj n16(3) by (simp add: usize_sub_le)
        have k16: "16 dvd ?n - j" "16 \<le> ?n - j" "(?n - j) + 8192 \<le> 2 ^ 64"
        proof -
          show d16: "16 dvd ?n - j" using n16(1) b1(4) by (rule dvd_diff_nat)
          show "16 \<le> ?n - j" using nj by (intro dvd_imp_le [OF d16]) simp
          show "(?n - j) + 8192 \<le> 2 ^ 64" using n16(3) by simp
        qed
        from gca_grow_last [OF st1 [unfolded w] na1 [unfolded w] h1 k16] show ?thesis
        proof (rule disjE, goal_cases)
          case 1
          then show ?thesis using start2 \<open>\<not> ?n \<le> s\<close> nj mv post True sub by auto
        next
          case 2
          then obtain y a3 a4 j4 fl4 where x: "gca_sbrk_new_block a1 (?n - j) = Inr (y, a3)" "y \<noteq> NULL"
            "gca_coalesce_next a3 ?h = Inr (True, a4)" "j + (?n - j) \<le> j4" "resized a1 a4 us j [] j4 [] fl4"
            by blast
          have st4: "gca_st a4 (us @ (j4, False) # []) fl4 {}" and na4: "no_adj False (us @ (j4, False) # [])" and hp4: "heap a4 = heap a1"
            using x(5) by (auto simp: resized_def framed_def)
          have h4: "?h = g_end (heap a4) us" by (simp add: hp4 hp1)
          have nj4: "?n \<le> j4" using x(4) nj by simp
          obtain z a5 j5 ws5 fl5 where r5: "gca_split_block a4 ?h ?n = Inr (z, a5)" "?n \<le> j5" "j5 \<le> j4" "resized a4 a5 us j4 [] j5 ws5 fl5"
            using gca_shrink [OF st4 na4 h4 n16(1,2) nj4] by blast
          have r14: "resized a1 a5 us j ws1 j5 ws5 fl5"
            unfolding w by (rule resized_trans [OF x(5) r5(4)]) (use x(4) in simp)
          have rr: "resized ?a a5 us s ws j5 ws5 fl5" by (rule resized_trans [OF r(4) r14]) (use r(2) in simp)
          have "sz \<le> j5" using r5(2) n(1) by simp
          from realloc_in_place [OF okh in1(2) p ph rr this] obtain a6 where "unlock_return a5 p NULL = Inr (p, a6)" "realloc_post ?a M p m sz p a6"
            by blast
          then show ?thesis using start2 \<open>\<not> ?n \<le> s\<close> nj True sub x(1-3) r5(1) post by auto
        qed
      qed
    qed
  qed
qed

text \<open>Reallocating \<open>NULL\<close> is an allocation; a size of 0 does nothing.\<close>

lemma gca_realloc_null:
  assumes ok: "gca_run_ok a M bs fl" and sz: "0 < sz" "sz + 8208 \<le> 2 ^ 64"
  shows "\<exists>q a' bs' fl'. gca_realloc a NULL sz = Inr (q, a') \<and> gca_run_ok a' (if q = NULL then M else M(q \<mapsto> sz)) bs' fl'
    \<and> same_blocks M (bytes_at a) (bytes_at a') \<and> (q \<noteq> NULL \<longrightarrow> q \<notin> dom M)"
proof -
  have ok1: "gca_heap_ok a M bs fl" and l: "lk_mode (mutex a) = Unlocked" using ok by (simp_all add: gca_run_ok_def)
  note g = gca_heap_ok_good [OF ok1]
  have in1: "lock_good (mutex (held a))" "lk_mode (mutex (held a)) = Locked 1" using held_inner [OF g l] by simp_all
  have okh: "gca_heap_ok (held a) M bs fl" using ok1 in1(1) by (simp add: gca_heap_ok_def gca_ok_def)
  have hp: "heap a \<noteq> NULL" using gca_regionD(1) [OF gca_stD(1)] ok1 by (simp add: gca_heap_ok_def gca_ok_def) blast
  obtain q a1 bs1 fl1 where m: "gca_malloc (held a) sz = Inr (q, a1)" "gca_heap_ok a1 (if q = NULL then M else M(q \<mapsto> sz)) bs1 fl1"
    "mutex a1 = mutex (held a) \<or> mutex a1 = cycled (mutex (held a))" "same_blocks M (bytes_at (held a)) (bytes_at a1)" "q \<noteq> NULL \<longrightarrow> q \<notin> dom M"
    using gca_heap_malloc [OF okh sz(2)] by blast
  have l1: "lk_mode (mutex a1) = Locked 1" using m(3) in1(2) cycled_inner by auto
  obtain k where u: "unlock_return a1 q NULL = Inr (q, a1\<lparr>mutex := k\<rparr>)"
    "gca_run_ok (a1\<lparr>mutex := k\<rparr>) (if q = NULL then M else M(q \<mapsto> sz)) bs1 fl1"
    using gca_finish [OF m(2) l1, of q NULL] by (elim exE conjE)
  have "gca_realloc a NULL sz = Inr (q, a1\<lparr>mutex := k\<rparr>)"
    using hp sz(1) m(1) u(1) by (simp add: gca_realloc_def lock_held [OF g])
  with u(2) m(4,5) show ?thesis by (intro exI [of _ q] exI [of _ "a1\<lparr>mutex := k\<rparr>"] exI [of _ bs1] exI [of _ fl1]) simp
qed

lemma gca_realloc_zero: "gca_realloc a p 0 = Inr (NULL, a)"
  by (simp add: gca_realloc_def)

section \<open>Cleared memory\<close>

lemma calloc_reject: "heap a \<noteq> NULL \<Longrightarrow> num * sz = 0 \<or> 2 ^ 64 \<le> num * sz \<Longrightarrow> gca_calloc a num sz = Inr (NULL, a)"
proof -
  assume h: "heap a \<noteq> NULL" "num * sz = 0 \<or> 2 ^ 64 \<le> num * sz"
  have "num * sz \<le> 2 ^ 64 - 1" if "num \<le> (2 ^ 64 - 1) div sz"
    using mult_le_mono1 [OF that, of sz] div_times_less_eq_dividend [of "2 ^ 64 - 1" sz] by linarith
  then have "sz = 0 \<or> num = 0 \<or> (2 ^ 64 - 1) div sz < num" using h(2) by fastforce
  then show ?thesis by (auto simp: gca_calloc_def)
qed

lemma calloc_accept: "0 < num * sz \<Longrightarrow> num * sz < 2 ^ 64 \<Longrightarrow> \<not> (2 ^ 64 - 1) div sz < num" for num sz :: nat
  by (simp add: less_eq_div_iff_mult_less_eq not_less)

lemma clear_block:
  assumes ok: "gca_heap_ok a (M(p \<mapsto> n)) bs fl" and l: "lk_mode (mutex a) = Locked 1" and pM: "p \<notin> dom M"
  shows "\<exists>a1 a2. heap_memset a p 0 n = Inr a1 \<and> unlock_return a1 p NULL = Inr (p, a2) \<and> gca_run_ok a2 (M(p \<mapsto> n)) bs fl
    \<and> same_blocks M (bytes_at a) (bytes_at a2) \<and> (\<forall>i < n. bytes_at a2 (p + i) = 0)"
proof -
  have st: "gca_st a bs fl {}" and t: "tracked (block_used 16 (heap a) bs) (M(p \<mapsto> n))" and g1: "gca_ok a bs fl"
    using ok by (simp_all add: gca_heap_ok_def gca_ok_def)
  have r: "heap a + 16 \<le> p" "p + n + 16 \<le> heap a + heap_size a" using gca_heap_separate(2) [OF ok, of p n] by simp_all
  let ?f = "\<lambda>x. if p \<le> x \<and> x < p + n then 0 mod 256 else bytes_at a x"
  have ih: "in_heap a p n" using r gca_regionD(3) [OF gca_stD(1) [OF st]] by (simp add: in_heap_def)
  have ms: "heap_memset a p 0 n = Inr (a\<lparr>bytes_at := ?f\<rparr>)" using ih by (simp add: heap_memset_def)
  have "gca_st (a\<lparr>bytes_at := ?f\<rparr>) bs fl {}"
  proof (rule gca_write_set [OF st])
    fix y assume "?f y \<noteq> bytes_at a y"
    then have "p \<le> y" "y < p + n" by (auto split: if_splits)
    then show "y \<in> g_used (heap a) bs" unfolding used_bytes_set by (intro tracked_bytes [OF t, of p n]) simp_all
  qed
  then have ok3: "gca_heap_ok (a\<lparr>bytes_at := ?f\<rparr>) (M(p \<mapsto> n)) bs fl" using g1 t by (simp add: gca_heap_ok_def gca_ok_def)
  have l3: "lk_mode (mutex (a\<lparr>bytes_at := ?f\<rparr>)) = Locked 1" using l by simp
  obtain k where u: "unlock_return (a\<lparr>bytes_at := ?f\<rparr>) p NULL = Inr (p, a\<lparr>bytes_at := ?f, mutex := k\<rparr>)"
    "gca_run_ok (a\<lparr>bytes_at := ?f, mutex := k\<rparr>) (M(p \<mapsto> n)) bs fl"
    using gca_finish [OF ok3 l3, of p NULL] by (elim exE conjE)
  have sep: "separate (M(p \<mapsto> n))" using gca_heap_separate(1) [OF ok] .
  have keep: "same_blocks M (bytes_at a) ?f"
    unfolding same_blocks_def
  proof (intro allI impI)
    fix q j y assume q: "M q = Some j" "q \<le> y" "y < q + j"
    then have "q \<noteq> p" using pM by auto
    then have "q + j \<le> p \<or> p + n \<le> q" using sep q(1) unfolding separate_def by (metis fun_upd_other fun_upd_same)
    then show "?f y = bytes_at a y" using q(2,3) by auto
  qed
  show ?thesis using ms u keep
    by (intro exI [of _ "a\<lparr>bytes_at := ?f\<rparr>"] exI [of _ "a\<lparr>bytes_at := ?f, mutex := k\<rparr>"]) simp
qed

theorem gca_calloc_spec:
  assumes ok: "gca_run_ok a M bs fl" and n: "n = num * sz" "2 ^ 64 \<le> n \<or> n + 8208 \<le> 2 ^ 64"
  shows "\<exists>p a' bs' fl'. gca_calloc a num sz = Inr (p, a') \<and> gca_run_ok a' (if p = NULL then M else M(p \<mapsto> n)) bs' fl'
    \<and> same_blocks M (bytes_at a) (bytes_at a') \<and> (p \<noteq> NULL \<longrightarrow> p \<notin> dom M \<and> (\<forall>i < n. bytes_at a' (p + i) = 0))
    \<and> (p = NULL \<longrightarrow> n = 0 \<or> 2 ^ 64 \<le> n
        \<or> g_no_fit (heap a) bs (g_round n) \<and> heap a + heap_size a < current_brk a + page_up (g_round n))"
proof -
  have ok1: "gca_heap_ok a M bs fl" and l: "lk_mode (mutex a) = Unlocked" using ok by (simp_all add: gca_run_ok_def)
  have hp: "heap a \<noteq> NULL" using gca_regionD(1) [OF gca_stD(1)] ok1 by (simp add: gca_heap_ok_def gca_ok_def) blast
  show ?thesis
  proof (cases "n = 0 \<or> 2 ^ 64 \<le> n")
    case True
    then have "gca_calloc a num sz = Inr (NULL, a)" using calloc_reject [OF hp, of num sz] n(1) by simp
    with True ok show ?thesis
      by (intro exI [of _ NULL] exI [of _ a] exI [of _ bs] exI [of _ fl]) (simp add: same_blocks_def, blast)
  next
    case False
    then have n8: "n + 8208 \<le> 2 ^ 64" and n0: "0 < n" "n < 2 ^ 64" using n(2) by linarith+
    have pos: "(heap a = NULL \<or> sz = 0 \<or> num = 0 \<or> (2 ^ 64 - 1) div sz < num) = False"
      using hp n0(1) calloc_accept [of num sz] n0 unfolding n(1) by auto
    have un: "usize (num * sz) = n" using n0(2) n(1) by simp
    note g = gca_heap_ok_good [OF ok1]
    have in1: "lock_good (mutex (held a))" "lk_mode (mutex (held a)) = Locked 1" using held_inner [OF g l] by simp_all
    have okh: "gca_heap_ok (held a) M bs fl" using ok1 in1(1) by (simp add: gca_heap_ok_def gca_ok_def)
    obtain p a1 bs1 fl1 where m: "gca_malloc (held a) n = Inr (p, a1)" "gca_heap_ok a1 (if p = NULL then M else M(p \<mapsto> n)) bs1 fl1"
      "mutex a1 = mutex (held a) \<or> mutex a1 = cycled (mutex (held a))" "heap a1 = heap (held a)" "heap_size a1 = heap_size (held a)"
      "same_blocks M (bytes_at (held a)) (bytes_at a1)" "p \<noteq> NULL \<longrightarrow> p \<notin> dom M"
      "p = NULL \<longrightarrow> n = 0 \<or> g_no_fit (heap (held a)) bs (g_round n) \<and> heap (held a) + heap_size (held a) < current_brk (held a) + page_up (g_round n)"
      using gca_heap_malloc [OF okh n8] by blast
    have l1: "lk_mode (mutex a1) = Locked 1" using m(3) in1(2) cycled_inner by auto
    have start: "gca_calloc a num sz = rbind (if p \<noteq> NULL then heap_memset a1 p 0 n else Inr a1) (\<lambda>a2. unlock_return a2 p NULL)"
      unfolding gca_calloc_def pos if_False lock_held [OF g] prod.case un m(1) rbind_Inr by simp
    show ?thesis
    proof (cases "p = NULL")
      case True
      then have ok2: "gca_heap_ok a1 M bs1 fl1" using m(2) by simp
      obtain k where "unlock_return a1 p NULL = Inr (p, a1\<lparr>mutex := k\<rparr>)" "gca_run_ok (a1\<lparr>mutex := k\<rparr>) M bs1 fl1"
        using gca_finish [OF ok2 l1, of p NULL] by (elim exE conjE)
      then show ?thesis using True start m(6,8) n0
        by (intro exI [of _ NULL] exI [of _ "a1\<lparr>mutex := k\<rparr>"] exI [of _ bs1] exI [of _ fl1]) simp
    next
      case False
      then have ok2: "gca_heap_ok a1 (M(p \<mapsto> n)) bs1 fl1" and pM: "p \<notin> dom M" using m(2,7) by simp_all
      obtain a2 a3 where c: "heap_memset a1 p 0 n = Inr a2" "unlock_return a2 p NULL = Inr (p, a3)" "gca_run_ok a3 (M(p \<mapsto> n)) bs1 fl1"
        "same_blocks M (bytes_at a1) (bytes_at a3)" "\<forall>i < n. bytes_at a3 (p + i) = 0"
        using clear_block [OF ok2 l1 pM] by blast
      have "same_blocks M (bytes_at a) (bytes_at a3)" using m(6) c(4) by (simp add: same_blocks_def)
      then show ?thesis using False start c pM
        by (intro exI [of _ p] exI [of _ a3] exI [of _ bs1] exI [of _ fl1]) simp
    qed
  qed
qed

end
