(* ===== verification/Glibc_Runs.thy ===== *)
theory Glibc_Runs
  imports Glibc_Realloc
begin

text \<open>
  Programs that use the glibc-style allocator: every state that calls of the allocator and
  writes to allocated memory can reach, and what holds in all of them.
\<close>

section \<open>Reachable states\<close>

text \<open>
  \<open>M\<close> maps the addresses handed out and not yet given back to the sizes asked for.  Requests
  stay two pages below the end of the address space: closer to it the size of a new block
  overflows.
\<close>

inductive gca_run :: "GlibcAllocator \<Rightarrow> (addr \<Rightarrow> nat option) \<Rightarrow> bool" where
  gca_created: "gca_good_region r n \<Longrightarrow> lock_good l \<Longrightarrow> lk_mode l = Unlocked \<Longrightarrow> gca_create True l r e n = Inr (Some a, e') \<Longrightarrow>
    gca_run a Map.empty"
| gca_allocated: "gca_run a M \<Longrightarrow> n + 8208 \<le> 2 ^ 64 \<Longrightarrow> gca_malloc a n = Inr (p, a') \<Longrightarrow>
    gca_run a' (if p = NULL then M else M(p \<mapsto> n))"
| gca_freed: "gca_run a M \<Longrightarrow> p \<in> dom M \<Longrightarrow> gca_free a p = Inr (r, a') \<Longrightarrow> gca_run a' (M(p := None))"
| gca_freed_null: "gca_run a M \<Longrightarrow> gca_free a NULL = Inr (r, a') \<Longrightarrow> gca_run a' M"
| gca_cleared: "gca_run a M \<Longrightarrow> 2 ^ 64 \<le> num * sz \<or> num * sz + 8208 \<le> 2 ^ 64 \<Longrightarrow> gca_calloc a num sz = Inr (p, a') \<Longrightarrow>
    gca_run a' (if p = NULL then M else M(p \<mapsto> num * sz))"
| gca_resized: "gca_run a M \<Longrightarrow> p \<in> dom M \<Longrightarrow> sz + 8208 \<le> 2 ^ 64 \<Longrightarrow> gca_realloc a p sz = Inr (q, a') \<Longrightarrow>
    gca_run a' (if q = NULL then M else (M(p := None))(q \<mapsto> sz))"
| gca_resized_null: "gca_run a M \<Longrightarrow> sz + 8208 \<le> 2 ^ 64 \<Longrightarrow> gca_realloc a NULL sz = Inr (q, a') \<Longrightarrow>
    gca_run a' (if q = NULL then M else M(q \<mapsto> sz))"
| gca_written: "gca_run a M \<Longrightarrow> M p = Some n \<Longrightarrow> p \<le> y \<Longrightarrow> y < p + n \<Longrightarrow>
    gca_run (a\<lparr>bytes_at := (bytes_at a)(y := v)\<rparr>) M"

section \<open>The invariant of all runs\<close>

theorem gca_run_invariant: "gca_run a M \<Longrightarrow> \<exists>bs fl. gca_run_ok a M bs fl"
proof (induction rule: gca_run.induct)
  case (gca_created r n l e a e')
  then obtain a0 where a0: "gca_create True l r e n = Inr (Some a0, e)" "gca_ok a0 [(4064, True)] [r]" "lk_mode (mutex a0) = Unlocked"
    using gca_create_ok [OF gca_created(1-3), of e] by auto
  then have "a0 = a" using gca_created(4) by simp
  moreover have "tracked (block_used 16 (heap a) [(4064, True)]) Map.empty" by (simp add: tracked_def)
  ultimately show ?case using a0 unfolding gca_run_ok_def gca_heap_ok_def by blast
next
  case (gca_allocated a M n p a')
  then obtain bs fl where "gca_run_ok a M bs fl" by blast
  then have h: "gca_heap_ok a M bs fl" and u: "lk_mode (mutex a) = Unlocked" by (simp_all add: gca_run_ok_def)
  obtain p1 a1 bs' fl' where m: "gca_malloc a n = Inr (p1, a1)" "gca_heap_ok a1 (if p1 = NULL then M else M(p1 \<mapsto> n)) bs' fl'"
    "mutex a1 = mutex a \<or> mutex a1 = cycled (mutex a)"
    using gca_heap_malloc [OF h gca_allocated(2)] by blast
  have "p1 = p" "a1 = a'" using m(1) gca_allocated(3) by simp_all
  then show ?case using m(2,3) u cycled_unlocked [OF u] unfolding gca_run_ok_def by metis
next
  case (gca_freed a M p r a')
  then obtain bs fl where "gca_run_ok a M bs fl" by blast
  then have h: "gca_heap_ok a M bs fl" and u: "lk_mode (mutex a) = Unlocked" by (simp_all add: gca_run_ok_def)
  obtain a1 bs' fl' where f: "gca_free a p = Inr (0, a1)" "gca_heap_ok a1 (M(p := None)) bs' fl'" "mutex a1 = cycled (mutex a)"
    using gca_heap_free [OF h gca_freed(2)] by blast
  have "a1 = a'" using f(1) gca_freed(3) by simp
  then show ?case using f(2,3) cycled_unlocked [OF u] unfolding gca_run_ok_def by metis
next
  case (gca_freed_null a M r a')
  then have "a' = a" by (simp add: gca_free_def)
  with gca_freed_null show ?case by blast
next
  case (gca_cleared a M num sz p a')
  then obtain bs fl where "gca_run_ok a M bs fl" by blast
  from gca_calloc_spec [OF this refl gca_cleared(2)] gca_cleared(3) show ?case by auto
next
  case (gca_resized a M p sz q a')
  then obtain bs fl m where ok: "gca_run_ok a M bs fl" and m: "M p = Some m" by blast
  show ?case
  proof (cases "sz = 0")
    case True
    then show ?thesis using gca_resized(4) ok gca_realloc_zero by auto
  next
    case False
    then obtain q1 a1 where r: "gca_realloc a p sz = Inr (q1, a1)" "realloc_post a M p m sz q1 a1"
      using gca_realloc_spec [OF ok m _ gca_resized(3)] by auto
    then have "q1 = q" "a1 = a'" using gca_resized(4) by simp_all
    with r(2) show ?thesis unfolding realloc_post_def by blast
  qed
next
  case (gca_resized_null a M sz q a')
  then obtain bs fl where ok: "gca_run_ok a M bs fl" by blast
  show ?case
  proof (cases "sz = 0")
    case True
    then show ?thesis using gca_resized_null(3) ok gca_realloc_zero by auto
  next
    case False
    with gca_realloc_null [OF ok _ gca_resized_null(2)] gca_resized_null(3) show ?thesis by auto
  qed
next
  case (gca_written a M p n y v)
  then obtain bs fl where ok: "gca_run_ok a M bs fl" by blast
  then have "tracked (block_used 16 (heap a) bs) M" by (simp add: gca_run_ok_def gca_heap_ok_def)
  from tracked_bytes [OF this gca_written(2-4)] have "y \<in> g_used (heap a) bs" unfolding used_bytes_set .
  then have "gca_run_ok (a\<lparr>bytes_at := (bytes_at a)(y := v)\<rparr>) M bs fl"
    using ok gca_write by (simp add: gca_run_ok_def gca_heap_ok_def gca_ok_def)
  then show ?case by blast
qed

text \<open>The allocator satisfies the interface.\<close>

interpretation gca: block_allocator gca_run gca_malloc gca_free bytes_at "2 ^ 64 - 8208"
proof
  fix s M and n p :: nat and s'
  assume r: "gca_run s M" and n: "n \<le> 2 ^ 64 - 8208"
  then have n': "n + 8208 \<le> 2 ^ 64" by simp
  obtain bs fl where ok: "gca_heap_ok s M bs fl" using gca_run_invariant [OF r] unfolding gca_run_ok_def by blast
  note m = gca_heap_malloc [OF ok n']
  show "\<exists>p s'. gca_malloc s n = Inr (p, s')" using m by blast
  assume e: "gca_malloc s n = Inr (p, s')"
  show "gca_run s' (if p = 0 then M else M(p \<mapsto> n))" by (rule gca_run.gca_allocated [OF r n' e])
  show "p \<notin> dom M" if "p \<noteq> 0" using m e that by auto
  show "same_blocks M (bytes_at s) (bytes_at s')" using m e by auto
next
  fix s M p s' and r :: int
  assume h: "gca_run s M" and p: "p \<in> dom M"
  obtain bs fl where ok: "gca_heap_ok s M bs fl" using gca_run_invariant [OF h] unfolding gca_run_ok_def by blast
  note f = gca_heap_free [OF ok p]
  show "\<exists>s'. gca_free s p = Inr (0, s')" using f by blast
  assume e: "gca_free s p = Inr (r, s')"
  show "gca_run s' (M(p := None))" by (rule gca_run.gca_freed [OF h p e])
  show "same_blocks (M(p := None)) (bytes_at s) (bytes_at s')" using f e by auto
next
  fix s M
  assume "gca_run s M"
  then obtain bs fl where "gca_heap_ok s M bs fl" using gca_run_invariant unfolding gca_run_ok_def by blast
  then show "separate M" using gca_heap_separate(1) by blast
qed

end
