(* ===== verification/Glibc_Properties.thy ===== *)
theory Glibc_Properties
  imports Glibc_Runs
begin

text \<open>
  The properties of the glibc-style allocator, over the reachable states of \<open>Glibc_Runs\<close>, with
  witnesses on small heaps, and the calls that break it.
\<close>

section \<open>Facts for the properties\<close>

lemma gca_run_st: "gca_run_ok a M bs fl \<Longrightarrow> gca_st a bs fl {} \<and> no_adj False bs \<and> bs \<noteq> [] \<and> tracked (block_used 16 (heap a) bs) M"
  by (simp add: gca_run_ok_def gca_heap_ok_def gca_ok_def)

text \<open>With nothing handed out the heap is one free block.\<close>

lemma empty_heap:
  assumes ok: "gca_run_ok a Map.empty bs fl"
  shows "bs = [(current_brk a - heap a - 32, True)] \<and> fl = [heap a]"
proof -
  have st: "gca_st a bs fl {}" and n: "no_adj False bs" "bs \<noteq> []" and t: "tracked (block_used 16 (heap a) bs) Map.empty"
    using gca_run_st [OF ok] by simp_all
  have free: "f" if sf: "(s, f) \<in> set bs" for s f
  proof (rule ccontr)
    assume nf: "\<not> f"
    obtain us ws where "bs = us @ (s, f) # ws" using split_list [OF sf] by blast
    then have "(g_end (heap a) us, s) \<in> block_used 16 (heap a) bs" using nf by simp
    from trackedD(2) [OF t this] show False by simp
  qed
  obtain s f cs where b: "bs = (s, f) # cs" using n(2) by (cases bs) auto
  have f: "f" using free [of s f] b by simp
  have "cs = []"
  proof (cases cs)
    case (Cons y ds)
    obtain t g where "y = (t, g)" by fastforce
    then show ?thesis using free [of t g] n(1) b f Cons by simp
  qed simp
  then have bs: "bs = [(s, True)]" using b f by simp
  have "current_brk a = heap a + s + 32" using gca_regionD(5) [OF gca_stD(1) [OF st]] by (simp add: bs)
  moreover have "set fl = {heap a}" "distinct fl"
    using gca_stD(3,4) [OF st] by (simp_all add: bs free_list_ok_def)
  moreover from this have "fl = [heap a]"
  proof (cases fl)
    case (Cons x xs)
    with \<open>set fl = {heap a}\<close> have "x = heap a" "set xs \<subseteq> {x}" by auto
    with \<open>distinct fl\<close> Cons show ?thesis by (cases xs) auto
  qed simp
  ultimately show ?thesis by (simp add: bs)
qed

text \<open>Requests the first free block is large enough for are served from it.\<close>

lemma gca_malloc_fit:
  assumes run: "gca_run a M" and ok: "gca_run_ok a M bs fl" and n: "0 < n" "n + 8208 \<le> 2 ^ 64" and fit: "\<not> g_no_fit (heap a) bs (g_round n)"
  shows "\<exists>p a'. gca_malloc a n = Inr (p, a') \<and> p \<noteq> NULL \<and> g_first (heap a) bs fl (g_round n) (p - 16) \<and> p - 16 \<in> set fl"
proof -
  have h: "gca_ok a bs fl" using ok by (simp add: gca_run_ok_def gca_heap_ok_def)
  from gca_malloc_spec [OF h n refl] fit
  obtain us s ws b a' where b: "bs = us @ (s, True) # ws" "b = g_end (heap a) us" "g_first (heap a) bs fl (g_round n) b"
    "gca_malloc a n = Inr (b + 16, a')" by blast
  have "b \<in> set fl" using b(3) by (auto simp: g_first_def)
  with b(3,4) show ?thesis by (intro exI [of _ "b + 16"] exI [of _ a']) simp
qed

text \<open>When the break can move, the request is served from the new pages.\<close>

lemma gca_malloc_grow:
  assumes run: "gca_run a M" and ok: "gca_run_ok a M bs fl" and n: "0 < n" "n + 8208 \<le> 2 ^ 64" and fit: "g_no_fit (heap a) bs (g_round n)"
  shows "\<exists>p a'. gca_malloc a n = Inr (p, a') \<and> (p = NULL \<longleftrightarrow> heap a + heap_size a < current_brk a + page_up (g_round n))
    \<and> (p = NULL \<longrightarrow> alloc_errno a' = MALLOC_FAILED \<and> bytes_at a' = bytes_at a \<and> current_brk a' = current_brk a)"
proof -
  have h: "gca_ok a bs fl" using ok by (simp add: gca_run_ok_def gca_heap_ok_def)
  from gca_malloc_spec [OF h n refl] show ?thesis
  proof (rule disjE, goal_cases)
    case 1
    then show ?thesis by (intro exI [of _ NULL] exI [of _ "a\<lparr>alloc_errno := MALLOC_FAILED, mutex := cycled (mutex a)\<rparr>"]) simp
  next
    case 2
    then obtain bs1 us s ws b a' where b: "bs1 = us @ (s, True) # ws" "b = g_end (heap a) us" "g_round n \<le> s"
      "bs1 = bs \<or> current_brk a + page_up (g_round n) \<le> heap a + heap_size a" "gca_malloc a n = Inr (b + 16, a')" by blast
    have "bs1 \<noteq> bs"
    proof
      assume "bs1 = bs"
      then have "(b, s, True) \<in> set (g_places (heap a) bs)" using b(1,2) by (auto simp: places_append)
      then have "s < g_round n" using fit unfolding g_no_fit_def by blast
      then show False using b(3) by simp
    qed
    then show ?thesis using b(4,5) by (intro exI [of _ "b + 16"] exI [of _ a']) simp
  qed
qed

text \<open>A run for the witnesses.\<close>

lemma small_gca:
  "\<exists>a. gca_create True small_lock 8192 NONE 8192 = Inr (Some a, NONE) \<and> gca_run a Map.empty \<and> heap a = 8192 \<and> heap_size a = 8192
    \<and> gca_run_ok a Map.empty [(4064, True)] [8192]"
proof -
  have r: "gca_good_region 8192 8192" by (simp add: gca_good_region_def)
  note l = small_lock_good
  obtain a where a: "gca_create True small_lock 8192 NONE 8192 = Inr (Some a, NONE)" "gca_ok a [(4064, True)] [8192]"
    "heap a = 8192" "heap_size a = 8192" "lk_mode (mutex a) = Unlocked"
    using gca_create_ok [OF r l, of NONE] by blast
  have "gca_run a Map.empty" by (rule gca_run.gca_created [OF r l a(1)])
  with a show ?thesis by (simp add: gca_run_ok_def gca_heap_ok_def tracked_def)
qed

lemma small_gca_malloc:
  assumes "0 < n" and "n \<le> 4064"
  shows "\<exists>a a'. gca_run a Map.empty \<and> heap a = 8192 \<and> heap_size a = 8192 \<and> gca_malloc a n = Inr (8208, a') \<and> gca_run a' [8208 \<mapsto> n]"
proof -
  obtain a where a: "gca_run a Map.empty" "heap a = 8192" "heap_size a = 8192" "gca_run_ok a Map.empty [(4064, True)] [8192]"
    using small_gca by blast
  have "g_round n \<le> g_round 4064" unfolding g_round_def using assms(2) by (intro mult_le_mono1 div_le_mono) simp
  then have "\<not> g_no_fit (heap a) [(4064, True)] (g_round n)" by (simp add: g_no_fit_def g_round_def)
  from gca_malloc_fit [OF a(1,4) assms(1) _ this] obtain p a' where p: "gca_malloc a n = Inr (p, a')" "p \<noteq> NULL" "p - 16 = 8192"
    using assms(2) by auto
  then have "p = 8208" by simp
  moreover have "gca_run a' [8208 \<mapsto> n]" using gca_run.gca_allocated [OF a(1) _ p(1)] assms(2) \<open>p = 8208\<close> by simp
  ultimately show ?thesis using a p(1) by blast
qed

section \<open>Properties\<close>

text \<open>
  C4: whatever a client of the glibc-style allocator does, no call faults, no walk along the
  free list is endless, no release is refused, the mutex is free afterwards, and the memory the
  client holds at the end is aligned, inside the heap and without overlaps.
\<close>

theorem gca_client_safe:
  assumes "gca_good_region r n" and "lock_good l" and "lk_mode l = Unlocked" and "requests_ok (2 ^ 64 - 8208) ops"
  shows "\<exists>a e' a' ps M. gca_create True l r e n = Inr (Some a, e') \<and> client gca_malloc gca_free a [] ops = Inr (a', ps)
    \<and> set ps = dom M \<and> distinct ps \<and> separate M \<and> lk_mode (mutex a') = Unlocked
    \<and> (\<forall>p k. M p = Some k \<longrightarrow> 16 dvd p \<and> heap a' + 16 \<le> p \<and> p + k + 16 \<le> heap a' + heap_size a')"
proof -
  obtain a e' where a: "gca_create True l r e n = Inr (Some a, e')" using gca_create_ok [OF assms(1-3)] by blast
  have run: "gca_run a Map.empty" by (rule gca_run.gca_created [OF assms(1-3) a])
  obtain a' ps M where c: "client gca_malloc gca_free a [] ops = Inr (a', ps)" "gca_run a' M" "set ps = dom M" "distinct ps"
    using gca.client_safe [OF run _ _ assms(4), of "[]"] by auto
  obtain bs fl where ok: "gca_run_ok a' M bs fl" using gca_run_invariant [OF c(2)] by blast
  then have h: "gca_heap_ok a' M bs fl" and "lk_mode (mutex a') = Unlocked" by (simp_all add: gca_run_ok_def)
  with a c gca_heap_separate [OF h] show ?thesis by blast
qed

theorem gca_client_safe_witness:
  "\<exists>a e' a' ps M. gca_create True small_lock 8192 NONE 8192 = Inr (Some a, e')
    \<and> client gca_malloc gca_free a [] [Malloc 100, Malloc 5000, Free 1, Malloc 200, Free 0] = Inr (a', ps) \<and> set ps = dom M \<and> separate M"
proof -
  have "gca_good_region 8192 8192" by (simp add: gca_good_region_def)
  moreover have "requests_ok (2 ^ 64 - 8208) [Malloc 100, Malloc 5000, Free 1, Malloc 200, Free 0]" by (simp add: requests_ok_def)
  ultimately show ?thesis using gca_client_safe [OF _ small_lock_good, of 8192 8192 _ NONE] by blast
qed

text \<open>
  C6: in every reachable state, read back with the allocator's own accessors, the header of
  every block agrees with the header behind it, sizes are multiples of 16, no two free blocks
  are neighbours, the blocks fill the heap up to the break, and the free list holds exactly the
  free blocks.
\<close>

theorem gca_run_wellformed:
  assumes "gca_run a M"
  shows "\<exists>bs fl. g_end (heap a) bs + 16 = current_brk a \<and> current_brk a \<le> heap a + heap_size a \<and> no_adj False bs
    \<and> (\<forall>x s f. (x, s, f) \<in> set (g_places (heap a) bs) \<longrightarrow> 16 dvd s \<and> 16 \<le> s
        \<and> gca_size a (curr_info x) = Inr s \<and> gca_used a (curr_info x) = Inr (if f then 0 else 1)
        \<and> gca_next a x = Inr (x + s + 16) \<and> gca_prev a (x + s + 16) = Inr x
        \<and> gca_used a (prev_info (x + s + 16)) = Inr (if f then 0 else 1)
        \<and> (f \<longleftrightarrow> x \<in> set fl))
    \<and> distinct fl \<and> set fl \<subseteq> fst ` set (g_places (heap a) bs) \<and> free_list a = (if fl = [] then NULL else hd fl)"
proof -
  obtain bs fl where ok: "gca_run_ok a M bs fl" using gca_run_invariant [OF assms] by blast
  then have st: "gca_st a bs fl {}" and na: "no_adj False bs" using gca_run_st by blast+
  note d = gca_stD [OF st] and r = gca_regionD [OF gca_stD(1) [OF st]]
  have fl: "set fl = {x. \<exists>s. (x, s, True) \<in> set (g_places (heap a) bs)}" using d(4) by (simp add: g_frees_def)
  have "16 dvd s \<and> 16 \<le> s
        \<and> gca_size a (curr_info x) = Inr s \<and> gca_used a (curr_info x) = Inr (if f then 0 else 1)
        \<and> gca_next a x = Inr (x + s + 16) \<and> gca_prev a (x + s + 16) = Inr x
        \<and> gca_used a (prev_info (x + s + 16)) = Inr (if f then 0 else 1) \<and> (f \<longleftrightarrow> x \<in> set fl)"
    if p: "(x, s, f) \<in> set (g_places (heap a) bs)" for x s f
  proof -
    obtain us ws where b: "bs = us @ (s, f) # ws" "x = g_end (heap a) us" using places_split [OF p] by blast
    obtain t k vs where v: "ws @ [(0, False)] = (t, k) # vs" by (cases "ws @ [(0, False)]") auto
    note q = gca_block [OF st [unfolded b(1)] b(2) v]
    have m: "mapped a (x + 8)" "mapped a (x + s + 16)" using q(1) by (intro q(12); simp)+
    note ad = gca_addresses [OF q(6)]
    have nx: "gca_next a x = Inr (x + s + 16)" by (rule gca_next_ok [OF m(1) q(9,6)])
    have "x + s + 16 - s = x + 16" by simp
    then have pv: "gca_prev a (x + s + 16) = Inr x"
      using q(6) by (simp add: gca_prev_def ad gca_info_ops(1) [OF m(2)] q(10) gca_data_to_header_def gca_consts usize_sub_le)
    have "f \<longleftrightarrow> x \<in> set fl"
    proof
      assume f
      with p have "(x, s, True) \<in> set (g_places (heap a) bs)" by simp
      then show "x \<in> set fl" unfolding fl by blast
    next
      assume "x \<in> set fl"
      then obtain s' where "(x, s', True) \<in> set (g_places (heap a) bs)" unfolding fl by blast
      from block_places_same [OF _ p this] show f by simp
    qed
    moreover have "gca_size a (curr_info x) = Inr s" "gca_used a (curr_info x) = Inr (if f then 0 else 1)"
      "gca_used a (prev_info (x + s + 16)) = Inr (if f then 0 else 1)"
      by (simp_all only: ad gca_info_ops(1,2) [OF m(1)] gca_info_ops(1,2) [OF m(2)] q(9,10) fst_conv snd_conv)
    ultimately show ?thesis using q(3,4) nx pv by blast
  qed
  moreover have "set fl \<subseteq> fst ` set (g_places (heap a) bs)" unfolding fl by force
  moreover have "distinct fl" "free_list a = (if fl = [] then NULL else hd fl)"
    using d(3) by (simp_all add: free_list_ok_def first_of_def split: list.split)
  moreover have "g_end (heap a) bs + 16 = current_brk a" "current_brk a \<le> heap a + heap_size a" using r(5,6) by simp_all
  ultimately show ?thesis using na by blast
qed

theorem gca_run_wellformed_witness: "\<exists>a bs. gca_run a [8208 \<mapsto> 100] \<and> g_end (heap a) bs + 16 = current_brk a \<and> no_adj False bs"
proof -
  obtain a where "gca_run a [8208 \<mapsto> 100]" using small_gca_malloc [of 100] by auto
  with gca_run_wellformed [OF this] show ?thesis by blast
qed

text \<open>
  C31: \<open>gca_malloc\<close> is first fit: in every reachable state it takes the first block of the free
  list that is large enough, asks for new pages only when there is none, and gives up, with
  \<open>MALLOC_FAILED\<close>, exactly when these pages are not inside the heap; what it returns is new,
  aligned and apart from all blocks in use, whose bytes it leaves alone.
\<close>

theorem gca_malloc_first_fit:
  assumes "gca_run a M" and "0 < n" and "n + 8208 \<le> 2 ^ 64"
  shows "\<exists>bs fl p a'. gca_run_ok a M bs fl \<and> gca_malloc a n = Inr (p, a') \<and> same_blocks M (bytes_at a) (bytes_at a')
    \<and> (if g_no_fit (heap a) bs (g_round n)
       then (p = NULL \<longleftrightarrow> heap a + heap_size a < current_brk a + page_up (g_round n)) \<and> (p = NULL \<longrightarrow> alloc_errno a' = MALLOC_FAILED)
       else p \<noteq> NULL \<and> g_first (heap a) bs fl (g_round n) (p - 16))
    \<and> (p \<noteq> NULL \<longrightarrow> p \<notin> dom M \<and> 16 dvd p \<and> heap a' + 16 \<le> p \<and> p + n + 16 \<le> heap a' + heap_size a' \<and> separate (M(p \<mapsto> n)))"
proof -
  obtain bs fl where ok: "gca_run_ok a M bs fl" using gca_run_invariant [OF assms(1)] by blast
  have n: "n \<le> 2 ^ 64 - 8208" using assms(3) by simp
  obtain p a' where m: "gca_malloc a n = Inr (p, a')" using gca.malloc_total [OF assms(1) n] by blast
  have r: "gca_run a' (if p = NULL then M else M(p \<mapsto> n))" by (rule gca.malloc_run [OF assms(1) n m])
  have "p \<notin> dom M \<and> 16 dvd p \<and> heap a' + 16 \<le> p \<and> p + n + 16 \<le> heap a' + heap_size a' \<and> separate (M(p \<mapsto> n))" if p: "p \<noteq> NULL"
  proof -
    obtain bs' fl' where "gca_run_ok a' (M(p \<mapsto> n)) bs' fl'" using gca_run_invariant [OF r] p by auto
    then have h: "gca_heap_ok a' (M(p \<mapsto> n)) bs' fl'" by (simp add: gca_run_ok_def)
    from gca_heap_separate(1) [OF h] gca_heap_separate(2) [OF h, of p n] show ?thesis
      using gca.malloc_fresh [OF assms(1) n m p] by simp
  qed
  moreover have "if g_no_fit (heap a) bs (g_round n)
       then (p = NULL \<longleftrightarrow> heap a + heap_size a < current_brk a + page_up (g_round n)) \<and> (p = NULL \<longrightarrow> alloc_errno a' = MALLOC_FAILED)
       else p \<noteq> NULL \<and> g_first (heap a) bs fl (g_round n) (p - 16)"
    using gca_malloc_fit [OF assms(1) ok assms(2,3)] gca_malloc_grow [OF assms(1) ok assms(2,3)] m by fastforce
  ultimately show ?thesis using ok m gca.malloc_keeps [OF assms(1) n m] by blast
qed

theorem gca_malloc_first_fit_witness:
  "\<exists>a p a'. gca_run a [8208 \<mapsto> 100] \<and> gca_malloc a 5000 = Inr (p, a') \<and> (p \<noteq> NULL \<longrightarrow> 16 dvd p)"
proof -
  obtain a where a: "gca_run a [8208 \<mapsto> 100]" using small_gca_malloc [of 100] by auto
  with gca_malloc_first_fit [OF this, of 5000] show ?thesis by auto
qed

text \<open>
  C5: \<open>gca_realloc\<close> of a block in use, whichever of its four ways it takes (cut, merged with the
  next block, grown at the break, moved), keeps the content up to the smaller of the two sizes,
  leaves every other block alone, and returns \<open>NULL\<close> only with the old block intact.
\<close>

theorem gca_realloc_keeps:
  assumes "gca_run a M" and "M p = Some m" and "0 < n" and "n + 8208 \<le> 2 ^ 64"
  shows "\<exists>q a'. gca_realloc a p n = Inr (q, a') \<and> gca_run a' (if q = NULL then M else (M(p := None))(q \<mapsto> n))
    \<and> same_blocks (M(p := None)) (bytes_at a) (bytes_at a') \<and> (q = NULL \<longrightarrow> same_blocks M (bytes_at a) (bytes_at a'))
    \<and> (q \<noteq> NULL \<longrightarrow> (\<forall>i < min m n. bytes_at a' (q + i) = bytes_at a (p + i)) \<and> (q = p \<or> q \<notin> dom M)
        \<and> separate ((M(p := None))(q \<mapsto> n)))"
proof -
  obtain bs fl where ok: "gca_run_ok a M bs fl" using gca_run_invariant [OF assms(1)] by blast
  obtain q a' where r: "gca_realloc a p n = Inr (q, a')" "realloc_post a M p m n q a'"
    using gca_realloc_spec [OF ok assms(2-4)] by blast
  have run: "gca_run a' (if q = NULL then M else (M(p := None))(q \<mapsto> n))"
    by (rule gca_run.gca_resized [OF assms(1) _ assms(4) r(1)]) (use assms(2) in blast)
  have "separate ((M(p := None))(q \<mapsto> n))" if "q \<noteq> NULL" using gca.run_separate [OF run] that by simp
  with r run show ?thesis unfolding realloc_post_def by blast
qed

theorem gca_realloc_keeps_witness:
  "\<exists>a q a'. gca_run a [8208 \<mapsto> 100] \<and> gca_realloc a 8208 5000 = Inr (q, a') \<and> (q \<noteq> NULL \<longrightarrow> gca_run a' [q \<mapsto> 5000])"
proof -
  obtain a where a: "gca_run a [8208 \<mapsto> 100]" using small_gca_malloc [of 100] by auto
  have m: "[8208 \<mapsto> 100] 8208 = Some 100" by simp
  have e: "[8208 \<mapsto> 100](8208 := None) = Map.empty" by auto
  obtain q a' where q: "gca_realloc a 8208 5000 = Inr (q, a')" "gca_run a' (if q = 0 then [8208 \<mapsto> 100] else [q \<mapsto> 5000])"
    using gca_realloc_keeps [OF a m, of 5000] unfolding e by auto
  then have "q \<noteq> NULL \<longrightarrow> gca_run a' [q \<mapsto> 5000]" by (cases "q = 0") simp_all
  with a q(1) show ?thesis by blast
qed

text \<open>
  C32: \<open>gca_calloc\<close> returns cleared memory of \<open>num * sz\<close> bytes, which does not overlap any block in
  use, and refuses every product that does not fit a \<open>size_t\<close>.
\<close>

theorem gca_calloc_clears:
  assumes "gca_run a M" and "2 ^ 64 \<le> num * sz \<or> num * sz + 8208 \<le> 2 ^ 64"
  shows "\<exists>p a'. gca_calloc a num sz = Inr (p, a') \<and> gca_run a' (if p = NULL then M else M(p \<mapsto> num * sz))
    \<and> same_blocks M (bytes_at a) (bytes_at a') \<and> (num * sz = 0 \<or> 2 ^ 64 \<le> num * sz \<longrightarrow> p = NULL)
    \<and> (p \<noteq> NULL \<longrightarrow> (\<forall>i < num * sz. bytes_at a' (p + i) = 0) \<and> separate (M(p \<mapsto> num * sz)))"
proof -
  obtain bs fl where ok: "gca_run_ok a M bs fl" using gca_run_invariant [OF assms(1)] by blast
  obtain p a' where c: "gca_calloc a num sz = Inr (p, a')" "same_blocks M (bytes_at a) (bytes_at a')"
    "p \<noteq> NULL \<longrightarrow> (\<forall>i < num * sz. bytes_at a' (p + i) = 0)"
    using gca_calloc_spec [OF ok refl assms(2)] by blast
  have run: "gca_run a' (if p = NULL then M else M(p \<mapsto> num * sz))" by (rule gca_run.gca_cleared [OF assms c(1)])
  have "separate (M(p \<mapsto> num * sz))" if "p \<noteq> NULL" using gca.run_separate [OF run] that by simp
  moreover have "p = NULL" if "num * sz = 0 \<or> 2 ^ 64 \<le> num * sz"
    using calloc_reject [OF _ that, of a] c(1) gca_regionD(1) [OF gca_stD(1)] gca_run_st [OF ok] by auto
  ultimately show ?thesis using c run by blast
qed

theorem gca_calloc_clears_witness:
  "\<exists>a p a'. gca_run a Map.empty \<and> gca_calloc a 10 8 = Inr (p, a') \<and> (p \<noteq> NULL \<longrightarrow> bytes_at a' (p + 79) = 0)"
proof -
  obtain a where a: "gca_run a Map.empty" using small_gca by blast
  with gca_calloc_clears [OF this, of 10 8] show ?thesis by auto
qed

text \<open>
  C33: nothing is lost to fragmentation: a client that gives back everything it holds, in any
  reachable state, leaves one free block from the start of the heap to the break, and every
  request that this block is large enough for is then served at its start.
\<close>

theorem gca_all_released:
  assumes "gca_run a M" and "set ps = dom M" and "distinct ps"
  shows "\<exists>a'. client gca_malloc gca_free a ps (replicate (length ps) (Free 0)) = Inr (a', []) \<and> gca_run a' Map.empty
    \<and> free_list a' = heap a' \<and> gca_size a' (curr_info (heap a')) = Inr (current_brk a' - heap a' - 32)
    \<and> (\<forall>n. 0 < n \<and> g_round n + heap a' + 32 \<le> current_brk a' \<longrightarrow> (\<exists>a''. gca_malloc a' n = Inr (heap a' + 16, a'')))"
proof -
  obtain a' where c: "client gca_malloc gca_free a ps (replicate (length ps) (Free 0)) = Inr (a', [])" and run: "gca_run a' Map.empty"
    using gca.client_drain [OF assms] by blast
  obtain bs fl where ok: "gca_run_ok a' Map.empty bs fl" using gca_run_invariant [OF run] by blast
  have st: "gca_st a' bs fl {}" using gca_run_st [OF ok] by blast
  let ?s = "current_brk a' - heap a' - 32"
  have e: "bs = [(?s, True)]" "fl = [heap a']" using empty_heap [OF ok] by blast+
  have st': "gca_st a' ([] @ (?s, True) # []) [heap a'] {}" using st unfolding e by simp
  note q = gca_block [OF st' refl, of 0 False "[]"]
  have m: "mapped a' (heap a' + 8)" using q(12) by simp
  have "free_list a' = heap a'" using gca_stD(3) [OF st'] by (simp add: free_list_ok_def)
  moreover have "gca_size a' (curr_info (heap a')) = Inr ?s"
    using q(6,9) gca_addresses(1) [of "heap a'" ?s] by (simp add: gca_info_ops(1) [OF m])
  moreover have "\<exists>a''. gca_malloc a' n = Inr (heap a' + 16, a'')" if n: "0 < n" "g_round n + heap a' + 32 \<le> current_brk a'" for n
  proof -
    have fit: "\<not> g_no_fit (heap a') bs (g_round n)" unfolding e(1) using n(2) by (simp add: g_no_fit_def)
    have "current_brk a' \<le> heap a' + heap_size a'" using gca_stD(1) [OF st] by (simp add: gca_region_def)
    then have "n + 8208 \<le> 2 ^ 64" using g_round_facts(1) [of n] n(2) gca_regionD(9) [OF gca_stD(1) [OF st]] by simp
    from gca_malloc_fit [OF run ok n(1) this fit] obtain p a'' where "gca_malloc a' n = Inr (p, a'')" "p \<noteq> NULL" "p - 16 = heap a'"
      unfolding e(2) by auto
    moreover have "0 < heap a'" using gca_regionD(1) [OF gca_stD(1) [OF st]] .
    ultimately have "gca_malloc a' n = Inr (heap a' + 16, a'')" by (simp add: diff_eq_eq)
    then show ?thesis by blast
  qed
  ultimately show ?thesis using c run by blast
qed

theorem gca_all_released_witness:
  "\<exists>a a'. gca_run a [8208 \<mapsto> 100] \<and> client gca_malloc gca_free a [8208] [Free 0] = Inr (a', []) \<and> free_list a' = heap a'"
proof -
  obtain a where a: "gca_run a [8208 \<mapsto> 100]" using small_gca_malloc [of 100] by auto
  obtain a' where "client gca_malloc gca_free a [8208] (replicate (length [8208 :: nat]) (Free 0)) = Inr (a', [])" "free_list a' = heap a'"
    using gca_all_released [OF a, of "[8208]"] by auto
  then have "client gca_malloc gca_free a [8208] [Free 0] = Inr (a', [])" "free_list a' = heap a'" by simp_all
  with a show ?thesis by blast
qed

text \<open>
  A failed mapping and a heap below one page both end \<open>gca_create\<close> with no handle and
  \<open>HEAP_MMAP_FAILED\<close>, although the code compares the result of \<open>mmap\<close> with \<open>NULL\<close> only.
\<close>

theorem gca_create_refused:
  assumes "lock_good l" and "r = MAP_FAILED \<or> 0 < r \<and> n < 4096 \<and> r + n + 4096 < 2 ^ 64"
  shows "gca_create True l r e n = Inr (None, HEAP_MMAP_FAILED)"
  by (rule gca_create_fails [OF assms])

theorem gca_create_refused_witness:
  "gca_create True small_lock MAP_FAILED NONE 8192 = Inr (None, HEAP_MMAP_FAILED) \<and> gca_create True small_lock 8192 NONE 100 = Inr (None, HEAP_MMAP_FAILED)"
  using gca_create_refused [OF small_lock_good(1), of MAP_FAILED 8192 NONE] gca_create_refused [OF small_lock_good(1), of 8192 100 NONE] by simp

section \<open>Where the allocator falls short\<close>

text \<open>A header that is its own successor: the walk never gets past it.\<close>

lemma gca_self_loop:
  assumes "h \<noteq> NULL" and "gca_size a (curr_info h) = Inr s" and "s < n" and "load64 a (header_next_free h) = Inr h" and "free_list a = h"
  shows "gca_find_free_block a n = Inl Hang"
proof -
  have "\<not> (n' = n \<and> a' = a \<and> h' = h)" if "gca_find_loop a' n' h' = Some r" for a' n' h' r
  proof (rule gca_find_loop.raw_induct [of "\<lambda>a' n' h' r. \<not> (n' = n \<and> a' = a \<and> h' = h)", OF _ that])
    fix loop a' n' h' y
    assume ih: "\<And>a' n' h' y. loop a' n' h' = Some y \<Longrightarrow> \<not> (n' = n \<and> a' = a \<and> h' = h)"
      and e: "(if h' = NULL then Some (Inr NULL)
      else case gca_size a' (curr_info h') of Inl e \<Rightarrow> Some (Inl e)
        | Inr s \<Rightarrow> if n' \<le> s then Some (Inr h')
          else case load64 a' (header_next_free h') of Inl e \<Rightarrow> Some (Inl e) | Inr h' \<Rightarrow> loop a' n' h') = Some y"
    show "\<not> (n' = n \<and> a' = a \<and> h' = h)"
    proof
      assume "n' = n \<and> a' = a \<and> h' = h"
      then have "loop a n h = Some y" using e assms by simp
      from ih [OF this] show False by simp
    qed
  qed
  then have "gca_find_loop a n h = None" by (cases "gca_find_loop a n h") auto
  then show ?thesis by (simp add: gca_find_free_block_def assms(5))
qed

text \<open>Releasing the only block of a heap when it is free already.\<close>

lemma gca_free_again:
  assumes ok: "gca_ok a [(s, True)] [h]" and h: "h = heap a"
  shows "\<exists>a'. gca_free a (h + 16) = Inr (0, a') \<and> load64 a' (header_next_free h) = Inr h \<and> free_list a' = h
    \<and> gca_size a' (curr_info h) = Inr s \<and> lock_good (mutex a') \<and> heap a' = heap a"
proof -
  have st: "gca_st a ([] @ (s, True) # []) [h] {}" and g: "lock_good (mutex a)" using ok by (simp_all add: gca_ok_def)
  have st0: "gca_st (held a) ([] @ (s, True) # []) [h] {}" using st by simp
  have h0: "h = g_end (heap (held a)) []" using h by simp
  have v: "[] @ [(0, False)] = (0, False) # []" by simp
  note b = gca_block [OF st0 h0 v] and ad = gca_addresses [OF gca_block(6) [OF st0 h0 v]]
  have i: "info (held a) h = (0, False)" "info (held a) (h + 8) = (s, True)" "info (held a) (h + s + 16) = (s, True)"
    "info (held a) (h + s + 24) = (0, False)" using b(8-11) by simp_all
  have s: "16 \<le> s" "h + s + 96 < 2 ^ 64" "0 < h" by (fact b(3) b(6) b(7))+
  have m: "mapped (held a) x" if "h \<le> x" "x \<le> h + s + 24" for x using b(12) that h by simp
  have mp: "mapped (held a) h" "mapped (held a) (h + 8)" "mapped (held a) (h + 16)" "mapped (held a) (h + 24)" "mapped (held a) (h + s + 16)" "mapped (held a) (h + s + 24)"
    using s(1) by (intro m; simp)+
  let ?a1 = "put_flag (h + 8) True (held a)" and ?a2 = "put_flag (h + s + 16) True (put_flag (h + 8) True (held a))"
  let ?a3 = "(put_word (h + 16) h (put_word (h + 24) h (put_word (h + 16) NULL ?a2)))\<lparr>free_list := h\<rparr>"
  have f0: "free_list a = h" using gca_stD(3) [OF st] by (simp add: free_list_ok_def)
  have li: "header_prev_free h = h + 16" "header_next_free h = h + 24" using s(2) by (simp_all add: header_prev_free_def header_next_free_def)
  have ops: "gca_set_used (held a) (curr_info h) 0 = Inr ?a1" "gca_set_used ?a1 (prev_info (h + s + 16)) 0 = Inr ?a2"
    using mp by (simp_all only: ad(1,4) gca_info_ops(4) put_fields)
  have nx: "gca_next ?a1 h = Inr (h + s + 16)" by (rule gca_next_ok [OF _ _ b(6)]) (use mp(2) i(2) in simp_all)
  have add: "gca_add_free_list ?a2 h = Inr ?a3"
    using mp s(3) by (simp add: gca_add_free_list_def li f0)
  have ap: "apart x y" if "x + 8 \<le> y \<or> y + 8 \<le> x" for x y using that by (simp add: apart_def)
  have i3: "info ?a3 h = (0, False)" "info ?a3 (h + 8) = (s, True)" "info ?a3 (h + s + 24) = (0, False)" "word_at ?a3 (h + 24) = h"
    using i s by (simp_all add: ap)
  have m3: "mapped ?a3 = mapped (held a)" by simp
  have n3: "gca_next ?a3 h = Inr (h + s + 16)" by (rule gca_next_ok [OF _ i3(2) b(6)]) (use mp(2) m3 in simp)
  have "gca_coalesce_next ?a3 h = Inr (False, ?a3)"
    unfolding gca_coalesce_next_def n3 rbind_Inr ad(2) using gca_info_ops(2) [of ?a3 "h + s + 24"] mp(6) m3 i3(3) by simp
  moreover have "gca_coalesce_prev ?a3 h = Inr (h, ?a3)"
    unfolding gca_coalesce_prev_def ad(4) using gca_info_ops(2) [of ?a3 h] mp(1) m3 i3(1) by simp
  ultimately have co: "gca_coalesce ?a3 h = Inr (h, ?a3)" by (simp add: gca_coalesce_def)
  have mu: "mutex ?a3 = mutex (held a)" by simp
  let ?a4 = "?a3\<lparr>mutex := cycled (mutex a)\<rparr>"
  have un: "alloc_unlock ?a3 = (0, ?a4)" by (rule unlock_held(1) [OF g mu])
  have d: "gca_data_to_header (h + 16) = h" using s(2) by (simp add: gca_data_to_header_def gca_consts usize_sub_le)
  have cond: "(heap a = NULL \<or> h + 16 = NULL) = False" "(0 = - (1 :: int)) = False" using s(3) h by simp_all
  have "gca_free a (h + 16) = Inr (0, ?a4)"
    unfolding gca_free_def cond if_False lock_held [OF g] prod.case Let_def d ops rbind_Inr nx add co un ..
  moreover have m4: "mapped ?a4 = mapped (held a)" "word_at ?a4 = word_at ?a3" "info ?a4 = info ?a3"
    by (simp_all add: fun_eq_iff info_def)
  moreover have "load64 ?a4 (header_next_free h) = Inr h"
    unfolding li using load64_ok [of ?a4 "h + 24"] m4(1,2) mp(4) i3(4) by simp
  moreover have "gca_size ?a4 (curr_info h) = Inr s"
    unfolding ad(1) using gca_info_ops(1) [of ?a4 "h + 8"] m4(1,3) mp(2) i3(2) by simp
  moreover have "lock_good (mutex ?a4)" using unlock_held(3) [OF g mu] by simp
  moreover have "free_list ?a4 = h" "heap ?a4 = heap a" by simp_all
  ultimately show ?thesis by blast
qed

lemma held_loads: "load64 (held a) p = load64 a p" "gca_size (held b) w = gca_size b w"
  by (simp_all add: gca_size_def load64_def held_def mapped_def)

lemma gca_malloc_hangs:
  assumes "lock_good (mutex a)" and "heap a \<noteq> NULL" and "0 < n" "n + 8208 \<le> 2 ^ 64"
    and "gca_find_free_block (held a) (g_round n) = Inl Hang"
  shows "gca_malloc a n = Inl Hang"
proof -
  have "gca_round_up n GCA_DATA_ALIGN = g_round n"
    using gca_round_up_ok [of 4 n] assms(3,4) by (simp add: gca_consts g_round_def)
  moreover have "g_round n \<noteq> 0" using g_round_facts(3) [OF assms(3)] by simp
  ultimately show ?thesis using assms by (simp add: gca_malloc_def lock_held)
qed


lemma gca_rounds_to_zero:
  assumes sz: "2 ^ 64 - 16 < sz" "sz < 2 ^ 64"
  shows "gca_round_up sz GCA_DATA_ALIGN = 0"
proof -
  have "usize (sz + 16) = sz - (2 ^ 64 - 16)" using sz unfolding usize_def by (subst mod_if) simp
  then have "usize_sub (usize (sz + 16)) 1 = sz - (2 ^ 64 - 15)" using sz by (simp add: usize_sub_le)
  moreover have "sz - (2 ^ 64 - 15) < 2 ^ 4" using sz by simp
  then have "take_bit 4 (sz - (2 ^ 64 - 15)) = sz - (2 ^ 64 - 15)" by (simp add: take_bit_nat_eq_self)
  moreover have "usize_sub 0 16 = usize_not (2 ^ 4 - 1)" by (simp add: usize_sub_def usize_not_def)
  moreover have "sz - (2 ^ 64 - 15) < 2 ^ 64" using sz by simp
  ultimately show ?thesis
    using and_usize_not_mask [of "sz - (2 ^ 64 - 15)" 4] sz unfolding gca_round_up_def gca_consts by simp
qed

text \<open>
  The sizes that round up to 0, asked of a heap that is one used block: the block is cut at 0
  bytes and its memory goes to the free list.
\<close>

lemma gca_realloc_zero_rounded:
  assumes ok: "gca_ok a [(s, False)] []" and l: "lk_mode (mutex a) = Unlocked" and h: "h = heap a" and s: "32 \<le> s"
    and sz: "2 ^ 64 - 16 < sz" "sz < 2 ^ 64"
  shows "\<exists>a'. gca_realloc a (h + 16) sz = Inr (h + 16, a') \<and> free_list a' = h + 16
    \<and> gca_size a' (curr_info (h + 16)) = Inr (s - 16) \<and> gca_used a' (curr_info (h + 16)) = Inr 0"
proof -
  have st: "gca_st a ([] @ (s, False) # []) [] {}" and g: "lock_good (mutex a)" using ok by (simp_all add: gca_ok_def)
  have st0: "gca_st (held a) ([] @ (s, False) # []) [] {}" using st by simp
  have h0: "h = g_end (heap (held a)) []" using h by simp
  have v: "[] @ [(0, False)] = (0, False) # []" by simp
  note b = gca_block [OF st0 h0 v]
  have i: "info (held a) h = (0, False)" "info (held a) (h + 8) = (s, False)" "info (held a) (h + s + 16) = (s, False)"
    "info (held a) (h + s + 24) = (0, False)" using b(8-11) by simp_all
  have b64: "h + s + 96 < 2 ^ 64" "0 < h" and s16: "16 dvd s" by (fact b(6) b(7) b(4))+
  have m: "mapped (held a) x" if "h \<le> x" "x \<le> h + s + 24" for x using b(12) that h by simp
  have mp: "mapped (held a) (h + 8)" "mapped (held a) (h + 16)" "mapped (held a) (h + 24)" "mapped (held a) (h + 32)" "mapped (held a) (h + 40)"
    "mapped (held a) (h + s + 16)" "mapped (held a) (h + s + 24)"
    using s by (intro m; simp)+
  have ad: "curr_info h = h + 8" "curr_info (h + 16) = h + 24" "curr_info (h + s + 16) = h + s + 24" "prev_info x = x"
    "header_prev_free (h + 16) = h + 32" "header_next_free (h + 16) = h + 40" for x
    using b64 by (simp_all add: curr_info_def prev_info_def header_prev_free_def header_next_free_def)
  have ap: "apart x y" if "x + 8 \<le> y \<or> y + 8 \<le> x" for x y using that by (simp add: apart_def)
  note rnd = gca_rounds_to_zero [OF sz]
  let ?m = "s - 16"
  have vm: "8 dvd ?m" "?m < 2 ^ 64" using s16 b64 by (auto elim!: dvdE)
  let ?a3 = "put_size (h + 8) 0 (put_flag (h + s + 16) True (put_size (h + s + 16) ?m (held a)))"
  let ?a7 = "put_flag (h + 24) True (put_size (h + 24) ?m (put_flag (h + 16) False (put_size (h + 16) 0 ?a3)))"
  let ?a8 = "(put_word (h + 40) NULL (put_word (h + 32) NULL ?a7))\<lparr>free_list := h + 16\<rparr>"
  have sz0: "gca_size (held a) (h + 8) = Inr s" using gca_info_ops(1) [OF mp(1)] i(2) by simp
  have nx: "gca_next (held a) h = Inr (h + s + 16)" by (rule gca_next_ok [OF mp(1) i(2) b64(1)])
  have d: "gca_data_to_header (h + 16) = h" using b64 by (simp add: gca_data_to_header_def gca_consts usize_sub_le)
  have i3: "info ?a3 (h + 8) = (0, False)" using i s by (simp add: ap)
  have nx3: "gca_next ?a3 h = Inr (h + 16)" using gca_next_ok [OF _ i3, of ] mp(1) b64 by simp
  have i7: "info ?a7 (h + 24) = (?m, True)" using vm by simp
  have i8: "info ?a8 (h + 24) = (?m, True)" "info ?a8 (h + s + 24) = (0, False)" using i7 i s vm by (simp_all add: ap)
  have e8: "h + 16 + 8 = h + 24" "h + 16 + ?m + 16 = h + s + 16" using s by simp_all
  have nx8: "gca_next ?a8 (h + 16) = Inr (h + s + 16)"
    by (rule gca_next_ok [of ?a8 "h + 16" ?m True, unfolded e8]) (use i8(1) mp(3) b64 s in simp_all)
  have u3: "gca_used (put_size (h + 16) 0 ?a3) (h + 8) = Inr 1" using mp(1) i3 by (simp add: gca_info_ops ap)
  have fl: "free_list (held a) = NULL" using gca_stD(3) [OF st0] by (simp add: free_list_ok_def)
  have sub: "usize_sub (usize_sub s 0) GCA_INFO_SIZE = ?m" "(s < usize (0 + GCA_INFO_SIZE + GCA_DATA_ALIGN)) = False"
    using s b64 by (simp_all add: gca_consts usize_sub_le)
  have "gca_add_free_list ?a7 (h + 16) = Inr ?a8" using mp fl by (simp add: gca_add_free_list_def ad)
  moreover have "gca_coalesce_next ?a8 (h + 16) = Inr (False, ?a8)"
    unfolding gca_coalesce_next_def nx8 rbind_Inr ad(3) using gca_info_ops(2) [of ?a8 "h + s + 24"] mp(7) i8(2) by simp
  moreover have "gca_set_size (held a) (h + s + 16) ?m = Inr (put_size (h + s + 16) ?m (held a))"
    by (rule gca_info_ops(3) [OF mp(6) vm(1)])
  moreover have "gca_set_used (put_size (h + s + 16) ?m (held a)) (h + s + 16) 0 = Inr (put_flag (h + s + 16) True (put_size (h + s + 16) ?m (held a)))"
    using mp(6) by (intro gca_info_ops(4)) simp
  moreover have "gca_set_size (put_flag (h + s + 16) True (put_size (h + s + 16) ?m (held a))) (h + 8) 0 = Inr ?a3"
    using mp(1) by (intro gca_info_ops(3)) simp_all
  moreover have "gca_set_size ?a3 (h + 16) 0 = Inr (put_size (h + 16) 0 ?a3)" using mp(2) by (intro gca_info_ops(3)) simp_all
  moreover have "gca_set_used (put_size (h + 16) 0 ?a3) (h + 16) 1 = Inr (put_flag (h + 16) False (put_size (h + 16) 0 ?a3))"
    using mp(2) by (intro gca_info_ops(5)) simp
  moreover have "gca_set_size (put_flag (h + 16) False (put_size (h + 16) 0 ?a3)) (h + 24) ?m
      = Inr (put_size (h + 24) ?m (put_flag (h + 16) False (put_size (h + 16) 0 ?a3)))"
    using mp(3) vm(1) by (intro gca_info_ops(3)) simp_all
  moreover have "gca_set_used (put_size (h + 24) ?m (put_flag (h + 16) False (put_size (h + 16) 0 ?a3))) (h + 24) 0 = Inr ?a7"
    using mp(3) by (intro gca_info_ops(4)) simp
  ultimately have split: "gca_split_block (held a) h 0 = Inr (h + 16, ?a8)"
    unfolding gca_split_block_def ad sz0 rbind_Inr sub(2) if_False Let_def sub(1) nx
    by (simp only: rbind_Inr nx3 ad u3 prod.case)
  have mu: "mutex ?a8 = mutex (held a)" by simp
  let ?a9 = "?a8\<lparr>mutex := cycled (mutex a)\<rparr>"
  have un: "unlock_return ?a8 (h + 16) NULL = Inr (h + 16, ?a9)" by (rule unlock_held(2) [OF g mu])
  have cond: "(heap a = NULL \<or> sz = 0) = False" "(0 = - (1 :: int)) = False" "(h + 16 = NULL) = False" "(0 \<le> s) = True"
    using b64(2) h sz(1) by auto
  have "gca_realloc a (h + 16) sz = Inr (h + 16, ?a9)"
    unfolding gca_realloc_def cond if_False lock_held [OF g] prod.case Let_def rnd d ad sz0 rbind_Inr if_True split un ..
  moreover have "free_list ?a9 = h + 16" by simp
  moreover have "mapped ?a9 (h + 24)" "info ?a9 (h + 24) = (?m, True)" using mp(3) i8(1) by simp_all
  then have "gca_size ?a9 (curr_info (h + 16)) = Inr ?m" "gca_used ?a9 (curr_info (h + 16)) = Inr 0"
    by (simp_all only: ad gca_info_ops(1,2) fst_conv snd_conv if_True)
  ultimately show ?thesis by blast
qed
text \<open>
  A size that rounds up to 0 is not refused by \<open>gca_realloc\<close>, although \<open>gca_malloc\<close> refuses it:
  asked for at least \<open>SIZE_MAX - 14\<close> bytes of the only block, it reports success, and the memory
  of the block, which the caller still holds, becomes the free list.
\<close>

theorem gca_realloc_rounds_to_zero:
  assumes "gca_run a [p \<mapsto> m]" and "p = heap a + 16" and "free_list a = NULL" and "heap a + 64 \<le> current_brk a"
    and "2 ^ 64 - 16 < sz" and "sz < 2 ^ 64"
  shows "\<exists>a'. gca_realloc a p sz = Inr (p, a') \<and> free_list a' = p \<and> gca_used a' (curr_info p) = Inr 0
    \<and> (\<exists>e. gca_malloc a sz = Inr (NULL, e))"
proof -
  obtain bs fl where ok: "gca_run_ok a [p \<mapsto> m] bs fl" using gca_run_invariant [OF assms(1)] by blast
  then have l: "lk_mode (mutex a) = Unlocked" and g: "gca_ok a bs fl" by (simp_all add: gca_run_ok_def gca_heap_ok_def)
  have st: "gca_st a bs fl {}" and t: "tracked (block_used 16 (heap a) bs) [p \<mapsto> m]" and ne: "bs \<noteq> []" using gca_run_st [OF ok] by simp_all
  note r = gca_regionD [OF gca_stD(1) [OF st]]
  have fl: "fl = []"
  proof (cases fl)
    case (Cons x xs)
    then have "free_list a = x" "0 < x" using gca_stD(3) [OF st] by (simp_all add: free_list_ok_def)
    then show ?thesis using assms(3) by simp
  qed
  obtain s f cs where b: "bs = (s, f) # cs" using ne by (cases bs) auto
  have nf: "\<not> f" using gca_stD(4) [OF st] fl b by (cases f) auto
  have "cs = []"
  proof (cases cs)
    case (Cons c ds)
    obtain k e where c: "c = (k, e)" by fastforce
    have "\<not> e" using gca_stD(4) [OF st] fl b Cons c nf by (cases e) auto
    then have "(heap a + s + 16, k) \<in> block_used 16 (heap a) bs" using b Cons c nf by simp
    from trackedD(2) [OF t this] have "heap a + s + 32 = p" by simp
    then show ?thesis using assms(2) by simp
  qed simp
  then have bs: "bs = [(s, False)]" using b nf by simp
  have s: "32 \<le> s" using r(5) assms(4) by (simp add: bs)
  obtain a' where "gca_realloc a (heap a + 16) sz = Inr (heap a + 16, a')" "free_list a' = heap a + 16"
    "gca_used a' (curr_info (heap a + 16)) = Inr 0"
    using gca_realloc_zero_rounded [OF g [unfolded bs fl] l refl s assms(5,6)] by blast
  moreover have "\<exists>e. gca_malloc a sz = Inr (NULL, e)"
  proof -
    have lg: "lock_good (mutex a)" using g by (simp add: gca_ok_def)
    have "mutex (set_alloc_errno MALLOC_FAILED (held a)) = mutex (held a)" by (simp add: set_alloc_errno_def)
    note u = unlock_held(2) [OF lg this]
    show ?thesis
      using r(1) assms(5) by (simp add: gca_malloc_def lock_held [OF lg] gca_rounds_to_zero [OF assms(5,6)] u)
  qed
  ultimately show ?thesis by (simp add: assms(2))
qed

theorem gca_realloc_rounds_to_zero_witness:
  "\<exists>a a'. gca_run a [8208 \<mapsto> 4064] \<and> gca_realloc a 8208 (2 ^ 64 - 1) = Inr (8208, a') \<and> free_list a' = 8208"
proof -
  obtain a0 a where a: "gca_run a0 Map.empty" "heap a0 = 8192" "gca_run_ok a0 Map.empty [(4064, True)] [8192]"
    using small_gca by blast
  have g: "gca_ok a0 [(4064, True)] [8192]" using a(3) by (simp add: gca_run_ok_def gca_heap_ok_def)
  have "\<not> g_no_fit (heap a0) [(4064, True)] 4064" by (simp add: g_no_fit_def)
  moreover have "g_round 4064 = 4064" by (simp add: g_round_def)
  ultimately obtain us s ws h a1 where b: "[(4064, True)] = us @ (s, True) # ws" "h = g_end (heap a0) us"
    "gca_malloc a0 4064 = Inr (h + 16, a1)" "gca_ok a1 (us @ g_carve 4064 s @ ws) (g_rest h 4064 s [8192])" "heap a1 = heap a0"
    using gca_malloc_spec [OF g, of 4064 4064] by (simp, elim exE conjE) metis
  then have us: "us = []" "s = 4064" "ws = []" by (cases us; simp)+
  then have h: "h = 8192" and g1: "gca_ok a1 [(4064, False)] []" using b(2,4) a(2) by (simp_all add: g_carve_def g_rest_def)
  have run: "gca_run a1 [8208 \<mapsto> 4064]" using gca_run.gca_allocated [OF a(1) _ b(3)] h by simp
  have st: "gca_st a1 [(4064, False)] [] {}" using g1 by (simp add: gca_ok_def)
  have "free_list a1 = NULL" "current_brk a1 = 8192 + 4096"
    using gca_stD(3) [OF st] gca_regionD(5) [OF gca_stD(1) [OF st]] b(5) a(2) by (simp_all add: free_list_ok_def)
  then show ?thesis using gca_realloc_rounds_to_zero [OF run _ _ _ , of "2 ^ 64 - 1"] run b(5) a(2) by auto
qed

lemma gca_page_overflow:
  assumes n: "2 ^ 64 - 4112 < n" "n \<le> 2 ^ 64 - 16" and m: "m = g_round n"
  shows "gca_round_up n GCA_DATA_ALIGN = m" "gca_round_up (usize (m + GCA_INFO_SIZE)) GCA_SBRK_ALIGN = 0" "0 < m" "2 ^ 63 \<le> m"
proof -
  show "gca_round_up n GCA_DATA_ALIGN = m"
    using gca_round_up_ok [of 4 n] n by (simp add: gca_consts g_round_def m)
  have m1: "n \<le> m" "m \<le> 2 ^ 64 - 16"
  proof -
    show "n \<le> m" using g_round_facts(1) m by simp
    have "g_round n \<le> g_round (2 ^ 64 - 16)" unfolding g_round_def using n(2) by (intro mult_le_mono1 div_le_mono) simp
    then show "m \<le> 2 ^ 64 - 16" by (simp add: m g_round_def)
  qed
  show "0 < m" "2 ^ 63 \<le> m" using m1(1) n(1) by simp_all
  have d: "usize_sub 0 4096 = usize_not (2 ^ 12 - 1)" by (simp add: usize_sub_def usize_not_def)
  show "gca_round_up (usize (m + GCA_INFO_SIZE)) GCA_SBRK_ALIGN = 0"
  proof (cases "m + 16 = 2 ^ 64")
    case True
    then have "usize (m + 16) = 0" unfolding usize_def by simp
    then show ?thesis unfolding gca_round_up_def gca_consts using and_usize_not_mask [of 4095 12] d by (simp add: usize_sub_le)
  next
    case False
    then have lt: "m + 16 < 2 ^ 64" using m1(2) by simp
    have gt: "2 ^ 64 - 4096 < m + 16" using m1(1) n(1) by simp
    have "usize (m + 16 + 4096) = m + 16 - (2 ^ 64 - 4096)" using lt gt unfolding usize_def by (subst mod_if) simp
    moreover have "usize_sub (m + 16 - (2 ^ 64 - 4096)) 1 = m + 16 - (2 ^ 64 - 4095)" using gt lt by (simp add: usize_sub_le)
    moreover have "m + 16 - (2 ^ 64 - 4095) < 2 ^ 12" using lt by simp
    then have "(m + 16 - (2 ^ 64 - 4095)) div 2 ^ 12 = 0" by simp
    ultimately show ?thesis unfolding gca_round_up_def gca_consts using lt d and_usize_not_mask [of "m + 16 - (2 ^ 64 - 4095)" 12] by simp
  qed
qed



end
