(* ===== verification/Heap_Entry.thy ===== *)
theory Heap_Entry
  imports Prelude
begin

text \<open>
  What is left of the heap hash table (\<open>cache/heap_hashtable\<close>), whose table is commented out: its
  entries (\<open>heap_entry.c\<close>) on a memory of entries, key buffers and integers, and the atomic swap
  of \<open>atomic_utils.h\<close>.
\<close>

section \<open>Entries\<close>

record HeapEntry =
  he_key :: "addr option"
  he_length :: nat
  he_value :: "addr option"
  he_index :: int

record he_mem = mem +
  entry_at :: "addr \<Rightarrow> HeapEntry option"
  chars_at :: "addr \<Rightarrow> bytes option"
  int_at :: "addr \<Rightarrow> int option"

definition load_entry :: "he_mem \<Rightarrow> addr \<Rightarrow> HeapEntry res" where
  "load_entry m a = (case entry_at m a of None \<Rightarrow> Inl UseAfterFree | Some e \<Rightarrow> Inr e)"

definition load_int :: "he_mem \<Rightarrow> addr option \<Rightarrow> int res" where
  "load_int m p = rbind (deref p) (\<lambda>a. case int_at m a of None \<Rightarrow> Inl UseAfterFree | Some i \<Rightarrow> Inr i)"

text \<open>\<open>strncpy\<close> fills up with NULs and writes exactly \<open>n\<close> bytes.\<close>

definition strncpy :: "bytes \<Rightarrow> bytes \<Rightarrow> nat \<Rightarrow> bytes" where
  "strncpy buf s n = take n (s @ replicate n 0) @ drop n buf"

text \<open>A failed request for the key leaves the entry behind, with fields that were never set.\<close>

definition he_create :: "he_mem \<Rightarrow> bytes \<Rightarrow> addr option \<Rightarrow> (addr option \<times> he_mem) res" where
  "he_create m key val =
     (case am_malloc m of
        (None, m1) \<Rightarrow> Inr (None, m1)
      | (Some a, m1) \<Rightarrow>
          rbind (cstr key) (\<lambda>s.
          let e = \<lparr>he_key = None, he_length = length s, he_value = None, he_index = 0\<rparr> in
          (case am_calloc m1 (usize (length s + 1)) 1 of
             (None, m2) \<Rightarrow> Inr (None, m2\<lparr>entry_at := (entry_at m2)(a \<mapsto> e)\<rparr>)
           | (Some k, m2) \<Rightarrow>
               Inr (Some a, m2\<lparr>entry_at := (entry_at m2)(a \<mapsto> e\<lparr>he_key := Some k, he_value := val, he_index := - 1\<rparr>),
                 chars_at := (chars_at m2)(k \<mapsto> strncpy (replicate (length s + 1) 0) s (length s))\<rparr>))))"

definition he_destroy :: "he_mem \<Rightarrow> addr option \<Rightarrow> he_mem res" where
  "he_destroy m p =
     (case p of None \<Rightarrow> Inr m
      | Some a \<Rightarrow> if entry_at m a = None then Inl DoubleFree else Inr (m\<lparr>entry_at := (entry_at m)(a := None)\<rparr>))"

definition he_less_than :: "he_mem \<Rightarrow> addr option \<Rightarrow> addr option \<Rightarrow> int res" where
  "he_less_than m entry1 entry2 =
     (case (entry1, entry2) of
        (Some a1, Some a2) \<Rightarrow>
          rbind (load_entry m a1) (\<lambda>e1.
          rbind (load_entry m a2) (\<lambda>e2.
          if he_value e1 \<noteq> None \<and> he_value e2 = None then Inr 1
          else if he_value e1 = None \<and> he_value e2 \<noteq> None then Inr 0
          else
            rbind (load_int m (he_value e1)) (\<lambda>i1.
            rbind (load_int m (he_value e2)) (\<lambda>i2. Inr (if i1 < i2 then 1 else 0)))))
      | _ \<Rightarrow> Inr (- 1))"

section \<open>Properties of entries\<close>

lemma cstr_string: "0 \<notin> set s \<Longrightarrow> cstr (s @ 0 # r) = Inr s"
  by (induction s) auto

text \<open>
  \<open>he_create\<close> keeps a copy of the key, with its NUL, and the value; \<open>he_destroy\<close> releases the
  entry only, so that the copy of the key stays allocated.
\<close>

theorem he_create_destroy_leaks:
  assumes "never_fails m" and "0 \<notin> set s" and "length s + 1 < 2 ^ 64" and "entry_at m (allocs m) = None"
  shows "\<exists>a k m1 m2. he_create m (s @ 0 # r) val = Inr (Some a, m1)
    \<and> entry_at m1 a = Some \<lparr>he_key = Some k, he_length = length s, he_value = val, he_index = - 1\<rparr> \<and> chars_at m1 k = Some (s @ [0])
    \<and> he_destroy m1 (Some a) = Inr m2 \<and> entry_at m2 = entry_at m \<and> chars_at m2 k = Some (s @ [0])"
proof -
  have c: "strncpy (replicate (length s + 1) 0) s (length s) = s @ [0]" by (simp add: strncpy_def replicate_append_same [symmetric])
  have "never_fails (m\<lparr>allocs := Suc (allocs m)\<rparr>)" using assms(1) by (simp add: never_fails_def)
  then show ?thesis
    using assms c by (auto simp: he_create_def he_destroy_def am_malloc_ok am_calloc_def cstr_string usize_def Let_def)
qed

theorem he_create_destroy_leaks_witness:
  "\<exists>m m1 m2 k. he_create m [97, 0] None = Inr (Some 0, m1) \<and> he_destroy m1 (Some 0) = Inr m2 \<and> chars_at m2 k = Some [97, 0]"
proof -
  let ?m = "\<lparr>allocs = 0, alloc_fails = (\<lambda>_. False), entry_at = Map.empty, chars_at = Map.empty, int_at = Map.empty\<rparr> :: he_mem"
  have "never_fails ?m" by (simp add: never_fails_def)
  moreover have "he_create ?m [97, 0] None = Inr (a, m1) \<Longrightarrow> a = Some 0" for a m1
    by (auto simp: he_create_def am_malloc_def am_calloc_def Let_def split: if_splits)
  ultimately show ?thesis using he_create_destroy_leaks [of ?m "[97]" "[]" None] by fastforce
qed

text \<open>
  Between entries with values \<open>he_less_than\<close> returns 1 exactly for less; with one value missing
  it ranks the missing value higher; with both missing it reads through \<open>NULL\<close>.
\<close>

theorem he_less_than_cases:
  assumes "entry_at m a1 = Some e1" and "entry_at m a2 = Some e2"
  shows "he_less_than m (Some a1) (Some a2) =
    (case (he_value e1, he_value e2) of
       (None, None) \<Rightarrow> Inl NullDeref | (Some _, None) \<Rightarrow> Inr 1 | (None, Some _) \<Rightarrow> Inr 0
     | (Some v1, Some v2) \<Rightarrow> rbind (load_int m (Some v1)) (\<lambda>i1. rbind (load_int m (Some v2)) (\<lambda>i2. Inr (if i1 < i2 then 1 else 0))))"
  using assms by (auto simp: he_less_than_def load_entry_def load_int_def split: option.splits)

section \<open>The atomic swap\<close>

type_synonym ptr_pair = "addr \<times> addr"

text \<open>
  One attempt of the weak compare-and-exchange sees the value that memory has at that moment and
  may fail for no reason. The attempts are a list; \<open>None\<close> says that all of them failed, else the
  value replaced and the value written.
\<close>

fun swap_loop :: "(ptr_pair \<times> bool) list \<Rightarrow> ptr_pair \<Rightarrow> ptr_pair \<Rightarrow> (ptr_pair \<times> ptr_pair) option" where
  "swap_loop [] actual future = None"
| "swap_loop ((v, spurious) # ats) actual future =
     (if v = actual \<and> \<not> spurious then Some (v, future) else swap_loop ats v (snd v, fst v))"

definition atomic_swap :: "(ptr_pair \<times> bool) list \<Rightarrow> (ptr_pair \<times> ptr_pair) option" where
  "atomic_swap ats = swap_loop ats (0, 0) (0, 0)"

lemma swap_loop_writes: "future = (snd actual, fst actual) \<Longrightarrow> swap_loop ats actual future = Some (v, w) \<Longrightarrow> w = (snd v, fst v)"
  by (induction ats actual future rule: swap_loop.induct) (auto split: if_splits)

lemma swap_loop_succeeds: "swap_loop (ats @ [(v, b), (v, False)]) actual future \<noteq> None"
proof (induction ats arbitrary: actual future)
  case (Cons at ats)
  then show ?case by (cases at) auto
qed auto

text \<open>
  Whatever other threads do, the swap replaces a value by its mirror image in one step, and it
  is done as soon as two attempts in a row see the same value and the second is not spurious.
\<close>

theorem atomic_swap_exchanges:
  "(\<forall>v w. atomic_swap ats = Some (v, w) \<longrightarrow> w = (snd v, fst v)) \<and> atomic_swap (ats @ [(v, b), (v, False)]) \<noteq> None"
  using swap_loop_writes swap_loop_succeeds unfolding atomic_swap_def by (metis fst_conv snd_conv)

end
