(* ===== verification/Error_Report.thy ===== *)
theory Error_Report
  imports Locks
begin

text \<open>
  The thread-local error state of \<open>allocator/error\<close> and the macros that set and print it. The
  buffers for the location and for the message of \<open>strerror\<close> have a fixed size; a place in the
  source, as \<open>__func__(__FILE__:__LINE__)\<close>, is an argument.
\<close>

section \<open>State and macros\<close>

record errno_state =
  errno_code :: AllocatorErrno
  errno_location :: string
  errno_strerr :: string

definition MAX_PREFIX_LENGTH :: nat where
  "MAX_PREFIX_LENGTH = 1024"

definition MAX_ERR_LINE_LENGTH :: nat where
  "MAX_ERR_LINE_LENGTH = 1024"

text \<open>\<open>sprintf\<close> into a buffer of \<open>n\<close> bytes.\<close>

definition sprintf_into :: "nat \<Rightarrow> string \<Rightarrow> string res" where
  "sprintf_into n s = (if length s < n then Inr s else Inl OutOfBounds)"

definition set_errno_at :: "string \<Rightarrow> AllocatorErrno \<Rightarrow> errno_state \<Rightarrow> errno_state res" where
  "set_errno_at place err st =
     rbind (sprintf_into MAX_ERR_LINE_LENGTH place) (\<lambda>loc. Inr (st\<lparr>errno_code := err, errno_location := loc\<rparr>))"

definition set_alloc_errno_msg :: "string \<Rightarrow> AllocatorErrno \<Rightarrow> string \<Rightarrow> errno_state \<Rightarrow> errno_state res" where
  "set_alloc_errno_msg place err msg st =
     rbind (sprintf_into MAX_ERR_LINE_LENGTH ('': ['' @ msg @ '']:'')) (\<lambda>s. set_errno_at place err (st\<lparr>errno_strerr := s\<rparr>))"

definition new_line :: string where
  "new_line = [char_of (10 :: nat)]"

definition new_line_at :: string where
  "new_line_at = [char_of (10 :: nat), char_of (9 :: nat)] @ ''at ''"

text \<open>The text printed; the NUL behind the copied prefix is stored at index \<open>str_len\<close> of its buffer.\<close>

definition alloc_perror :: "string \<Rightarrow> string \<Rightarrow> errno_state \<Rightarrow> string res" where
  "alloc_perror place pre st =
     (let str_len = (if MAX_PREFIX_LENGTH < length pre then MAX_PREFIX_LENGTH else length pre) in
      if MAX_PREFIX_LENGTH \<le> str_len then Inl OutOfBounds
      else Inr (take str_len pre @ get_alloc_errmsg (errno_code st) @ errno_strerr st @ new_line_at @ place
        @ new_line_at @ errno_location st @ new_line))"

section \<open>Properties\<close>

text \<open>
  The truncation of the prefix is one too late: every prefix that would be truncated, and one
  of exactly the size of the buffer, has its NUL stored behind the buffer.
\<close>

theorem alloc_perror_truncation_overflows: "alloc_perror place pre st = Inl OutOfBounds \<longleftrightarrow> MAX_PREFIX_LENGTH \<le> length pre"
  by (simp add: alloc_perror_def Let_def MAX_PREFIX_LENGTH_def)

text \<open>
  The message of \<open>strerror\<close> is never cleared: an error set without a message is printed with the
  one that belongs to an earlier error.
\<close>

theorem alloc_perror_stale_reason:
  assumes "set_alloc_errno_msg p1 e1 msg st = Inr st1" and "set_errno_at p2 e2 st1 = Inr st2" and "length pre < MAX_PREFIX_LENGTH"
  shows "\<exists>rest. alloc_perror p3 pre st2 = Inr (pre @ get_alloc_errmsg e2 @ '': ['' @ msg @ '']:'' @ rest)"
  using assms by (auto simp: set_alloc_errno_msg_def set_errno_at_def sprintf_into_def alloc_perror_def Let_def split: if_splits)

theorem alloc_perror_stale_reason_witness:
  "\<exists>st st1 st2 rest. set_alloc_errno_msg ''a'' HEAP_MMAP_FAILED ''no memory'' st = Inr st1 \<and> set_errno_at ''b'' BLOCK_IS_NULL st1 = Inr st2
    \<and> alloc_perror ''c'' ''error: '' st2 = Inr (''error: '' @ ''Block in context is null'' @ '': ['' @ ''no memory'' @ '']:'' @ rest)"
proof -
  let ?st = "\<lparr>errno_code = NONE, errno_location = '''', errno_strerr = ''''\<rparr>"
  obtain st1 where 1: "set_alloc_errno_msg ''a'' HEAP_MMAP_FAILED ''no memory'' ?st = Inr st1"
    by (simp add: set_alloc_errno_msg_def set_errno_at_def sprintf_into_def MAX_ERR_LINE_LENGTH_def)
  obtain st2 where 2: "set_errno_at ''b'' BLOCK_IS_NULL st1 = Inr st2"
    by (simp add: set_errno_at_def sprintf_into_def MAX_ERR_LINE_LENGTH_def)
  have "length ''error: '' < MAX_PREFIX_LENGTH" by (simp add: MAX_PREFIX_LENGTH_def)
  from alloc_perror_stale_reason [OF 1 2 this, of "''c''"] 1 2 show ?thesis by auto
qed

end
