(* ===== verification/Test_Programs.thy ===== *)
theory Test_Programs
  imports DQ_Hashtable Random_Cache Driver
begin

text \<open>
  The two test programs of the repository, \<open>dqht_test.c\<close> and \<open>random_test.c\<close>, with the C library's
  \<open>malloc\<close>. The values stored are pointers into a static array of integers, so a value is an
  index. The result of a program is its exit code; what it prints on the way is left out, the
  dereferences for it are not.
\<close>

section \<open>The test of the dequeue hash table\<close>

definition dqht_test_terms :: "string list" where
  "dqht_test_terms = [''test1'', ''other'', ''more'', ''something'', ''yeahd'', ''dgsdfs'', ''ehjigdss'', ''oijfguod'', ''ngujhdw'', ''doij42od'']"

definition dqht_test_values :: "int list" where
  "dqht_test_values = [56135, 7345, 5246, 16473, 9537, 24675, 55363, 426723, 957357, 64526]"

text \<open>The handler frees its argument, which no memory function of this program has returned.\<close>

definition destroy_entry_handler :: "(nat, 'z mem_scheme) destroy_handler" where
  "destroy_entry_handler entry ctx m = (case entry of None \<Rightarrow> Inr m | Some _ \<Rightarrow> Inl DoubleFree)"

primrec dqht_test_keys :: "string list \<Rightarrow> 'z mem_scheme \<Rightarrow> (bytes list \<times> 'z mem_scheme) res" where
  "dqht_test_keys [] m = Inr ([], m)"
| "dqht_test_keys (t # ts) m =
     rbind (key_create m SINGLE_OP (c_string t) None) (\<lambda>(k, m1).
     rbind (dqht_test_keys ts m1) (\<lambda>(ks, m2). Inr (k # ks, m2)))"

text \<open>\<open>*((int* ) entry->ptr)\<close>\<close>

definition entry_int :: "(nat, 'w) DequeueHashTable \<Rightarrow> addr option \<Rightarrow> int res" where
  "entry_int d entry =
     rbind (deref entry) (\<lambda>a. rbind (load (dq_store d) a) (\<lambda>e. rbind (deref (e_ptr e)) (elem dqht_test_values)))"

text \<open>The checks after the insertion of element \<open>i\<close>.\<close>

definition ends_wrong :: "nat \<Rightarrow> (nat, 'w) DequeueHashTable \<Rightarrow> bool res" where
  "ends_wrong i d =
     (if i = 0 then
        rbind (deref (dq_tail d)) (\<lambda>b. rbind (load (dq_store d) b) (\<lambda>f.
        if e_prev f \<noteq> None then Inr True
        else rbind (deref (dq_head d)) (\<lambda>a. rbind (load (dq_store d) a) (\<lambda>e. Inr (e_next e \<noteq> None)))))
      else
        rbind (entry_int d (dq_tail d)) (\<lambda>x. rbind (elem dqht_test_values 0) (\<lambda>x0.
        if x \<noteq> x0 then Inr True
        else rbind (entry_int d (dq_head d)) (\<lambda>y. rbind (elem dqht_test_values i) (\<lambda>yi. Inr (y \<noteq> yi))))))"

text \<open>The three loops; \<open>Some c\<close> is an early return of code \<open>c\<close>.\<close>

fun dqht_test_push ::
  "nat \<Rightarrow> bytes list \<Rightarrow> (nat, 'z mem_scheme) DequeueHashTable \<Rightarrow> 'z mem_scheme \<Rightarrow>
     (int option \<times> (nat, 'z mem_scheme) DequeueHashTable \<times> 'z mem_scheme) res" where
  "dqht_test_push i [] d m = Inr (None, d, m)"
| "dqht_test_push i (k # ks) d m =
     rbind (dqht_push_front m d (Some k) (Some i)) (\<lambda>(r, d1, m1).
     if r \<noteq> 0 then rbind (key_sprint (Some k)) (\<lambda>_. Inr (Some 1, d1, m1))
     else
       rbind (if dq_head d1 = None \<and> dq_tail d1 = None then Inr 0
              else rbind (entry_int d1 (dq_head d1)) (\<lambda>_. entry_int d1 (dq_tail d1))) (\<lambda>_.
       rbind (ends_wrong i d1) (\<lambda>bad. if bad then Inr (Some 1, d1, m1) else dqht_test_push (Suc i) ks d1 m1)))"

fun dqht_test_get :: "nat \<Rightarrow> bytes list \<Rightarrow> (nat, 'w) DequeueHashTable \<Rightarrow> int option res" where
  "dqht_test_get i [] d = Inr None"
| "dqht_test_get i (k # ks) d =
     rbind (dqht_get d (Some k)) (\<lambda>v.
     (case v of None \<Rightarrow> rbind (key_sprint (Some k)) (\<lambda>_. Inr (Some 1))
      | Some j \<Rightarrow>
          rbind (elem dqht_test_values j) (\<lambda>x. rbind (elem dqht_test_values i) (\<lambda>y.
          if x \<noteq> y then Inr (Some 1) else dqht_test_get (Suc i) ks d))))"

fun dqht_test_pop :: "bytes list \<Rightarrow> (nat, 'w) DequeueHashTable \<Rightarrow> (int option \<times> (nat, 'w) DequeueHashTable) res" where
  "dqht_test_pop [] d = Inr (None, d)"
| "dqht_test_pop (k # ks) d =
     rbind (dqht_pop_last d) (\<lambda>(v, d1).
     if v = None then rbind (key_sprint (Some k)) (\<lambda>_. Inr (Some 1, d1)) else dqht_test_pop ks d1)"

definition dqht_test_main :: "'z mem_scheme \<Rightarrow> int res" where
  "dqht_test_main m =
     rbind (dqht_create m 10 None (Some destroy_entry_handler)) (\<lambda>(table, m1).
     (case table of None \<Rightarrow> Inr 1
      | Some d \<Rightarrow>
          rbind (dqht_test_keys dqht_test_terms m1) (\<lambda>(to_store, m2).
          rbind (dqht_test_push 0 to_store d m2) (\<lambda>(early, d1, m3).
          if early \<noteq> None then Inr 1
          else if ht_count (dq_ht d1) \<noteq> 10 then Inr 1
          else
            rbind (dqht_print_table d1) (\<lambda>_.
            rbind (dqht_test_get 0 to_store d1) (\<lambda>early.
            if early \<noteq> None then Inr 1
            else
              rbind (dqht_print_table d1) (\<lambda>_.
              rbind (dqht_test_pop to_store d1) (\<lambda>(early, d2).
              if early \<noteq> None then Inr 1
              else if ht_count (dq_ht d2) \<noteq> 0 then Inr 1
              else
                rbind (dqht_print_table d2) (\<lambda>_.
                rbind (dqht_destroy m3 d2) (\<lambda>_. Inr 0)))))))))) "

section \<open>The test of the random cache\<close>

definition random_test_main :: "'z mem_scheme \<Rightarrow> int res" where
  "random_test_main m =
     rbind (rc_create m 10 10 None) (\<lambda>(rc, m1).
     (case rc of None \<Rightarrow> Inr 1 | Some c \<Rightarrow> rbind (rc_destroy c) (\<lambda>_. Inr 0)))"

section \<open>The tests pass\<close>

lemma dqht_test_keys_ok: "never_fails m \<Longrightarrow>
    dqht_test_keys ts m = Inr (map (\<lambda>t. key_layout SINGLE_OP (c_string t) None) ts, m\<lparr>allocs := allocs m + length ts\<rparr>)"
  by (induction ts arbitrary: m) (simp_all add: key_create_def am_malloc_ok never_fails_def)

definition test_keys :: "bytes list" where
  "test_keys = map (\<lambda>t. key_layout SINGLE_OP (c_string t) None) dqht_test_terms"

lemma test_keys_ok: "length test_keys = 10" "distinct test_keys" "\<forall>k \<in> set test_keys. wf_key k"
proof -
  have p: "list_all (\<lambda>t. wf_parts SINGLE_OP (c_string t) None) dqht_test_terms" "distinct (map c_string dqht_test_terms)"
    by code_simp+
  have w: "wf_parts SINGLE_OP (c_string t) None" if "t \<in> set dqht_test_terms" for t using p(1) that by (simp add: list_all_iff)
  show "length test_keys = 10" by (simp add: test_keys_def dqht_test_terms_def)
  show "\<forall>k \<in> set test_keys. wf_key k" using wf_key_layout [OF w] by (auto simp: test_keys_def)
  have "inj_on (\<lambda>t. key_layout SINGLE_OP (c_string t) None) (set dqht_test_terms)"
    using key_layout_inj [OF w w] p(2) by (auto simp: inj_on_def distinct_map)
  then show "distinct test_keys" using p(2) by (simp add: test_keys_def distinct_map)
qed

text \<open>What the entries at the two ends hold.\<close>

lemma entry_int_at:
  assumes "dq_lnk d xs" and "set xs = dom (dq_store d)" and "pairs (view (dq_store d)) [a] = [(k, i)]" and "a \<in> set xs"
  shows "entry_int d (Some a) = elem dqht_test_values i"
proof -
  obtain e where e: "dq_store d a = Some e" using assms(2,4) by blast
  then have V: "view (dq_store d) a = Some (e_key e, e_ptr e, e_prev e, e_next e)" by (simp add: view_def)
  obtain k' v' where "e_key e = Some k'" "e_ptr e = Some v'" using view_ptr [OF dq_lnkD(1) [OF assms(1)] V] by metis
  then have "e_ptr e = Some i" using V assms(3) by (simp add: pair_of_def)
  then show ?thesis using e by (simp add: entry_int_def load_def)
qed

lemma pairs_single:
  assumes "dq_lnk d xs" and "set xs = dom (dq_store d)" and "a \<in> set xs"
  shows "\<exists>p. pairs (view (dq_store d)) [a] = [p]"
proof -
  obtain e where e: "dq_store d a = Some e" using assms(2,3) by blast
  then have V: "view (dq_store d) a = Some (e_key e, e_ptr e, e_prev e, e_next e)" by (simp add: view_def)
  obtain k' v' where "e_key e = Some k'" "e_ptr e = Some v'" using view_ptr [OF dq_lnkD(1) [OF assms(1)] V] by metis
  then show ?thesis using V by (simp add: pair_of_def)
qed

lemma table_ends:
  assumes wf: "dq_wf d" and e: "dq_entries d = (k, i) # ps" and l: "dq_entries d = qs @ [(k', j)]"
  shows "entry_int d (dq_head d) = elem dqht_test_values i" "entry_int d (dq_tail d) = elem dqht_test_values j" "dq_head d \<noteq> None"
    "ps = [] \<Longrightarrow> \<exists>a e. dq_head d = Some a \<and> dq_tail d = Some a \<and> load (dq_store d) a = Inr e \<and> e_prev e = None \<and> e_next e = None"
proof -
  obtain xs where z: "dq_lnk d xs" "set xs = dom (dq_store d)" "dq_list d = xs" "dq_entries d = pairs (view (dq_store d)) xs"
    using wf by (rule dq_wfD)
  let ?V = "view (dq_store d)"
  have ne: "xs \<noteq> []" using dq_entries_Nil [OF wf] e z(3) by auto
  obtain a ys where a: "xs = a # ys" using ne by (cases xs) auto
  obtain zs b where b: "xs = zs @ [b]" using ne by (cases xs rule: rev_cases) auto
  have "a \<in> set xs" using a by simp
  moreover have "b \<in> set xs" using b by simp
  ultimately have am: "a \<in> set xs" "b \<in> set xs" .
  obtain p where p: "pairs ?V [a] = [p]" using pairs_single [OF z(1,2) am(1)] by blast
  obtain q where q: "pairs ?V [b] = [q]" using pairs_single [OF z(1,2) am(2)] by blast
  have es: "pairs ?V (a # ys) = p # pairs ?V ys" using pairs_append [of ?V "[a]" ys] p by simp
  have pv: "p = (k, i)" "ps = pairs ?V ys" using z(4) e es a by simp_all
  have qv: "q = (k', j)" using z(4) l pairs_append [of ?V zs "[b]"] q b by simp
  have hd: "dq_head d = Some a" using dq_lnkD(3) [OF z(1)] a by simp
  have "dq_tail d = Some b" using dq_lnkD(4) [OF z(1)] b by simp
  note ends = hd this
  show "entry_int d (dq_head d) = elem dqht_test_values i" "entry_int d (dq_tail d) = elem dqht_test_values j" "dq_head d \<noteq> None"
    using entry_int_at [OF z(1,2) _ am(1), of k i] entry_int_at [OF z(1,2) _ am(2), of k' j] p q pv qv ends by simp_all
  show "\<exists>a e. dq_head d = Some a \<and> dq_tail d = Some a \<and> load (dq_store d) a = Inr e \<and> e_prev e = None \<and> e_next e = None" if "ps = []"
  proof -
    have "ys = []"
    proof (cases ys)
      case (Cons y ys')
      then obtain r where "pairs ?V [y] = [r]" using pairs_single [OF z(1,2), of y] a by auto
      then have "pairs ?V ys = r # pairs ?V ys'" using pairs_append [of ?V "[y]" ys'] Cons by simp
      then show ?thesis using that pv(2) by simp
    qed
    then have one: "xs = [a]" using a by simp
    then have "b = a" using b by (auto simp: append_eq_Cons_conv)
    obtain en where en: "dq_store d a = Some en" using am z(2) by blast
    have "chain ?V None [a] None" using dq_lnkD(5) [OF z(1)] one by simp
    then have "e_prev en = None" "e_next en = None" using en by (auto simp: view_def)
    then show ?thesis using ends \<open>b = a\<close> en by (simp add: load_def)
  qed
qed

lemma value_elem: "i < 10 \<Longrightarrow> elem dqht_test_values i = Inr (dqht_test_values ! i)"
  by (simp add: elem_def dqht_test_values_def)

lemma ends_right:
  assumes wf: "dq_wf d" and i: "i < 10" and e: "dq_entries d = (k, i) # ps" and l: "\<exists>qs k'. dq_entries d = qs @ [(k', 0)]"
    and z: "i = 0 \<longleftrightarrow> ps = []"
  shows "ends_wrong i d = Inr False" "\<exists>x. rbind (entry_int d (dq_head d)) (\<lambda>_. entry_int d (dq_tail d)) = Inr x" "dq_head d \<noteq> None"
proof -
  obtain qs k' where q: "dq_entries d = qs @ [(k', 0)]" using l by blast
  note t = table_ends [OF wf e q]
  show "\<exists>x. rbind (entry_int d (dq_head d)) (\<lambda>_. entry_int d (dq_tail d)) = Inr x" "dq_head d \<noteq> None"
    using t(1-3) i value_elem by simp_all
  show "ends_wrong i d = Inr False"
  proof (cases "i = 0")
    case True
    then show ?thesis using t(4) z by (auto simp: ends_wrong_def)
  next
    case False
    then show ?thesis using t(1,2) i value_elem by (simp add: ends_wrong_def)
  qed
qed

lemma dqht_test_push_ok:
  assumes "dq_inv (d, m)" and "\<forall>k \<in> set ks. wf_key k" and "distinct (map fst (dq_entries d) @ ks)" and "i = length (dq_entries d)"
    and "i + length ks \<le> 10" and "dq_entries d = [] \<or> (\<exists>qs k'. dq_entries d = qs @ [(k', 0)])"
  shows "\<exists>d' m'. dqht_test_push i ks d m = Inr (None, d', m') \<and> dq_inv (d', m')
    \<and> dq_entries d' = rev (zip ks [i..<i + length ks]) @ dq_entries d"
  using assms
proof (induction ks arbitrary: i d m)
  case (Cons k ks)
  have k: "wf_key k" "k \<notin> dq_keys d" using Cons.prems(2,3) by simp_all
  obtain d1 m1 where p: "dqht_push_front m d (Some k) (Some i) = Inr (0, d1, m1)" "dq_wf d1" "never_fails m1" "ht_owned m1 (dq_ht d1)"
    "ht_size (dq_ht d1) \<le> max (ht_size (dq_ht d)) (4 * ht_count (dq_ht d) + 2)" "dq_entries d1 = (k, i) # dq_entries d"
    using dqht_push_front_new [OF Cons.prems(1) k, of i] by blast
  have i10: "i < 10" "length (dq_entries d) < 2 ^ 56" using Cons.prems(4,5) by simp_all
  have inv: "dq_inv (d1, m1)" by (rule dq_inv_grow [OF Cons.prems(1) i10(2) p(2-5)])
  have z: "i = 0 \<longleftrightarrow> dq_entries d = []" using Cons.prems(4) by simp
  have last: "\<exists>qs k'. dq_entries d1 = qs @ [(k', 0)]" using Cons.prems(6) z p(6) by (auto intro: exI [of _ "[]"])
  note ends = ends_right [OF p(2) i10(1) p(6) last z]
  obtain x where x: "rbind (entry_int d1 (dq_head d1)) (\<lambda>_. entry_int d1 (dq_tail d1)) = Inr x" using ends(2) by blast
  have dist: "distinct (map fst (dq_entries d1) @ ks)" using Cons.prems(3) p(6) by auto
  have rest: "\<forall>k \<in> set ks. wf_key k" "Suc i = length (dq_entries d1)" "Suc i + length ks \<le> 10" using Cons.prems(2,4,5) p(6) by simp_all
  obtain d' m' where "dqht_test_push (Suc i) ks d1 m1 = Inr (None, d', m')" "dq_inv (d', m')"
    "dq_entries d' = rev (zip ks [Suc i..<Suc i + length ks]) @ dq_entries d1"
    using Cons.IH [OF inv rest(1) dist rest(2,3) disjI2 [OF last]] by blast
  moreover have "zip (k # ks) [i..<i + length (k # ks)] = (k, i) # zip ks [Suc i..<Suc i + length ks]" by (simp add: upt_conv_Cons del: upt_Suc)
  ultimately show ?case using p(1,6) ends(1,3) x by (intro exI [of _ d'] exI [of _ m']) simp
qed simp

lemma dqht_test_get_ok:
  assumes "dq_wf d" and "\<forall>k \<in> set ks. wf_key k" and "\<forall>j < length ks. map_of (dq_entries d) (ks ! j) = Some (i + j)" and "i + length ks \<le> 10"
  shows "dqht_test_get i ks d = Inr None"
  using assms
proof (induction ks arbitrary: i)
  case (Cons k ks)
  have "map_of (dq_entries d) k = Some i" using Cons.prems(3) by (auto dest: spec [of _ 0])
  then have "dqht_get d (Some k) = Inr (Some i)" using dqht_get_ok [OF Cons.prems(1), of k] Cons.prems(2) by simp
  moreover have "\<forall>j < length ks. map_of (dq_entries d) (ks ! j) = Some (Suc i + j)"
  proof (intro allI impI)
    fix j assume "j < length ks"
    then have "Suc j < length (k # ks)" by simp
    then have "map_of (dq_entries d) ((k # ks) ! Suc j) = Some (i + Suc j)" using Cons.prems(3) by blast
    then show "map_of (dq_entries d) (ks ! j) = Some (Suc i + j)" by simp
  qed
  then have "dqht_test_get (Suc i) ks d = Inr None" using Cons by simp
  ultimately show ?case using value_elem [of i] Cons.prems(4) by simp
qed simp

lemma dqht_test_pop_ok:
  assumes "dq_wf d" and "ht_size (dq_ht d) < 2 ^ 64" and "length ks = length (dq_entries d)"
  shows "\<exists>d'. dqht_test_pop ks d = Inr (None, d') \<and> dq_wf d' \<and> dq_entries d' = []"
  using assms
proof (induction ks arbitrary: d)
  case (Cons k ks)
  obtain xs k' v where e: "dq_entries d = xs @ [(k', v)]" using Cons.prems(3) by (cases "dq_entries d" rule: rev_cases) auto
  obtain d1 where p: "dqht_pop_last d = Inr (Some v, d1)" "dq_wf d1" "dq_entries d1 = xs" "ht_size (dq_ht d1) = ht_size (dq_ht d)"
    using dqht_pop_last_snoc [OF Cons.prems(1,2) e] by blast
  then show ?case using Cons.IH [of d1] Cons.prems(2,3) e by simp
qed simp

text \<open>With memory available the test of the dequeue hash table returns 0.\<close>

theorem dqht_test_passes:
  assumes "never_fails m"
  shows "dqht_test_main m = Inr 0"
proof -
  obtain d m1 where c: "dqht_create m 10 None (Some destroy_entry_handler) = Inr (Some d, m1)" "dq_inv (d, m1)" "dq_entries d = []"
    using dqht_create_ok [OF assms, of 10 None "Some destroy_entry_handler"] by auto
  have nf: "never_fails m1" using c(2) by (simp add: dq_inv_def)
  let ?m2 = "m1\<lparr>allocs := allocs m1 + length dqht_test_terms\<rparr>"
  have keys: "dqht_test_keys dqht_test_terms m1 = Inr (test_keys, ?m2)" using dqht_test_keys_ok [OF nf] by (simp add: test_keys_def)
  have inv: "dq_inv (d, ?m2)" by (rule dq_inv_allocs [OF c(2)]) simp
  note k = test_keys_ok
  obtain d1 m3 where p: "dqht_test_push 0 test_keys d ?m2 = Inr (None, d1, m3)" "dq_inv (d1, m3)" "dq_entries d1 = rev (zip test_keys [0..<10])"
    using dqht_test_push_ok [OF inv k(3), of 0] c(3) k(1,2) by auto
  have wf1: "dq_wf d1" and sz: "ht_size (dq_ht d1) < 2 ^ 64" using p(2) by (simp_all add: dq_inv_def)
  have n: "ht_count (dq_ht d1) = 10" using dq_entries_length [OF wf1] p(3) k(1) by simp
  have look: "map_of (dq_entries d1) (test_keys ! j) = Some (0 + j)" if "j < length test_keys" for j
  proof -
    have "(test_keys ! j, j) \<in> set (dq_entries d1)" using that k(1) unfolding p(3) by (auto simp: set_zip intro!: exI [of _ j])
    then show ?thesis using dq_entries_distinct [OF wf1] by simp
  qed
  have g: "dqht_test_get 0 test_keys d1 = Inr None" using look k by (intro dqht_test_get_ok [OF wf1]) simp_all
  obtain d2 where q: "dqht_test_pop test_keys d1 = Inr (None, d2)" "dq_wf d2" "dq_entries d2 = []"
    using dqht_test_pop_ok [OF wf1 sz, of test_keys] p(3) k(1) by auto
  have n2: "ht_count (dq_ht d2) = 0" using dq_entries_length [OF q(2)] q(3) by simp
  have "dq_head d2 = None" using q(2,3) dq_entries_Nil [OF q(2)] by (auto elim!: dq_wfD dest: dq_lnkD(3))
  moreover have "ht_destroy (dq_ht d2) = Inr Map.empty"
    using q(2) by (auto elim!: dq_wfD dest: dq_lnkD(1) intro: ht_destroy_frees_all)
  ultimately have "dqht_destroy m3 d2 = Inr (Map.empty, m3)" by (simp add: dqht_destroy_def dqht_destroy_handled_def)
  then show ?thesis
    using c(1) keys p(1) n dq_wf_print [OF wf1] g q(1) n2 dq_wf_print [OF q(2)] by (simp add: dqht_test_main_def)
qed

theorem random_test_passes:
  assumes "never_fails m"
  shows "random_test_main m = Inr 0"
proof -
  have "ht_destroy_loop st (replicate n None) = Inr st" for st :: "addr store" and n by (induction n) simp_all
  then show ?thesis
    using assms by (auto simp: random_test_main_def rc_create_def ht_create_def am_malloc_def am_calloc_def never_fails_def rc_destroy_def ht_destroy_def)
qed

end
