(* ===== verification/Spec2Isabelle.thy ===== *)
theory Spec2Isabelle
  imports Driver_Runs HTFH_Properties Glibc_Properties Heap_Entry Error_Report Test_Programs
begin

text \<open>
  Verification of the HTFH real-time search cache: C code under \<open>src/src\<close> that caches the
  results of searches.

  \<^bold>\<open>The program.\<close>  A key (\<open>cache/cache_key.h\<close>) is one buffer that holds an operator and one or
  two terms.  An open-addressing hash table (\<open>cache/hashtable\<close>) maps keys, hashed by \<open>hashing.h\<close>,
  to entries, which a dequeue hash table (\<open>cache/dequeue_hashtable\<close>) also links into a list.  On
  top of it are three caches: LRU (\<open>cache/lru\<close>), random replacement (\<open>cache/simple\<close>, on the plain
  hash table) and DLIRS (\<open>cache/dlirs\<close>, on three dequeue tables that share reference-counted
  entries).  \<open>cache/cache.c\<close> puts one of them behind a read-write lock.  The values are search
  results (\<open>result.c\<close>).  Memory comes from the C library, or from one of two allocators behind a
  recursive mutex: HTFH (\<open>allocator/htfh\<close>), a two-level segregated fit heap, and a first fit heap in
  the manner of glibc (\<open>allocator/glibc\<close>).  The driver \<open>main.c\<close> queries a cache from several threads.

  \<^bold>\<open>Theories and sources.\<close>
  \<^item> \<open>Prelude\<close>: results with faults (\<open>'a res\<close>, a fault on the left), the heap of entries with an
    oracle for failing allocations, the arithmetic of \<open>size_t\<close>, and shared lemmas.
  \<^item> \<open>Cache_Key\<close>, \<open>Hashing\<close>: keys as byte lists with checked reads; FNV-1a and Meiyan on 64-bit words.
  \<^item> \<open>Table_Interface\<close>: the locales for what the dequeue table relies on in the hash table.
  \<^item> \<open>Cache_Hashtable\<close>: \<open>cache_hashtable.c\<close> and \<open>dq_ht_entry.c\<close>; the table owns a store of entries.
  \<^item> \<open>DQ_Hashtable\<close>: \<open>dq_hashtable.c\<close>, with the traversal for printing that does not end on a circle.
  \<^item> \<open>Result\<close>, \<open>LRU\<close>, \<open>Random_Cache\<close>: \<open>result.c\<close>, \<open>lru.c\<close>, \<open>random.c\<close>.
  \<^item> \<open>Float_Model\<close>, \<open>DLIRS_Entry\<close>, \<open>DLIRS\<close>, \<open>DLIRS_Phases\<close>: single precision arithmetic of the
    limits, \<open>dlirs_entry.c\<close>, \<open>dlirs.c\<close>, and the lemmas about its phases.
  \<^item> \<open>Locks\<close>, \<open>Cache_Front\<close>: \<open>allocator/error\<close>, \<open>thread/lock.h\<close>, \<open>cache.c\<close> and \<open>cache_backing.h\<close>, and a
    step relation for the interleavings of threads.
    \<open>Error_Report\<close>: the thread-local error state and what \<open>alloc_perror\<close> prints of it.
  \<^item> \<open>Heap_Entry\<close>: \<open>heap_entry.c\<close> and \<open>atomic_utils.h\<close>, all that is left of \<open>cache/heap_hashtable\<close>.
  \<^item> \<open>Driver\<close>: \<open>main.c\<close>: the comparison for partial matches, the test data, the queries of a thread.
    \<open>Driver_Runs\<close>: these queries on the LRU cache.  \<open>Test_Programs\<close>: \<open>dqht_test.c\<close> and \<open>random_test.c\<close>.
  \<^item> \<open>Heap_Memory\<close>, \<open>Heap_Chain\<close>, \<open>Heap_Interface\<close>: what the two allocators share: a heap of bytes with
    checked 8-byte accesses and its mutex, chains of adjacent blocks, and, as a locale, what a
    client relies on.
  \<^item> \<open>HTFH_Memory\<close>, \<open>HTFH_Utils\<close>, \<open>HTFH_Block\<close>, \<open>HTFH_Controller\<close>, \<open>HTFH\<close>: the allocator, function by
    function, over a heap of bytes: \<open>constants.h\<close>, \<open>htfh_utils.c\<close>, \<open>block.c\<close>, \<open>controller.c\<close>, \<open>htfh.c\<close>.
    Addresses and \<open>size_t\<close> are natural numbers with the wrap-around written out, bitmaps 32-bit
    words, indices integers.
  \<^item> \<open>HTFH_Heap\<close>, \<open>HTFH_Chain\<close>, \<open>HTFH_Safety\<close>: the invariant of that heap (free lists, bitmaps, the
    chain of blocks) and its preservation by every operation that \<open>htfh_create\<close>, \<open>htfh_malloc\<close> and
    \<open>htfh_free\<close> are made of.
  \<^item> \<open>HTFH_Realloc\<close>: what a client holds is tracked through \<open>htfh_malloc\<close>, \<open>htfh_free\<close> and the ways of
    \<open>htfh_realloc\<close>.  \<open>HTFH_Memalign\<close>: the same for \<open>htfh_memalign\<close>.  \<open>HTFH_Runs\<close>, \<open>HTFH_Properties\<close>: the reachable states, which interpret the locale;
    the properties.
  \<^item> \<open>Glibc_Allocator\<close>: \<open>glibc.c\<close>, function by function, over the same heap of bytes; the break is part
    of the state.  \<open>Glibc_Heap\<close>, \<open>Glibc_Safety\<close>, \<open>Glibc_Realloc\<close>: its invariant (headers that agree
    with their neighbours, no two free neighbours, the free list) and its preservation by every
    operation.  \<open>Glibc_Runs\<close>, \<open>Glibc_Properties\<close>: the reachable states, which interpret the locale as
    well, and the properties.

  \<^bold>\<open>What is shown.\<close>  Keys and hashes: round trips, bounds, and where long keys leave their buffers.
  Tables: from creation on they refine a finite map and a list deque, with the invariant kept
  through resizing; when this ends (re-insertion of a present key, insertion after a deletion
  on the probe path).  The test program of the dequeue table passes.  Caches: the LRU cache refines a recency list of bounded length; a fresh
  DLIRS cache does so while it fills, its limits stay whole and balanced, and with size 1 it
  hangs; the random cache never evicts.  Front end: the interleavings the lock admits are
  serialisable.  Driver: the comparison decides when a cached result answers a search; on the LRU cache a
  thread's queries end with the most recent keys cached and no result leaked or released twice,
  but two threads that miss the same key can lock out each other for ever.  HTFH: the size classes are a good fit; every client runs without a fault,
  gets disjoint aligned blocks whose contents are kept, and finds the whole pool again when
  everything is released; \<open>htfh_realloc\<close> succeeds by moving only, and corrupts the heap when it tries
  to grow in place; \<open>htfh_memalign\<close> aligns except for the smallest requests at multiples of 8, and
  keeps the mutex when it fails; requests near \<open>2 ^ 64\<close> and products that overflow wrap around.  The glibc allocator: the same for clients that also clear, resize and write their
  blocks, where it is first fit and \<open>gca_realloc\<close> keeps contents; and its defects for releases
  that are repeated and sizes near \<open>2 ^ 64\<close>.

  \<^bold>\<open>Bounds and fuel.\<close>  Loops that the code bounds by a count are recursive on it.  The probe of
  \<open>ht_resize_insert\<close>, the traversals of the linked list and the loops of DLIRS may run forever.
  They have fuel of at least the number of slots or entries: a loop that is still running then
  has come back to a state it was in, or does nothing in a round, and so never leaves, which is the
  fault \<open>Hang\<close>.  The search of the random cache for a slot and the walk along the free list of the
  glibc allocator are partial functions.  The results about the allocators hold for regions
  that do not touch the end of the address space; for HTFH with pools below \<open>2 ^ 30\<close> bytes, the
  largest the control arrays can describe, for the other with heaps below \<open>2 ^ 63\<close> bytes, the
  largest increment of the break, at a multiple of 16, and requests of at most \<open>2 ^ 64 - 8208\<close>
  bytes, beyond which the sizes of pages wrap around.

  \<^bold>\<open>Parameters.\<close>  \<open>malloc\<close> of the C library may fail at any call; the return codes of the
  \<open>pthread\<close> calls, \<open>rand\<close>, \<open>mmap\<close> and \<open>munmap\<close> are arguments.  Handles are records, so tests of a
  handle against \<open>NULL\<close> have no counterpart; keys and values may be \<open>NULL\<close>.

  \<^bold>\<open>Not modelled.\<close>  The heap hash table (\<open>heaptable.c\<close>), whose source is commented out as a whole; logging, apart from the exit behind \<open>FATAL\<close>; the creation of the threads in \<open>main\<close>, whose
  interleavings \<open>Cache_Front\<close> has instead; the printing of the plain hash table.
\<close>

end
